(* ===== verification/Kernel_Prelude.thy ===== *)
theory Kernel_Prelude
  imports Main "HOL-Library.Word" "HOL-Library.Monad_Syntax" "HOL-Library.Multiset"
begin

text \<open>
  Shared vocabulary of the OS/161 development.

  \<^item> Machine integers: \<open>u8\<close>, \<open>u16\<close>, \<open>u32\<close>, \<open>u64\<close> are words of that width. Where a
    source quantity is only an array index or a count, it is a \<open>nat\<close> and every operation that
    can wrap writes \<open>mod 2 ^ 32\<close> out.
  \<^item> Panic: a kernel operation that can fail a \<open>KASSERT\<close> or call \<open>panic()\<close> returns an
    \<open>option\<close>; \<open>None\<close> is "the kernel stops here". \<open>DEBUGASSERT\<close> is compiled out in
    \<open>kern/include/lib.h\<close> (line 69), so it never appears in the model.
  \<^item> Error numbers: the constants of \<open>kern/include/kern/errno.h\<close>, as integers, because the
    system calls return them negated.
\<close>

unbundle bit_operations_syntax

type_synonym u8 = "8 word"
type_synonym u16 = "16 word"
type_synonym u32 = "32 word"
type_synonym u64 = "64 word"
type_synonym errno = int

text \<open>Error numbers of \<open>kern/include/kern/errno.h\<close>.\<close>

abbreviation ENOSYS :: errno where "ENOSYS \<equiv> 1"
abbreviation ENOMEM :: errno where "ENOMEM \<equiv> 3"
abbreviation EFAULT :: errno where "EFAULT \<equiv> 6"
abbreviation ENAMETOOLONG :: errno where "ENAMETOOLONG \<equiv> 7"
abbreviation EINVAL :: errno where "EINVAL \<equiv> 8"
abbreviation E2BIG :: errno where "E2BIG \<equiv> 14"
abbreviation ESRCH :: errno where "ESRCH \<equiv> 15"
abbreviation ECHILD :: errno where "ECHILD \<equiv> 16"
abbreviation ENOTDIR :: errno where "ENOTDIR \<equiv> 17"
abbreviation ENOENT :: errno where "ENOENT \<equiv> 19"
abbreviation EISDIR :: errno where "EISDIR \<equiv> 18"
abbreviation EEXIST :: errno where "EEXIST \<equiv> 22"
abbreviation EXDEV :: errno where "EXDEV \<equiv> 24"
abbreviation ENODEV :: errno where "ENODEV \<equiv> 25"
abbreviation ENXIO :: errno where "ENXIO \<equiv> 26"
abbreviation ENFILE :: errno where "ENFILE \<equiv> 29"
abbreviation EBADF :: errno where "EBADF \<equiv> 30"
abbreviation EIO :: errno where "EIO \<equiv> 32"
abbreviation ESPIPE :: errno where "ESPIPE \<equiv> 33"
abbreviation ENOSPC :: errno where "ENOSPC \<equiv> 36"
abbreviation EFBIG :: errno where "EFBIG \<equiv> 38"

text \<open>Limits of \<open>kern/include/kern/limits.h\<close>.\<close>

abbreviation PID_MAX :: nat where "PID_MAX \<equiv> 32767"
abbreviation OPEN_MAX :: nat where "OPEN_MAX \<equiv> 128"

text \<open>\<open>KASSERT(expr)\<close> of \<open>kern/include/lib.h\<close>: continue or panic.\<close>

definition kassert :: "bool \<Rightarrow> unit option" where
  "kassert b = (if b then Some () else None)"

lemma kassert_simps [simp]: "kassert True = Some ()" "kassert False = None"
  by (simp_all add: kassert_def)

lemma kassert_bind_Some [simp]:
  "(kassert b \<bind> f = Some r) \<longleftrightarrow> b \<and> f () = Some r"
  by (cases b) simp_all

lemma kassert_bind_None [simp]:
  "(kassert b \<bind> f = None) \<longleftrightarrow> (b \<longrightarrow> f () = None)"
  by (cases b) simp_all

text \<open>\<open>DIVROUNDUP\<close> of \<open>kern/include/lib.h\<close> on 32-bit unsigned operands.\<close>

definition DIVROUNDUP :: "nat \<Rightarrow> nat \<Rightarrow> nat" where
  "DIVROUNDUP a b = ((a + b - 1) mod 2 ^ 32) div b"

lemma DIVROUNDUP_exact: "a + b < 2 ^ 32 \<Longrightarrow> DIVROUNDUP a b = (a + b - 1) div b"
  by (simp add: DIVROUNDUP_def)

text \<open>Bounded quantifiers over small ranges, for bit-by-bit arguments.\<close>

lemma all_less_iff_upt: "(\<forall>n<k. P n) \<longleftrightarrow> (\<forall>n\<in>set [0..<k]. P (n::nat))"
  by auto

lemma nat_div_mod_eqI: "(m::nat) div k = n div k \<Longrightarrow> m mod k = n mod k \<Longrightarrow> m = n"
  by (metis div_mult_mod_eq)

text \<open>Facts on list update used by every array model.\<close>

lemma set_list_update_same: "i < length xs \<Longrightarrow> xs[i := x] ! i = x"
  by simp

lemma list_update_other: "i \<noteq> j \<Longrightarrow> xs[i := x] ! j = xs ! j"
  by simp

text \<open>Subtracting part of an unsigned quantity makes it smaller: the measure of every copying loop.\<close>

lemma unat_sub_less: "k \<le> n \<Longrightarrow> k \<noteq> 0 \<Longrightarrow> unat (n - k) < unat (n :: 'a::len word)"
  by (metis diff_less order_less_le_trans unat_gt_0 unat_sub word_le_nat_alt)

section \<open>Invariants of step relations\<close>

text \<open>
  The concurrent parts of the kernel are step relations. What they share is this interface: a
  start predicate, a step relation and an invariant that holds at the start and is kept by every
  step.
\<close>

lemmas steps_Cons = converse_rtranclp_into_rtranclp

locale step_system =
  fixes start :: "'s \<Rightarrow> bool" and step :: "'s \<Rightarrow> 's \<Rightarrow> bool" and inv :: "'s \<Rightarrow> bool"
  assumes start_inv: "start s \<Longrightarrow> inv s"
    and step_inv: "step s s' \<Longrightarrow> inv s \<Longrightarrow> inv s'"
begin

lemma reach_inv:
  assumes "step\<^sup>*\<^sup>* s s'" "start s"
  shows "inv s'"
  using assms(1)
proof (induction rule: rtranclp_induct)
  case base
  show ?case by (rule start_inv [OF assms(2)])
next
  case (step y z)
  then show ?case by (blast intro: step_inv)
qed

end

end
