(* ===== verification/Endian.thy ===== *)
theory Endian
  imports Kernel_Prelude
begin

text \<open>
  \<open>kern/lib/bswap.c\<close>: the unconditional byte swaps, the network byte order functions and the
  64-bit split and join. OS/161 runs on big-endian MIPS only, so the \<open>_BIG_ENDIAN\<close> branches
  are the ones modelled. The byte-level specification of a swap is "bit \<open>n\<close> of the result is
  the bit of the argument with the same position inside the mirrored byte".
\<close>

definition bswap16 :: "u16 \<Rightarrow> u16" where
  "bswap16 val = push_bit 8 (val AND 0x00ff) OR drop_bit 8 (val AND 0xff00)"

definition bswap32 :: "u32 \<Rightarrow> u32" where
  "bswap32 val =
     push_bit 24 (val AND 0x000000ff) OR
     push_bit 8 (val AND 0x0000ff00) OR
     drop_bit 8 (val AND 0x00ff0000) OR
     drop_bit 24 (val AND 0xff000000)"

definition bswap64 :: "u64 \<Rightarrow> u64" where
  "bswap64 val =
     push_bit 56 (val AND 0x00000000000000ff) OR
     push_bit 40 (val AND 0x000000000000ff00) OR
     push_bit 24 (val AND 0x0000000000ff0000) OR
     push_bit 8 (val AND 0x00000000ff000000) OR
     push_bit 8 (val AND 0x000000ff00000000) OR
     push_bit 24 (val AND 0x0000ff0000000000) OR
     drop_bit 40 (val AND 0x00ff000000000000) OR
     drop_bit 56 (val AND 0xff00000000000000)"

text \<open>The \<open>TO\<close> macro's big-endian expansions, at widths 16, 32 and 64.\<close>

definition ntohs :: "u16 \<Rightarrow> u16" where "ntohs val = val"
definition htons :: "u16 \<Rightarrow> u16" where "htons val = val"
definition ntohl :: "u32 \<Rightarrow> u32" where "ntohl val = val"
definition htonl :: "u32 \<Rightarrow> u32" where "htonl val = val"
definition ntohll :: "u64 \<Rightarrow> u64" where "ntohll val = val"
definition htonll :: "u64 \<Rightarrow> u64" where "htonll val = val"

definition join32to64 :: "u32 \<Rightarrow> u32 \<Rightarrow> u64" where
  "join32to64 x1 x2 = push_bit 32 (ucast x1) OR ucast x2"

definition split64to32 :: "u64 \<Rightarrow> u32 \<times> u32" where
  "split64to32 x = (ucast (drop_bit 32 x), ucast (x AND 0xffffffff))"

text \<open>The byte-mirroring position map on \<open>k\<close>-byte words.\<close>

definition mirror_bit :: "nat \<Rightarrow> nat \<Rightarrow> nat" where
  "mirror_bit k n = 8 * (k - 1 - n div 8) + n mod 8"

lemma mirror_bit_split: "q < k \<Longrightarrow> r < 8 \<Longrightarrow> mirror_bit k (8 * q + r) = 8 * (k - 1 - q) + r"
  by (simp add: mirror_bit_def)

lemma mirror_bit_less: "n < 8 * k \<Longrightarrow> mirror_bit k n < 8 * k"
proof -
  assume "n < 8 * k"
  then have "n div 8 < k" by (simp add: div_less_iff_less_mult mult.commute)
  then have "8 * (k - 1 - n div 8) + 8 \<le> 8 * k" by simp
  then show ?thesis unfolding mirror_bit_def using mod_less_divisor [of 8 n] by linarith
qed

lemma mirror_bit_invol: "n < 8 * k \<Longrightarrow> mirror_bit k (mirror_bit k n) = n"
proof -
  assume "n < 8 * k"
  then have q: "n div 8 < k" by (simp add: div_less_iff_less_mult mult.commute)
  then have "mirror_bit k (8 * (k - 1 - n div 8) + n mod 8) = 8 * (k - 1 - (k - 1 - n div 8)) + n mod 8"
    by (intro mirror_bit_split) auto
  with q show ?thesis by (simp add: mirror_bit_def)
qed

lemma bit_bswap16: "n < 16 \<Longrightarrow> bit (bswap16 x) n = bit x (mirror_bit 2 n)"
proof -
  have "\<forall>n<16. bit (bswap16 x) n = bit x (mirror_bit 2 n)"
    unfolding all_less_iff_upt bswap16_def mirror_bit_def
    by (simp add: upt_rec bit_simps) (simp add: eval_nat_numeral)
  then show "n < 16 \<Longrightarrow> ?thesis" by blast
qed

lemma bit_bswap32: "n < 32 \<Longrightarrow> bit (bswap32 x) n = bit x (mirror_bit 4 n)"
proof -
  have "\<forall>n<32. bit (bswap32 x) n = bit x (mirror_bit 4 n)"
    unfolding all_less_iff_upt bswap32_def mirror_bit_def
    by (simp add: upt_rec bit_simps) (simp add: eval_nat_numeral)
  then show "n < 32 \<Longrightarrow> ?thesis" by blast
qed

lemma bswap16_invol: "bswap16 (bswap16 x) = x"
  using mirror_bit_less [of _ 2] mirror_bit_invol [of _ 2]
  by (intro bit_word_eqI) (simp add: bit_bswap16)

lemma bswap32_invol: "bswap32 (bswap32 x) = x"
  using mirror_bit_less [of _ 4] mirror_bit_invol [of _ 4]
  by (intro bit_word_eqI) (simp add: bit_bswap32)

lemma bit_join32to64:
  "bit (join32to64 x1 x2) n \<longleftrightarrow> (if n < 32 then bit x2 n else n < 64 \<and> bit x1 (n - 32))"
  by (auto simp: join32to64_def bit_simps dest: bit_imp_le_length)

lemma split_join_roundtrip: "split64to32 (join32to64 x1 x2) = (x1, x2)"
proof -
  have "ucast (drop_bit 32 (join32to64 x1 x2)) = x1"
    by (rule bit_word_eqI) (auto simp: bit_simps bit_join32to64)
  moreover have "ucast (join32to64 x1 x2 AND mask 32) = x2"
    by (rule bit_word_eqI) (auto simp: bit_simps bit_join32to64)
  ultimately show ?thesis
    by (simp add: split64to32_def mask_eq_exp_minus_1)
qed

lemma join_split_roundtrip: "(case split64to32 x of (y1, y2) \<Rightarrow> join32to64 y1 y2) = x"
proof -
  have "join32to64 (ucast (drop_bit 32 x)) (ucast (x AND mask 32)) = x"
    by (rule bit_word_eqI) (auto simp: bit_simps bit_join32to64)
  then show ?thesis
    by (simp add: split64to32_def mask_eq_exp_minus_1)
qed

text \<open>
  \<open>bswap64\<close> mirrors six of the eight bytes only: the masks of bytes 4 and 5 are shifted left
  (lines 69 and 70) where the mirror image needs a right shift.
\<close>

lemma bswap64_value: "bswap64 0x0102030405060708 = 0x807060500000201"
  by (simp add: bswap64_def)

section \<open>Properties\<close>

text \<open>
  The 32-bit byte swap puts every bit at the same place of the mirrored byte, so it is its own
  inverse; the same holds at 16 bits.
\<close>

theorem bswap_mirrors:
  "(bit (bswap32 x) n \<longleftrightarrow> n < 32 \<and> bit x (mirror_bit 4 n)) \<and> bswap32 (bswap32 x) = x \<and>
   (bit (bswap16 y) m \<longleftrightarrow> m < 16 \<and> bit y (mirror_bit 2 m)) \<and> bswap16 (bswap16 y) = y"
  using bit_bswap32 [of n x] bit_bswap16 [of m y] bit_imp_le_length [of "bswap32 x" n] bit_imp_le_length [of "bswap16 y" m]
  by (auto simp: bswap32_invol bswap16_invol)

text \<open>
  Splitting a 64-bit value into the two registers of a system call argument and joining them
  again loses nothing, in either direction.
\<close>

theorem join_split_inverse:
  "split64to32 (join32to64 x1 x2) = (x1, x2) \<and> join32to64 (fst (split64to32 x)) (snd (split64to32 x)) = x"
  using join_split_roundtrip [of x] by (simp only: split_join_roundtrip case_prod_unfold simp_thms)

text \<open>
  \<open>bswap64\<close> is not the byte swap it is meant to be: bytes 4 and 5 of the argument are lost and
  swapping twice does not give the argument back.
\<close>

theorem bswap64_loses_bytes:
  "bswap64 0x0102030405060708 = 0x807060500000201 \<and> bswap64 (bswap64 0x0102030405060708) \<noteq> 0x0102030405060708"
  by (simp add: bswap64_def)

end
