(* ===== verification/Bitmap.thy ===== *)
theory Bitmap
  imports Kernel_Prelude
begin

text \<open>
  \<open>kern/lib/bitmap.c\<close>: the fixed-size array of bits used for storage management. The state is
  the \<open>struct bitmap\<close> itself, with the byte array \<open>v\<close> as a list of 8-bit words. The two
  \<open>kmalloc\<close> answers of \<open>bitmap_create\<close> are arguments. The abstract view of a bitmap is the
  set of marked indices below \<open>nbits\<close>; the representation invariant says how long \<open>v\<close> is and
  that the leftover bits of the last byte are marked, which is what keeps \<open>bitmap_alloc\<close> inside
  its bound. The interface that block allocation relies on is the locale \<open>slot_allocator\<close>.
\<close>

record bitmap =
  nbits :: nat
  bm_v :: "u8 list"

text \<open>The loop that marks bits \<open>j .. 7\<close> of the last byte.\<close>

function mark_leftover :: "nat \<Rightarrow> u8 \<Rightarrow> u8" where
  "mark_leftover j w = (if j < 8 then mark_leftover (j + 1) (w OR push_bit j 1) else w)"
  by pat_completeness auto
termination by (relation "measure (\<lambda>(j, w). 8 - j)") auto

declare mark_leftover.simps [simp del]

definition bitmap_create :: "nat \<Rightarrow> bool \<Rightarrow> bool \<Rightarrow> bitmap option option" where
  "bitmap_create nb ok_b ok_v =
     (let words = DIVROUNDUP nb 8 in
      if \<not> ok_b then Some None
      else if \<not> ok_v then Some None
      else
        let v = replicate words 0 in
        if words > nb div 8 then
          (let ix = words - 1; overbits = nb - ix * 8 in
           do {
             kassert (nb div 8 = words - 1);
             kassert (overbits > 0 \<and> overbits < 8);
             Some (Some \<lparr>nbits = nb, bm_v = v[ix := mark_leftover overbits (v ! ix)]\<rparr>)
           })
        else Some (Some \<lparr>nbits = nb, bm_v = v\<rparr>))"

definition bitmap_getdata :: "bitmap \<Rightarrow> u8 list" where
  "bitmap_getdata b = bm_v b"

text \<open>
  \<open>bitmap_alloc\<close>: the inner loop looks for a clear bit of one byte, the outer loop walks the
  bytes. Falling out of the inner loop is the \<open>KASSERT(0)\<close>.
\<close>

function alloc_offset :: "u8 \<Rightarrow> nat \<Rightarrow> nat option" where
  "alloc_offset w offset =
     (if offset < 8 then
        (if w AND push_bit offset 1 = 0 then Some offset else alloc_offset w (offset + 1))
      else None)"
  by pat_completeness auto
termination by (relation "measure (\<lambda>(w, offset). 8 - offset)") auto

declare alloc_offset.simps [simp del]

function alloc_scan :: "bitmap \<Rightarrow> nat \<Rightarrow> nat \<Rightarrow> (errno + nat \<times> bitmap) option" where
  "alloc_scan b ix maxix =
     (if ix < maxix then
        (if bm_v b ! ix \<noteq> 0xff then
           (do {
              offset \<leftarrow> alloc_offset (bm_v b ! ix) 0;
              let index = ix * 8 + offset;
              kassert (index < nbits b);
              Some (Inr (index, b\<lparr>bm_v := (bm_v b)[ix := bm_v b ! ix OR push_bit offset 1]\<rparr>))
            })
         else alloc_scan b (ix + 1) maxix)
      else Some (Inl ENOSPC))"
  by pat_completeness auto
termination by (relation "measure (\<lambda>(b, ix, maxix). maxix - ix)") auto

declare alloc_scan.simps [simp del]

definition bitmap_alloc :: "bitmap \<Rightarrow> (errno + nat \<times> bitmap) option" where
  "bitmap_alloc b = alloc_scan b 0 (DIVROUNDUP (nbits b) 8)"

definition bitmap_translate :: "nat \<Rightarrow> nat \<times> u8" where
  "bitmap_translate bitno = (bitno div 8, push_bit (bitno mod 8) 1)"

definition bitmap_mark :: "bitmap \<Rightarrow> nat \<Rightarrow> bitmap option" where
  "bitmap_mark b index =
     do {
       kassert (index < nbits b);
       let (ix, msk) = bitmap_translate index;
       kassert (bm_v b ! ix AND msk = 0);
       Some (b\<lparr>bm_v := (bm_v b)[ix := bm_v b ! ix OR msk]\<rparr>)
     }"

definition bitmap_unmark :: "bitmap \<Rightarrow> nat \<Rightarrow> bitmap option" where
  "bitmap_unmark b index =
     do {
       kassert (index < nbits b);
       let (ix, msk) = bitmap_translate index;
       kassert (bm_v b ! ix AND msk \<noteq> 0);
       Some (b\<lparr>bm_v := (bm_v b)[ix := bm_v b ! ix AND NOT msk]\<rparr>)
     }"

text \<open>The result is used as a truth value: nonzero means set.\<close>

definition bitmap_isset :: "bitmap \<Rightarrow> nat \<Rightarrow> u8" where
  "bitmap_isset b index =
     (case bitmap_translate index of (ix, msk) \<Rightarrow> bm_v b ! ix AND msk)"

section \<open>Invariant and abstraction\<close>

definition bm_bit :: "bitmap \<Rightarrow> nat \<Rightarrow> bool" where
  "bm_bit b i = bit (bm_v b ! (i div 8)) (i mod 8)"

definition bitmap_inv :: "bitmap \<Rightarrow> bool" where
  "bitmap_inv b \<longleftrightarrow>
     nbits b + 8 < 2 ^ 32 \<and>
     length (bm_v b) = DIVROUNDUP (nbits b) 8 \<and>
     (\<forall>i. nbits b \<le> i \<longrightarrow> i < 8 * length (bm_v b) \<longrightarrow> bm_bit b i)"

definition bitmap_used :: "bitmap \<Rightarrow> nat set" where
  "bitmap_used b = {i. i < nbits b \<and> bm_bit b i}"

text \<open>The simplifier's normal form of the mask \<open>1 << j\<close> is \<open>2 ^ j\<close>.\<close>

lemma byte_and_bit [simp]: "((w::u8) AND 2 ^ j = 0) \<longleftrightarrow> \<not> (j < 8 \<and> bit w j)"
proof
  assume eq: "w AND 2 ^ j = 0"
  show "\<not> (j < 8 \<and> bit w j)"
  proof
    assume "j < 8 \<and> bit w j"
    then have "bit (w AND 2 ^ j) j" by (simp add: bit_simps)
    with eq show False by simp
  qed
next
  assume "\<not> (j < 8 \<and> bit w j)"
  then show "w AND 2 ^ j = 0" by (intro bit_word_eqI) (auto simp: bit_simps)
qed

lemma bit_or_push [simp]: "j < 8 \<Longrightarrow> bit ((w::u8) OR 2 ^ j) n \<longleftrightarrow> bit w n \<or> n = j"
  by (auto simp: bit_simps)

lemma bit_and_not_push [simp]: "j < 8 \<Longrightarrow> bit ((w::u8) AND NOT (2 ^ j)) n \<longleftrightarrow> bit w n \<and> n \<noteq> j"
  by (auto simp: bit_simps dest: bit_imp_le_length)

lemma byte_full_iff: "(w::u8) = 0xff \<longleftrightarrow> (\<forall>j<8. bit w j)"
proof -
  have "w = mask 8 \<longleftrightarrow> (\<forall>j<8. bit w j)"
    by (auto simp: bit_eq_iff bit_simps dest: bit_imp_le_length)
  then show ?thesis by (simp add: mask_eq_exp_minus_1)
qed

lemma bm_bit_or:
  assumes "ix < length (bm_v b)" "j < 8"
  shows "bm_bit (b\<lparr>bm_v := (bm_v b)[ix := bm_v b ! ix OR 2 ^ j]\<rparr>) i
           \<longleftrightarrow> bm_bit b i \<or> i = ix * 8 + j"
proof (cases "i div 8 = ix")
  case True
  then have "i = ix * 8 + j \<longleftrightarrow> i mod 8 = j" using assms(2) by presburger
  with True assms show ?thesis by (simp add: bm_bit_def )
next
  case False
  then have "i \<noteq> ix * 8 + j" using assms(2) by auto
  with False show ?thesis by (simp add: bm_bit_def)
qed

lemma bm_bit_and_not:
  assumes "ix < length (bm_v b)" "j < 8"
  shows "bm_bit (b\<lparr>bm_v := (bm_v b)[ix := bm_v b ! ix AND NOT (2 ^ j)]\<rparr>) i
           \<longleftrightarrow> bm_bit b i \<and> i \<noteq> ix * 8 + j"
proof (cases "i div 8 = ix")
  case True
  then have "i = ix * 8 + j \<longleftrightarrow> i mod 8 = j" using assms(2) by presburger
  with True assms show ?thesis by (simp add: bm_bit_def )
next
  case False
  then have "i \<noteq> ix * 8 + j" using assms(2) by auto
  with False show ?thesis by (simp add: bm_bit_def)
qed

lemma bitmap_inv_len:
  assumes "bitmap_inv b"
  shows "nbits b \<le> 8 * length (bm_v b)" "8 * length (bm_v b) < nbits b + 8"
proof -
  from assms have "length (bm_v b) = (nbits b + 8 - 1) div 8"
    by (simp add: bitmap_inv_def DIVROUNDUP_def)
  then show "nbits b \<le> 8 * length (bm_v b)" "8 * length (bm_v b) < nbits b + 8"
    by presburger+
qed

lemma bitmap_inv_index: "bitmap_inv b \<Longrightarrow> i < nbits b \<Longrightarrow> i div 8 < length (bm_v b)"
  using bitmap_inv_len(1) [of b] by linarith

lemma alloc_offset_spec:
  "alloc_offset w k =
     (if \<exists>j. k \<le> j \<and> j < 8 \<and> \<not> bit w j then Some (LEAST j. k \<le> j \<and> j < 8 \<and> \<not> bit w j) else None)"
proof (induction w k rule: alloc_offset.induct)
  case (1 w k)
  show ?case
  proof (cases "k < 8 \<and> \<not> bit w k")
    case True
    then have "(LEAST j. k \<le> j \<and> j < 8 \<and> \<not> bit w j) = k"
      by (intro Least_equality) auto
    with True show ?thesis
      by (subst alloc_offset.simps) auto
  next
    case False
    then have eq: "k \<le> j \<and> j < 8 \<and> \<not> bit w j \<longleftrightarrow> k + 1 \<le> j \<and> j < 8 \<and> \<not> bit w j" for j
      by (metis Suc_eq_plus1 Suc_leD le_neq_implies_less Suc_leI)
    show ?thesis
    proof (cases "k < 8")
      case True
      with False "1.IH" show ?thesis
        by (subst alloc_offset.simps) (auto simp: eq)
    next
      case False
      then show ?thesis by (subst alloc_offset.simps) auto
    qed
  qed
qed

lemma alloc_offset_Least:
  assumes "j < 8" "\<not> bit w j" "\<And>k. k < j \<Longrightarrow> bit w k"
  shows "alloc_offset w 0 = Some j"
proof -
  have "(LEAST j. (0::nat) \<le> j \<and> j < 8 \<and> \<not> bit w j) = j"
    using assms by (intro Least_equality) (auto simp: not_less [symmetric])
  then show ?thesis using assms by (auto simp: alloc_offset_spec)
qed

lemma full_byte_iff:
  assumes "ix < length (bm_v b)"
  shows "bm_v b ! ix = 0xff \<longleftrightarrow> (\<forall>i. i div 8 = ix \<longrightarrow> bm_bit b i)"
proof
  assume "bm_v b ! ix = 0xff"
  then have "\<forall>j<8. bit (bm_v b ! ix) j" by (simp only: byte_full_iff)
  then show "\<forall>i. i div 8 = ix \<longrightarrow> bm_bit b i" by (simp add: bm_bit_def)
next
  assume R: "\<forall>i. i div 8 = ix \<longrightarrow> bm_bit b i"
  have "bit (bm_v b ! ix) j" if "j < 8" for j
    using R [rule_format, of "ix * 8 + j"] that by (simp add: bm_bit_def)
  then show "bm_v b ! ix = 0xff" unfolding byte_full_iff by blast
qed

lemma alloc_scan_full:
  assumes "bitmap_inv b" "\<And>i. 8 * ix \<le> i \<Longrightarrow> i < nbits b \<Longrightarrow> bm_bit b i"
  shows "alloc_scan b ix (length (bm_v b)) = Some (Inl ENOSPC)"
  using assms
proof (induction "length (bm_v b) - ix" arbitrary: ix)
  case 0
  then show ?case by (subst alloc_scan.simps) simp
next
  case (Suc n)
  then have ix: "ix < length (bm_v b)" by simp
  have "bm_bit b i" if "i div 8 = ix" for i
    using Suc.prems that ix by (cases "i < nbits b") (auto simp: bitmap_inv_def)
  then have "bm_v b ! ix = 0xff" using full_byte_iff [OF ix] by blast
  moreover have "alloc_scan b (ix + 1) (length (bm_v b)) = Some (Inl ENOSPC)"
    using Suc by (intro Suc.hyps(1)) auto
  ultimately show ?case using ix by (subst alloc_scan.simps) simp
qed

lemma alloc_scan_finds:
  assumes "bitmap_inv b" "i < nbits b" "\<not> bm_bit b i" "8 * ix \<le> i"
    and least: "\<And>k. 8 * ix \<le> k \<Longrightarrow> k < i \<Longrightarrow> bm_bit b k"
  shows "alloc_scan b ix (length (bm_v b)) =
     Some (Inr (i, b\<lparr>bm_v := (bm_v b)[i div 8 := bm_v b ! (i div 8) OR 2 ^ (i mod 8)]\<rparr>))"
  using assms
proof (induction "i div 8 - ix" arbitrary: ix)
  case 0
  then have ix: "ix = i div 8" by simp
  have len: "ix < length (bm_v b)" using ix 0 bitmap_inv_index by blast
  have "bm_v b ! ix \<noteq> 0xff" using full_byte_iff [OF len] ix 0 by blast
  moreover have "alloc_offset (bm_v b ! ix) 0 = Some (i mod 8)"
  proof (rule alloc_offset_Least)
    show "\<not> bit (bm_v b ! ix) (i mod 8)" using 0 ix by (simp add: bm_bit_def)
    fix k assume k: "k < i mod 8"
    then have k8: "k < 8" using mod_less_divisor [of 8 i] by linarith
    have "bm_bit b (8 * ix + k)"
    proof (rule 0(6))
      have "8 * ix + i mod 8 = i" using ix by simp
      with k show "8 * ix + k < i" by linarith
    qed simp
    with k8 show "bit (bm_v b ! ix) k" by (simp add: bm_bit_def)
  qed simp
  moreover have "ix * 8 + i mod 8 = i" using ix by simp
  ultimately show ?case using 0 ix len by (subst alloc_scan.simps) simp
next
  case (Suc n)
  then have lt: "ix < i div 8" by simp
  then have len: "ix < length (bm_v b)" using Suc.prems bitmap_inv_index [of b i] by simp
  have "bm_bit b k" if "k div 8 = ix" for k
  proof (rule Suc.prems(5))
    show "8 * ix \<le> k" using that by (simp add: that [symmetric])
    show "k < i" using lt that by (metis div_le_mono leI not_le)
  qed
  then have "bm_v b ! ix = 0xff" using full_byte_iff [OF len] by blast
  moreover have "alloc_scan b (ix + 1) (length (bm_v b)) =
     Some (Inr (i, b\<lparr>bm_v := (bm_v b)[i div 8 := bm_v b ! (i div 8) OR 2 ^ (i mod 8)]\<rparr>))"
    using Suc lt by (intro Suc.hyps(1)) auto
  ultimately show ?case using len by (subst alloc_scan.simps) simp
qed

section \<open>What each operation does to the abstract set\<close>

lemma bitmap_set_bit:
  fixes b i
  defines "b' \<equiv> b\<lparr>bm_v := (bm_v b)[i div 8 := bm_v b ! (i div 8) OR 2 ^ (i mod 8)]\<rparr>"
  assumes "bitmap_inv b" "i < nbits b"
  shows "bitmap_inv b'" "bitmap_used b' = insert i (bitmap_used b)" "nbits b' = nbits b"
proof -
  have "i div 8 < length (bm_v b)" using assms bitmap_inv_index by blast
  then have bits: "bm_bit b' k \<longleftrightarrow> bm_bit b k \<or> k = i" for k
    using bm_bit_or [of "i div 8" b "i mod 8" k] by (simp add: b'_def)
  show "bitmap_inv b'" using assms(2) bits by (simp add: bitmap_inv_def b'_def)
  show "bitmap_used b' = insert i (bitmap_used b)"
    using assms(3) bits by (auto simp: bitmap_used_def b'_def)
  show "nbits b' = nbits b" by (simp add: b'_def)
qed

lemma bitmap_clear_bit:
  fixes b i
  defines "b' \<equiv> b\<lparr>bm_v := (bm_v b)[i div 8 := bm_v b ! (i div 8) AND NOT (2 ^ (i mod 8))]\<rparr>"
  assumes "bitmap_inv b" "i < nbits b"
  shows "bitmap_inv b'" "bitmap_used b' = bitmap_used b - {i}" "nbits b' = nbits b"
proof -
  have "i div 8 < length (bm_v b)" using assms bitmap_inv_index by blast
  then have bits: "bm_bit b' k \<longleftrightarrow> bm_bit b k \<and> k \<noteq> i" for k
    using bm_bit_and_not [of "i div 8" b "i mod 8" k] by (simp add: b'_def)
  show "bitmap_inv b'" using assms(2,3) bits by (simp add: bitmap_inv_def b'_def)
  show "bitmap_used b' = bitmap_used b - {i}"
    using bits by (auto simp: bitmap_used_def b'_def)
  show "nbits b' = nbits b" by (simp add: b'_def)
qed

lemma bitmap_used_bound: "bitmap_used b \<subseteq> {..<nbits b}"
  by (auto simp: bitmap_used_def)

lemma bitmap_alloc_full:
  "bitmap_inv b \<Longrightarrow> bitmap_used b = {..<nbits b} \<Longrightarrow> bitmap_alloc b = Some (Inl ENOSPC)"
  using alloc_scan_full [of b 0]
  by (auto simp: bitmap_alloc_def bitmap_used_def bitmap_inv_def)

lemma bitmap_alloc_free:
  assumes inv: "bitmap_inv b" and free: "bitmap_used b \<noteq> {..<nbits b}"
  defines "i \<equiv> LEAST i. i \<notin> bitmap_used b"
  shows "\<exists>b'. bitmap_alloc b = Some (Inr (i, b')) \<and> i < nbits b \<and> i \<notin> bitmap_used b \<and>
    bitmap_inv b' \<and> bitmap_used b' = insert i (bitmap_used b) \<and> nbits b' = nbits b"
proof -
  obtain k where k: "k < nbits b" "k \<notin> bitmap_used b"
    using free bitmap_used_bound by blast
  have notin: "i \<notin> bitmap_used b" unfolding i_def by (rule LeastI [of _ k]) (fact k)
  have "i \<le> k" unfolding i_def by (rule Least_le) (fact k)
  with k have lt: "i < nbits b" by simp
  have below: "bm_bit b j" if "j < i" for j
    using not_less_Least [of j "\<lambda>i. i \<notin> bitmap_used b"] that
    by (auto simp: i_def bitmap_used_def)
  have "\<not> bm_bit b i" using notin lt by (simp add: bitmap_used_def)
  then have "bitmap_alloc b =
     Some (Inr (i, b\<lparr>bm_v := (bm_v b)[i div 8 := bm_v b ! (i div 8) OR 2 ^ (i mod 8)]\<rparr>))"
    using alloc_scan_finds [of b i 0] inv lt below by (simp add: bitmap_alloc_def bitmap_inv_def)
  with notin lt bitmap_set_bit [OF inv lt] show ?thesis by blast
qed

lemma bitmap_isset_iff:
  "bitmap_inv b \<Longrightarrow> i < nbits b \<Longrightarrow> bitmap_isset b i \<noteq> 0 \<longleftrightarrow> i \<in> bitmap_used b"
  by (simp add: bitmap_isset_def bitmap_translate_def bitmap_used_def bm_bit_def)

lemma bitmap_mark_ok:
  assumes "bitmap_inv b" "i < nbits b" "i \<notin> bitmap_used b"
  shows "\<exists>b'. bitmap_mark b i = Some b' \<and> bitmap_inv b' \<and>
    bitmap_used b' = insert i (bitmap_used b) \<and> nbits b' = nbits b"
  using bitmap_set_bit [OF assms(1,2)] assms
  by (simp add: bitmap_mark_def bitmap_translate_def bitmap_used_def bm_bit_def)

lemma bitmap_unmark_ok:
  assumes "bitmap_inv b" "i \<in> bitmap_used b"
  shows "\<exists>b'. bitmap_unmark b i = Some b' \<and> bitmap_inv b' \<and>
    bitmap_used b' = bitmap_used b - {i} \<and> nbits b' = nbits b"
proof -
  have "i < nbits b" using assms by (simp add: bitmap_used_def)
  with bitmap_clear_bit [OF assms(1) this] assms show ?thesis
    by (simp add: bitmap_unmark_def bitmap_translate_def bitmap_used_def bm_bit_def)
qed

lemma bitmap_mark_panics: "i \<in> bitmap_used b \<or> nbits b \<le> i \<Longrightarrow> bitmap_mark b i = None"
  by (auto simp: bitmap_mark_def bitmap_translate_def bitmap_used_def bm_bit_def)

lemma bitmap_unmark_panics: "i \<notin> bitmap_used b \<Longrightarrow> bitmap_unmark b i = None"
  by (auto simp: bitmap_unmark_def bitmap_translate_def bitmap_used_def bm_bit_def)

lemma bit_mark_leftover: "bit (mark_leftover j w) n \<longleftrightarrow> bit w n \<or> (j \<le> n \<and> n < 8)"
proof (induction j w rule: mark_leftover.induct)
  case (1 j w)
  show ?case
  proof (cases "j < 8")
    case True
    with "1.IH" show ?thesis by (subst mark_leftover.simps) auto
  next
    case False
    then show ?thesis by (subst mark_leftover.simps) (auto dest: bit_imp_le_length)
  qed
qed

lemma ceil8_partial:
  assumes "(n::nat) div 8 < (n + 7) div 8"
  shows "n div 8 = (n + 7) div 8 - 1" "0 < n mod 8"
proof -
  from assms show "n div 8 = (n + 7) div 8 - 1" by linarith
  from assms show "0 < n mod 8" by presburger
qed

lemma same_byte_le: "(a::nat) div 8 = b div 8 \<Longrightarrow> a \<le> b \<longleftrightarrow> a mod 8 \<le> b mod 8"
  using div_mult_mod_eq [of a 8] div_mult_mod_eq [of b 8] by linarith

lemma bitmap_create_ok:
  assumes "nb + 8 < 2 ^ 32"
  shows "\<exists>b. bitmap_create nb True True = Some (Some b) \<and> bitmap_inv b \<and>
    bitmap_used b = {} \<and> nbits b = nb"
proof -
  let ?w = "DIVROUNDUP nb 8"
  have w: "?w = (nb + 7) div 8" using assms by (simp add: DIVROUNDUP_def)
  show ?thesis
  proof (cases "?w > nb div 8")
    case True
    then have q: "nb div 8 = ?w - 1" "0 < nb mod 8" using w ceil8_partial [of nb] by simp_all
    then have over: "nb - (?w - 1) * 8 = nb mod 8" by (simp add: minus_div_mult_eq_mod [symmetric])
    define b where "b = \<lparr>nbits = nb, bm_v = (replicate ?w 0)[?w - 1 := mark_leftover (nb mod 8) 0]\<rparr>"
    have bits: "bm_bit b i \<longleftrightarrow> i div 8 = ?w - 1 \<and> nb mod 8 \<le> i mod 8" if "i div 8 < ?w" for i
      using that True by (auto simp: bm_bit_def b_def nth_list_update bit_mark_leftover)
    have "bitmap_create nb True True = Some (Some b)"
      using True q over by (simp add: bitmap_create_def Let_def b_def)
    moreover have "bitmap_inv b"
      unfolding bitmap_inv_def
    proof (intro conjI allI impI)
      fix i assume i: "nbits b \<le> i" "i < 8 * length (bm_v b)"
      then have "nb \<le> i" "i < 8 * ?w" by (simp_all add: b_def)
      then have "nb div 8 \<le> i div 8" "i div 8 < ?w" by (simp_all add: div_le_mono div_less_iff_less_mult)
      with q have "nb div 8 = i div 8" by linarith
      with \<open>nb \<le> i\<close> \<open>i div 8 < ?w\<close> q show "bm_bit b i" by (simp add: bits same_byte_le [symmetric])
    qed (use assms in \<open>simp_all add: b_def\<close>)
    moreover have "bitmap_used b = {}"
    proof -
      have "\<not> bm_bit b i" if "i < nb" for i
      proof -
        have "i div 8 \<le> nb div 8" using that by (simp add: div_le_mono)
        then have "i div 8 < ?w" using True by linarith
        moreover have "\<not> nb mod 8 \<le> i mod 8" if "i div 8 = nb div 8"
          using \<open>i < nb\<close> that same_byte_le [of nb i] by simp
        ultimately show ?thesis using bits q by auto
      qed
      then show ?thesis by (auto simp: bitmap_used_def b_def)
    qed
    ultimately show ?thesis by (auto simp: b_def)
  next
    case False
    then have "8 * ?w = nb" using w by linarith
    with False assms show ?thesis
      by (auto simp: bitmap_create_def Let_def bitmap_inv_def bitmap_used_def bm_bit_def)
  qed
qed

section \<open>The allocator interface\<close>

text \<open>
  What a client of a slot allocator relies on. \<open>sfs_balloc\<close> and \<open>sfs_bfree\<close> are such
  clients. The lemmas of the locale hold for every implementation of the interface.
\<close>

locale slot_allocator =
  fixes alloc :: "'s \<Rightarrow> (errno + nat \<times> 's) option"
    and unmark :: "'s \<Rightarrow> nat \<Rightarrow> 's option"
    and used :: "'s \<Rightarrow> nat set"
    and slots :: "'s \<Rightarrow> nat"
    and invar :: "'s \<Rightarrow> bool"
  assumes used_bound: "used s \<subseteq> {..<slots s}"
    and alloc_full: "invar s \<Longrightarrow> used s = {..<slots s} \<Longrightarrow> alloc s = Some (Inl ENOSPC)"
    and alloc_free: "invar s \<Longrightarrow> used s \<noteq> {..<slots s} \<Longrightarrow>
      \<exists>i s'. alloc s = Some (Inr (i, s')) \<and> i < slots s \<and> i \<notin> used s \<and>
             invar s' \<and> used s' = insert i (used s) \<and> slots s' = slots s"
    and unmark_used: "invar s \<Longrightarrow> i \<in> used s \<Longrightarrow>
      \<exists>s'. unmark s i = Some s' \<and> invar s' \<and> used s' = used s - {i} \<and> slots s' = slots s"
begin

lemma finite_used: "finite (used s)"
  using used_bound finite_subset by blast

lemma alloc_never_panics: "invar s \<Longrightarrow> alloc s \<noteq> None"
  using alloc_full alloc_free by (cases "used s = {..<slots s}") fastforce+

lemma alloc_Some_cases:
  assumes "invar s" "alloc s = Some r"
  obtains (full) "r = Inl ENOSPC" "used s = {..<slots s}"
    | (got) i s' where "r = Inr (i, s')" "i < slots s" "i \<notin> used s" "invar s'"
        "used s' = insert i (used s)" "slots s' = slots s"
proof (cases "used s = {..<slots s}")
  case True
  with assms alloc_full have "r = Inl ENOSPC" by force
  with True show ?thesis by (rule full [rotated])
next
  case False
  from alloc_free [OF assms(1) False] assms(2) show ?thesis by (auto intro: got)
qed

lemma alloc_fails_iff: "invar s \<Longrightarrow> alloc s = Some (Inl e) \<longleftrightarrow> e = ENOSPC \<and> used s = {..<slots s}"
  using alloc_full [of s] by (auto elim: alloc_Some_cases)

lemma alloc_unmark_restores:
  assumes "invar s" "alloc s = Some (Inr (i, s'))"
  shows "\<exists>s''. unmark s' i = Some s'' \<and> invar s'' \<and> used s'' = used s \<and> slots s'' = slots s"
proof -
  from assms obtain "i \<notin> used s" "invar s'" "used s' = insert i (used s)" "slots s' = slots s"
    by (auto elim: alloc_Some_cases)
  with unmark_used [of s' i] show ?thesis by auto
qed

lemma alloc_uses_one: "invar s \<Longrightarrow> alloc s = Some (Inr (i, s')) \<Longrightarrow> card (used s') = Suc (card (used s))"
  by (erule (1) alloc_Some_cases) (simp_all add: finite_used)

end

interpretation bm: slot_allocator bitmap_alloc bitmap_unmark bitmap_used nbits bitmap_inv
proof
  show "bitmap_used s \<subseteq> {..<nbits s}" for s by (rule bitmap_used_bound)
  show "bitmap_inv s \<Longrightarrow> bitmap_used s = {..<nbits s} \<Longrightarrow> bitmap_alloc s = Some (Inl ENOSPC)" for s
    by (rule bitmap_alloc_full)
  show "bitmap_inv s \<Longrightarrow> bitmap_used s \<noteq> {..<nbits s} \<Longrightarrow>
      \<exists>i s'. bitmap_alloc s = Some (Inr (i, s')) \<and> i < nbits s \<and> i \<notin> bitmap_used s \<and>
             bitmap_inv s' \<and> bitmap_used s' = insert i (bitmap_used s) \<and> nbits s' = nbits s" for s
    using bitmap_alloc_free by blast
  show "bitmap_inv s \<Longrightarrow> i \<in> bitmap_used s \<Longrightarrow>
      \<exists>s'. bitmap_unmark s i = Some s' \<and> bitmap_inv s' \<and>
           bitmap_used s' = bitmap_used s - {i} \<and> nbits s' = nbits s" for s i
    by (rule bitmap_unmark_ok)
qed

section \<open>Properties\<close>

text \<open>
  \<open>bitmap_create\<close> gives an all-free bitmap of the asked size (the unusable bits of the last
  byte are marked), and \<open>bitmap_alloc\<close> hands out the lowest free index, marks exactly that index,
  and fails with \<open>ENOSPC\<close> exactly when every index is in use; it never panics.
\<close>

theorem bitmap_alloc_correct:
  assumes "bitmap_inv b"
  shows "case bitmap_alloc b of
      None \<Rightarrow> False
    | Some (Inl e) \<Rightarrow> e = ENOSPC \<and> bitmap_used b = {..<nbits b}
    | Some (Inr (i, b')) \<Rightarrow> i < nbits b \<and> i \<notin> bitmap_used b \<and> {..<i} \<subseteq> bitmap_used b \<and> bitmap_inv b' \<and>
        bitmap_used b' = insert i (bitmap_used b) \<and> nbits b' = nbits b"
proof (cases "bitmap_used b = {..<nbits b}")
  case True
  then show ?thesis by (simp add: bm.alloc_full [OF assms])
next
  case False
  define i where "i = (LEAST i. i \<notin> bitmap_used b)"
  have "j \<in> bitmap_used b" if "j < i" for j
    using not_less_Least [OF that [unfolded i_def]] by simp
  then have "{..<i} \<subseteq> bitmap_used b" by blast
  moreover obtain b' where "bitmap_alloc b = Some (Inr (i, b'))" "i < nbits b" "i \<notin> bitmap_used b" "bitmap_inv b'"
      "bitmap_used b' = insert i (bitmap_used b)" "nbits b' = nbits b"
    using bitmap_alloc_free [OF assms False, folded i_def] by blast
  ultimately show ?thesis by simp
qed

theorem bitmap_alloc_correct_witness:
  "bitmap_alloc \<lparr>nbits = 12, bm_v = [0xff, 0xf1]\<rparr> = Some (Inr (9, \<lparr>nbits = 12, bm_v = [0xff, 0xf3]\<rparr>)) \<and>
   bitmap_used \<lparr>nbits = 12, bm_v = [0xff, 0xf3]\<rparr> = insert 9 (bitmap_used \<lparr>nbits = 12, bm_v = [0xff, 0xf1]\<rparr>)"
proof -
  let ?b = "\<lparr>nbits = 12, bm_v = [0xff, 0xf1]\<rparr>"
  have "bm_bit ?b i" if "12 \<le> i" "i < 16" for i
  proof -
    have "i = 12 \<or> i = 13 \<or> i = 14 \<or> i = 15" using that by presburger
    then show ?thesis by (auto simp: bm_bit_def)
  qed
  then have "bitmap_inv ?b" by (simp add: bitmap_inv_def DIVROUNDUP_def)
  moreover have run: "bitmap_alloc ?b = Some (Inr (9, \<lparr>nbits = 12, bm_v = [0xff, 0xf3]\<rparr>))"
  proof -
    have "alloc_offset 0xf1 0 = Some 1" by (simp add: alloc_offset.simps)
    then show ?thesis
      by (simp add: bitmap_alloc_def DIVROUNDUP_def) (subst alloc_scan.simps, simp, subst alloc_scan.simps, simp)
  qed
  ultimately show ?thesis using bitmap_alloc_correct [of ?b] by simp
qed

text \<open>
  Allocating an index and unmarking it gives back a bitmap with the same indices in use, and
  while it is allocated one more index is in use.
\<close>

theorem bitmap_alloc_unmark_roundtrip:
  assumes "bitmap_inv b" "bitmap_alloc b = Some (Inr (i, b'))"
  shows "card (bitmap_used b') = Suc (card (bitmap_used b)) \<and>
    (\<exists>b''. bitmap_unmark b' i = Some b'' \<and> bitmap_inv b'' \<and> bitmap_used b'' = bitmap_used b \<and> nbits b'' = nbits b)"
  using bm.alloc_uses_one [OF assms] bm.alloc_unmark_restores [OF assms] by simp

theorem bitmap_alloc_unmark_roundtrip_witness:
  "\<exists>b b'. bitmap_create 12 True True = Some (Some b) \<and> bitmap_alloc b = Some (Inr (0, b')) \<and>
     (\<exists>b''. bitmap_unmark b' 0 = Some b'' \<and> bitmap_used b'' = bitmap_used b)"
proof -
  obtain b where b: "bitmap_create 12 True True = Some (Some b)" "bitmap_inv b" "bitmap_used b = {}" "nbits b = 12"
    using bitmap_create_ok [of 12] by auto
  moreover have "(LEAST i. i \<notin> bitmap_used b) = 0" "{..<nbits b} \<noteq> {}" by (simp_all add: b(3,4) lessThan_empty_iff)
  ultimately obtain b' where b': "bitmap_alloc b = Some (Inr (0, b'))" using bitmap_alloc_free [OF b(2)] by auto
  with b(1) bitmap_alloc_unmark_roundtrip [OF b(2) b'] show ?thesis by blast
qed

end
