(* ===== verification/Threadlist.thy ===== *)
theory Threadlist
  imports Kernel_Prelude
begin

text \<open>
  \<open>kern/thread/threadlist.c\<close>: the doubly linked thread lists with two bookend nodes, at pointer
  level. A node address is a bookend of list \<open>l\<close> or the \<open>t_listnode\<close> of thread \<open>t\<close>; the
  store gives every node its \<open>tln_prev\<close>, \<open>tln_next\<close>, \<open>tln_self\<close> and \<open>priority\<close>, and every
  list its \<open>tl_count\<close> (an \<open>unsigned\<close>). \<open>None\<close> as a pointer is NULL; \<open>None\<close> as the result
  of an operation is a failed \<open>KASSERT\<close> or a NULL dereference.

  \<open>tl_repr s l ts\<close> says that list \<open>l\<close> of store \<open>s\<close> holds exactly the threads \<open>ts\<close>, in that
  order. Each operation is shown to implement the list operation it stands for and to leave
  every other list alone. The interface used by the scheduler and by wait channels is the
  locale \<open>thread_queue\<close>.
\<close>

datatype tlref = TlHead nat | TlTail nat | TNode nat

record tlstore =
  tln_prev :: "tlref \<Rightarrow> tlref option"
  tln_next :: "tlref \<Rightarrow> tlref option"
  tln_self :: "tlref \<Rightarrow> nat option"
  tln_priority :: "tlref \<Rightarrow> int"
  tl_count :: "nat \<Rightarrow> u32"

definition set_next :: "tlref \<Rightarrow> tlref option \<Rightarrow> tlstore \<Rightarrow> tlstore" where
  "set_next a x s = s\<lparr>tln_next := (tln_next s)(a := x)\<rparr>"

definition set_prev :: "tlref \<Rightarrow> tlref option \<Rightarrow> tlstore \<Rightarrow> tlstore" where
  "set_prev a x s = s\<lparr>tln_prev := (tln_prev s)(a := x)\<rparr>"

definition set_self :: "tlref \<Rightarrow> nat option \<Rightarrow> tlstore \<Rightarrow> tlstore" where
  "set_self a x s = s\<lparr>tln_self := (tln_self s)(a := x)\<rparr>"

definition set_count :: "nat \<Rightarrow> u32 \<Rightarrow> tlstore \<Rightarrow> tlstore" where
  "set_count l n s = s\<lparr>tl_count := (tl_count s)(l := n)\<rparr>"

lemma store_sel [simp]:
  "tln_next (set_next a x s) = (tln_next s)(a := x)" "tln_prev (set_next a x s) = tln_prev s"
  "tln_self (set_next a x s) = tln_self s" "tl_count (set_next a x s) = tl_count s"
  "tln_prev (set_prev a x s) = (tln_prev s)(a := x)" "tln_next (set_prev a x s) = tln_next s"
  "tln_self (set_prev a x s) = tln_self s" "tl_count (set_prev a x s) = tl_count s"
  "tln_self (set_self a y s) = (tln_self s)(a := y)" "tln_next (set_self a y s) = tln_next s"
  "tln_prev (set_self a y s) = tln_prev s" "tl_count (set_self a y s) = tl_count s"
  "tl_count (set_count l n s) = (tl_count s)(l := n)" "tln_next (set_count l n s) = tln_next s"
  "tln_prev (set_count l n s) = tln_prev s" "tln_self (set_count l n s) = tln_self s"
  by (simp_all add: set_next_def set_prev_def set_self_def set_count_def)

section \<open>The operations\<close>

definition threadlistnode_init :: "tlref \<Rightarrow> nat \<Rightarrow> tlstore \<Rightarrow> tlstore" where
  "threadlistnode_init tln t s =
     (let s = set_next tln None s; s = set_prev tln None s; s = set_self tln (Some t) s
      in s\<lparr>tln_priority := (tln_priority s)(tln := 0)\<rparr>)"

definition threadlistnode_cleanup :: "tlref \<Rightarrow> tlstore \<Rightarrow> unit option" where
  "threadlistnode_cleanup tln s =
     do { kassert (tln_next s tln = None);
          kassert (tln_prev s tln = None);
          kassert (tln_self s tln \<noteq> None) }"

definition threadlist_init :: "nat \<Rightarrow> tlstore \<Rightarrow> tlstore" where
  "threadlist_init l s =
     (let s = set_next (TlHead l) (Some (TlTail l)) s;
          s = set_prev (TlHead l) None s;
          s = set_next (TlTail l) None s;
          s = set_prev (TlTail l) (Some (TlHead l)) s;
          s = set_self (TlHead l) None s;
          s = set_self (TlTail l) None s
      in set_count l 0 s)"

definition threadlist_isempty :: "nat \<Rightarrow> tlstore \<Rightarrow> bool" where
  "threadlist_isempty l s = (tl_count s l = 0)"

definition threadlist_cleanup :: "nat \<Rightarrow> tlstore \<Rightarrow> unit option" where
  "threadlist_cleanup l s =
     do { kassert (threadlist_isempty l s);
          kassert (tl_count s l = 0) }"

definition threadlist_insertafternode :: "tlref \<Rightarrow> nat \<Rightarrow> tlstore \<Rightarrow> tlstore option" where
  "threadlist_insertafternode onlist t s =
     (let addee = TNode t;
          s = set_prev addee (Some onlist) s;
          s = set_next addee (tln_next s onlist) s
      in do {
        p \<leftarrow> tln_prev s addee;
        let s = set_next p (Some addee) s;
        n \<leftarrow> tln_next s addee;
        Some (set_prev n (Some addee) s)
      })"

definition threadlist_insertbeforenode :: "nat \<Rightarrow> tlref \<Rightarrow> tlstore \<Rightarrow> tlstore option" where
  "threadlist_insertbeforenode t onlist s =
     (let addee = TNode t;
          s = set_prev addee (tln_prev s onlist) s;
          s = set_next addee (Some onlist) s
      in do {
        p \<leftarrow> tln_prev s addee;
        let s = set_next p (Some addee) s;
        n \<leftarrow> tln_next s addee;
        Some (set_prev n (Some addee) s)
      })"

definition threadlist_removenode :: "tlref \<Rightarrow> tlstore \<Rightarrow> tlstore option" where
  "threadlist_removenode tln s =
     do {
       p \<leftarrow> tln_prev s tln;
       let s = set_next p (tln_next s tln) s;
       n \<leftarrow> tln_next s tln;
       let s = set_prev n (tln_prev s tln) s;
       let s = set_prev tln None s;
       Some (set_next tln None s)
     }"

definition threadlist_addhead :: "nat \<Rightarrow> nat \<Rightarrow> tlstore \<Rightarrow> tlstore option" where
  "threadlist_addhead l t s =
     do { s \<leftarrow> threadlist_insertafternode (TlHead l) t s;
          Some (set_count l (tl_count s l + 1) s) }"

definition threadlist_addtail :: "nat \<Rightarrow> nat \<Rightarrow> tlstore \<Rightarrow> tlstore option" where
  "threadlist_addtail l t s =
     do { s \<leftarrow> threadlist_insertbeforenode t (TlTail l) s;
          Some (set_count l (tl_count s l + 1) s) }"

definition threadlist_remhead :: "nat \<Rightarrow> tlstore \<Rightarrow> (nat option \<times> tlstore) option" where
  "threadlist_remhead l s =
     do {
       tln \<leftarrow> tln_next s (TlHead l);
       if tln_next s tln = None then Some (None, s)
       else do {
         s \<leftarrow> threadlist_removenode tln s;
         let s = set_count l (tl_count s l - 1) s;
         Some (tln_self s tln, s)
       }
     }"

definition threadlist_remtail :: "nat \<Rightarrow> tlstore \<Rightarrow> (nat option \<times> tlstore) option" where
  "threadlist_remtail l s =
     do {
       tln \<leftarrow> tln_prev s (TlTail l);
       if tln_prev s tln = None then Some (None, s)
       else do {
         s \<leftarrow> threadlist_removenode tln s;
         let s = set_count l (tl_count s l - 1) s;
         Some (tln_self s tln, s)
       }
     }"

definition threadlist_insertafter :: "nat \<Rightarrow> nat \<Rightarrow> nat \<Rightarrow> tlstore \<Rightarrow> tlstore option" where
  "threadlist_insertafter l onlist addee s =
     do { s \<leftarrow> threadlist_insertafternode (TNode onlist) addee s;
          Some (set_count l (tl_count s l + 1) s) }"

definition threadlist_insertbefore :: "nat \<Rightarrow> nat \<Rightarrow> nat \<Rightarrow> tlstore \<Rightarrow> tlstore option" where
  "threadlist_insertbefore l addee onlist s =
     do { s \<leftarrow> threadlist_insertbeforenode addee (TNode onlist) s;
          Some (set_count l (tl_count s l + 1) s) }"

definition threadlist_remove :: "nat \<Rightarrow> nat \<Rightarrow> tlstore \<Rightarrow> tlstore option" where
  "threadlist_remove l t s =
     do { s \<leftarrow> threadlist_removenode (TNode t) s;
          Some (set_count l (tl_count s l - 1) s) }"

section \<open>Representation\<close>

fun linked :: "tlstore \<Rightarrow> tlref list \<Rightarrow> bool" where
  "linked s (a # b # xs) \<longleftrightarrow> tln_next s a = Some b \<and> tln_prev s b = Some a \<and> linked s (b # xs)"
| "linked s _ \<longleftrightarrow> True"

definition spine :: "nat \<Rightarrow> nat list \<Rightarrow> tlref list" where
  "spine l ts = TlHead l # map TNode ts @ [TlTail l]"

definition tl_repr :: "tlstore \<Rightarrow> nat \<Rightarrow> nat list \<Rightarrow> bool" where
  "tl_repr s l ts \<longleftrightarrow>
     linked s (spine l ts) \<and> distinct ts \<and>
     tln_prev s (TlHead l) = None \<and> tln_next s (TlTail l) = None \<and>
     tln_self s (TlHead l) = None \<and> tln_self s (TlTail l) = None \<and>
     (\<forall>t\<in>set ts. tln_self s (TNode t) = Some t) \<and>
     tl_count s l = of_nat (length ts)"

lemma linked_append: "linked s (xs @ a # ys) \<longleftrightarrow> linked s (xs @ [a]) \<and> linked s (a # ys)"
  by (induction xs rule: induct_list012) (cases ys; auto)+

lemma linked_frame:
  assumes "linked s xs" "\<And>a. a \<in> set (butlast xs) \<Longrightarrow> tln_next s' a = tln_next s a"
    "\<And>a. a \<in> set (tl xs) \<Longrightarrow> tln_prev s' a = tln_prev s a"
  shows "linked s' xs"
  using assms by (induction s xs rule: linked.induct) auto

lemma linked_insert:
  assumes L: "linked s (xs @ a # b # ys)" and D: "distinct (xs @ a # b # ys)"
    and c: "c \<notin> set (xs @ a # b # ys)"
    and n: "tln_next s' = (tln_next s)(c := Some b, a := Some c)"
    and p: "tln_prev s' = (tln_prev s)(c := Some a, b := Some c)"
  shows "linked s' (xs @ a # c # b # ys)"
proof -
  from L have 1: "linked s (xs @ [a])" and 2: "linked s (a # b # ys)"
    by (simp_all add: linked_append [of s xs a "b # ys"])
  from 2 have 3: "linked s (b # ys)" by simp
  have "linked s' (xs @ [a])"
    by (rule linked_frame [OF 1]) (use D c in \<open>cases xs; auto simp: n p\<close>)+
  moreover have "linked s' (b # ys)"
  proof (rule linked_frame [OF 3])
    fix x assume "x \<in> set (butlast (b # ys))"
    then have "x \<in> set (b # ys)" by (rule in_set_butlastD)
    then have "x \<noteq> a" "x \<noteq> c" using D c by auto
    then show "tln_next s' x = tln_next s x" by (simp add: n)
  next
    fix x assume "x \<in> set (tl (b # ys))"
    then have "x \<noteq> b" "x \<noteq> c" using D c by auto
    then show "tln_prev s' x = tln_prev s x" by (simp add: p)
  qed
  ultimately show ?thesis using D c by (simp add: linked_append [of s' xs a "c # b # ys"] n p)
qed

lemma linked_delete:
  assumes L: "linked s (xs @ a # c # b # ys)" and D: "distinct (xs @ a # c # b # ys)"
    and n: "tln_next s' = (tln_next s)(a := Some b, c := None)"
    and p: "tln_prev s' = (tln_prev s)(b := Some a, c := None)"
  shows "linked s' (xs @ a # b # ys)"
proof -
  from L have 1: "linked s (xs @ [a])" and 2: "linked s (a # c # b # ys)"
    by (simp_all add: linked_append [of s xs a "c # b # ys"])
  from 2 have 3: "linked s (b # ys)" by simp
  have "linked s' (xs @ [a])"
    by (rule linked_frame [OF 1]) (use D in \<open>cases xs; auto simp: n p\<close>)+
  moreover have "linked s' (b # ys)"
  proof (rule linked_frame [OF 3])
    fix x assume "x \<in> set (butlast (b # ys))"
    then have "x \<in> set (b # ys)" by (rule in_set_butlastD)
    then have "x \<noteq> a" "x \<noteq> c" using D by auto
    then show "tln_next s' x = tln_next s x" by (simp add: n)
  next
    fix x assume "x \<in> set (tl (b # ys))"
    then have "x \<noteq> b" "x \<noteq> c" using D by auto
    then show "tln_prev s' x = tln_prev s x" by (simp add: p)
  qed
  ultimately show ?thesis using D by (auto simp: linked_append [of s' xs a "b # ys"] n p)
qed

lemma linked_at: "linked s (xs @ a # b # ys) \<Longrightarrow> tln_next s a = Some b \<and> tln_prev s b = Some a"
  by (simp add: linked_append [of s xs a "b # ys"])

lemma insertafternode_store:
  assumes "tln_next s a = Some b" "a \<noteq> TNode t"
  shows "\<exists>s'. threadlist_insertafternode a t s = Some s' \<and>
    tln_next s' = (tln_next s)(TNode t := Some b, a := Some (TNode t)) \<and>
    tln_prev s' = (tln_prev s)(TNode t := Some a, b := Some (TNode t)) \<and>
    tln_self s' = tln_self s \<and> tl_count s' = tl_count s"
  using assms by (simp add: threadlist_insertafternode_def Let_def)

lemma insertbeforenode_store:
  assumes "tln_prev s b = Some a" "a \<noteq> TNode t" "b \<noteq> TNode t"
  shows "\<exists>s'. threadlist_insertbeforenode t b s = Some s' \<and>
    tln_next s' = (tln_next s)(TNode t := Some b, a := Some (TNode t)) \<and>
    tln_prev s' = (tln_prev s)(TNode t := Some a, b := Some (TNode t)) \<and>
    tln_self s' = tln_self s \<and> tl_count s' = tl_count s"
  using assms by (simp add: threadlist_insertbeforenode_def Let_def)

lemma removenode_store:
  assumes "tln_prev s c = Some a" "tln_next s c = Some b" "a \<noteq> c" "b \<noteq> c"
  shows "\<exists>s'. threadlist_removenode c s = Some s' \<and>
    tln_next s' = (tln_next s)(a := Some b, c := None) \<and>
    tln_prev s' = (tln_prev s)(b := Some a, c := None) \<and>
    tln_self s' = tln_self s \<and> tl_count s' = tl_count s"
  using assms by (simp add: threadlist_removenode_def Let_def)

section \<open>The operations on represented lists\<close>

text \<open>
  The neighbours of a position of the spine. Splitting the thread list at a position splits the
  spine into \<open>xs @ a # b # ys\<close>, where \<open>a\<close> is the last node before it and \<open>b\<close> the first
  node after it.
\<close>

definition node_before :: "nat \<Rightarrow> nat list \<Rightarrow> tlref" where
  "node_before l us = last (TlHead l # map TNode us)"

definition node_after :: "nat \<Rightarrow> nat list \<Rightarrow> tlref" where
  "node_after l vs = hd (map TNode vs @ [TlTail l])"

lemma spine_split:
  "spine l (us @ vs) = butlast (TlHead l # map TNode us) @ node_before l us # node_after l vs
     # tl (map TNode vs @ [TlTail l])"
  unfolding spine_def node_before_def node_after_def
  by (cases vs) (simp_all add: append_butlast_last_id [symmetric] del: append_butlast_last_id)

lemma spine_split_mid:
  "spine l (us @ t # vs) = butlast (TlHead l # map TNode us) @ node_before l us # TNode t
     # node_after l vs # tl (map TNode vs @ [TlTail l])"
  using spine_split [of l us "t # vs"] by (cases vs) (simp_all add: node_after_def)

lemma spine_set: "set (spine l ts) = {TlHead l, TlTail l} \<union> TNode ` set ts"
  by (auto simp: spine_def)

lemma distinct_spine: "distinct ts \<Longrightarrow> distinct (spine l ts)"
  by (auto simp: spine_def distinct_map inj_on_def)

lemma insert_repr:
  assumes R: "tl_repr s l (us @ vs)" and t: "t \<notin> set (us @ vs)" "tln_self s (TNode t) = Some t"
    and n: "tln_next s' = (tln_next s)(TNode t := Some (node_after l vs), node_before l us := Some (TNode t))"
    and p: "tln_prev s' = (tln_prev s)(TNode t := Some (node_before l us), node_after l vs := Some (TNode t))"
    and self: "tln_self s' = tln_self s" and cnt: "tl_count s' l = tl_count s l + 1"
  shows "tl_repr s' l (us @ t # vs)"
proof -
  have D: "distinct (spine l (us @ vs))" using R by (simp add: tl_repr_def distinct_spine)
  have notin: "TNode t \<notin> set (spine l (us @ vs))" using t by (auto simp: spine_set)
  have "linked s' (spine l (us @ t # vs))"
    unfolding spine_split_mid
    by (rule linked_insert [OF _ _ _ n p])
       (use R D notin in \<open>simp_all only: tl_repr_def spine_split [symmetric] not_False_eq_True\<close>)
  moreover have "tln_prev s' (TlHead l) = None" "tln_next s' (TlTail l) = None"
    using R by (auto simp: tl_repr_def n p node_before_def node_after_def hd_append hd_map last_map)
  ultimately show ?thesis
    using R t cnt by (auto simp: tl_repr_def self add.commute)
qed

lemma delete_repr:
  assumes R: "tl_repr s l (us @ t # vs)"
    and n: "tln_next s' = (tln_next s)(node_before l us := Some (node_after l vs), TNode t := None)"
    and p: "tln_prev s' = (tln_prev s)(node_after l vs := Some (node_before l us), TNode t := None)"
    and self: "tln_self s' = tln_self s" and cnt: "tl_count s' l = tl_count s l - 1"
  shows "tl_repr s' l (us @ vs)"
proof -
  have D: "distinct (spine l (us @ t # vs))" using R by (simp add: tl_repr_def distinct_spine)
  have "linked s' (spine l (us @ vs))"
    unfolding spine_split
    by (rule linked_delete [OF _ _ n p])
       (use R D in \<open>simp_all only: tl_repr_def spine_split_mid [symmetric]\<close>)
  moreover have "tln_prev s' (TlHead l) = None" "tln_next s' (TlTail l) = None"
    using R by (auto simp: tl_repr_def n p node_before_def node_after_def hd_append hd_map last_map)
  ultimately show ?thesis
    using R cnt by (auto simp: tl_repr_def self)
qed

text \<open>
  What an operation on list \<open>l\<close> leaves alone: every node off its spine and every other list's
  count. A list that shares no thread with it stays represented.
\<close>

definition tl_frame :: "nat \<Rightarrow> nat list \<Rightarrow> tlstore \<Rightarrow> tlstore \<Rightarrow> bool" where
  "tl_frame l ts s s' \<longleftrightarrow>
     (\<forall>a. a \<notin> set (spine l ts) \<longrightarrow> tln_next s' a = tln_next s a \<and> tln_prev s' a = tln_prev s a) \<and>
     tln_self s' = tln_self s \<and> (\<forall>k. k \<noteq> l \<longrightarrow> tl_count s' k = tl_count s k)"

lemma tl_frame_repr:
  assumes F: "tl_frame l ts s s'" and R: "tl_repr s k ks" and "k \<noteq> l" "set ks \<inter> set ts = {}"
  shows "tl_repr s' k ks"
proof -
  have off: "a \<notin> set (spine l ts)" if "a \<in> set (spine k ks)" for a
    using that assms(3,4) by (auto simp: spine_set)
  have "linked s' (spine k ks)"
  proof (rule linked_frame)
    show "linked s (spine k ks)" using R by (simp add: tl_repr_def)
    show "tln_next s' a = tln_next s a" if "a \<in> set (butlast (spine k ks))" for a
      using F off in_set_butlastD [OF that] by (simp add: tl_frame_def)
    show "tln_prev s' a = tln_prev s a" if "a \<in> set (tl (spine k ks))" for a
      using F off list.set_sel(2) [OF _ that] by (force simp: tl_frame_def spine_def)
  qed
  then show ?thesis using F R off assms(3) by (auto simp: tl_repr_def tl_frame_def spine_set)
qed

lemma node_before_spine: "node_before l us \<in> set (spine l (us @ vs))"
  by (cases us rule: rev_cases) (auto simp: node_before_def spine_def)

lemma node_after_spine: "node_after l vs \<in> set (spine l (us @ vs))"
  by (cases vs) (auto simp: node_after_def spine_def)

text \<open>The links around a position of a represented list.\<close>

lemma repr_gap:
  assumes "tl_repr s l (us @ vs)"
  shows "tln_next s (node_before l us) = Some (node_after l vs)"
    "tln_prev s (node_after l vs) = Some (node_before l us)"
  using assms linked_at unfolding tl_repr_def spine_split by blast+

lemma repr_mid:
  assumes "tl_repr s l (us @ t # vs)"
  shows "tln_prev s (TNode t) = Some (node_before l us)" "tln_next s (TNode t) = Some (node_after l vs)"
    "node_before l us \<noteq> TNode t" "node_after l vs \<noteq> TNode t"
proof -
  show "tln_prev s (TNode t) = Some (node_before l us)"
    using repr_gap(2) [OF assms] by (simp add: node_after_def)
  show "tln_next s (TNode t) = Some (node_after l vs)"
    using repr_gap(1) [of s l "us @ [t]" vs] assms by (simp add: node_before_def)
  have "distinct (us @ t # vs)" using assms by (simp add: tl_repr_def)
  then show "node_before l us \<noteq> TNode t" "node_after l vs \<noteq> TNode t"
    by (cases us rule: rev_cases; cases vs; auto simp: node_before_def node_after_def)+
qed

lemma node_before_neq: "t \<notin> set us \<Longrightarrow> node_before l us \<noteq> TNode t"
  by (cases us rule: rev_cases) (auto simp: node_before_def)

lemma node_after_neq: "t \<notin> set vs \<Longrightarrow> node_after l vs \<noteq> TNode t"
  by (cases vs) (auto simp: node_after_def)

lemma insertafternode_repr:
  assumes R: "tl_repr s l (us @ vs)" and t: "t \<notin> set (us @ vs)" "tln_self s (TNode t) = Some t"
  shows "\<exists>s'. threadlist_insertafternode (node_before l us) t s = Some s' \<and>
    tl_repr (set_count l (tl_count s' l + 1) s') l (us @ t # vs) \<and>
    tl_frame l (us @ t # vs) s (set_count l (tl_count s' l + 1) s')"
  using insertafternode_store [OF repr_gap(1) [OF R] node_before_neq [of t]] t
    node_before_spine [of l us vs] node_after_spine [of l vs us]
  by (auto intro!: insert_repr [OF R t] simp: tl_frame_def spine_set)

lemma insertbeforenode_repr:
  assumes R: "tl_repr s l (us @ vs)" and t: "t \<notin> set (us @ vs)" "tln_self s (TNode t) = Some t"
  shows "\<exists>s'. threadlist_insertbeforenode t (node_after l vs) s = Some s' \<and>
    tl_repr (set_count l (tl_count s' l + 1) s') l (us @ t # vs) \<and>
    tl_frame l (us @ t # vs) s (set_count l (tl_count s' l + 1) s')"
  using insertbeforenode_store [OF repr_gap(2) [OF R] node_before_neq [of t] node_after_neq [of t]] t
    node_before_spine [of l us vs] node_after_spine [of l vs us]
  by (auto intro!: insert_repr [OF R t] simp: tl_frame_def spine_set)

lemma removenode_repr:
  assumes R: "tl_repr s l (us @ t # vs)"
  shows "\<exists>s'. threadlist_removenode (TNode t) s = Some s' \<and>
    tl_repr (set_count l (tl_count s' l - 1) s') l (us @ vs) \<and>
    tl_frame l (us @ t # vs) s (set_count l (tl_count s' l - 1) s') \<and>
    tln_self s' (TNode t) = Some t \<and> tln_next s' (TNode t) = None \<and> tln_prev s' (TNode t) = None"
  using removenode_store [OF repr_mid [OF R]] R [unfolded tl_repr_def]
    node_before_spine [of l us vs] node_after_spine [of l vs us]
  by (auto intro!: delete_repr [OF R] simp: tl_frame_def spine_set)

lemma init_repr: "tl_repr (threadlist_init l s) l []"
  by (simp add: tl_repr_def threadlist_init_def Let_def spine_def)

lemma isempty_repr:
  assumes "tl_repr s l ts" "length ts < 2 ^ 32"
  shows "threadlist_isempty l s \<longleftrightarrow> ts = []"
  using assms by (auto simp: tl_repr_def threadlist_isempty_def of_nat_eq_0_iff word_of_nat_eq_0_iff
    dest: nat_dvd_not_less)

lemma addhead_repr:
  assumes "tl_repr s l ts" "t \<notin> set ts" "tln_self s (TNode t) = Some t"
  shows "\<exists>s'. threadlist_addhead l t s = Some s' \<and> tl_repr s' l (t # ts) \<and> tl_frame l (t # ts) s s'"
  using insertafternode_repr [of s l "[]" ts t] assms
  by (auto simp: threadlist_addhead_def node_before_def)

lemma addtail_repr:
  assumes "tl_repr s l ts" "t \<notin> set ts" "tln_self s (TNode t) = Some t"
  shows "\<exists>s'. threadlist_addtail l t s = Some s' \<and> tl_repr s' l (ts @ [t]) \<and> tl_frame l (ts @ [t]) s s'"
  using insertbeforenode_repr [of s l ts "[]" t] assms
  by (auto simp: threadlist_addtail_def node_after_def)

lemma remhead_Nil: "tl_repr s l [] \<Longrightarrow> threadlist_remhead l s = Some (None, s)"
  by (simp add: tl_repr_def threadlist_remhead_def spine_def)

lemma remhead_Cons:
  assumes "tl_repr s l (t # ts)"
  shows "\<exists>s'. threadlist_remhead l s = Some (Some t, s') \<and> tl_repr s' l ts \<and> tl_frame l (t # ts) s s' \<and>
    tln_next s' (TNode t) = None \<and> tln_prev s' (TNode t) = None"
proof -
  have R: "tl_repr s l ([] @ t # ts)" using assms by simp
  from removenode_repr [OF R] repr_mid [OF R] repr_gap(1) [OF R] assms show ?thesis
    by (auto simp: threadlist_remhead_def node_before_def node_after_def [of l "t # ts"] tl_repr_def)
qed

lemma remtail_Nil: "tl_repr s l [] \<Longrightarrow> threadlist_remtail l s = Some (None, s)"
  by (simp add: tl_repr_def threadlist_remtail_def spine_def)

lemma remtail_snoc:
  assumes "tl_repr s l (ts @ [t])"
  shows "\<exists>s'. threadlist_remtail l s = Some (Some t, s') \<and> tl_repr s' l ts \<and> tl_frame l (ts @ [t]) s s'"
proof -
  have R: "tl_repr s l (ts @ t # [])" using assms by simp
  from removenode_repr [OF R] repr_mid [OF R] repr_gap(2) [of s l "ts @ [t]" "[]"] assms show ?thesis
    by (auto simp: threadlist_remtail_def node_before_def [of l "ts @ [t]"] node_after_def tl_repr_def)
qed

lemma insertafter_repr:
  assumes "tl_repr s l (us @ o1 # vs)" "t \<notin> set (us @ o1 # vs)" "tln_self s (TNode t) = Some t"
  shows "\<exists>s'. threadlist_insertafter l o1 t s = Some s' \<and> tl_repr s' l (us @ o1 # t # vs) \<and>
    tl_frame l (us @ o1 # t # vs) s s'"
  using insertafternode_repr [of s l "us @ [o1]" vs t] assms
  by (auto simp: threadlist_insertafter_def node_before_def)

lemma insertbefore_repr:
  assumes "tl_repr s l (us @ o1 # vs)" "t \<notin> set (us @ o1 # vs)" "tln_self s (TNode t) = Some t"
  shows "\<exists>s'. threadlist_insertbefore l t o1 s = Some s' \<and> tl_repr s' l (us @ t # o1 # vs) \<and>
    tl_frame l (us @ t # o1 # vs) s s'"
  using insertbeforenode_repr [of s l us "o1 # vs" t] assms
  by (auto simp: threadlist_insertbefore_def node_after_def)

lemma remove_repr:
  assumes "tl_repr s l (us @ t # vs)"
  shows "\<exists>s'. threadlist_remove l t s = Some s' \<and> tl_repr s' l (us @ vs) \<and> tl_frame l (us @ t # vs) s s' \<and>
    tln_next s' (TNode t) = None \<and> tln_prev s' (TNode t) = None"
  using removenode_repr [OF assms] by (auto simp: threadlist_remove_def)

section \<open>The queue interface\<close>

text \<open>
  The scheduler's run queues, the wait channels and the zombie lists all use a thread list the
  same way: \<open>threadlist_addtail\<close> to enqueue and \<open>threadlist_remhead\<close> to dequeue.
\<close>

primrec enq_all :: "(nat \<Rightarrow> 's \<Rightarrow> 's option) \<Rightarrow> nat list \<Rightarrow> 's \<Rightarrow> 's option" where
  "enq_all enq [] s = Some s"
| "enq_all enq (t # ts) s = enq t s \<bind> enq_all enq ts"

primrec deq_n :: "('s \<Rightarrow> (nat option \<times> 's) option) \<Rightarrow> nat \<Rightarrow> 's \<Rightarrow> (nat option list \<times> 's) option" where
  "deq_n deq 0 s = Some ([], s)"
| "deq_n deq (Suc n) s =
     do { (x, s) \<leftarrow> deq s; (xs, s) \<leftarrow> deq_n deq n s; Some (x # xs, s) }"

locale thread_queue =
  fixes enq :: "nat \<Rightarrow> 's \<Rightarrow> 's option"
    and deq :: "'s \<Rightarrow> (nat option \<times> 's) option"
    and holds :: "'s \<Rightarrow> nat list \<Rightarrow> bool"
    and is_thread :: "'s \<Rightarrow> nat \<Rightarrow> bool"
  assumes enq: "holds s ts \<Longrightarrow> t \<notin> set ts \<Longrightarrow> is_thread s t \<Longrightarrow>
      \<exists>s'. enq t s = Some s' \<and> holds s' (ts @ [t]) \<and> is_thread s' = is_thread s"
    and deq_Nil: "holds s [] \<Longrightarrow> deq s = Some (None, s)"
    and deq_Cons: "holds s (t # ts) \<Longrightarrow>
      \<exists>s'. deq s = Some (Some t, s') \<and> holds s' ts \<and> is_thread s' = is_thread s"
begin

lemma enq_all_holds:
  assumes "holds s us" "distinct (us @ ts)" "\<forall>t\<in>set ts. is_thread s t"
  shows "\<exists>s'. enq_all enq ts s = Some s' \<and> holds s' (us @ ts)"
  using assms
proof (induction ts arbitrary: s us)
  case (Cons t ts)
  then obtain s1 where s1: "enq t s = Some s1" "holds s1 (us @ [t])" "is_thread s1 = is_thread s"
    using enq [of s us t] by auto
  with Cons.IH [of s1 "us @ [t]"] Cons.prems show ?case by auto
qed simp

lemma deq_n_holds: "holds s (ts @ us) \<Longrightarrow>
  \<exists>s'. deq_n deq (length ts) s = Some (map Some ts, s') \<and> holds s' us"
proof (induction ts arbitrary: s)
  case (Cons t ts)
  then obtain s1 where "deq s = Some (Some t, s1)" "holds s1 (ts @ us)"
    using deq_Cons [of s t "ts @ us"] by auto
  with Cons.IH [of s1] show ?case by auto
qed simp

lemma fifo:
  assumes "holds s []" "distinct ts" "\<forall>t\<in>set ts. is_thread s t"
  shows "\<exists>s1 s2. enq_all enq ts s = Some s1 \<and>
    deq_n deq (length ts) s1 = Some (map Some ts, s2) \<and> deq s2 = Some (None, s2)"
  using enq_all_holds [of s "[]" ts] deq_n_holds [of _ ts "[]"] deq_Nil assms by fastforce

end

interpretation tq: thread_queue "threadlist_addtail l" "threadlist_remhead l"
  "\<lambda>s. tl_repr s l" "\<lambda>s t. tln_self s (TNode t) = Some t" for l
proof
  show "\<exists>s'. threadlist_addtail l t s = Some s' \<and> tl_repr s' l (ts @ [t]) \<and>
      (\<lambda>t. tln_self s' (TNode t) = Some t) = (\<lambda>t. tln_self s (TNode t) = Some t)"
    if "tl_repr s l ts" "t \<notin> set ts" "tln_self s (TNode t) = Some t" for s ts t
    using addtail_repr [OF that] by (auto simp: tl_frame_def)
  show "tl_repr s l [] \<Longrightarrow> threadlist_remhead l s = Some (None, s)" for s
    by (rule remhead_Nil)
  show "\<exists>s'. threadlist_remhead l s = Some (Some t, s') \<and> tl_repr s' l ts \<and>
      (\<lambda>t. tln_self s' (TNode t) = Some t) = (\<lambda>t. tln_self s (TNode t) = Some t)"
    if "tl_repr s l (t # ts)" for s t ts
    using remhead_Cons [OF that] by (auto simp: tl_frame_def)
qed

section \<open>Properties\<close>

text \<open>
  A thread list is a first-in first-out queue: threads added at the tail of an empty list come
  back from its head in the same order, after which the list is empty again; no assertion of
  \<open>threadlist.c\<close> fails.
\<close>

theorem threadlist_fifo:
  assumes "tl_repr s l []" "distinct ts" "\<forall>t\<in>set ts. tln_self s (TNode t) = Some t"
  shows "\<exists>s1 s2. enq_all (threadlist_addtail l) ts s = Some s1 \<and>
    deq_n (threadlist_remhead l) (length ts) s1 = Some (map Some ts, s2) \<and> threadlist_remhead l s2 = Some (None, s2)"
  by (rule tq.fifo [OF assms])

definition ex_list :: tlstore where
  "ex_list = threadlist_init 0 \<lparr>tln_prev = (\<lambda>_. None), tln_next = (\<lambda>_. None),
     tln_self = (\<lambda>a. case a of TNode t \<Rightarrow> Some t | _ \<Rightarrow> None), tln_priority = (\<lambda>_. 0), tl_count = (\<lambda>_. 0)\<rparr>"

lemma ex_list_ok: "tl_repr ex_list 0 []" "tln_self ex_list (TNode t) = Some t"
  unfolding ex_list_def by (rule init_repr, simp add: threadlist_init_def Let_def)

theorem threadlist_fifo_witness:
  "\<exists>s1 s2. enq_all (threadlist_addtail 0) [5, 7, 6] ex_list = Some s1 \<and>
    deq_n (threadlist_remhead 0) (length [5::nat, 7, 6]) s1 = Some (map Some [5, 7, 6], s2)"
proof -
  have "distinct [5, 7, 6 :: nat]" "\<forall>t\<in>set [5, 7, 6]. tln_self ex_list (TNode t) = Some t"
    by (simp_all add: ex_list_ok)
  from threadlist_fifo [OF ex_list_ok(1) this] show ?thesis by blast
qed

text \<open>
  \<open>threadlist_remove\<close> takes exactly the named thread out of the middle of a list, keeps the
  order of the others and the count, unlinks its node, and does not touch the nodes of any other
  list.
\<close>

theorem threadlist_remove_correct:
  assumes "tl_repr s l (us @ t # vs)"
  shows "\<exists>s'. threadlist_remove l t s = Some s' \<and> tl_repr s' l (us @ vs) \<and>
    tln_next s' (TNode t) = None \<and> tln_prev s' (TNode t) = None \<and>
    (\<forall>k ws. k \<noteq> l \<and> tl_repr s k ws \<and> set ws \<inter> set (us @ t # vs) = {} \<longrightarrow> tl_repr s' k ws)"
proof -
  obtain s' where "threadlist_remove l t s = Some s'" "tl_repr s' l (us @ vs)" "tl_frame l (us @ t # vs) s s'"
      "tln_next s' (TNode t) = None" "tln_prev s' (TNode t) = None"
    using remove_repr [OF assms] by blast
  moreover from this(3) have "tl_repr s' k ws" if "k \<noteq> l" "tl_repr s k ws" "set ws \<inter> set (us @ t # vs) = {}" for k ws
    by (rule tl_frame_repr [OF _ that(2,1,3)])
  ultimately show ?thesis by blast
qed

theorem threadlist_remove_correct_witness:
  "\<exists>s s'. enq_all (threadlist_addtail 0) [5, 7, 6] ex_list = Some s \<and> threadlist_remove 0 7 s = Some s' \<and> tl_repr s' 0 ([5] @ [6])"
proof -
  have "distinct ([] @ [5, 7, 6 :: nat])" "\<forall>t\<in>set [5, 7, 6]. tln_self ex_list (TNode t) = Some t"
    by (simp_all add: ex_list_ok)
  from tq.enq_all_holds [OF ex_list_ok(1) this] obtain s where
    s: "enq_all (threadlist_addtail 0) [5, 7, 6] ex_list = Some s" "tl_repr s 0 ([] @ [5, 7, 6])" by blast
  then have "tl_repr s 0 ([5] @ 7 # [6])" by simp
  from threadlist_remove_correct [OF this] s(1) show ?thesis by blast
qed

end
