(* ===== verification/Spinlock.thy ===== *)
theory Spinlock
  imports Kernel_Prelude
begin

text \<open>
  \<open>kern/thread/spl.c\<close> and \<open>kern/thread/spinlock.c\<close>.

  The first part is one CPU: its interrupt flag, the \<open>t_iplhigh_count\<close> and \<open>t_curspl\<close> of the
  thread it runs, and its \<open>c_spinlocks\<close>. The operations are functions on that state; \<open>None\<close>
  is a panic, a failed \<open>KASSERT\<close>, or (in \<open>spinlock_acquire\<close>) a spin that only another CPU can
  end. The deadlock detector is not configured in (\<open>conf/PROJ3\<close>, line 8), so its hooks are
  empty.

  The second part is any number of CPUs contending for one spinlock, as a step relation whose
  steps are the individual memory accesses of \<open>spinlock_acquire\<close> and \<open>spinlock_release\<close>.
\<close>

record cpustate =
  curcpu_exists :: bool
  irq_on :: bool
  t_iplhigh_count :: int
  t_curspl :: int
  c_spinlocks :: int

record spinlock =
  splk_lock :: nat
  splk_holder :: "nat option"

abbreviation IPL_NONE :: int where "IPL_NONE \<equiv> 0"
abbreviation IPL_HIGH :: int where "IPL_HIGH \<equiv> 1"

section \<open>One CPU\<close>

definition splraise :: "int \<Rightarrow> int \<Rightarrow> cpustate \<Rightarrow> cpustate option" where
  "splraise oldspl newspl c =
     do {
       kassert (oldspl = IPL_NONE);
       kassert (newspl = IPL_HIGH);
       if \<not> curcpu_exists c then Some c
       else
         (let c = (if t_iplhigh_count c = 0 then c\<lparr>irq_on := False\<rparr> else c)
          in Some (c\<lparr>t_iplhigh_count := t_iplhigh_count c + 1\<rparr>))
     }"

definition spllower :: "int \<Rightarrow> int \<Rightarrow> cpustate \<Rightarrow> cpustate option" where
  "spllower oldspl newspl c =
     do {
       kassert (oldspl = IPL_HIGH);
       kassert (newspl = IPL_NONE);
       if \<not> curcpu_exists c then Some c
       else
         (let c = c\<lparr>t_iplhigh_count := t_iplhigh_count c - 1\<rparr>
          in Some (if t_iplhigh_count c = 0 then c\<lparr>irq_on := True\<rparr> else c))
     }"

definition splx :: "int \<Rightarrow> cpustate \<Rightarrow> (int \<times> cpustate) option" where
  "splx spl c =
     (if \<not> curcpu_exists c then Some (spl, c)
      else if t_curspl c < spl then
        do {
          c \<leftarrow> splraise (t_curspl c) spl c;
          Some (t_curspl c, c\<lparr>t_curspl := spl\<rparr>)
        }
      else if t_curspl c > spl then
        (let ret = t_curspl c; c = c\<lparr>t_curspl := spl\<rparr>
         in do { c \<leftarrow> spllower ret spl c; Some (ret, c) })
      else Some (spl, c))"

definition spl0 :: "cpustate \<Rightarrow> (int \<times> cpustate) option" where
  "spl0 = splx IPL_NONE"

definition splhigh :: "cpustate \<Rightarrow> (int \<times> cpustate) option" where
  "splhigh = splx IPL_HIGH"

definition spinlock_init :: "spinlock" where
  "spinlock_init = \<lparr>splk_lock = 0, splk_holder = None\<rparr>"

definition spinlock_cleanup :: "spinlock \<Rightarrow> unit option" where
  "spinlock_cleanup l = do { kassert (splk_holder l = None); kassert (splk_lock l = 0) }"

definition spinlock_acquire :: "nat \<Rightarrow> cpustate \<times> spinlock \<Rightarrow> (cpustate \<times> spinlock) option" where
  "spinlock_acquire me = (\<lambda>(c, l).
     do {
       c \<leftarrow> splraise IPL_NONE IPL_HIGH c;
       if curcpu_exists c \<and> splk_holder l = Some me then None
       else
         (let mycpu = (if curcpu_exists c then Some me else None);
              c = (if curcpu_exists c then c\<lparr>c_spinlocks := c_spinlocks c + 1\<rparr> else c)
          in if splk_lock l \<noteq> 0 then None
             else Some (c, l\<lparr>splk_lock := 1, splk_holder := mycpu\<rparr>))
     })"

definition spinlock_release :: "nat \<Rightarrow> cpustate \<times> spinlock \<Rightarrow> (cpustate \<times> spinlock) option" where
  "spinlock_release me = (\<lambda>(c, l).
     do {
       c \<leftarrow> (if curcpu_exists c then
               do { kassert (splk_holder l = Some me);
                    kassert (c_spinlocks c > 0);
                    Some (c\<lparr>c_spinlocks := c_spinlocks c - 1\<rparr>) }
             else Some c);
       let l = l\<lparr>splk_holder := None, splk_lock := 0\<rparr>;
       c \<leftarrow> spllower IPL_HIGH IPL_NONE c;
       Some (c, l)
     })"

definition spinlock_do_i_hold :: "nat \<Rightarrow> cpustate \<Rightarrow> spinlock \<Rightarrow> bool" where
  "spinlock_do_i_hold me c l = (if \<not> curcpu_exists c then True else splk_holder l = Some me)"

text \<open>
  The interrupt discipline that \<open>spl.c\<close> describes: the count is the number of spinlocks held
  plus one if the priority level is raised, and interrupts are on exactly when it is zero.
\<close>

definition spl_inv :: "cpustate \<Rightarrow> bool" where
  "spl_inv c \<longleftrightarrow> curcpu_exists c \<and> 0 \<le> c_spinlocks c \<and> (t_curspl c = IPL_NONE \<or> t_curspl c = IPL_HIGH) \<and>
     t_iplhigh_count c = c_spinlocks c + t_curspl c \<and> (irq_on c \<longleftrightarrow> t_iplhigh_count c = 0)"

lemma splx_inv:
  assumes "spl_inv c" "spl = IPL_NONE \<or> spl = IPL_HIGH"
  shows "\<exists>c'. splx spl c = Some (t_curspl c, c') \<and> spl_inv c' \<and> t_curspl c' = spl \<and>
    c_spinlocks c' = c_spinlocks c"
  using assms by (auto simp: splx_def splraise_def spllower_def spl_inv_def Let_def)

lemma spinlock_acquire_inv:
  assumes "spl_inv c" "splk_lock l = 0" "splk_holder l = None"
  shows "\<exists>c'. spinlock_acquire me (c, l) = Some (c', \<lparr>splk_lock = 1, splk_holder = Some me\<rparr>) \<and>
    spl_inv c' \<and> c_spinlocks c' = c_spinlocks c + 1 \<and> t_curspl c' = t_curspl c \<and> \<not> irq_on c'"
  using assms by (cases l) (auto simp: spinlock_acquire_def splraise_def spl_inv_def Let_def)

lemma spinlock_acquire_deadlock:
  "curcpu_exists c \<Longrightarrow> splk_holder l = Some me \<Longrightarrow> spinlock_acquire me (c, l) = None"
  by (auto simp: spinlock_acquire_def splraise_def Let_def)

lemma spinlock_release_inv:
  assumes "spl_inv c" "splk_holder l = Some me" "0 < c_spinlocks c"
  shows "\<exists>c'. spinlock_release me (c, l) = Some (c', \<lparr>splk_lock = 0, splk_holder = None\<rparr>) \<and>
    spl_inv c' \<and> c_spinlocks c' = c_spinlocks c - 1 \<and> t_curspl c' = t_curspl c \<and>
    (irq_on c' \<longleftrightarrow> c_spinlocks c = 1 \<and> t_curspl c = IPL_NONE)"
  using assms by (cases l) (auto simp: spinlock_release_def spllower_def spl_inv_def Let_def)

text \<open>
  Acquisitions, releases and priority changes in any order, nested or not, on a set of spinlocks
  of one CPU. A trace that would deadlock or release a lock that is not held has no result.
\<close>

datatype splop = Acq nat | Rel nat | Spl int

fun splop_run :: "nat \<Rightarrow> splop list \<Rightarrow> cpustate \<times> (nat \<Rightarrow> spinlock) \<Rightarrow> (cpustate \<times> (nat \<Rightarrow> spinlock)) option" where
  "splop_run me [] (c, ls) = Some (c, ls)"
| "splop_run me (Acq k # ops) (c, ls) =
     do { (c, l) \<leftarrow> spinlock_acquire me (c, ls k); splop_run me ops (c, ls(k := l)) }"
| "splop_run me (Rel k # ops) (c, ls) =
     do { (c, l) \<leftarrow> spinlock_release me (c, ls k); splop_run me ops (c, ls(k := l)) }"
| "splop_run me (Spl n # ops) (c, ls) =
     do { (_, c) \<leftarrow> splx n c; splop_run me ops (c, ls) }"

lemma spinlock_acquire_keeps: "spl_inv c \<Longrightarrow> spinlock_acquire me (c, l) = Some (c', l') \<Longrightarrow> spl_inv c'"
  by (auto simp: spinlock_acquire_def splraise_def spl_inv_def Let_def split: if_splits)

lemma spinlock_release_keeps: "spl_inv c \<Longrightarrow> spinlock_release me (c, l) = Some (c', l') \<Longrightarrow> spl_inv c'"
  by (auto simp: spinlock_release_def spllower_def spl_inv_def Let_def split: if_splits)

lemma splx_keeps: "spl_inv c \<Longrightarrow> splx n c = Some (r, c') \<Longrightarrow> spl_inv c'"
  by (auto simp: splx_def splraise_def spllower_def spl_inv_def Let_def split: if_splits)

lemma splop_run_inv: "spl_inv c \<Longrightarrow> splop_run me ops (c, ls) = Some (c', ls') \<Longrightarrow> spl_inv c'"
proof (induction me ops "(c, ls)" arbitrary: c ls rule: splop_run.induct)
  case (2 me k ops c ls)
  then show ?case by (auto split: Option.bind_splits dest: spinlock_acquire_keeps)
next
  case (3 me k ops c ls)
  then show ?case by (auto split: Option.bind_splits dest: spinlock_release_keeps)
next
  case (4 me n ops c ls)
  then show ?case by (auto split: Option.bind_splits dest: splx_keeps)
qed simp

section \<open>Many CPUs\<close>

text \<open>
  Where a CPU stands: not using the lock, spinning on the plain read, about to test-and-set, past
  a successful test-and-set, in the critical section, or between the two stores of the release.
\<close>

datatype sppc = SpIdle | SpSpin | SpTas | SpWon | SpCrit | SpRel

record spsys =
  sp_lock :: spinlock
  sp_pc :: "nat \<Rightarrow> sppc"

inductive spin_step :: "spsys \<Rightarrow> spsys \<Rightarrow> bool" where
  sp_enter: "sp_pc s i = SpIdle \<Longrightarrow> splk_holder (sp_lock s) \<noteq> Some i \<Longrightarrow>
     spin_step s (s\<lparr>sp_pc := (sp_pc s)(i := SpSpin)\<rparr>)"
| sp_read_busy: "sp_pc s i = SpSpin \<Longrightarrow> splk_lock (sp_lock s) \<noteq> 0 \<Longrightarrow> spin_step s s"
| sp_read_free: "sp_pc s i = SpSpin \<Longrightarrow> splk_lock (sp_lock s) = 0 \<Longrightarrow>
     spin_step s (s\<lparr>sp_pc := (sp_pc s)(i := SpTas)\<rparr>)"
| sp_tas_lost: "sp_pc s i = SpTas \<Longrightarrow> splk_lock (sp_lock s) \<noteq> 0 \<Longrightarrow>
     spin_step s (s\<lparr>sp_lock := (sp_lock s)\<lparr>splk_lock := 1\<rparr>, sp_pc := (sp_pc s)(i := SpSpin)\<rparr>)"
| sp_tas_won: "sp_pc s i = SpTas \<Longrightarrow> splk_lock (sp_lock s) = 0 \<Longrightarrow>
     spin_step s (s\<lparr>sp_lock := (sp_lock s)\<lparr>splk_lock := 1\<rparr>, sp_pc := (sp_pc s)(i := SpWon)\<rparr>)"
| sp_set_holder: "sp_pc s i = SpWon \<Longrightarrow>
     spin_step s (s\<lparr>sp_lock := (sp_lock s)\<lparr>splk_holder := Some i\<rparr>, sp_pc := (sp_pc s)(i := SpCrit)\<rparr>)"
| sp_clear_holder: "sp_pc s i = SpCrit \<Longrightarrow>
     spin_step s (s\<lparr>sp_lock := (sp_lock s)\<lparr>splk_holder := None\<rparr>, sp_pc := (sp_pc s)(i := SpRel)\<rparr>)"
| sp_clear_word: "sp_pc s i = SpRel \<Longrightarrow>
     spin_step s (s\<lparr>sp_lock := (sp_lock s)\<lparr>splk_lock := 0\<rparr>, sp_pc := (sp_pc s)(i := SpIdle)\<rparr>)"

definition sp_init :: spsys where
  "sp_init = \<lparr>sp_lock = spinlock_init, sp_pc = (\<lambda>_. SpIdle)\<rparr>"

definition sp_inside :: "sppc \<Rightarrow> bool" where
  "sp_inside p \<longleftrightarrow> p = SpWon \<or> p = SpCrit \<or> p = SpRel"

definition spin_inv :: "spsys \<Rightarrow> bool" where
  "spin_inv s \<longleftrightarrow>
     (\<forall>i j. sp_inside (sp_pc s i) \<longrightarrow> sp_inside (sp_pc s j) \<longrightarrow> i = j) \<and>
     (splk_lock (sp_lock s) = 0 \<longleftrightarrow> (\<forall>i. \<not> sp_inside (sp_pc s i))) \<and>
     (\<forall>i. splk_holder (sp_lock s) = Some i \<longleftrightarrow> sp_pc s i = SpCrit)"

text \<open>A step that moves a CPU between positions outside the lock changes nothing of the invariant.\<close>

lemma spin_inv_quiet:
  assumes pcs: "\<And>j. sp_inside (sp_pc s' j) = sp_inside (sp_pc s j)"
    and inv: "spin_inv s"
    and crit: "\<And>j. (sp_pc s' j = SpCrit) = (sp_pc s j = SpCrit)"
    and word: "(splk_lock (sp_lock s') = 0) = (splk_lock (sp_lock s) = 0)"
    and holder: "splk_holder (sp_lock s') = splk_holder (sp_lock s)"
  shows "spin_inv s'"
  using inv unfolding spin_inv_def pcs crit word holder .

lemma spin_step_inv: "spin_step s s' \<Longrightarrow> spin_inv s \<Longrightarrow> spin_inv s'"
proof (induction rule: spin_step.induct)
  case (sp_tas_won s i)
  then have "\<forall>j. \<not> sp_inside (sp_pc s j)" by (simp add: spin_inv_def)
  with sp_tas_won show ?case by (auto simp: spin_inv_def sp_inside_def)
next
  case (sp_set_holder s i)
  then have "\<forall>j. sp_inside (sp_pc s j) \<longrightarrow> j = i" by (auto simp: spin_inv_def sp_inside_def)
  with sp_set_holder show ?case by (fastforce simp: spin_inv_def sp_inside_def)
next
  case (sp_clear_holder s i)
  then have "\<forall>j. sp_inside (sp_pc s j) \<longrightarrow> j = i" by (auto simp: spin_inv_def sp_inside_def)
  with sp_clear_holder show ?case by (fastforce simp: spin_inv_def sp_inside_def)
next
  case (sp_clear_word s i)
  then have "\<forall>j. sp_inside (sp_pc s j) \<longrightarrow> j = i" by (auto simp: spin_inv_def sp_inside_def)
  with sp_clear_word show ?case by (fastforce simp: spin_inv_def sp_inside_def)
next
  case (sp_enter s i)
  then show ?case by (intro spin_inv_quiet [OF _ sp_enter(3)]) (auto simp: sp_inside_def)
next
  case (sp_read_free s i)
  then show ?case by (intro spin_inv_quiet [OF _ sp_read_free(3)]) (auto simp: sp_inside_def)
next
  case (sp_tas_lost s i)
  then show ?case by (intro spin_inv_quiet [OF _ sp_tas_lost(3)]) (auto simp: sp_inside_def)
qed

interpretation spin: step_system "\<lambda>s. s = sp_init" spin_step spin_inv
proof
  show "s = sp_init \<Longrightarrow> spin_inv s" for s
    by (simp add: spin_inv_def sp_init_def spinlock_init_def sp_inside_def)
  show "spin_step s s' \<Longrightarrow> spin_inv s \<Longrightarrow> spin_inv s'" for s s' by (rule spin_step_inv)
qed

section \<open>Properties\<close>

text \<open>
  Whatever spinlock acquisitions, releases and level changes a CPU performs, as long as none of
  them panics, the interrupt bookkeeping stays exact: interrupts are enabled exactly when no
  spinlock is held and the level is \<open>IPL_NONE\<close>, and the raise count is the number of held
  spinlocks plus the level.
\<close>

theorem spl_bookkeeping:
  assumes "splop_run me ops (\<lparr>curcpu_exists = True, irq_on = True, t_iplhigh_count = 0, t_curspl = IPL_NONE,
      c_spinlocks = 0\<rparr>, ls) = Some (c, ls')"
  shows "t_iplhigh_count c = c_spinlocks c + t_curspl c \<and> (irq_on c \<longleftrightarrow> c_spinlocks c = 0 \<and> t_curspl c = IPL_NONE) \<and>
    0 \<le> c_spinlocks c"
proof -
  have "spl_inv c" by (rule splop_run_inv [OF _ assms]) (simp add: spl_inv_def)
  then show ?thesis by (auto simp: spl_inv_def)
qed

theorem spl_bookkeeping_witness:
  "\<not> irq_on (fst (the (splop_run 0 [Acq 1, Spl 1, Acq 2, Rel 1] (\<lparr>curcpu_exists = True, irq_on = True,
      t_iplhigh_count = 0, t_curspl = IPL_NONE, c_spinlocks = 0\<rparr>, \<lambda>_. spinlock_init)))) \<and>
   t_iplhigh_count (fst (the (splop_run 0 [Acq 1, Spl 1, Acq 2, Rel 1] (\<lparr>curcpu_exists = True, irq_on = True,
      t_iplhigh_count = 0, t_curspl = IPL_NONE, c_spinlocks = 0\<rparr>, \<lambda>_. spinlock_init)))) = 2"
proof -
  let ?c = "\<lparr>curcpu_exists = True, irq_on = True, t_iplhigh_count = 0, t_curspl = IPL_NONE, c_spinlocks = 0\<rparr>"
  let ?c' = "\<lparr>curcpu_exists = True, irq_on = False, t_iplhigh_count = 2, t_curspl = IPL_HIGH, c_spinlocks = 1\<rparr>"
  obtain ls where run: "splop_run 0 [Acq 1, Spl 1, Acq 2, Rel 1] (?c, \<lambda>_. spinlock_init) = Some (?c', ls)"
    by (simp add: spinlock_acquire_def spinlock_release_def splx_def splraise_def spllower_def spinlock_init_def)
  from spl_bookkeeping [OF run] run show ?thesis by simp
qed

text \<open>
  C21. Mutual exclusion of spinlocks, at the grain of single loads, stores and test-and-sets: in
  every state reachable by any interleaving of any number of CPUs at most one CPU is past a
  successful test-and-set and not yet done with the release, and \<open>splk_holder\<close> names a CPU only
  while that CPU is in its critical section.
\<close>

theorem spinlock_mutual_exclusion:
  assumes "spin_step\<^sup>*\<^sup>* sp_init s"
  shows "(sp_inside (sp_pc s i) \<and> sp_inside (sp_pc s j) \<longrightarrow> i = j) \<and>
    (splk_holder (sp_lock s) = Some i \<longleftrightarrow> sp_pc s i = SpCrit)"
  using spin.reach_inv [OF assms] by (auto simp: spin_inv_def)

theorem spinlock_mutual_exclusion_witness:
  "splk_holder (sp_lock (\<lparr>sp_lock = \<lparr>splk_lock = 1, splk_holder = Some 5\<rparr>, sp_pc = (\<lambda>_. SpIdle)(5 := SpCrit)\<rparr>)) = Some 5 \<and>
   \<not> sp_inside (sp_pc (\<lparr>sp_lock = \<lparr>splk_lock = 1, splk_holder = Some 5\<rparr>, sp_pc = (\<lambda>_. SpIdle)(5 := SpCrit)\<rparr>) 6)"
proof -
  let ?s = "\<lambda>l h p. \<lparr>sp_lock = \<lparr>splk_lock = l, splk_holder = h\<rparr>, sp_pc = (\<lambda>_. SpIdle)(5 := p)\<rparr>"
  have 1: "spin_step sp_init (?s 0 None SpSpin)"
    using sp_enter [of sp_init 5] by (simp add: sp_init_def spinlock_init_def)
  have 2: "spin_step (?s 0 None SpSpin) (?s 0 None SpTas)" using sp_read_free [of "?s 0 None SpSpin" 5] by simp
  have 3: "spin_step (?s 0 None SpTas) (?s 1 None SpWon)" using sp_tas_won [of "?s 0 None SpTas" 5] by simp
  have 4: "spin_step (?s 1 None SpWon) (?s 1 (Some 5) SpCrit)" using sp_set_holder [of "?s 1 None SpWon" 5] by simp
  have "spin_step\<^sup>*\<^sup>* sp_init (?s 1 (Some 5) SpCrit)"
    using 1 2 3 4 r_into_rtranclp [of spin_step] steps_Cons [of spin_step] by presburger
  from spinlock_mutual_exclusion [OF this, of 5 6] show ?thesis by (auto simp: sp_inside_def)
qed

end
