(* ===== verification/Thread.thy ===== *)
theory Thread
  imports Threadlist Spinlock
begin

text \<open>
  \<open>kern/thread/thread.c\<close> and \<open>kern/thread/clock.c\<close>: threads, CPUs, the context switch, the
  scheduler, migration, wait channels and inter-processor interrupts.

  The state is one record: the store of all thread lists, the thread structures (by address),
  the CPUs (by number), the spinlocks of this file (by name), the thread count and the log of
  \<open>mainbus_send_ipi\<close>. Every function takes the number \<open>me\<close> of the CPU it runs on (\<open>curcpu\<close>).
  Spinlocks are acquired and released with the operations of \<open>Spinlock\<close>; a lock held by
  another CPU makes the call wait, which here has the value \<open>None\<close>, so the lemmas are about
  calls that find their spinlocks free. The \<open>t_curspl\<close> and \<open>t_iplhigh_count\<close> of the running
  thread are in the CPU's \<open>cpustate\<close>, those of every other thread in its own record; the
  context switch moves them. The local variable \<open>spl\<close> of a suspended \<open>thread_switch\<close> is part
  of the saved context. \<open>cpu_idle\<close> is a parameter: it stands for what interrupts and other CPUs
  do while this one idles. \<open>as_activate\<close> changes the MMU only and \<open>kmalloc\<close>'s answers are
  arguments.

  A thread list is named by a number: \<open>runqueue c\<close>, \<open>zombies c\<close>, \<open>wchan_threads w\<close> and the
  lists that live on the stack of \<open>wchan_wakeall\<close> and \<open>thread_consider_migration\<close>.
\<close>

datatype threadstate = S_RUN | S_READY | S_SLEEP | S_ZOMBIE

datatype switchctx = NewContext | SwitchContext int

record kthread =
  t_name :: string
  t_wchan_name :: "string option"
  t_state :: threadstate
  t_stack :: "u32 list option"
  t_context :: switchctx
  t_cpu :: "nat option"
  t_proc :: "nat option"
  t_in_interrupt :: bool
  t_savedspl :: int
  t_savedcount :: int

record 'tlb kcpu =
  c_curthread :: nat
  c_hardclocks :: u32
  c_isidle :: bool
  c_ipi_pending :: u32
  c_shootdown :: "'tlb list"
  c_state :: cpustate

datatype klock = RunqL nat | IpiL nat | CountL | LboltL | ProcL nat | ObjL nat

record 'tlb ksys =
  tls :: tlstore
  thr :: "nat \<Rightarrow> kthread"
  num_cpus :: nat
  cpus :: "nat \<Rightarrow> 'tlb kcpu"
  klk :: "klock \<Rightarrow> spinlock"
  thread_count :: u32
  p_numthreads :: "nat \<Rightarrow> u32"
  freed :: "nat set"
  ipi_log :: "nat list"

definition runqueue :: "nat \<Rightarrow> nat" where "runqueue c = 4 * c"
definition zombies :: "nat \<Rightarrow> nat" where "zombies c = 4 * c + 1"
definition wchan_threads :: "nat \<Rightarrow> nat" where "wchan_threads w = 4 * w + 2"
definition stacklist :: "nat \<Rightarrow> nat" where "stacklist c = 4 * c + 3"

lemma list_names [simp]:
  "runqueue c = runqueue d \<longleftrightarrow> c = d" "zombies c = zombies d \<longleftrightarrow> c = d"
  "wchan_threads v = wchan_threads w \<longleftrightarrow> v = w" "stacklist c = stacklist d \<longleftrightarrow> c = d"
  "runqueue c \<noteq> zombies d" "runqueue c \<noteq> wchan_threads w" "runqueue c \<noteq> stacklist d"
  "zombies c \<noteq> runqueue d" "zombies c \<noteq> wchan_threads w" "zombies c \<noteq> stacklist d"
  "wchan_threads w \<noteq> runqueue c" "wchan_threads w \<noteq> zombies c" "wchan_threads w \<noteq> stacklist c"
  "stacklist c \<noteq> runqueue d" "stacklist c \<noteq> zombies d" "stacklist c \<noteq> wchan_threads w"
  unfolding runqueue_def zombies_def wchan_threads_def stacklist_def by presburger+

abbreviation IPI_PANIC :: nat where "IPI_PANIC \<equiv> 0"
abbreviation IPI_OFFLINE :: nat where "IPI_OFFLINE \<equiv> 1"
abbreviation IPI_UNIDLE :: nat where "IPI_UNIDLE \<equiv> 2"
abbreviation IPI_TLBSHOOTDOWN :: nat where "IPI_TLBSHOOTDOWN \<equiv> 3"
abbreviation TLBSHOOTDOWN_MAX :: nat where "TLBSHOOTDOWN_MAX \<equiv> 16"
abbreviation THREAD_STACK_MAGIC :: u32 where "THREAD_STACK_MAGIC \<equiv> 0xbaadf00d"
abbreviation MAX_NAME_LENGTH :: nat where "MAX_NAME_LENGTH \<equiv> 64"
abbreviation SCHEDULE_HARDCLOCKS :: u32 where "SCHEDULE_HARDCLOCKS \<equiv> 4"
abbreviation MIGRATE_HARDCLOCKS :: u32 where "MIGRATE_HARDCLOCKS \<equiv> 16"

definition upd_thr :: "nat \<Rightarrow> (kthread \<Rightarrow> kthread) \<Rightarrow> 'tlb ksys \<Rightarrow> 'tlb ksys" where
  "upd_thr t f s = s\<lparr>thr := (thr s)(t := f (thr s t))\<rparr>"

definition upd_cpu :: "nat \<Rightarrow> ('tlb kcpu \<Rightarrow> 'tlb kcpu) \<Rightarrow> 'tlb ksys \<Rightarrow> 'tlb ksys" where
  "upd_cpu c f s = s\<lparr>cpus := (cpus s)(c := f (cpus s c))\<rparr>"

lemma upd_sel [simp]:
  "tls (upd_thr t f s) = tls s" "cpus (upd_thr t f s) = cpus s" "klk (upd_thr t f s) = klk s"
  "num_cpus (upd_thr t f s) = num_cpus s" "thread_count (upd_thr t f s) = thread_count s"
  "p_numthreads (upd_thr t f s) = p_numthreads s" "freed (upd_thr t f s) = freed s"
  "ipi_log (upd_thr t f s) = ipi_log s" "thr (upd_thr t f s) = (thr s)(t := f (thr s t))"
  "tls (upd_cpu c g s) = tls s" "thr (upd_cpu c g s) = thr s" "klk (upd_cpu c g s) = klk s"
  "num_cpus (upd_cpu c g s) = num_cpus s" "thread_count (upd_cpu c g s) = thread_count s"
  "p_numthreads (upd_cpu c g s) = p_numthreads s" "freed (upd_cpu c g s) = freed s"
  "ipi_log (upd_cpu c g s) = ipi_log s" "cpus (upd_cpu c g s) = (cpus s)(c := g (cpus s c))"
  by (simp_all add: upd_thr_def upd_cpu_def)

definition curthread :: "nat \<Rightarrow> 'tlb ksys \<Rightarrow> nat" where
  "curthread me s = c_curthread (cpus s me)"

definition sacq :: "nat \<Rightarrow> klock \<Rightarrow> 'tlb ksys \<Rightarrow> 'tlb ksys option" where
  "sacq me k s =
     do { (c, l) \<leftarrow> spinlock_acquire me (c_state (cpus s me), klk s k);
          Some (upd_cpu me (c_state_update (\<lambda>_. c)) (s\<lparr>klk := (klk s)(k := l)\<rparr>)) }"

definition srel :: "nat \<Rightarrow> klock \<Rightarrow> 'tlb ksys \<Rightarrow> 'tlb ksys option" where
  "srel me k s =
     do { (c, l) \<leftarrow> spinlock_release me (c_state (cpus s me), klk s k);
          Some (upd_cpu me (c_state_update (\<lambda>_. c)) (s\<lparr>klk := (klk s)(k := l)\<rparr>)) }"

definition sholds :: "nat \<Rightarrow> klock \<Rightarrow> 'tlb ksys \<Rightarrow> bool" where
  "sholds me k s = spinlock_do_i_hold me (c_state (cpus s me)) (klk s k)"

definition splset :: "nat \<Rightarrow> int \<Rightarrow> 'tlb ksys \<Rightarrow> (int \<times> 'tlb ksys) option" where
  "splset me n s =
     do { (r, c) \<leftarrow> splx n (c_state (cpus s me));
          Some (r, upd_cpu me (c_state_update (\<lambda>_. c)) s) }"

definition tl_addtail :: "nat \<Rightarrow> nat \<Rightarrow> 'tlb ksys \<Rightarrow> 'tlb ksys option" where
  "tl_addtail l t s = do { st \<leftarrow> threadlist_addtail l t (tls s); Some (s\<lparr>tls := st\<rparr>) }"

definition tl_addhead :: "nat \<Rightarrow> nat \<Rightarrow> 'tlb ksys \<Rightarrow> 'tlb ksys option" where
  "tl_addhead l t s = do { st \<leftarrow> threadlist_addhead l t (tls s); Some (s\<lparr>tls := st\<rparr>) }"

definition tl_remhead :: "nat \<Rightarrow> 'tlb ksys \<Rightarrow> (nat option \<times> 'tlb ksys) option" where
  "tl_remhead l s = do { (x, st) \<leftarrow> threadlist_remhead l (tls s); Some (x, s\<lparr>tls := st\<rparr>) }"

definition tl_remtail :: "nat \<Rightarrow> 'tlb ksys \<Rightarrow> (nat option \<times> 'tlb ksys) option" where
  "tl_remtail l s = do { (x, st) \<leftarrow> threadlist_remtail l (tls s); Some (x, s\<lparr>tls := st\<rparr>) }"

section \<open>Threads and CPUs\<close>

definition thread_checkstack_init :: "nat \<Rightarrow> 'tlb ksys \<Rightarrow> 'tlb ksys" where
  "thread_checkstack_init t =
     upd_thr t (\<lambda>x. x\<lparr>t_stack := map_option
       (\<lambda>w. w[0 := THREAD_STACK_MAGIC, 1 := THREAD_STACK_MAGIC, 2 := THREAD_STACK_MAGIC, 3 := THREAD_STACK_MAGIC])
       (t_stack x)\<rparr>)"

definition thread_checkstack :: "nat \<Rightarrow> 'tlb ksys \<Rightarrow> unit option" where
  "thread_checkstack t s =
     (case t_stack (thr s t) of
        None \<Rightarrow> Some ()
      | Some w \<Rightarrow> do { kassert (w ! 0 = THREAD_STACK_MAGIC); kassert (w ! 1 = THREAD_STACK_MAGIC);
                      kassert (w ! 2 = THREAD_STACK_MAGIC); kassert (w ! 3 = THREAD_STACK_MAGIC) })"

text \<open>
  The new structure's address is what \<open>kmalloc\<close> answered (\<open>None\<close>: NULL). The bytes \<open>strcpy\<close>
  stores into \<open>t_name\<close> are the name and its terminator.
\<close>

definition thread_create :: "string \<Rightarrow> nat option \<Rightarrow> 'tlb ksys \<Rightarrow> nat option \<times> 'tlb ksys" where
  "thread_create name addr s =
     (if length name > MAX_NAME_LENGTH then (None, s)
      else case addr of
        None \<Rightarrow> (None, s)
      | Some t \<Rightarrow>
          (Some t,
           s\<lparr>thr := (thr s)(t :=
               \<lparr>t_name = name @ [CHR 0x00], t_wchan_name = Some ''NEW'', t_state = S_READY,
                t_stack = None, t_context = NewContext, t_cpu = None, t_proc = None,
                t_in_interrupt = False, t_savedspl = IPL_HIGH, t_savedcount = 1\<rparr>),
             tls := threadlistnode_init (TNode t) t (tls s)\<rparr>))"

definition thread_destroy :: "nat \<Rightarrow> nat \<Rightarrow> 'tlb ksys \<Rightarrow> 'tlb ksys option" where
  "thread_destroy me t s =
     do {
       kassert (t \<noteq> curthread me s);
       kassert (t_state (thr s t) \<noteq> S_RUN);
       kassert (t_proc (thr s t) = None);
       let s = upd_thr t (t_stack_update (\<lambda>_. None)) s;
       threadlistnode_cleanup (TNode t) (tls s);
       let s = upd_thr t (t_wchan_name_update (\<lambda>_. Some ''DESTROYED'')) s;
       Some (s\<lparr>freed := insert t (freed s)\<rparr>)
     }"

text \<open>
  \<open>exorcise\<close>: the loop ends because every round takes a node off a list; that is the theorem
  \<open>exorcise_ok\<close> below.
\<close>

partial_function (option) exorcise :: "nat \<Rightarrow> 'tlb ksys \<Rightarrow> 'tlb ksys option" where
  "exorcise me s =
     do {
       (z, s) \<leftarrow> tl_remhead (zombies me) s;
       case z of
         None \<Rightarrow> Some s
       | Some z \<Rightarrow> do {
           kassert (z \<noteq> curthread me s);
           kassert (t_state (thr s z) = S_ZOMBIE);
           s \<leftarrow> thread_destroy me z s;
           exorcise me s }
     }"

section \<open>Inter-processor interrupts\<close>

definition ipi_send :: "nat \<Rightarrow> nat \<Rightarrow> nat \<Rightarrow> 'tlb ksys \<Rightarrow> 'tlb ksys option" where
  "ipi_send me target code s =
     do {
       kassert (code < 32);
       s \<leftarrow> sacq me (IpiL target) s;
       let s = upd_cpu target (\<lambda>c. c\<lparr>c_ipi_pending := c_ipi_pending c OR push_bit code 1\<rparr>) s;
       let s = s\<lparr>ipi_log := ipi_log s @ [target]\<rparr>;
       srel me (IpiL target) s
     }"

fun ipi_bcast_loop :: "nat \<Rightarrow> nat \<Rightarrow> nat list \<Rightarrow> 'tlb ksys \<Rightarrow> 'tlb ksys option" where
  "ipi_bcast_loop me code [] s = Some s"
| "ipi_bcast_loop me code (c # cs) s =
     (if c \<noteq> me then do { s \<leftarrow> ipi_send me c code s; ipi_bcast_loop me code cs s }
      else ipi_bcast_loop me code cs s)"

definition ipi_broadcast :: "nat \<Rightarrow> nat \<Rightarrow> 'tlb ksys \<Rightarrow> 'tlb ksys option" where
  "ipi_broadcast me code s = ipi_bcast_loop me code [0..<num_cpus s] s"

definition ipi_tlbshootdown :: "nat \<Rightarrow> nat \<Rightarrow> 'tlb \<Rightarrow> 'tlb ksys \<Rightarrow> 'tlb ksys option" where
  "ipi_tlbshootdown me target mapping s =
     do {
       s \<leftarrow> sacq me (IpiL target) s;
       let n = length (c_shootdown (cpus s target));
       s \<leftarrow> (if n = TLBSHOOTDOWN_MAX then None
             else Some (upd_cpu target (\<lambda>c. c\<lparr>c_shootdown := c_shootdown c @ [mapping]\<rparr>) s));
       let s = upd_cpu target (\<lambda>c. c\<lparr>c_ipi_pending := c_ipi_pending c OR push_bit IPI_TLBSHOOTDOWN 1\<rparr>) s;
       let s = s\<lparr>ipi_log := ipi_log s @ [target]\<rparr>;
       srel me (IpiL target) s
     }"

text \<open>
  The handler either halts the CPU (it never returns, and the state it leaves is kept) or handles
  the queued shootdowns, in order, with \<open>vm_tlbshootdown\<close>, and clears the pending word.
\<close>

datatype 'tlb ipi_result = IpiHalted "'tlb ksys" | IpiHandled "'tlb list" "'tlb ksys"

definition interprocessor_interrupt :: "nat \<Rightarrow> 'tlb ksys \<Rightarrow> 'tlb ipi_result option" where
  "interprocessor_interrupt me s =
     do {
       s \<leftarrow> sacq me (IpiL me) s;
       let bits = c_ipi_pending (cpus s me);
       if bits AND push_bit IPI_PANIC 1 \<noteq> 0 then
         do { s \<leftarrow> srel me (IpiL me) s; Some (IpiHalted s) }
       else if bits AND push_bit IPI_OFFLINE 1 \<noteq> 0 then
         do { s \<leftarrow> srel me (IpiL me) s;
              s \<leftarrow> sacq me (RunqL me) s;
              s \<leftarrow> srel me (RunqL me) s;
              Some (IpiHalted s) }
       else
         (let shot = (if bits AND push_bit IPI_TLBSHOOTDOWN 1 \<noteq> 0 then c_shootdown (cpus s me) else []);
              s = (if bits AND push_bit IPI_TLBSHOOTDOWN 1 \<noteq> 0
                   then upd_cpu me (c_shootdown_update (\<lambda>_. [])) s else s);
              s = upd_cpu me (c_ipi_pending_update (\<lambda>_. 0)) s
          in do { s \<leftarrow> srel me (IpiL me) s; Some (IpiHandled shot s) })
     }"

definition thread_panic :: "nat \<Rightarrow> 'tlb ksys \<Rightarrow> 'tlb ksys option" where
  "thread_panic me s =
     do {
       s \<leftarrow> ipi_broadcast me IPI_PANIC s;
       let rq = runqueue me;
       Some (s\<lparr>tls := set_prev (TlTail rq) (Some (TlHead rq))
                      (set_next (TlHead rq) (Some (TlTail rq)) (set_count rq 0 (tls s)))\<rparr>)
     }"

definition thread_shutdown :: "nat \<Rightarrow> 'tlb ksys \<Rightarrow> 'tlb ksys option" where
  "thread_shutdown me s = ipi_broadcast me IPI_OFFLINE s"

section \<open>Run queues and wait channels\<close>

definition thread_make_runnable :: "nat \<Rightarrow> nat \<Rightarrow> bool \<Rightarrow> 'tlb ksys \<Rightarrow> 'tlb ksys option" where
  "thread_make_runnable me target already_have_lock s =
     do {
       targetcpu \<leftarrow> t_cpu (thr s target);
       s \<leftarrow> (if already_have_lock then do { kassert (sholds me (RunqL targetcpu) s); Some s }
             else sacq me (RunqL targetcpu) s);
       let s = upd_thr target (t_state_update (\<lambda>_. S_READY)) s;
       s \<leftarrow> tl_addtail (runqueue targetcpu) target s;
       s \<leftarrow> (if c_isidle (cpus s targetcpu) \<and> targetcpu \<noteq> me then ipi_send me targetcpu IPI_UNIDLE s
             else Some s);
       if \<not> already_have_lock then srel me (RunqL targetcpu) s else Some s
     }"

definition wchan_create :: "nat option \<Rightarrow> 'tlb ksys \<Rightarrow> nat option \<times> 'tlb ksys" where
  "wchan_create addr s =
     (case addr of
        None \<Rightarrow> (None, s)
      | Some w \<Rightarrow> (Some w, s\<lparr>tls := threadlist_init (wchan_threads w) (tls s)\<rparr>))"

definition wchan_destroy :: "nat \<Rightarrow> 'tlb ksys \<Rightarrow> unit option" where
  "wchan_destroy w s = threadlist_cleanup (wchan_threads w) (tls s)"

definition wchan_isempty :: "nat \<Rightarrow> nat \<Rightarrow> klock \<Rightarrow> 'tlb ksys \<Rightarrow> bool option" where
  "wchan_isempty me w lk s =
     do { kassert (sholds me lk s); Some (threadlist_isempty (wchan_threads w) (tls s)) }"

definition wchan_wakeone :: "nat \<Rightarrow> nat \<Rightarrow> klock \<Rightarrow> 'tlb ksys \<Rightarrow> 'tlb ksys option" where
  "wchan_wakeone me w lk s =
     do {
       kassert (sholds me lk s);
       (target, s) \<leftarrow> tl_remhead (wchan_threads w) s;
       case target of
         None \<Rightarrow> Some s
       | Some t \<Rightarrow> thread_make_runnable me t False s
     }"

text \<open>The two loops of \<open>wchan_wakeall\<close>.\<close>

partial_function (option) drain_to :: "nat \<Rightarrow> nat \<Rightarrow> 'tlb ksys \<Rightarrow> 'tlb ksys option" where
  "drain_to l k s =
     do {
       (target, s) \<leftarrow> tl_remhead l s;
       case target of
         None \<Rightarrow> Some s
       | Some t \<Rightarrow> do { s \<leftarrow> tl_addtail k t s; drain_to l k s }
     }"

partial_function (option) wake_list :: "nat \<Rightarrow> nat \<Rightarrow> 'tlb ksys \<Rightarrow> 'tlb ksys option" where
  "wake_list me l s =
     do {
       (target, s) \<leftarrow> tl_remhead l s;
       case target of
         None \<Rightarrow> Some s
       | Some t \<Rightarrow> do { s \<leftarrow> thread_make_runnable me t False s; wake_list me l s }
     }"

definition wchan_wakeall :: "nat \<Rightarrow> nat \<Rightarrow> klock \<Rightarrow> 'tlb ksys \<Rightarrow> 'tlb ksys option" where
  "wchan_wakeall me w lk s =
     do {
       kassert (sholds me lk s);
       let lst = stacklist me;
       let s = s\<lparr>tls := threadlist_init lst (tls s)\<rparr>;
       s \<leftarrow> drain_to (wchan_threads w) lst s;
       s \<leftarrow> wake_list me lst s;
       threadlist_cleanup lst (tls s);
       Some s
     }"

section \<open>Creating threads\<close>

definition proc_addthread :: "nat \<Rightarrow> nat \<Rightarrow> nat \<Rightarrow> 'tlb ksys \<Rightarrow> (errno \<times> 'tlb ksys) option" where
  "proc_addthread me proc t s =
     do {
       kassert (t_proc (thr s t) = None);
       s \<leftarrow> sacq me (ProcL proc) s;
       let s = s\<lparr>p_numthreads := (p_numthreads s)(proc := p_numthreads s proc + 1)\<rparr>;
       s \<leftarrow> srel me (ProcL proc) s;
       (spl, s) \<leftarrow> splset me IPL_HIGH s;
       let s = upd_thr t (t_proc_update (\<lambda>_. Some proc)) s;
       (_, s) \<leftarrow> splset me spl s;
       Some (0, s)
     }"

text \<open>
  \<open>thread_fork\<close>: \<open>addr\<close> and \<open>stack\<close> are the two answers of \<open>kmalloc\<close>, \<open>wc\<close> is
  \<open>thread_count_wchan\<close>.
\<close>

definition thread_fork ::
  "nat \<Rightarrow> nat \<Rightarrow> string \<Rightarrow> nat option \<Rightarrow> nat option \<Rightarrow> u32 list option \<Rightarrow> 'tlb ksys \<Rightarrow> (errno \<times> 'tlb ksys) option" where
  "thread_fork me wc name proc addr stack s =
     (case thread_create name addr s of
        (None, s) \<Rightarrow> Some (ENOMEM, s)
      | (Some newthread, s) \<Rightarrow>
          (case stack of
             None \<Rightarrow> do { s \<leftarrow> thread_destroy me newthread s; Some (ENOMEM, s) }
           | Some w \<Rightarrow>
               do {
                 let s = upd_thr newthread (t_stack_update (\<lambda>_. Some w)) s;
                 let s = thread_checkstack_init newthread s;
                 let s = upd_thr newthread (t_cpu_update (\<lambda>_. t_cpu (thr s (curthread me s)))) s;
                 p \<leftarrow> (case proc of None \<Rightarrow> t_proc (thr s (curthread me s)) | Some p \<Rightarrow> Some p);
                 (result, s) \<leftarrow> proc_addthread me p newthread s;
                 if result \<noteq> 0 then do { s \<leftarrow> thread_destroy me newthread s; Some (result, s) }
                 else do {
                   let s = upd_thr newthread (\<lambda>x. x\<lparr>t_savedcount := t_savedcount x + 1\<rparr>) s;
                   s \<leftarrow> sacq me CountL s;
                   let s = s\<lparr>thread_count := thread_count s + 1\<rparr>;
                   s \<leftarrow> wchan_wakeall me wc CountL s;
                   s \<leftarrow> srel me CountL s;
                   let s = upd_thr newthread (t_context_update (\<lambda>_. NewContext)) s;
                   s \<leftarrow> thread_make_runnable me newthread False s;
                   Some (0, s)
                 }
               }))"

section \<open>The context switch\<close>

text \<open>The loop that picks the next thread, idling while the run queue is empty.\<close>

partial_function (option) pick_next ::
  "('tlb ksys \<Rightarrow> 'tlb ksys) \<Rightarrow> nat \<Rightarrow> 'tlb ksys \<Rightarrow> (nat \<times> 'tlb ksys) option" where
  "pick_next cpu_idle me s =
     do {
       (x, s) \<leftarrow> tl_remhead (runqueue me) s;
       case x of
         Some t \<Rightarrow> Some (t, s)
       | None \<Rightarrow> do {
           s \<leftarrow> srel me (RunqL me) s;
           s \<leftarrow> sacq me (RunqL me) (cpu_idle s);
           pick_next cpu_idle me s }
     }"

text \<open>
  \<open>switchframe_switch\<close>: the outgoing thread's priority state and its local \<open>spl\<close> are saved and
  those of the incoming one are loaded.
\<close>

definition switchframe_switch :: "nat \<Rightarrow> nat \<Rightarrow> nat \<Rightarrow> int \<Rightarrow> 'tlb ksys \<Rightarrow> 'tlb ksys" where
  "switchframe_switch me cur next spl s =
     (let c = c_state (cpus s me);
          s = upd_thr cur (\<lambda>x. x\<lparr>t_context := SwitchContext spl, t_savedspl := t_curspl c,
                               t_savedcount := t_iplhigh_count c\<rparr>) s
      in upd_cpu me (c_state_update (\<lambda>c. c\<lparr>t_curspl := t_savedspl (thr s next),
                                          t_iplhigh_count := t_savedcount (thr s next)\<rparr>)) s)"

text \<open>What the incoming thread runs first: the tail of its own \<open>thread_switch\<close>, or the
  beginning of \<open>thread_startup\<close> when it is new.\<close>

definition thread_startup :: "nat \<Rightarrow> 'tlb ksys \<Rightarrow> 'tlb ksys option" where
  "thread_startup me s =
     do {
       let s = upd_thr (curthread me s) (\<lambda>x. x\<lparr>t_wchan_name := None, t_state := S_RUN\<rparr>) s;
       s \<leftarrow> srel me (RunqL me) s;
       s \<leftarrow> exorcise me s;
       (_, s) \<leftarrow> splset me IPL_NONE s;
       Some s
     }"

definition switch_tail :: "nat \<Rightarrow> int \<Rightarrow> 'tlb ksys \<Rightarrow> 'tlb ksys option" where
  "switch_tail me spl s =
     do {
       let s = upd_thr (curthread me s) (\<lambda>x. x\<lparr>t_wchan_name := None, t_state := S_RUN\<rparr>) s;
       s \<leftarrow> srel me (RunqL me) s;
       s \<leftarrow> exorcise me s;
       (_, s) \<leftarrow> splset me spl s;
       Some s
     }"

definition thread_resume :: "nat \<Rightarrow> nat \<Rightarrow> 'tlb ksys \<Rightarrow> 'tlb ksys option" where
  "thread_resume me next s =
     (case t_context (thr s next) of
        NewContext \<Rightarrow> thread_startup me s
      | SwitchContext spl \<Rightarrow> switch_tail me spl s)"

definition put_away ::
  "nat \<Rightarrow> threadstate \<Rightarrow> (nat \<times> string \<times> klock) option \<Rightarrow> nat \<Rightarrow> 'tlb ksys \<Rightarrow> 'tlb ksys option" where
  "put_away me newstate wc cur s =
     (case newstate of
        S_RUN \<Rightarrow> None
      | S_READY \<Rightarrow> thread_make_runnable me cur True s
      | S_SLEEP \<Rightarrow>
          do { (w, wname, lk) \<leftarrow> wc;
               let s = upd_thr cur (t_wchan_name_update (\<lambda>_. Some wname)) s;
               s \<leftarrow> tl_addtail (wchan_threads w) cur s;
               srel me lk s }
      | S_ZOMBIE \<Rightarrow>
          (let s = upd_thr cur (t_wchan_name_update (\<lambda>_. Some ''ZOMBIE'')) s
           in tl_addtail (zombies me) cur s))"

definition thread_switch ::
  "('tlb ksys \<Rightarrow> 'tlb ksys) \<Rightarrow> nat \<Rightarrow> threadstate \<Rightarrow> (nat \<times> string \<times> klock) option \<Rightarrow> 'tlb ksys \<Rightarrow> 'tlb ksys option" where
  "thread_switch cpu_idle me newstate wc s =
     do {
       (spl, s) \<leftarrow> splset me IPL_HIGH s;
       let cur = curthread me s;
       if c_isidle (cpus s me) then do { (_, s) \<leftarrow> splset me spl s; Some s }
       else do {
         thread_checkstack cur s;
         s \<leftarrow> sacq me (RunqL me) s;
         if newstate = S_READY \<and> threadlist_isempty (runqueue me) (tls s) then
           do { s \<leftarrow> srel me (RunqL me) s; (_, s) \<leftarrow> splset me spl s; Some s }
         else do {
           s \<leftarrow> put_away me newstate wc cur s;
           let s = upd_thr cur (t_state_update (\<lambda>_. newstate)) s;
           let s = upd_cpu me (c_isidle_update (\<lambda>_. True)) s;
           (next, s) \<leftarrow> pick_next cpu_idle me s;
           let s = upd_cpu me (c_isidle_update (\<lambda>_. False)) s;
           let s = upd_cpu me (c_curthread_update (\<lambda>_. next)) s;
           let s = switchframe_switch me cur next spl s;
           thread_resume me next s
         }
       }
     }"

definition thread_yield :: "('tlb ksys \<Rightarrow> 'tlb ksys) \<Rightarrow> nat \<Rightarrow> 'tlb ksys \<Rightarrow> 'tlb ksys option" where
  "thread_yield cpu_idle me s = thread_switch cpu_idle me S_READY None s"

text \<open>
  \<open>wchan_sleep\<close>, up to the point where the CPU runs another thread. When the sleeper runs again
  it re-acquires \<open>lk\<close> (\<open>wchan_sleep_resume\<close>) and its caller's loop tests its condition again.
\<close>

definition wchan_sleep ::
  "('tlb ksys \<Rightarrow> 'tlb ksys) \<Rightarrow> nat \<Rightarrow> nat \<Rightarrow> string \<Rightarrow> klock \<Rightarrow> 'tlb ksys \<Rightarrow> 'tlb ksys option" where
  "wchan_sleep cpu_idle me w wname lk s =
     do {
       kassert (\<not> t_in_interrupt (thr s (curthread me s)));
       kassert (sholds me lk s);
       kassert (c_spinlocks (c_state (cpus s me)) = 1);
       thread_switch cpu_idle me S_SLEEP (Some (w, wname, lk)) s
     }"

definition wchan_sleep_resume :: "nat \<Rightarrow> klock \<Rightarrow> 'tlb ksys \<Rightarrow> 'tlb ksys option" where
  "wchan_sleep_resume me lk s = sacq me lk s"

section \<open>The scheduler and migration\<close>

text \<open>
  \<open>schedule\<close> walks the current run queue twice, from the head bookend on, and takes no lock. The
  first loop ages every node it leaves, the head bookend included; the second moves a node with
  a higher priority in front of its predecessor. A NULL \<open>tln_self\<close> (a bookend's) given to
  \<open>threadlist_remove\<close> or \<open>threadlist_insertbefore\<close> is a fault.
\<close>

partial_function (option) sched_age :: "tlref \<Rightarrow> tlstore \<Rightarrow> tlstore option" where
  "sched_age cur s =
     (case tln_next s cur of
        None \<Rightarrow> Some s
      | Some n \<Rightarrow> sched_age n (s\<lparr>tln_priority := (tln_priority s)(cur := tln_priority s cur + 1)\<rparr>))"

partial_function (option) sched_bubble :: "nat \<Rightarrow> tlref \<Rightarrow> tlstore \<Rightarrow> tlstore option" where
  "sched_bubble l cur s =
     (case tln_next s cur of
        None \<Rightarrow> Some s
      | Some nx \<Rightarrow>
          do {
            s \<leftarrow> (if tln_priority s nx > tln_priority s cur then
                    do { t \<leftarrow> tln_self s nx;
                         s \<leftarrow> threadlist_remove l t s;
                         t \<leftarrow> tln_self s nx;
                         u \<leftarrow> tln_self s cur;
                         threadlist_insertbefore l t u s }
                  else Some s);
            n \<leftarrow> tln_next s cur;
            sched_bubble l n s
          })"

definition schedule :: "nat \<Rightarrow> 'tlb ksys \<Rightarrow> 'tlb ksys option" where
  "schedule me s =
     do {
       c \<leftarrow> t_cpu (thr s (curthread me s));
       let l = runqueue c;
       st \<leftarrow> sched_age (TlHead l) (tls s);
       st \<leftarrow> sched_bubble l (TlHead l) st;
       Some (s\<lparr>tls := st\<rparr>)
     }"

text \<open>The loops of \<open>thread_consider_migration\<close>, in the order the function has them.\<close>

fun mig_count :: "nat \<Rightarrow> nat list \<Rightarrow> u32 \<Rightarrow> u32 \<Rightarrow> 'tlb ksys \<Rightarrow> (u32 \<times> u32 \<times> 'tlb ksys) option" where
  "mig_count me [] my tot s = Some (my, tot, s)"
| "mig_count me (c # cs) my tot s =
     do {
       s \<leftarrow> sacq me (RunqL c) s;
       let tot = tot + tl_count (tls s) (runqueue c);
       let my = (if c = me then tl_count (tls s) (runqueue c) else my);
       s \<leftarrow> srel me (RunqL c) s;
       mig_count me cs my tot s
     }"

primrec mig_take :: "nat \<Rightarrow> nat \<Rightarrow> 'tlb ksys \<Rightarrow> 'tlb ksys option" where
  "mig_take me 0 s = Some s"
| "mig_take me (Suc n) s =
     do {
       (x, s) \<leftarrow> tl_remtail (runqueue me) s;
       t \<leftarrow> x;
       s \<leftarrow> tl_addhead (stacklist me) t s;
       mig_take me n s
     }"

primrec mig_fill :: "nat \<Rightarrow> nat \<Rightarrow> u32 \<Rightarrow> nat \<Rightarrow> 'tlb ksys \<Rightarrow> (nat \<times> 'tlb ksys) option" where
  "mig_fill me c one_share 0 s = Some (0, s)"
| "mig_fill me c one_share (Suc to_send) s =
     (if tl_count (tls s) (runqueue c) < one_share then
        do {
          (x, s) \<leftarrow> tl_remhead (stacklist me) s;
          t \<leftarrow> x;
          if t = curthread me s then
            do { s \<leftarrow> tl_addtail (stacklist me) t s; mig_fill me c one_share to_send s }
          else
            do { let s = upd_thr t (t_cpu_update (\<lambda>_. Some c)) s;
                 s \<leftarrow> tl_addtail (runqueue c) t s;
                 s \<leftarrow> (if c_isidle (cpus s c) then ipi_send me c IPI_UNIDLE s else Some s);
                 mig_fill me c one_share to_send s }
        }
      else Some (Suc to_send, s))"

fun mig_spread :: "nat \<Rightarrow> u32 \<Rightarrow> nat list \<Rightarrow> nat \<Rightarrow> 'tlb ksys \<Rightarrow> 'tlb ksys option" where
  "mig_spread me one_share [] to_send s = Some s"
| "mig_spread me one_share (c # cs) to_send s =
     (if to_send = 0 then Some s
      else if c = me then mig_spread me one_share cs to_send s
      else do {
        s \<leftarrow> sacq me (RunqL c) s;
        (to_send, s) \<leftarrow> mig_fill me c one_share to_send s;
        s \<leftarrow> srel me (RunqL c) s;
        mig_spread me one_share cs to_send s
      })"

definition thread_consider_migration :: "nat \<Rightarrow> 'tlb ksys \<Rightarrow> 'tlb ksys option" where
  "thread_consider_migration me s =
     do {
       let numcpus = num_cpus s;
       (my_count, total_count, s) \<leftarrow> mig_count me [0..<numcpus] 0 0 s;
       let one_share = (of_nat (DIVROUNDUP (unat total_count) numcpus) :: u32);
       if my_count < one_share then Some s
       else do {
         let to_send = unat (my_count - one_share);
         let victims = stacklist me;
         let s = s\<lparr>tls := threadlist_init victims (tls s)\<rparr>;
         s \<leftarrow> sacq me (RunqL me) s;
         s \<leftarrow> mig_take me to_send s;
         s \<leftarrow> srel me (RunqL me) s;
         s \<leftarrow> mig_spread me one_share [0..<numcpus] to_send s;
         s \<leftarrow> (if \<not> threadlist_isempty victims (tls s) then
                 do { s \<leftarrow> sacq me (RunqL me) s;
                      s \<leftarrow> drain_to victims (runqueue me) s;
                      srel me (RunqL me) s }
               else Some s);
         kassert (threadlist_isempty victims (tls s));
         threadlist_cleanup victims (tls s);
         Some s
       }
     }"

section \<open>The clock\<close>

definition hardclock :: "('tlb ksys \<Rightarrow> 'tlb ksys) \<Rightarrow> nat \<Rightarrow> 'tlb ksys \<Rightarrow> 'tlb ksys option" where
  "hardclock cpu_idle me s =
     do {
       let s = upd_cpu me (\<lambda>c. c\<lparr>c_hardclocks := c_hardclocks c + 1\<rparr>) s;
       s \<leftarrow> (if c_hardclocks (cpus s me) mod MIGRATE_HARDCLOCKS = 0
             then thread_consider_migration me s else Some s);
       s \<leftarrow> (if c_hardclocks (cpus s me) mod SCHEDULE_HARDCLOCKS = 0
             then schedule me s else Some s);
       thread_yield cpu_idle me s
     }"

definition timerclock :: "nat \<Rightarrow> nat \<Rightarrow> 'tlb ksys \<Rightarrow> 'tlb ksys option" where
  "timerclock me lbolt s =
     do { s \<leftarrow> sacq me LboltL s; s \<leftarrow> wchan_wakeall me lbolt LboltL s; srel me LboltL s }"

section \<open>The queues of a system\<close>

text \<open>
  \<open>qrep st q\<close>: every list \<open>l\<close> of the store holds exactly \<open>q l\<close>, no thread is on two lists, and
  every thread address (below \<open>2 ^ 29\<close>: the kernel's unmapped segment) has an initialised node.
\<close>

abbreviation THREAD_ADDRS :: nat where "THREAD_ADDRS \<equiv> 2 ^ 29"

definition qrep :: "tlstore \<Rightarrow> (nat \<Rightarrow> nat list) \<Rightarrow> bool" where
  "qrep st q \<longleftrightarrow>
     (\<forall>l. tl_repr st l (q l)) \<and>
     (\<forall>l k. l \<noteq> k \<longrightarrow> set (q l) \<inter> set (q k) = {}) \<and>
     (\<forall>l. \<forall>t\<in>set (q l). t < THREAD_ADDRS) \<and>
     (\<forall>t<THREAD_ADDRS. tln_self st (TNode t) = Some t)"

lemma qrepD:
  assumes "qrep st q"
  shows "tl_repr st l (q l)" "distinct (q l)"
    "l \<noteq> k \<Longrightarrow> t \<in> set (q l) \<Longrightarrow> t \<notin> set (q k)"
    "t \<in> set (q l) \<Longrightarrow> t < THREAD_ADDRS"
    "t < THREAD_ADDRS \<Longrightarrow> tln_self st (TNode t) = Some t"
proof -
  show "tl_repr st l (q l)" using assms by (simp add: qrep_def)
  then show "distinct (q l)" by (simp add: tl_repr_def)
  show "t \<notin> set (q k)" if "l \<noteq> k" "t \<in> set (q l)" using assms that unfolding qrep_def by blast
  show "t < THREAD_ADDRS" if "t \<in> set (q l)" using assms that unfolding qrep_def by blast
  show "tln_self st (TNode t) = Some t" if "t < THREAD_ADDRS" using assms that unfolding qrep_def by blast
qed

lemma qrep_length: "qrep st q \<Longrightarrow> length (q l) < 2 ^ 32"
proof -
  assume Q: "qrep st q"
  have "set (q l) \<subseteq> {..<THREAD_ADDRS}" using qrepD(4) [OF Q] by blast
  then have "card (set (q l)) \<le> card {..<THREAD_ADDRS}" by (rule card_mono [rotated]) simp
  then show ?thesis using qrepD(2) [OF Q, of l] by (simp add: distinct_card)
qed

lemma qrep_isempty: "qrep st q \<Longrightarrow> threadlist_isempty l st \<longleftrightarrow> q l = []"
  by (rule isempty_repr [OF qrepD(1) qrep_length])

lemma qrep_count: "qrep st q \<Longrightarrow> unat (tl_count st l) = length (q l)"
  using qrep_length [of st q l] qrepD(1) [of st q l]
  by (simp add: tl_repr_def unsigned_of_nat take_bit_nat_eq_self)

lemma qrep_step:
  assumes Q: "qrep st q" and R: "tl_repr st' l ts" and F: "tl_frame l fs st st'"
    and fs: "\<And>t. t \<in> set fs \<Longrightarrow> t \<in> set (q l) \<or> (\<forall>k. t \<notin> set (q k))" and ts: "set ts \<subseteq> set fs"
    and addrs: "\<And>t. t \<in> set ts \<Longrightarrow> t < THREAD_ADDRS"
  shows "qrep st' (q(l := ts))"
proof -
  have off: "set (q k) \<inter> set fs = {}" if "k \<noteq> l" for k
  proof -
    have "t \<notin> set (q k)" if "t \<in> set fs" for t
      using fs [OF that] qrepD(3) [OF Q, of l k t] \<open>k \<noteq> l\<close> by auto
    then show ?thesis by blast
  qed
  have rep: "tl_repr st' k ((q(l := ts)) k)" for k
  proof (cases "k = l")
    case False
    then show ?thesis using tl_frame_repr [OF F qrepD(1) [OF Q] False off [OF False]] by simp
  qed (use R in simp)
  have dis: "set ((q(l := ts)) i) \<inter> set ((q(l := ts)) k) = {}" if "i \<noteq> k" for i k
  proof -
    have "set (q i) \<inter> set (q k) = {}" using qrepD(3) [OF Q that] by blast
    then show ?thesis using off [of i] off [of k] that ts by auto
  qed
  have "t < THREAD_ADDRS" if "t \<in> set ((q(l := ts)) k)" for k t
    using that addrs qrepD(4) [OF Q] by (cases "k = l") auto
  moreover have "tln_self st' (TNode t) = Some t" if "t < THREAD_ADDRS" for t
    using F qrepD(5) [OF Q that] by (simp add: tl_frame_def)
  ultimately show ?thesis using rep dis unfolding qrep_def by blast
qed

text \<open>\<open>off_lists q t\<close>: the thread is on none of the lists.\<close>

definition off_lists :: "(nat \<Rightarrow> nat list) \<Rightarrow> nat \<Rightarrow> bool" where
  "off_lists q t \<longleftrightarrow> t < THREAD_ADDRS \<and> (\<forall>k. t \<notin> set (q k))"

lemma off_listsD: "off_lists q t \<Longrightarrow> t \<notin> set (q k)" "off_lists q t \<Longrightarrow> t < THREAD_ADDRS"
  by (simp_all add: off_lists_def)

lemma qrep_add:
  assumes Q: "qrep st q" and t: "off_lists q t" and R: "tl_repr st' l ts" and F: "tl_frame l ts st st'"
    and ts: "set ts = insert t (set (q l))"
  shows "qrep st' (q(l := ts))"
  by (rule qrep_step [OF Q R F]) (use ts t qrepD(4) [OF Q] in \<open>auto simp: off_lists_def\<close>)

lemma qrep_addtail:
  assumes "qrep st q" "off_lists q t"
  shows "\<exists>st'. threadlist_addtail l t st = Some st' \<and> qrep st' (q(l := q l @ [t]))"
proof -
  obtain st' where
    "threadlist_addtail l t st = Some st'" "tl_repr st' l (q l @ [t])" "tl_frame l (q l @ [t]) st st'"
    using addtail_repr [OF qrepD(1) [OF assms(1)] off_listsD(1) [OF assms(2)]
        qrepD(5) [OF assms(1) off_listsD(2) [OF assms(2)]]] by blast
  then show ?thesis using qrep_add [OF assms, of st' l "q l @ [t]"] by auto
qed

lemma qrep_addhead:
  assumes "qrep st q" "off_lists q t"
  shows "\<exists>st'. threadlist_addhead l t st = Some st' \<and> qrep st' (q(l := t # q l))"
proof -
  obtain st' where
    "threadlist_addhead l t st = Some st'" "tl_repr st' l (t # q l)" "tl_frame l (t # q l) st st'"
    using addhead_repr [OF qrepD(1) [OF assms(1)] off_listsD(1) [OF assms(2)]
        qrepD(5) [OF assms(1) off_listsD(2) [OF assms(2)]]] by blast
  then show ?thesis using qrep_add [OF assms, of st' l "t # q l"] by auto
qed

lemma qrep_remhead_Nil: "qrep st q \<Longrightarrow> q l = [] \<Longrightarrow> threadlist_remhead l st = Some (None, st)"
  using qrepD(1) [of st q l] remhead_Nil by simp

text \<open>Taking a thread off a list leaves it on none.\<close>

lemma qrep_rem:
  assumes Q: "qrep st q" and l: "q l = us @ t # vs" and R: "tl_repr st' l (us @ vs)"
    and F: "tl_frame l (us @ t # vs) st st'"
  shows "qrep st' (q(l := us @ vs))" "off_lists (q(l := us @ vs)) t"
proof -
  have D: "distinct (us @ t # vs)" using qrepD(2) [OF Q, of l] l by simp
  show "qrep st' (q(l := us @ vs))"
    by (rule qrep_step [OF Q R F]) (use l qrepD(4) [OF Q, of _ l] in auto)
  have "t \<in> set (q l)" using l by simp
  then show "off_lists (q(l := us @ vs)) t"
    using D qrepD(3) [OF Q, of l _ t] qrepD(4) [OF Q, of t l] by (auto simp: off_lists_def)
qed

lemma qrep_remhead_Cons:
  assumes "qrep st q" "q l = t # ts"
  shows "\<exists>st'. threadlist_remhead l st = Some (Some t, st') \<and> qrep st' (q(l := ts)) \<and>
    off_lists (q(l := ts)) t \<and> tln_next st' (TNode t) = None \<and> tln_prev st' (TNode t) = None"
proof -
  have "tl_repr st l (t # ts)" using qrepD(1) [OF assms(1), of l] assms(2) by simp
  from remhead_Cons [OF this] obtain st' where
    "threadlist_remhead l st = Some (Some t, st')" "tl_repr st' l ts" "tl_frame l (t # ts) st st'"
    "tln_next st' (TNode t) = None" "tln_prev st' (TNode t) = None"
    by blast
  then show ?thesis using qrep_rem [OF assms(1), of l "[]" t ts st'] assms(2) by simp
qed

lemma qrep_remtail_snoc:
  assumes "qrep st q" "q l = ts @ [t]"
  shows "\<exists>st'. threadlist_remtail l st = Some (Some t, st') \<and> qrep st' (q(l := ts)) \<and>
    off_lists (q(l := ts)) t"
proof -
  have "tl_repr st l (ts @ [t])" using qrepD(1) [OF assms(1), of l] assms(2) by simp
  from remtail_snoc [OF this] obtain st' where
    "threadlist_remtail l st = Some (Some t, st')" "tl_repr st' l ts" "tl_frame l (ts @ [t]) st st'"
    by blast
  then show ?thesis using qrep_rem [OF assms(1), of l ts t "[]" st'] assms(2) by simp
qed

lemma qrep_init:
  assumes "qrep st q" "q l = []"
  shows "qrep (threadlist_init l st) q"
proof -
  have "tl_frame l [] st (threadlist_init l st)"
    using qrepD(1) [OF assms(1), of l] assms(2)
    by (auto simp: tl_frame_def threadlist_init_def spine_def Let_def tl_repr_def)
  then have "qrep (threadlist_init l st) (q(l := []))"
    by (rule qrep_step [OF assms(1) init_repr]) simp_all
  then show ?thesis using assms(2) by (metis fun_upd_triv)
qed

end
