(* ===== verification/Thread_Wakeup.thy ===== *)
theory Thread_Wakeup
  imports Thread
begin

text \<open>
  What the wakeup half of \<open>thread.c\<close> does: spinlock brackets, inter-processor interrupts,
  \<open>thread_make_runnable\<close>, the two wait-channel wakeups, \<open>thread_fork\<close> and \<open>exorcise\<close>. The
  statements are about the queues \<open>q\<close> that the store represents (\<open>qrep\<close>).
\<close>

section \<open>Spinlock brackets\<close>

definition lock_entered :: "cpustate \<Rightarrow> cpustate" where
  "lock_entered c = c\<lparr>irq_on := False, t_iplhigh_count := t_iplhigh_count c + 1, c_spinlocks := c_spinlocks c + 1\<rparr>"

definition lock_left :: "cpustate \<Rightarrow> cpustate" where
  "lock_left c = c\<lparr>irq_on := (t_iplhigh_count c = 1), t_iplhigh_count := t_iplhigh_count c - 1, c_spinlocks := c_spinlocks c - 1\<rparr>"

lemma lock_entered_left: "spl_inv c \<Longrightarrow> lock_left (lock_entered c) = c"
  by (cases c) (auto simp: lock_left_def lock_entered_def spl_inv_def)

lemma lock_entered_inv: "spl_inv c \<Longrightarrow> spl_inv (lock_entered c)"
  by (auto simp: lock_entered_def spl_inv_def)

lemma lock_entered_sel [simp]:
  "c_spinlocks (lock_entered c) = c_spinlocks c + 1" "t_curspl (lock_entered c) = t_curspl c"
  "curcpu_exists (lock_entered c) = curcpu_exists c"
  by (simp_all add: lock_entered_def)

abbreviation held_by :: "nat \<Rightarrow> spinlock" where
  "held_by me \<equiv> \<lparr>splk_lock = 1, splk_holder = Some me\<rparr>"

definition lk_free :: "'tlb ksys \<Rightarrow> klock \<Rightarrow> bool" where
  "lk_free s k \<longleftrightarrow> klk s k = spinlock_init"

definition slocked :: "nat \<Rightarrow> klock \<Rightarrow> 'tlb ksys \<Rightarrow> 'tlb ksys" where
  "slocked me k s = upd_cpu me (\<lambda>c. c\<lparr>c_state := lock_entered (c_state c)\<rparr>) (s\<lparr>klk := (klk s)(k := held_by me)\<rparr>)"

definition sunlocked :: "nat \<Rightarrow> klock \<Rightarrow> 'tlb ksys \<Rightarrow> 'tlb ksys" where
  "sunlocked me k s = upd_cpu me (\<lambda>c. c\<lparr>c_state := lock_left (c_state c)\<rparr>) (s\<lparr>klk := (klk s)(k := spinlock_init)\<rparr>)"

abbreviation cpu_ok :: "nat \<Rightarrow> 'tlb ksys \<Rightarrow> bool" where
  "cpu_ok me s \<equiv> spl_inv (c_state (cpus s me))"

lemma sacq_ok:
  assumes "cpu_ok me s" "lk_free s k"
  shows "sacq me k s = Some (slocked me k s)"
proof -
  have "spinlock_acquire me (c_state (cpus s me), klk s k) = Some (lock_entered (c_state (cpus s me)), held_by me)"
    using assms
    by (auto simp: spinlock_acquire_def splraise_def spl_inv_def lk_free_def spinlock_init_def lock_entered_def
        Let_def intro!: cpustate.equality)
  then show ?thesis by (simp add: sacq_def slocked_def upd_cpu_def)
qed

lemma srel_ok:
  assumes "cpu_ok me s" "klk s k = held_by me" "c_spinlocks (c_state (cpus s me)) > 0"
  shows "srel me k s = Some (sunlocked me k s)"
proof -
  have "spinlock_release me (c_state (cpus s me), klk s k) = Some (lock_left (c_state (cpus s me)), spinlock_init)"
    using assms
    by (auto simp: spinlock_release_def spllower_def spl_inv_def spinlock_init_def lock_left_def Let_def
        intro!: cpustate.equality)
  then show ?thesis by (simp add: srel_def sunlocked_def upd_cpu_def)
qed

lemma slocked_sel [simp]:
  "tls (slocked me k s) = tls s" "thr (slocked me k s) = thr s" "num_cpus (slocked me k s) = num_cpus s"
  "thread_count (slocked me k s) = thread_count s" "freed (slocked me k s) = freed s"
  "ipi_log (slocked me k s) = ipi_log s" "p_numthreads (slocked me k s) = p_numthreads s"
  "klk (slocked me k s) = (klk s)(k := held_by me)" "curthread c (slocked me k s) = curthread c s"
  "c_isidle (cpus (slocked me k s) c) = c_isidle (cpus s c)"
  "c_ipi_pending (cpus (slocked me k s) c) = c_ipi_pending (cpus s c)"
  "c_shootdown (cpus (slocked me k s) c) = c_shootdown (cpus s c)"
  "c_hardclocks (cpus (slocked me k s) c) = c_hardclocks (cpus s c)"
  "c_state (cpus (slocked me k s) me) = lock_entered (c_state (cpus s me))"
  "c \<noteq> me \<Longrightarrow> cpus (slocked me k s) c = cpus s c"
  by (simp_all add: slocked_def upd_cpu_def curthread_def)

text \<open>
  A critical section: taking the lock, changing anything but lock words and CPU lock state, and
  dropping the lock leaves lock words and CPU lock state as they were.
\<close>

definition same_locks :: "'tlb ksys \<Rightarrow> 'tlb ksys \<Rightarrow> bool" where
  "same_locks s s' \<longleftrightarrow> klk s' = klk s \<and> (\<forall>c. c_state (cpus s' c) = c_state (cpus s c))"

definition relocked :: "'tlb ksys \<Rightarrow> 'tlb ksys \<Rightarrow> 'tlb ksys" where
  "relocked s0 s = s\<lparr>klk := klk s0, cpus := (\<lambda>c. (cpus s c)\<lparr>c_state := c_state (cpus s0 c)\<rparr>)\<rparr>"

lemma bracket_release:
  assumes "cpu_ok me s" "lk_free s k" "same_locks (slocked me k s) s'"
  shows "srel me k s' = Some (relocked s s')"
proof -
  have st: "c_state (cpus s' me) = lock_entered (c_state (cpus s me))" and lk: "klk s' k = held_by me"
    using assms(3) by (simp_all add: same_locks_def)
  have "srel me k s' = Some (sunlocked me k s')"
    using assms(1) by (intro srel_ok) (auto simp: st lk lock_entered_inv spl_inv_def lock_entered_def)
  also have "sunlocked me k s' = relocked s s'"
  proof -
    have klks: "(klk s')(k := spinlock_init) = klk s"
      using assms(2,3) by (auto simp: same_locks_def lk_free_def)
    have cps: "(cpus s')(me := (cpus s' me)\<lparr>c_state := lock_left (c_state (cpus s' me))\<rparr>) =
        (\<lambda>c. (cpus s' c)\<lparr>c_state := c_state (cpus s c)\<rparr>)"
      using assms by (auto simp: st lock_entered_left same_locks_def)
    show ?thesis unfolding sunlocked_def relocked_def upd_cpu_def by (simp add: klks cps)
  qed
  finally show ?thesis .
qed

lemma relocked_sel [simp]:
  "tls (relocked s0 s) = tls s" "thr (relocked s0 s) = thr s" "num_cpus (relocked s0 s) = num_cpus s"
  "thread_count (relocked s0 s) = thread_count s" "freed (relocked s0 s) = freed s"
  "ipi_log (relocked s0 s) = ipi_log s" "p_numthreads (relocked s0 s) = p_numthreads s"
  "klk (relocked s0 s) = klk s0" "curthread c (relocked s0 s) = curthread c s"
  "c_isidle (cpus (relocked s0 s) c) = c_isidle (cpus s c)"
  "c_ipi_pending (cpus (relocked s0 s) c) = c_ipi_pending (cpus s c)"
  "c_shootdown (cpus (relocked s0 s) c) = c_shootdown (cpus s c)"
  "c_hardclocks (cpus (relocked s0 s) c) = c_hardclocks (cpus s c)"
  "c_curthread (cpus (relocked s0 s) c) = c_curthread (cpus s c)"
  "c_state (cpus (relocked s0 s) c) = c_state (cpus s0 c)"
  by (simp_all add: relocked_def curthread_def)

lemma relocked_slocked: "relocked s (slocked me k s) = s"
proof -
  have "(\<lambda>c. (cpus (slocked me k s) c)\<lparr>c_state := c_state (cpus s c)\<rparr>) = cpus s"
    by (auto simp: slocked_def)
  then show ?thesis by (intro ksys.equality) (simp_all add: relocked_def)
qed

lemma srel_slocked: "cpu_ok me s \<Longrightarrow> lk_free s k \<Longrightarrow> srel me k (slocked me k s) = Some s"
  using bracket_release [where me = me and s = s and k = k and s' = "slocked me k s"] by (simp add: same_locks_def relocked_slocked)

section \<open>What a wakeup may change\<close>

definition wake_frame :: "'tlb ksys \<Rightarrow> 'tlb ksys \<Rightarrow> bool" where
  "wake_frame s s' \<longleftrightarrow>
     num_cpus s' = num_cpus s \<and> klk s' = klk s \<and> thread_count s' = thread_count s \<and>
     freed s' = freed s \<and> p_numthreads s' = p_numthreads s \<and>
     (\<forall>c. (cpus s' c)\<lparr>c_ipi_pending := 0\<rparr> = (cpus s c)\<lparr>c_ipi_pending := 0\<rparr>) \<and>
     (\<forall>t. (thr s' t)\<lparr>t_state := S_RUN\<rparr> = (thr s t)\<lparr>t_state := S_RUN\<rparr>)"

lemma wake_frame_refl [simp]: "wake_frame s s"
  by (simp add: wake_frame_def)

lemma wake_frame_trans [trans]: "wake_frame s s' \<Longrightarrow> wake_frame s' s'' \<Longrightarrow> wake_frame s s''"
  by (simp add: wake_frame_def)

lemma cpu_eqD: "(x::'tlb kcpu)\<lparr>c_ipi_pending := 0\<rparr> = y\<lparr>c_ipi_pending := 0\<rparr> \<Longrightarrow>
    c_state x = c_state y \<and> c_isidle x = c_isidle y \<and> c_curthread x = c_curthread y \<and>
    c_hardclocks x = c_hardclocks y \<and> c_shootdown x = c_shootdown y"
  by (metis kcpu.select_convs(1,2,3,5,6) kcpu.surjective kcpu.update_convs(4))

lemma thr_eqD: "(x::kthread)\<lparr>t_state := S_RUN\<rparr> = y\<lparr>t_state := S_RUN\<rparr> \<Longrightarrow>
    t_cpu x = t_cpu y \<and> t_stack x = t_stack y \<and> t_proc x = t_proc y \<and> t_context x = t_context y \<and>
    t_savedspl x = t_savedspl y \<and> t_savedcount x = t_savedcount y \<and> t_in_interrupt x = t_in_interrupt y"
  by (cases x; cases y) simp

lemma wake_frameD:
  assumes "wake_frame s s'"
  shows "c_state (cpus s' c) = c_state (cpus s c)" "c_isidle (cpus s' c) = c_isidle (cpus s c)"
    "curthread c s' = curthread c s" "t_cpu (thr s' t) = t_cpu (thr s t)" "klk s' = klk s"
    "num_cpus s' = num_cpus s" "t_stack (thr s' t) = t_stack (thr s t)"
    "t_savedspl (thr s' t) = t_savedspl (thr s t)" "t_savedcount (thr s' t) = t_savedcount (thr s t)"
    "t_context (thr s' t) = t_context (thr s t)" "t_proc (thr s' t) = t_proc (thr s t)"
  using assms cpu_eqD [of "cpus s' c" "cpus s c"] thr_eqD [of "thr s' t" "thr s t"]
  by (auto simp: wake_frame_def curthread_def)

lemma wake_frame_locks: "wake_frame s s' \<Longrightarrow> same_locks s s'"
  by (simp add: same_locks_def wake_frameD)

lemma wake_frame_relocked:
  assumes "wake_frame (slocked me k s) s'"
  shows "wake_frame s (relocked s s')"
proof -
  have "(cpus (relocked s s') c)\<lparr>c_ipi_pending := 0\<rparr> = (cpus s c)\<lparr>c_ipi_pending := 0\<rparr>" for c
  proof -
    have "(cpus s' c)\<lparr>c_ipi_pending := 0\<rparr> = (cpus (slocked me k s) c)\<lparr>c_ipi_pending := 0\<rparr>"
      using assms by (simp add: wake_frame_def)
    then show ?thesis
      by (cases "cpus s' c"; cases "cpus s c"; cases "c = me")
         (auto simp: relocked_def slocked_def upd_cpu_def)
  qed
  then show ?thesis using assms by (simp add: wake_frame_def)
qed

section \<open>Inter-processor interrupts\<close>

definition ipi_posted :: "nat \<Rightarrow> nat \<Rightarrow> 'tlb ksys \<Rightarrow> 'tlb ksys" where
  "ipi_posted target code s =
     (upd_cpu target (\<lambda>c. c\<lparr>c_ipi_pending := c_ipi_pending c OR push_bit code 1\<rparr>) s)\<lparr>ipi_log := ipi_log s @ [target]\<rparr>"

lemma ipi_send_ok:
  assumes "cpu_ok me s" "lk_free s (IpiL target)" "code < 32"
  shows "ipi_send me target code s = Some (ipi_posted target code s)"
proof -
  let ?s' = "ipi_posted target code (slocked me (IpiL target) s)"
  have "same_locks (slocked me (IpiL target) s) ?s'"
    by (simp add: same_locks_def ipi_posted_def upd_cpu_def)
  from bracket_release [OF assms(1,2) this] have "srel me (IpiL target) ?s' = Some (relocked s ?s')" .
  moreover have "relocked s ?s' = ipi_posted target code s"
    by (auto simp: relocked_def ipi_posted_def slocked_def upd_cpu_def fun_eq_iff)
  ultimately show ?thesis
    using assms by (simp add: ipi_send_def sacq_ok) (simp add: ipi_posted_def Let_def)
qed

lemma ipi_posted_frame: "wake_frame s (ipi_posted target code s)"
  by (simp add: wake_frame_def ipi_posted_def upd_cpu_def)

lemma ipi_posted_sel [simp]: "tls (ipi_posted c code s) = tls s" "thr (ipi_posted c code s) = thr s"
  by (simp_all add: ipi_posted_def upd_cpu_def)

lemma ipi_posted_pending: "code < 32 \<Longrightarrow> bit (c_ipi_pending (cpus (ipi_posted c code s) c)) code"
  by (simp add: ipi_posted_def upd_cpu_def bit_simps)

section \<open>List operations of the system\<close>

lemma tl_addtail_ok:
  assumes "qrep (tls s) q" "off_lists q t"
  shows "\<exists>st. tl_addtail l t s = Some (s\<lparr>tls := st\<rparr>) \<and> qrep st (q(l := q l @ [t]))"
  using qrep_addtail [OF assms, of l] by (auto simp: tl_addtail_def)

lemma tl_addhead_ok:
  assumes "qrep (tls s) q" "off_lists q t"
  shows "\<exists>st. tl_addhead l t s = Some (s\<lparr>tls := st\<rparr>) \<and> qrep st (q(l := t # q l))"
  using qrep_addhead [OF assms, of l] by (auto simp: tl_addhead_def)

lemma tl_remhead_Nil: "qrep (tls s) q \<Longrightarrow> q l = [] \<Longrightarrow> tl_remhead l s = Some (None, s)"
  by (simp add: tl_remhead_def qrep_remhead_Nil)

lemma tl_remhead_Cons:
  assumes "qrep (tls s) q" "q l = t # ts"
  shows "\<exists>st. tl_remhead l s = Some (Some t, s\<lparr>tls := st\<rparr>) \<and> qrep st (q(l := ts)) \<and>
    off_lists (q(l := ts)) t \<and> tln_next st (TNode t) = None \<and> tln_prev st (TNode t) = None"
  using qrep_remhead_Cons [OF assms] by (auto simp: tl_remhead_def)

lemma tl_remtail_snoc:
  assumes "qrep (tls s) q" "q l = ts @ [t]"
  shows "\<exists>st. tl_remtail l s = Some (Some t, s\<lparr>tls := st\<rparr>) \<and> qrep st (q(l := ts)) \<and>
    off_lists (q(l := ts)) t"
  using qrep_remtail_snoc [OF assms] by (auto simp: tl_remtail_def)

lemma wake_frame_tls [simp]: "wake_frame s (s'\<lparr>tls := st\<rparr>) \<longleftrightarrow> wake_frame s s'"
  by (simp add: wake_frame_def)

lemma curthread_tls [simp]: "curthread c (s\<lparr>tls := st\<rparr>) = curthread c s"
  by (simp add: curthread_def)

section \<open>Making a thread runnable\<close>

text \<open>The body of \<open>thread_make_runnable\<close> between taking and dropping the run queue lock.\<close>

definition runnable_body :: "nat \<Rightarrow> nat \<Rightarrow> nat \<Rightarrow> 'tlb ksys \<Rightarrow> 'tlb ksys option" where
  "runnable_body me c t s =
     do { s \<leftarrow> tl_addtail (runqueue c) t (upd_thr t (t_state_update (\<lambda>_. S_READY)) s);
          if c_isidle (cpus s c) \<and> c \<noteq> me then ipi_send me c IPI_UNIDLE s else Some s }"

definition made_ready :: "nat \<Rightarrow> nat \<Rightarrow> nat \<Rightarrow> 'tlb ksys \<Rightarrow> 'tlb ksys \<Rightarrow> bool" where
  "made_ready me c t s s' \<longleftrightarrow>
     wake_frame s s' \<and> thr s' = (thr s)(t := (thr s t)\<lparr>t_state := S_READY\<rparr>) \<and>
     (c_isidle (cpus s c) \<and> c \<noteq> me \<longrightarrow> bit (c_ipi_pending (cpus s' c)) IPI_UNIDLE)"

lemma runnable_body_ok:
  assumes "qrep (tls s) q" "off_lists q t" "cpu_ok me s" "lk_free s (IpiL c)"
  shows "\<exists>s'. runnable_body me c t s = Some s' \<and> qrep (tls s') (q(runqueue c := q (runqueue c) @ [t])) \<and>
    made_ready me c t s s'"
proof -
  let ?s1 = "upd_thr t (t_state_update (\<lambda>_. S_READY)) s"
  obtain st where st: "tl_addtail (runqueue c) t ?s1 = Some (?s1\<lparr>tls := st\<rparr>)"
      "qrep st (q(runqueue c := q (runqueue c) @ [t]))"
    using tl_addtail_ok [of ?s1 q t "runqueue c"] assms by auto
  let ?s2 = "?s1\<lparr>tls := st\<rparr>"
  have f: "wake_frame s ?s2" by (simp add: wake_frame_def)
  show ?thesis
  proof (cases "c_isidle (cpus s c) \<and> c \<noteq> me")
    case True
    have "ipi_send me c IPI_UNIDLE ?s2 = Some (ipi_posted c IPI_UNIDLE ?s2)"
      using assms by (intro ipi_send_ok) (auto simp: lk_free_def)
    then show ?thesis
      using True st f wake_frame_trans [OF f ipi_posted_frame] ipi_posted_pending [of IPI_UNIDLE c ?s2]
      by (simp add: runnable_body_def made_ready_def)
  next
    case False
    then show ?thesis using st f by (auto simp: runnable_body_def made_ready_def)
  qed
qed

lemma made_ready_relocked:
  assumes "made_ready me c t (slocked me k s) s'"
  shows "made_ready me c t s (relocked s s')"
  using assms wake_frame_relocked by (auto simp: made_ready_def)

lemma thread_make_runnable_ok:
  assumes "qrep (tls s) q" "off_lists q t" "t_cpu (thr s t) = Some c" "cpu_ok me s"
    "lk_free s (RunqL c)" "lk_free s (IpiL c)"
  shows "\<exists>s'. thread_make_runnable me t False s = Some s' \<and>
    qrep (tls s') (q(runqueue c := q (runqueue c) @ [t])) \<and> made_ready me c t s s'"
proof -
  let ?s1 = "slocked me (RunqL c) s"
  obtain s2 where s2: "runnable_body me c t ?s1 = Some s2"
      "qrep (tls s2) (q(runqueue c := q (runqueue c) @ [t]))" "made_ready me c t ?s1 s2"
    using runnable_body_ok [of ?s1 q t me c] assms by (auto simp: lk_free_def lock_entered_inv)
  have "same_locks ?s1 s2" using s2(3) by (auto simp: made_ready_def intro: wake_frame_locks)
  from bracket_release [OF assms(4,5) this] s2(1)
  have "thread_make_runnable me t False s = Some (relocked s s2)"
    using assms by (auto simp: thread_make_runnable_def runnable_body_def sacq_ok Let_def
        split: Option.bind_splits)
  then show ?thesis using s2 made_ready_relocked by auto
qed

lemma thread_make_runnable_held:
  assumes "qrep (tls s) q" "off_lists q t" "t_cpu (thr s t) = Some c" "cpu_ok me s"
    "klk s (RunqL c) = held_by me" "lk_free s (IpiL c)"
  shows "\<exists>s'. thread_make_runnable me t True s = Some s' \<and>
    qrep (tls s') (q(runqueue c := q (runqueue c) @ [t])) \<and> made_ready me c t s s'"
proof -
  have "sholds me (RunqL c) s" using assms by (simp add: sholds_def spinlock_do_i_hold_def)
  then have "thread_make_runnable me t True s = runnable_body me c t s"
    using assms(3) by (simp add: thread_make_runnable_def runnable_body_def Let_def cong: option.case_cong)
  then show ?thesis using runnable_body_ok [OF assms(1,2,4,6)] by simp
qed

section \<open>Waking one sleeper\<close>

lemma wchan_wakeone_Nil:
  assumes "qrep (tls s) q" "q (wchan_threads w) = []" "sholds me lk s"
  shows "wchan_wakeone me w lk s = Some s"
  using assms by (simp add: wchan_wakeone_def tl_remhead_Nil)

lemma wchan_wakeone_Cons:
  assumes "qrep (tls s) q" "q (wchan_threads w) = t # ts" "sholds me lk s" "cpu_ok me s"
    "t_cpu (thr s t) = Some c" "lk_free s (RunqL c)" "lk_free s (IpiL c)"
  shows "\<exists>s'. wchan_wakeone me w lk s = Some s' \<and>
    qrep (tls s') (q(wchan_threads w := ts, runqueue c := q (runqueue c) @ [t])) \<and> made_ready me c t s s'"
proof -
  obtain st where st: "tl_remhead (wchan_threads w) s = Some (Some t, s\<lparr>tls := st\<rparr>)"
      "qrep st (q(wchan_threads w := ts))" "off_lists (q(wchan_threads w := ts)) t"
    using tl_remhead_Cons [OF assms(1,2)] by blast
  let ?s1 = "s\<lparr>tls := st\<rparr>"
  obtain s' where "thread_make_runnable me t False ?s1 = Some s'"
      "qrep (tls s') (q(wchan_threads w := ts, runqueue c := q (runqueue c) @ [t]))" "made_ready me c t ?s1 s'"
    using thread_make_runnable_ok [of ?s1 "q(wchan_threads w := ts)" t c me] st assms
    by (auto simp: lk_free_def)
  moreover have "made_ready me c t s s'" using \<open>made_ready me c t ?s1 s'\<close>
    by (auto simp: made_ready_def wake_frame_def)
  ultimately show ?thesis using st assms(3) by (simp add: wchan_wakeone_def)
qed

section \<open>Waking every sleeper\<close>

text \<open>The list-level account of the wakeup loop: each thread goes to the end of its own CPU's queue.\<close>

fun deal :: "(nat \<Rightarrow> nat) \<Rightarrow> nat list \<Rightarrow> (nat \<Rightarrow> nat list) \<Rightarrow> (nat \<Rightarrow> nat list)" where
  "deal cpu [] q = q"
| "deal cpu (t # ts) q = deal cpu ts (q(runqueue (cpu t) := q (runqueue (cpu t)) @ [t]))"

lemma deal_runqueue: "deal cpu ts q (runqueue c) = q (runqueue c) @ filter (\<lambda>t. cpu t = c) ts"
  by (induction ts arbitrary: q) auto

lemma deal_other: "(\<And>c. l \<noteq> runqueue c) \<Longrightarrow> deal cpu ts q l = q l"
  by (induction ts arbitrary: q) auto

lemma deal_upd:
  assumes m: "\<And>c. m \<noteq> runqueue c"
  shows "deal cpu ts (r(m := x)) = (deal cpu ts r)(m := x)"
proof (induction ts arbitrary: r)
  case (Cons t ts)
  let ?r = "r(runqueue (cpu t) := r (runqueue (cpu t)) @ [t])"
  have "deal cpu (t # ts) (r(m := x)) = deal cpu ts (?r(m := x))"
    using m [of "cpu t"] m [of "cpu t", symmetric] by (simp add: fun_upd_twist)
  also have "\<dots> = (deal cpu ts ?r)(m := x)" by (rule Cons.IH)
  also have "deal cpu ts ?r = deal cpu (t # ts) r" by simp
  finally show ?case .
qed simp

lemma drain_to_ok:
  assumes "qrep (tls s) q" "q l = ts" "l \<noteq> k"
  shows "\<exists>st. drain_to l k s = Some (s\<lparr>tls := st\<rparr>) \<and> qrep st (q(l := [], k := q k @ ts))"
  using assms
proof (induction ts arbitrary: s q)
  case Nil
  then have "q(l := [], k := q k @ []) = q" by auto
  with Nil show ?case
    by (subst drain_to.simps) (auto simp: tl_remhead_Nil intro!: exI [of _ "tls s"])
next
  case (Cons t ts)
  obtain st where st: "tl_remhead l s = Some (Some t, s\<lparr>tls := st\<rparr>)" "qrep st (q(l := ts))"
      "off_lists (q(l := ts)) t"
    using tl_remhead_Cons [OF Cons.prems(1,2)] by blast
  obtain st2 where st2: "tl_addtail k t (s\<lparr>tls := st\<rparr>) = Some (s\<lparr>tls := st2\<rparr>)"
      "qrep st2 (q(l := ts, k := q k @ [t]))"
    using tl_addtail_ok [of "s\<lparr>tls := st\<rparr>" "q(l := ts)" t k] st Cons.prems by auto
  define q2 where "q2 = q(l := ts, k := q k @ [t])"
  have "q2 l = ts" and q2: "q2(l := [], k := q2 k @ ts) = q(l := [], k := q k @ t # ts)"
    using Cons.prems by (auto simp: q2_def)
  moreover have "qrep (tls (s\<lparr>tls := st2\<rparr>)) q2" using st2 by (simp add: q2_def)
  ultimately obtain st3 where "drain_to l k (s\<lparr>tls := st2\<rparr>) = Some (s\<lparr>tls := st2, tls := st3\<rparr>)"
      "qrep st3 (q2(l := [], k := q2 k @ ts))"
    using Cons.IH [of "s\<lparr>tls := st2\<rparr>" q2] Cons.prems(3) by blast
  then have "drain_to l k s = Some (s\<lparr>tls := st3\<rparr>) \<and> qrep st3 (q(l := [], k := q k @ t # ts))"
    unfolding q2 using st(1) st2(1) by (subst drain_to.simps) simp
  then show ?case by blast
qed

lemma wake_list_ok:
  assumes "qrep (tls s) q" "q (stacklist me) = ts" "cpu_ok me s"
    "\<And>t. t \<in> set ts \<Longrightarrow> t_cpu (thr s t) = Some (cpu t)"
    "\<And>c. lk_free s (RunqL c)" "\<And>c. lk_free s (IpiL c)"
  shows "\<exists>s'. wake_list me (stacklist me) s = Some s' \<and>
    qrep (tls s') ((deal cpu ts q)(stacklist me := [])) \<and> wake_frame s s' \<and>
    (\<forall>t. thr s' t = (if t \<in> set ts then (thr s t)\<lparr>t_state := S_READY\<rparr> else thr s t))"
  using assms
proof (induction ts arbitrary: s q)
  case Nil
  then have "q(stacklist me := []) = q" by auto
  with Nil show ?case
    by (subst wake_list.simps) (auto simp: tl_remhead_Nil)
next
  case (Cons t ts)
  let ?l = "stacklist me" and ?q1 = "q(stacklist me := ts)"
  obtain st where st: "tl_remhead ?l s = Some (Some t, s\<lparr>tls := st\<rparr>)" "qrep st ?q1" "off_lists ?q1 t"
    using tl_remhead_Cons [OF Cons.prems(1,2)] by blast
  define q2 where "q2 = q(?l := ts, runqueue (cpu t) := q (runqueue (cpu t)) @ [t])"
  have q2: "q2 ?l = ts" by (simp add: q2_def)
  obtain s2 where s2: "thread_make_runnable me t False (s\<lparr>tls := st\<rparr>) = Some s2" "qrep (tls s2) q2"
      "made_ready me (cpu t) t (s\<lparr>tls := st\<rparr>) s2"
    using thread_make_runnable_ok [of "s\<lparr>tls := st\<rparr>" ?q1 t "cpu t" me] st Cons.prems
    by (auto simp: lk_free_def q2_def)
  have f: "wake_frame s s2" and thr2: "thr s2 = (thr s)(t := (thr s t)\<lparr>t_state := S_READY\<rparr>)"
    using s2(3) by (auto simp: made_ready_def wake_frame_def)
  obtain s3 where s3: "wake_list me ?l s2 = Some s3" "qrep (tls s3) ((deal cpu ts q2)(?l := []))"
      "wake_frame s2 s3" "\<forall>u. thr s3 u = (if u \<in> set ts then (thr s2 u)\<lparr>t_state := S_READY\<rparr> else thr s2 u)"
  proof (rule exE [OF Cons.IH [of s2 q2]])
    show "cpu_ok me s2" using f Cons.prems(3) by (simp add: wake_frameD)
    show "t_cpu (thr s2 u) = Some (cpu u)" if "u \<in> set ts" for u
      using Cons.prems(4) [of u] that wake_frameD(4) [OF f] by simp
    show "lk_free s2 (RunqL c)" "lk_free s2 (IpiL c)" for c
      using Cons.prems(5,6) f by (simp_all add: lk_free_def wake_frameD)
  qed (use s2(2) q2 in auto)
  have "(deal cpu ts q2)(?l := []) = (deal cpu (t # ts) q)(?l := [])"
  proof -
    have "q2 = (q(runqueue (cpu t) := q (runqueue (cpu t)) @ [t]))(?l := ts)"
      by (simp add: q2_def fun_upd_twist)
    then show ?thesis by (simp add: deal_upd)
  qed
  with s3 st(1) s2(1) thr2 wake_frame_trans [OF f s3(3)] show ?case
    by (subst wake_list.simps) auto
qed

lemma wchan_wakeall_ok:
  assumes "qrep (tls s) q" "q (wchan_threads w) = ts" "q (stacklist me) = []" "sholds me lk s" "cpu_ok me s"
    "\<And>t. t \<in> set ts \<Longrightarrow> t_cpu (thr s t) = Some (cpu t)"
    "\<And>c. lk_free s (RunqL c)" "\<And>c. lk_free s (IpiL c)"
  shows "\<exists>s'. wchan_wakeall me w lk s = Some s' \<and>
    qrep (tls s') ((deal cpu ts q)(wchan_threads w := [])) \<and> wake_frame s s' \<and>
    (\<forall>t. thr s' t = (if t \<in> set ts then (thr s t)\<lparr>t_state := S_READY\<rparr> else thr s t))"
proof -
  let ?l = "stacklist me" and ?s1 = "s\<lparr>tls := threadlist_init (stacklist me) (tls s)\<rparr>"
  let ?q1 = "q(wchan_threads w := [], ?l := ts)"
  obtain st where st: "drain_to (wchan_threads w) ?l ?s1 = Some (s\<lparr>tls := st\<rparr>)" "qrep st ?q1"
    using drain_to_ok [of ?s1 q "wchan_threads w" ts ?l] qrep_init [OF assms(1,3)] assms(2,3) by auto
  obtain s2 where s2: "wake_list me ?l (s\<lparr>tls := st\<rparr>) = Some s2" "qrep (tls s2) ((deal cpu ts ?q1)(?l := []))"
      "wake_frame (s\<lparr>tls := st\<rparr>) s2"
      "\<forall>t. thr s2 t = (if t \<in> set ts then (thr s t)\<lparr>t_state := S_READY\<rparr> else thr s t)"
    using wake_list_ok [of "s\<lparr>tls := st\<rparr>" ?q1 me ts cpu] st(2) assms by (auto simp: lk_free_def)
  have "(deal cpu ts q)(?l := []) = deal cpu ts q"
    using deal_other [of ?l cpu ts q] assms(3) by (metis fun_upd_triv list_names(14))
  then have q: "(deal cpu ts ?q1)(?l := []) = (deal cpu ts q)(wchan_threads w := [])"
    by (simp add: deal_upd) (metis fun_upd_twist list_names(13))
  have "threadlist_cleanup ?l (tls s2) = Some ()"
    using qrep_isempty [OF s2(2), of ?l] by (simp add: threadlist_cleanup_def threadlist_isempty_def)
  then have "wchan_wakeall me w lk s = Some s2"
    using st(1) s2(1) assms(4) by (simp add: wchan_wakeall_def Let_def)
  moreover have "wake_frame s s2" using s2(3) by (simp add: wake_frame_def)
  ultimately show ?thesis using s2 q by auto
qed

end
