(* ===== verification/Thread_Switch.thy ===== *)
theory Thread_Switch
  imports Thread_Wakeup
begin

text \<open>
  The context switch of \<open>thread.c\<close>: what \<open>thread_switch\<close> does to the queues, to the thread
  states and to the interrupt state, and the invariant of the thread system that it keeps. A
  thread that is not running is parked with interrupts raised once by \<open>splhigh\<close> and once by the
  run queue lock; \<open>thread_fork\<close> sets new threads up the same way, which is why the tail of
  \<open>thread_switch\<close> and \<open>thread_startup\<close> can release a lock they never took.
\<close>

definition stack_ok :: "kthread \<Rightarrow> bool" where
  "stack_ok x \<longleftrightarrow> (case t_stack x of None \<Rightarrow> True
     | Some w \<Rightarrow> w ! 0 = THREAD_STACK_MAGIC \<and> w ! 1 = THREAD_STACK_MAGIC \<and>
                w ! 2 = THREAD_STACK_MAGIC \<and> w ! 3 = THREAD_STACK_MAGIC)"

definition resume_spl :: "kthread \<Rightarrow> int" where
  "resume_spl x = (case t_context x of NewContext \<Rightarrow> IPL_NONE | SwitchContext n \<Rightarrow> n)"

definition parked :: "kthread \<Rightarrow> bool" where
  "parked x \<longleftrightarrow> t_savedspl x = IPL_HIGH \<and> t_savedcount x = 2 \<and>
     (resume_spl x = IPL_NONE \<or> resume_spl x = IPL_HIGH) \<and> stack_ok x"

definition on_cpu :: "'tlb ksys \<Rightarrow> (nat \<Rightarrow> nat list) \<Rightarrow> nat \<Rightarrow> bool" where
  "on_cpu s q c \<longleftrightarrow> off_lists q (curthread c s) \<and> t_state (thr s (curthread c s)) = S_RUN \<and>
     t_cpu (thr s (curthread c s)) = Some c \<and> stack_ok (thr s (curthread c s))"

definition queued_ok :: "'tlb ksys \<Rightarrow> (nat \<Rightarrow> nat list) \<Rightarrow> bool" where
  "queued_ok s q \<longleftrightarrow>
     (\<forall>c. \<forall>t\<in>set (q (runqueue c)). c < num_cpus s \<and> t_state (thr s t) = S_READY \<and> t_cpu (thr s t) = Some c) \<and>
     (\<forall>w. \<forall>t\<in>set (q (wchan_threads w)). t_state (thr s t) = S_SLEEP \<and> (\<exists>c<num_cpus s. t_cpu (thr s t) = Some c)) \<and>
     (\<forall>c. \<forall>t\<in>set (q (zombies c)). t_state (thr s t) = S_ZOMBIE \<and> t_proc (thr s t) = None) \<and>
     (\<forall>l. \<forall>t\<in>set (q l). parked (thr s t)) \<and> (\<forall>c. q (stacklist c) = [])"

definition thread_inv :: "'tlb ksys \<Rightarrow> (nat \<Rightarrow> nat list) \<Rightarrow> bool" where
  "thread_inv s q \<longleftrightarrow> qrep (tls s) q \<and> queued_ok s q \<and>
     (\<forall>c<num_cpus s. cpu_ok c s \<and> (\<not> c_isidle (cpus s c) \<longrightarrow> on_cpu s q c))"

lemma queued_okD:
  assumes "queued_ok s q"
  shows "t \<in> set (q (runqueue c)) \<Longrightarrow> c < num_cpus s \<and> t_state (thr s t) = S_READY \<and> t_cpu (thr s t) = Some c"
    "t \<in> set (q (wchan_threads w)) \<Longrightarrow> t_state (thr s t) = S_SLEEP \<and> (\<exists>c<num_cpus s. t_cpu (thr s t) = Some c)"
    "t \<in> set (q (zombies c)) \<Longrightarrow> t_state (thr s t) = S_ZOMBIE \<and> t_proc (thr s t) = None"
    "t \<in> set (q l) \<Longrightarrow> parked (thr s t)" "q (stacklist c) = []"
  using assms unfolding queued_ok_def by blast+

lemma queued_ok_mono:
  assumes ok: "queued_ok s q" and sub: "\<And>u l. u \<in> set (q' l) \<Longrightarrow> u \<in> set (q l)"
    and thr: "\<And>u l. u \<in> set (q' l) \<Longrightarrow> thr s' u = thr s u" and n: "num_cpus s' = num_cpus s"
  shows "queued_ok s' q'"
proof -
  have "q' (stacklist c) = []" for c
    using sub [of _ "stacklist c"] queued_okD(5) [OF ok, of c] by (cases "q' (stacklist c)") fastforce+
  moreover have "parked (thr s' t)" if "t \<in> set (q' l)" for t l
    using queued_okD(4) [OF ok sub [OF that]] thr [OF that] by simp
  moreover have "t_state (thr s' t) = S_ZOMBIE \<and> t_proc (thr s' t) = None" if "t \<in> set (q' (zombies c))" for t c
    using queued_okD(3) [OF ok sub [OF that]] thr [OF that] by simp
  moreover have "t_state (thr s' t) = S_SLEEP \<and> (\<exists>c<num_cpus s'. t_cpu (thr s' t) = Some c)"
    if "t \<in> set (q' (wchan_threads w))" for t w
    using queued_okD(2) [OF ok sub [OF that]] thr [OF that] n by simp
  moreover have "c < num_cpus s' \<and> t_state (thr s' t) = S_READY \<and> t_cpu (thr s' t) = Some c"
    if "t \<in> set (q' (runqueue c))" for t c
    using queued_okD(1) [OF ok sub [OF that]] thr [OF that] n by simp
  ultimately show ?thesis unfolding queued_ok_def by blast
qed

lemma thread_checkstack_ok: "stack_ok (thr s t) \<Longrightarrow> thread_checkstack t s = Some ()"
  by (auto simp: stack_ok_def thread_checkstack_def split: option.splits)

section \<open>Destroying zombies\<close>

definition laid_to_rest :: "nat set \<Rightarrow> 'tlb ksys \<Rightarrow> 'tlb ksys" where
  "laid_to_rest Z s = s\<lparr>thr := (\<lambda>t. if t \<in> Z then (thr s t)\<lparr>t_stack := None, t_wchan_name := Some ''DESTROYED''\<rparr> else thr s t),
     freed := freed s \<union> Z\<rparr>"

lemma laid_to_rest_sel [simp]:
  "tls (laid_to_rest Z s) = tls s" "cpus (laid_to_rest Z s) = cpus s" "klk (laid_to_rest Z s) = klk s"
  "num_cpus (laid_to_rest Z s) = num_cpus s" "curthread c (laid_to_rest Z s) = curthread c s"
  "freed (laid_to_rest Z s) = freed s \<union> Z" "t_state (thr (laid_to_rest Z s) t) = t_state (thr s t)"
  "t_proc (thr (laid_to_rest Z s) t) = t_proc (thr s t)"
  "t \<notin> Z \<Longrightarrow> thr (laid_to_rest Z s) t = thr s t"
  by (simp_all add: laid_to_rest_def curthread_def)

lemma thread_destroy_ok:
  assumes "t \<noteq> curthread me s" "t_state (thr s t) \<noteq> S_RUN" "t_proc (thr s t) = None"
    "tln_next (tls s) (TNode t) = None" "tln_prev (tls s) (TNode t) = None" "tln_self (tls s) (TNode t) \<noteq> None"
  shows "thread_destroy me t s = Some (laid_to_rest {t} s)"
  using assms
  by (auto simp: thread_destroy_def threadlistnode_cleanup_def laid_to_rest_def upd_thr_def Let_def fun_eq_iff)

lemma exorcise_ok:
  assumes "qrep (tls s) q" "q (zombies me) = zs" "curthread me s \<notin> set zs"
    "\<And>t. t \<in> set zs \<Longrightarrow> t_state (thr s t) = S_ZOMBIE \<and> t_proc (thr s t) = None"
  shows "\<exists>st. exorcise me s = Some ((laid_to_rest (set zs) s)\<lparr>tls := st\<rparr>) \<and> qrep st (q(zombies me := []))"
  using assms
proof (induction zs arbitrary: s q)
  case Nil
  have "laid_to_rest {} s = s" by (simp add: laid_to_rest_def)
  moreover have "q(zombies me := []) = q" using Nil.prems(2) by auto
  ultimately show ?case using Nil
    by (subst exorcise.simps) (auto simp: tl_remhead_Nil intro!: exI [of _ "tls s"])
next
  case (Cons z zs)
  define q2 where "q2 = q(zombies me := zs)"
  obtain st where st: "tl_remhead (zombies me) s = Some (Some z, s\<lparr>tls := st\<rparr>)" "qrep st q2" "off_lists q2 z"
      "tln_next st (TNode z) = None" "tln_prev st (TNode z) = None"
    using tl_remhead_Cons [OF Cons.prems(1,2)] unfolding q2_def by blast
  have "tln_self st (TNode z) = Some z" using qrepD(5) [OF st(2)] off_listsD(2) [OF st(3)] by blast
  then have d: "thread_destroy me z (s\<lparr>tls := st\<rparr>) = Some (laid_to_rest {z} (s\<lparr>tls := st\<rparr>))"
    using Cons.prems(3) Cons.prems(4) [of z] st by (intro thread_destroy_ok) (auto simp: curthread_def)
  let ?s2 = "laid_to_rest {z} (s\<lparr>tls := st\<rparr>)"
  have "z \<notin> set zs" using qrepD(2) [OF Cons.prems(1), of "zombies me"] Cons.prems(2) by simp
  have "q2 (zombies me) = zs" by (simp add: q2_def)
  moreover have "qrep (tls ?s2) q2" "curthread me ?s2 \<notin> set zs" using st Cons.prems(3) by auto
  moreover have "t_state (thr ?s2 t) = S_ZOMBIE \<and> t_proc (thr ?s2 t) = None" if "t \<in> set zs" for t
    using Cons.prems(4) [of t] that by simp
  ultimately obtain st2 where "exorcise me ?s2 = Some ((laid_to_rest (set zs) ?s2)\<lparr>tls := st2\<rparr>)"
      "qrep st2 (q2(zombies me := []))"
    using Cons.IH [of ?s2 q2] by blast
  moreover have "(laid_to_rest (set zs) ?s2)\<lparr>tls := st2\<rparr> = (laid_to_rest (set (z # zs)) s)\<lparr>tls := st2\<rparr>"
    using \<open>z \<notin> set zs\<close> by (auto simp: laid_to_rest_def fun_eq_iff)
  moreover have "q2(zombies me := []) = q(zombies me := [])" by (simp add: q2_def)
  ultimately show ?case
    using st(1) d Cons.prems(3) Cons.prems(4) [of z] by (subst exorcise.simps) auto
qed

section \<open>Picking the next thread\<close>

lemma pick_next_ok:
  assumes "qrep (tls s) q" "q (runqueue me) = t # ts"
  shows "\<exists>st. pick_next cpu_idle me s = Some (t, s\<lparr>tls := st\<rparr>) \<and> qrep st (q(runqueue me := ts)) \<and>
    off_lists (q(runqueue me := ts)) t"
  using tl_remhead_Cons [OF assms] by (subst pick_next.simps) auto

text \<open>An idle CPU that finds a thread on its run queue when it wakes up runs it.\<close>

lemma pick_next_idle:
  assumes "qrep (tls s) q" "q (runqueue me) = []" "cpu_ok me s" "klk s (RunqL me) = held_by me"
    "c_spinlocks (c_state (cpus s me)) > 0"
    and woke: "cpu_idle (sunlocked me (RunqL me) s) = s1" "cpu_ok me s1" "lk_free s1 (RunqL me)"
    "qrep (tls s1) q1" "q1 (runqueue me) = t # ts"
  shows "\<exists>st. pick_next cpu_idle me s = Some (t, (slocked me (RunqL me) s1)\<lparr>tls := st\<rparr>) \<and>
    qrep st (q1(runqueue me := ts))"
proof -
  obtain st where "pick_next cpu_idle me (slocked me (RunqL me) s1) = Some (t, (slocked me (RunqL me) s1)\<lparr>tls := st\<rparr>)"
      "qrep st (q1(runqueue me := ts))"
    using pick_next_ok [of "slocked me (RunqL me) s1" q1 me t ts cpu_idle] woke by auto
  moreover have "pick_next cpu_idle me s = pick_next cpu_idle me (slocked me (RunqL me) s1)"
    using assms by (subst pick_next.simps) (simp add: tl_remhead_Nil srel_ok sacq_ok)
  ultimately show ?thesis by auto
qed

section \<open>The tail of the switch\<close>

lemma thread_startup_tail: "thread_startup me s = switch_tail me IPL_NONE s"
  by (simp add: thread_startup_def switch_tail_def)

lemma thread_resume_tail: "thread_resume me t s = switch_tail me (resume_spl (thr s t)) s"
  by (simp add: thread_resume_def resume_spl_def thread_startup_tail split: switchctx.split)

definition spl_state :: "cpustate \<Rightarrow> int \<Rightarrow> cpustate" where
  "spl_state c spl = c\<lparr>irq_on := (spl = IPL_NONE), t_curspl := spl, t_iplhigh_count := spl, c_spinlocks := 0\<rparr>"

lemma spl_state_inv: "curcpu_exists c \<Longrightarrow> spl = IPL_NONE \<or> spl = IPL_HIGH \<Longrightarrow> spl_inv (spl_state c spl)"
  by (auto simp: spl_inv_def spl_state_def)

abbreviation switching :: "cpustate \<Rightarrow> bool" where
  "switching c \<equiv> curcpu_exists c \<and> c_spinlocks c = 1 \<and> t_curspl c = IPL_HIGH \<and> t_iplhigh_count c = 2 \<and> \<not> irq_on c"

lemma switch_tail_ok:
  assumes "qrep (tls s) q" "curthread me s = t" "t \<notin> set (q (zombies me))"
    "\<And>u. u \<in> set (q (zombies me)) \<Longrightarrow> t_state (thr s u) = S_ZOMBIE \<and> t_proc (thr s u) = None"
    "klk s (RunqL me) = held_by me" "switching (c_state (cpus s me))" "spl = IPL_NONE \<or> spl = IPL_HIGH"
  shows "\<exists>s'. switch_tail me spl s = Some s' \<and> qrep (tls s') (q(zombies me := [])) \<and>
    thr s' t = (thr s t)\<lparr>t_wchan_name := None, t_state := S_RUN\<rparr> \<and>
    (\<forall>u. u \<noteq> t \<and> u \<notin> set (q (zombies me)) \<longrightarrow> thr s' u = thr s u) \<and>
    freed s' = freed s \<union> set (q (zombies me)) \<and> num_cpus s' = num_cpus s \<and>
    klk s' = (klk s)(RunqL me := spinlock_init) \<and>
    cpus s' = (cpus s)(me := (cpus s me)\<lparr>c_state := spl_state (c_state (cpus s me)) spl\<rparr>)"
proof -
  let ?s1 = "upd_thr t (\<lambda>x. x\<lparr>t_wchan_name := None, t_state := S_RUN\<rparr>) s"
  let ?s2 = "sunlocked me (RunqL me) ?s1"
  have rel: "srel me (RunqL me) ?s1 = Some ?s2"
    using assms(5,6) by (intro srel_ok) (auto simp: spl_inv_def)
  have ct: "curthread me ?s2 = t" using assms(2) by (simp add: sunlocked_def curthread_def)
  have z: "t_state (thr ?s2 u) = S_ZOMBIE \<and> t_proc (thr ?s2 u) = None" if "u \<in> set (q (zombies me))" for u
    using assms(3,4) that by (auto simp: sunlocked_def)
  obtain st where ex: "exorcise me ?s2 = Some ((laid_to_rest (set (q (zombies me))) ?s2)\<lparr>tls := st\<rparr>)"
      and q: "qrep st (q(zombies me := []))"
    using exorcise_ok [of ?s2 q me "q (zombies me)"] assms(1,3) ct z by (auto simp: sunlocked_def)
  let ?s3 = "(laid_to_rest (set (q (zombies me))) ?s2)\<lparr>tls := st\<rparr>"
  have st3: "c_state (cpus ?s3 me) = lock_left (c_state (cpus s me))"
    by (simp add: laid_to_rest_def sunlocked_def)
  have "splx spl (lock_left (c_state (cpus s me))) = Some (IPL_HIGH, spl_state (c_state (cpus s me)) spl)"
    using assms(6,7)
    by (auto simp: splx_def spllower_def lock_left_def spl_state_def Let_def intro!: cpustate.equality)
  then have "splset me spl ?s3 = Some (IPL_HIGH, upd_cpu me (c_state_update (\<lambda>_. spl_state (c_state (cpus s me)) spl)) ?s3)"
    unfolding splset_def st3 by simp
  with rel ex assms(2) have "switch_tail me spl s =
      Some (upd_cpu me (c_state_update (\<lambda>_. spl_state (c_state (cpus s me)) spl)) ?s3)"
    by (simp add: switch_tail_def)
  then show ?thesis using q assms(3) by (auto simp: sunlocked_def)
qed

section \<open>Putting the current thread away\<close>

definition destination :: "nat \<Rightarrow> threadstate \<Rightarrow> (nat \<times> string \<times> klock) option \<Rightarrow> nat" where
  "destination me ns wc = (case ns of S_READY \<Rightarrow> runqueue me
     | S_SLEEP \<Rightarrow> (case wc of Some (w, _, _) \<Rightarrow> wchan_threads w | None \<Rightarrow> 0)
     | _ \<Rightarrow> zombies me)"

text \<open>
  What each kind of switch requires: a sleeper holds exactly its channel's spinlock, an exiting
  thread has left its process, a yielding one holds no spinlock.
\<close>

definition may_switch :: "nat \<Rightarrow> threadstate \<Rightarrow> (nat \<times> string \<times> klock) option \<Rightarrow> 'tlb ksys \<Rightarrow> bool" where
  "may_switch me ns wc s \<longleftrightarrow>
     (case ns of
        S_RUN \<Rightarrow> False
      | S_READY \<Rightarrow> c_spinlocks (c_state (cpus s me)) = 0
      | S_SLEEP \<Rightarrow> (case wc of None \<Rightarrow> False
          | Some (w, nm, lk) \<Rightarrow> klk s lk = held_by me \<and> lk \<noteq> RunqL me \<and> c_spinlocks (c_state (cpus s me)) = 1)
      | S_ZOMBIE \<Rightarrow> t_proc (thr s (curthread me s)) = None \<and> c_spinlocks (c_state (cpus s me)) = 0)"

definition put_away_result ::
  "nat \<Rightarrow> threadstate \<Rightarrow> (nat \<times> string \<times> klock) option \<Rightarrow> nat \<Rightarrow> 'tlb ksys \<Rightarrow> 'tlb ksys \<Rightarrow> bool" where
  "put_away_result me ns wc cur s s' \<longleftrightarrow>
     (\<exists>x. thr s' = (thr s)(cur := x) \<and> x\<lparr>t_state := ns, t_wchan_name := None\<rparr> = (thr s cur)\<lparr>t_state := ns, t_wchan_name := None\<rparr>) \<and>
     num_cpus s' = num_cpus s \<and> freed s' = freed s \<and>
     (\<forall>k. klk s' k = (if ns = S_SLEEP \<and> k = snd (snd (the wc)) then spinlock_init else klk s k)) \<and>
     (\<forall>c. cpus s' c = (if c = me \<and> ns = S_SLEEP then (cpus s c)\<lparr>c_state := lock_left (c_state (cpus s c))\<rparr> else cpus s c))"

lemma put_away_ok:
  assumes Q: "qrep (tls s) q" "off_lists q cur" and c: "t_cpu (thr s cur) = Some me" and ok: "cpu_ok me s"
    and rq: "klk s (RunqL me) = held_by me" and ipi: "lk_free s (IpiL me)"
    and ns: "ns \<noteq> S_RUN"
    and sl: "ns = S_SLEEP \<Longrightarrow> wc = Some (w, nm, lk) \<and> klk s lk = held_by me \<and> c_spinlocks (c_state (cpus s me)) > 0"
  shows "\<exists>s'. put_away me ns wc cur s = Some s' \<and> put_away_result me ns wc cur s s' \<and>
    qrep (tls s') (q(destination me ns wc := q (destination me ns wc) @ [cur]))"
proof (cases ns)
  case S_READY
  have "runnable_body me me cur s = thread_make_runnable me cur True s"
    using c rq ok by (simp add: thread_make_runnable_def runnable_body_def sholds_def
      spinlock_do_i_hold_def Let_def cong: option.case_cong)
  moreover obtain st where "tl_addtail (runqueue me) cur (upd_thr cur (t_state_update (\<lambda>_. S_READY)) s) =
      Some ((upd_thr cur (t_state_update (\<lambda>_. S_READY)) s)\<lparr>tls := st\<rparr>)" "qrep st (q(runqueue me := q (runqueue me) @ [cur]))"
    using tl_addtail_ok [of "upd_thr cur (t_state_update (\<lambda>_. S_READY)) s" q cur "runqueue me"] Q by auto
  ultimately have "put_away me ns wc cur s = Some ((upd_thr cur (t_state_update (\<lambda>_. S_READY)) s)\<lparr>tls := st\<rparr>)"
    by (simp add: put_away_def S_READY runnable_body_def)
  then show ?thesis using \<open>qrep st _\<close> S_READY
    by (auto simp: put_away_result_def destination_def)
next
  case S_SLEEP
  note wc = sl [OF S_SLEEP]
  let ?s1 = "upd_thr cur (t_wchan_name_update (\<lambda>_. Some nm)) s"
  obtain st where st: "tl_addtail (wchan_threads w) cur ?s1 = Some (?s1\<lparr>tls := st\<rparr>)"
      "qrep st (q(wchan_threads w := q (wchan_threads w) @ [cur]))"
    using tl_addtail_ok [of ?s1 q cur "wchan_threads w"] Q by auto
  have "srel me lk (?s1\<lparr>tls := st\<rparr>) = Some (sunlocked me lk (?s1\<lparr>tls := st\<rparr>))"
    using wc ok by (intro srel_ok) auto
  then have "put_away me ns wc cur s = Some (sunlocked me lk (?s1\<lparr>tls := st\<rparr>))"
    using st wc by (simp add: put_away_def S_SLEEP Let_def)
  then show ?thesis using st(2) S_SLEEP wc
    by (auto simp: put_away_result_def destination_def sunlocked_def)
next
  case S_ZOMBIE
  let ?s1 = "upd_thr cur (t_wchan_name_update (\<lambda>_. Some ''ZOMBIE'')) s"
  obtain st where st: "tl_addtail (zombies me) cur ?s1 = Some (?s1\<lparr>tls := st\<rparr>)"
      "qrep st (q(zombies me := q (zombies me) @ [cur]))"
    using tl_addtail_ok [of ?s1 q cur "zombies me"] Q by auto
  then show ?thesis using S_ZOMBIE
    by (auto simp: put_away_def put_away_result_def destination_def Let_def)
qed (use ns in simp)

section \<open>The switch as a whole\<close>

text \<open>
  The queues after a switch away from \<open>cur\<close>: it is at the end of its destination, the head of the
  run queue is gone, and so are this CPU's zombies.
\<close>

definition switch_queues :: "nat \<Rightarrow> threadstate \<Rightarrow> (nat \<times> string \<times> klock) option \<Rightarrow> nat \<Rightarrow> (nat \<Rightarrow> nat list) \<Rightarrow> (nat \<Rightarrow> nat list)" where
  "switch_queues me ns wc cur q =
     (let q1 = q(destination me ns wc := q (destination me ns wc) @ [cur])
      in q1(runqueue me := tl (q1 (runqueue me))))"

definition parked_as :: "nat \<Rightarrow> threadstate \<Rightarrow> kthread \<Rightarrow> kthread \<Rightarrow> bool" where
  "parked_as me ns x y \<longleftrightarrow> t_state y = ns \<and> t_cpu y = t_cpu x \<and> t_proc y = t_proc x \<and>
     t_savedspl y = IPL_HIGH \<and> t_savedcount y = 2 \<and> t_stack y = t_stack x"

definition switched_out ::
  "nat \<Rightarrow> threadstate \<Rightarrow> (nat \<times> string \<times> klock) option \<Rightarrow> nat \<Rightarrow> nat \<Rightarrow> (nat \<Rightarrow> nat list) \<Rightarrow> 'tlb ksys \<Rightarrow> 'tlb ksys \<Rightarrow> bool" where
  "switched_out me ns wc cur t q s s' \<longleftrightarrow>
     qrep (tls s') (switch_queues me ns wc cur q) \<and> off_lists (switch_queues me ns wc cur q) t \<and>
     (\<forall>u. u \<noteq> cur \<longrightarrow> thr s' u = thr s u) \<and> parked_as me ns (thr s cur) (thr s' cur) \<and>
     t_context (thr s' cur) = SwitchContext (t_curspl (c_state (cpus s me))) \<and>
     num_cpus s' = num_cpus s \<and> freed s' = freed s \<and> klk s' (RunqL me) = held_by me \<and>
     (\<forall>k. k \<noteq> RunqL me \<longrightarrow> klk s' k = (if ns = S_SLEEP \<and> k = snd (snd (the wc)) then spinlock_init else klk s k)) \<and>
     (\<forall>c. c \<noteq> me \<longrightarrow> cpus s' c = cpus s c) \<and>
     curthread me s' = t \<and> \<not> c_isidle (cpus s' me) \<and> switching (c_state (cpus s' me))"

lemma spl_high_ok:
  assumes "cpu_ok me s"
  shows "\<exists>c. splset me IPL_HIGH s = Some (t_curspl (c_state (cpus s me)), upd_cpu me (c_state_update (\<lambda>_. c)) s) \<and>
    spl_inv c \<and> t_curspl c = IPL_HIGH \<and> c_spinlocks c = c_spinlocks (c_state (cpus s me))"
  using splx_inv [of "c_state (cpus s me)" IPL_HIGH] assms by (auto simp: splset_def)

lemma switching_locked:
  assumes "spl_inv c" "t_curspl c = IPL_HIGH"
  shows "c_spinlocks c = 0 \<Longrightarrow> switching (lock_entered c)"
    "c_spinlocks c = 1 \<Longrightarrow> switching (lock_left (lock_entered (c::cpustate)))"
  using assms by (auto simp: spl_inv_def lock_entered_def lock_left_def)

lemma thread_switch_out:
  assumes inv: "thread_inv s q" and me: "me < num_cpus s" "\<not> c_isidle (cpus s me)"
    and may: "may_switch me ns wc s" and lk: "lk_free s (RunqL me)" "lk_free s (IpiL me)"
    and rq: "q (runqueue me) = t # ts"
  shows "\<exists>s'. thread_switch cpu_idle me ns wc s = thread_resume me t s' \<and>
    switched_out me ns wc (curthread me s) t q s s'"
proof -
  define cur where "cur = curthread me s"
  have Q: "qrep (tls s) q" and on: "on_cpu s q me" and ok: "cpu_ok me s"
    using inv me by (auto simp: thread_inv_def)
  have park: "parked (thr s t)"
    using inv rq queued_okD(4) [of s q t "runqueue me"] by (simp add: thread_inv_def)
  have cur: "off_lists q cur" "t_cpu (thr s cur) = Some me" "stack_ok (thr s cur)"
    using on by (simp_all add: on_cpu_def cur_def)
  have "t \<noteq> cur" using cur(1) rq off_listsD(1) [of q cur "runqueue me"] by auto
  obtain c where hi: "splset me IPL_HIGH s = Some (t_curspl (c_state (cpus s me)), upd_cpu me (c_state_update (\<lambda>_. c)) s)"
      and c: "spl_inv c" "t_curspl c = IPL_HIGH" "c_spinlocks c = c_spinlocks (c_state (cpus s me))"
    using spl_high_ok [OF ok] by blast
  define sA where "sA = upd_cpu me (c_state_update (\<lambda>_. c)) s"
  define sB where "sB = slocked me (RunqL me) sA"
  have cA: "cpu_ok me sA" "lk_free sA (RunqL me)" using c lk by (simp_all add: sA_def lk_free_def)
  have acq: "sacq me (RunqL me) sA = Some sB" unfolding sB_def by (rule sacq_ok [OF cA])
  have B: "tls sB = tls s" "thr sB = thr s" "c_state (cpus sB me) = lock_entered c"
    "klk sB = (klk s)(RunqL me := held_by me)" "num_cpus sB = num_cpus s" "freed sB = freed s"
    "\<And>d. d \<noteq> me \<Longrightarrow> cpus sB d = cpus s d" "c_isidle (cpus sB me) = c_isidle (cpus s me)"
    by (simp_all add: sB_def sA_def slocked_def)
  have sl: "ns = S_SLEEP \<Longrightarrow> wc = Some (fst (the wc), fst (snd (the wc)), snd (snd (the wc))) \<and>
      klk sB (snd (snd (the wc))) = held_by me \<and> c_spinlocks (c_state (cpus sB me)) > 0"
    using may B c by (auto simp: may_switch_def split: option.splits)
  have sp: "c_spinlocks c = (if ns = S_SLEEP then 1 else 0)" "ns \<noteq> S_RUN"
    using may c by (auto simp: may_switch_def split: threadstate.splits option.splits)
  have "cpu_ok me sB" "klk sB (RunqL me) = held_by me" "lk_free sB (IpiL me)"
    using c lk by (simp_all add: B lock_entered_inv lk_free_def)
  from put_away_ok [of sB q cur me ns wc, OF _ cur(1) _ this sp(2) sl] Q cur(2)
  obtain sC where C: "put_away me ns wc cur sB = Some sC" "put_away_result me ns wc cur sB sC"
      "qrep (tls sC) (q(destination me ns wc := q (destination me ns wc) @ [cur]))"
    by (auto simp: B)
  define q1 where "q1 = q(destination me ns wc := q (destination me ns wc) @ [cur])"
  have q1: "\<exists>us. q1 (runqueue me) = t # us"
    using rq by (auto simp: q1_def destination_def split: threadstate.splits)
  define sD where "sD = upd_cpu me (c_isidle_update (\<lambda>_. True)) (upd_thr cur (t_state_update (\<lambda>_. ns)) sC)"
  have QD: "qrep (tls sD) q1" using C(3) by (simp add: sD_def q1_def)
  obtain st where pick: "pick_next cpu_idle me sD = Some (t, sD\<lparr>tls := st\<rparr>)"
      and qs: "qrep st (switch_queues me ns wc cur q)" "off_lists (switch_queues me ns wc cur q) t"
    using q1 pick_next_ok [OF QD, of me t "tl (q1 (runqueue me))" cpu_idle]
    unfolding switch_queues_def q1_def [symmetric] Let_def by auto
  define sE where "sE = upd_cpu me (c_curthread_update (\<lambda>_. t)) (upd_cpu me (c_isidle_update (\<lambda>_. False)) (sD\<lparr>tls := st\<rparr>))"
  define sF where "sF = switchframe_switch me cur t (t_curspl (c_state (cpus s me))) sE"
  have ne: "\<not> (ns = S_READY \<and> threadlist_isempty (runqueue me) (tls sB))"
    using qrep_isempty [OF Q] rq by (simp add: B)
  have A: "curthread me sA = cur" "c_isidle (cpus sA me) = False" "thread_checkstack cur sA = Some ()"
    using me(2) cur(3) by (simp_all add: sA_def cur_def curthread_def thread_checkstack_ok)
  have run: "thread_switch cpu_idle me ns wc s = thread_resume me t sF"
    unfolding thread_switch_def hi [folded sA_def] Option.bind.bind_lunit prod.case Let_def
      A acq if_False if_not_P [OF ne] C(1) sD_def [symmetric] pick sE_def [symmetric] sF_def [symmetric] ..
  have cC: "c_state (cpus sC me) = (if ns = S_SLEEP then lock_left (lock_entered c) else lock_entered c)"
    using C(2) by (auto simp: put_away_result_def B)
  then have sw: "switching (c_state (cpus sC me))"
    using switching_locked [OF c(1,2)] sp by (cases "ns = S_SLEEP") auto
  obtain x where x: "thr sC = (thr s)(cur := x)" "x\<lparr>t_state := ns, t_wchan_name := None\<rparr> = (thr s cur)\<lparr>t_state := ns, t_wchan_name := None\<rparr>"
    using C(2) by (auto simp: put_away_result_def B)
  from x(2) have x2: "t_cpu x = t_cpu (thr s cur) \<and> t_proc x = t_proc (thr s cur) \<and> t_stack x = t_stack (thr s cur)"
    by (cases x; cases "thr s cur") simp
  have F: "tls sF = st" "\<And>u. u \<noteq> cur \<Longrightarrow> thr sF u = thr s u" "num_cpus sF = num_cpus s" "freed sF = freed s"
      "klk sF = klk sC" "\<And>d. d \<noteq> me \<Longrightarrow> cpus sF d = cpus s d" "curthread me sF = t" "\<not> c_isidle (cpus sF me)"
      "c_state (cpus sF me) = (c_state (cpus sC me))\<lparr>t_curspl := t_savedspl (thr s t), t_iplhigh_count := t_savedcount (thr s t)\<rparr>"
      "parked_as me ns (thr s cur) (thr sF cur)" "t_context (thr sF cur) = SwitchContext (t_curspl (c_state (cpus s me)))"
    using C(2) x x2 \<open>t \<noteq> cur\<close> sw
    by (auto simp: sF_def switchframe_switch_def sE_def sD_def Let_def put_away_result_def B curthread_def parked_as_def)
  have "klk sF (RunqL me) = held_by me"
    "\<forall>k. k \<noteq> RunqL me \<longrightarrow> klk sF k = (if ns = S_SLEEP \<and> k = snd (snd (the wc)) then spinlock_init else klk s k)"
    using C(2) may unfolding F put_away_result_def by (auto simp: B may_switch_def split: option.splits)
  moreover have "switching (c_state (cpus sF me))"
    using sw park by (simp add: F parked_def)
  ultimately show ?thesis
    using run qs F unfolding cur_def by (auto simp: switched_out_def)
qed

text \<open>The queue a switched-out thread is on fits its state.\<close>

lemma switch_queues_mem:
  assumes "u \<in> set (switch_queues me ns wc cur q l)"
  shows "u \<in> set (q l) \<or> u = cur \<and> l = destination me ns wc"
proof -
  let ?q1 = "q(destination me ns wc := q (destination me ns wc) @ [cur])"
  have "u \<in> set (?q1 l)"
    using assms list.set_sel(2) [of "?q1 (runqueue me)" u] by (cases "?q1 (runqueue me) = []") (auto simp: switch_queues_def Let_def split: if_splits)
  then show ?thesis by (auto split: if_splits)
qed

lemma switched_queued_ok:
  assumes out: "switched_out me ns wc cur t q s s'" and ok: "queued_ok s q" and may: "may_switch me ns wc s"
    and cur: "cur = curthread me s" "t_cpu (thr s cur) = Some me" "stack_ok (thr s cur)" "off_lists q cur" and me: "me < num_cpus s"
    and spl: "cpu_ok me s"
  shows "queued_ok s' (switch_queues me ns wc cur q)"
proof -
  let ?q = "switch_queues me ns wc cur q"
  have same: "thr s' u = thr s u" if "u \<in> set (q l)" for u l
    using out cur(4) that by (auto simp: switched_out_def off_lists_def)
  have new: "t_state (thr s' cur) = ns" "t_cpu (thr s' cur) = Some me" "t_proc (thr s' cur) = t_proc (thr s cur)"
    "parked (thr s' cur)" "num_cpus s' = num_cpus s"
    using out cur(2,3) spl by (auto simp: switched_out_def parked_as_def parked_def resume_spl_def stack_ok_def spl_inv_def)
  note mem = switch_queues_mem [of _ me ns wc cur q]
  have dest: "destination me ns wc = runqueue c \<Longrightarrow> ns = S_READY \<and> c = me"
      "destination me ns wc = wchan_threads w \<Longrightarrow> ns = S_SLEEP"
      "destination me ns wc = zombies c \<Longrightarrow> ns = S_ZOMBIE \<and> t_proc (thr s cur) = None"
      "destination me ns wc \<noteq> stacklist c" for c w
    using may unfolding may_switch_def destination_def cur(1) by (auto split: threadstate.splits option.splits)
  have "c < num_cpus s' \<and> t_state (thr s' u) = S_READY \<and> t_cpu (thr s' u) = Some c" if "u \<in> set (?q (runqueue c))" for u c
    using mem [OF that] same [of u "runqueue c"] queued_okD(1) [OF ok, of u c] dest(1) [of c] new me by auto
  moreover have "t_state (thr s' u) = S_SLEEP \<and> (\<exists>c<num_cpus s'. t_cpu (thr s' u) = Some c)" if "u \<in> set (?q (wchan_threads w))" for u w
    using mem [OF that] same [of u "wchan_threads w"] queued_okD(2) [OF ok, of u w] dest(2) [of w] new me by auto
  moreover have "t_state (thr s' u) = S_ZOMBIE \<and> t_proc (thr s' u) = None" if "u \<in> set (?q (zombies c))" for u c
    using mem [OF that] same [of u "zombies c"] queued_okD(3) [OF ok, of u c] dest(3) [of c] new(1,3) by metis
  moreover have "parked (thr s' u)" if "u \<in> set (?q l)" for u l
    using mem [OF that] same [of u l] queued_okD(4) [OF ok, of u l] new by auto
  moreover have "?q (stacklist c) = []" for c
  proof -
    have "u \<notin> set (?q (stacklist c))" for u
    proof
      assume "u \<in> set (?q (stacklist c))"
      from mem [OF this] queued_okD(5) [OF ok, of c] have "destination me ns wc = stacklist c" by simp
      with dest(4) [of c] show False ..
    qed
    then show ?thesis by (cases "?q (stacklist c)") fastforce+
  qed
  ultimately show ?thesis unfolding queued_ok_def by blast
qed

lemma thread_switch_ok:
  assumes inv: "thread_inv s q" and me: "me < num_cpus s" "\<not> c_isidle (cpus s me)"
    and may: "may_switch me ns wc s" and lk: "lk_free s (RunqL me)" "lk_free s (IpiL me)"
    and rq: "q (runqueue me) = t # ts"
  defines "q' \<equiv> (switch_queues me ns wc (curthread me s) q)(zombies me := [])"
  shows "\<exists>s'. thread_switch cpu_idle me ns wc s = Some s' \<and> thread_inv s' q' \<and> curthread me s' = t \<and>
    t_state (thr s' t) = S_RUN \<and> t_curspl (c_state (cpus s' me)) = resume_spl (thr s t) \<and>
    c_spinlocks (c_state (cpus s' me)) = 0 \<and>
    freed s' = freed s \<union> set (switch_queues me ns wc (curthread me s) q (zombies me)) \<and>
    (\<forall>k. klk s' k = (if ns = S_SLEEP \<and> k = snd (snd (the wc)) then spinlock_init else klk s k))"
proof -
  define cur where "cur = curthread me s"
  define q2 where "q2 = switch_queues me ns wc cur q"
  obtain s1 where run: "thread_switch cpu_idle me ns wc s = thread_resume me t s1"
      and out: "switched_out me ns wc cur t q s s1"
    using thread_switch_out [OF assms(1-7)] unfolding cur_def by blast
  have ok: "queued_ok s q" and on: "\<And>c. c < num_cpus s \<Longrightarrow> cpu_ok c s \<and> (\<not> c_isidle (cpus s c) \<longrightarrow> on_cpu s q c)"
    using inv by (simp_all add: thread_inv_def)
  have cur: "off_lists q cur" "t_cpu (thr s cur) = Some me" "stack_ok (thr s cur)"
    using on [OF me(1)] me(2) by (simp_all add: on_cpu_def cur_def)
  have ok1: "queued_ok s1 q2"
    unfolding q2_def by (rule switched_queued_ok [OF out ok may cur_def cur(2,3,1) me(1)]) (use on [OF me(1)] in blast)
  have t: "t \<in> set (q (runqueue me))" using rq by simp
  then have "t \<noteq> cur" using off_listsD(1) [OF cur(1)] by blast
  then have thr1: "thr s1 t = thr s t" using out by (simp add: switched_out_def)
  have Q2: "qrep (tls s1) q2" "off_lists q2 t" using out by (simp_all add: switched_out_def q2_def)
  have spl: "resume_spl (thr s t) = IPL_NONE \<or> resume_spl (thr s t) = IPL_HIGH"
    using queued_okD(4) [OF ok t] by (simp add: parked_def)
  have "thread_resume me t s1 = switch_tail me (resume_spl (thr s t)) s1" by (simp add: thread_resume_tail thr1)
  moreover obtain s' where s': "switch_tail me (resume_spl (thr s t)) s1 = Some s'" "qrep (tls s') (q2(zombies me := []))"
      "thr s' t = (thr s1 t)\<lparr>t_wchan_name := None, t_state := S_RUN\<rparr>"
      "\<And>u. u \<noteq> t \<Longrightarrow> u \<notin> set (q2 (zombies me)) \<Longrightarrow> thr s' u = thr s1 u"
      "freed s' = freed s1 \<union> set (q2 (zombies me))" "num_cpus s' = num_cpus s1"
      "klk s' = (klk s1)(RunqL me := spinlock_init)"
      "cpus s' = (cpus s1)(me := (cpus s1 me)\<lparr>c_state := spl_state (c_state (cpus s1 me)) (resume_spl (thr s t))\<rparr>)"
    using switch_tail_ok [OF Q2(1), of me t "resume_spl (thr s t)"] out off_listsD(1) [OF Q2(2)]
      queued_okD(3) [OF ok1] spl by (auto simp: switched_out_def)
  ultimately have run': "thread_switch cpu_idle me ns wc s = Some s'" using run by simp
  have q'_eq: "q' = q2(zombies me := [])" by (simp add: q'_def q2_def cur_def)
  have keep: "thr s' u = thr s1 u" if "u \<in> set (q' l)" for u l
  proof -
    have u: "u \<in> set (q2 l)" "l \<noteq> zombies me" using that by (auto simp: q'_eq split: if_splits)
    then have "u \<notin> set (q2 (zombies me))" using qrepD(3) [OF Q2(1)] by blast
    moreover have "u \<noteq> t" using u off_listsD(1) [OF Q2(2)] by blast
    ultimately show ?thesis using s'(4) by blast
  qed
  have sub: "u \<in> set (q2 l)" if "u \<in> set (q' l)" for u l using that by (auto simp: q'_eq split: if_splits)
  have n: "num_cpus s' = num_cpus s1" "num_cpus s1 = num_cpus s" using s' out by (auto simp: switched_out_def)
  have ok': "queued_ok s' q'"
    by (rule queued_ok_mono [OF ok1]) (use sub keep n in auto)
  have ct: "curthread c s' = (if c = me then t else curthread c s)" for c
    using out s'(8) by (auto simp: switched_out_def curthread_def)
  have on': "cpu_ok c s' \<and> (\<not> c_isidle (cpus s' c) \<longrightarrow> on_cpu s' q' c)" if c: "c < num_cpus s'" for c
  proof (cases "c = me")
    case True
    have "t_cpu (thr s t) = Some me" "stack_ok (thr s t)"
      using queued_okD(1,4) [OF ok t] by (auto simp: parked_def)
    then have "on_cpu s' q' me"
      using off_listsD [OF Q2(2)] by (auto simp: on_cpu_def ct s'(3) thr1 q'_eq off_lists_def stack_ok_def)
    then show ?thesis using True out spl_state_inv [OF _ spl] by (simp add: s'(8) switched_out_def)
  next
    case False
    have same: "cpus s' c = cpus s c" using False out by (simp add: s'(8) switched_out_def)
    have "on_cpu s' q' c" if "\<not> c_isidle (cpus s c)"
    proof -
      let ?u = "curthread c s"
      have u: "off_lists q ?u" "t_state (thr s ?u) = S_RUN" "t_cpu (thr s ?u) = Some c" "stack_ok (thr s ?u)"
        using on [of c] c that n by (simp_all add: on_cpu_def)
      have ne: "?u \<noteq> cur" "?u \<noteq> t" using u(3) cur(2) False queued_okD(1) [OF ok t] by auto
      then have off2: "off_lists q2 ?u"
        using u(1) switch_queues_mem [of ?u me ns wc cur q] by (auto simp: off_lists_def q2_def)
      then have "thr s' ?u = thr s ?u"
        using s'(4) [OF ne(2) off_listsD(1) [OF off2]] out ne by (simp add: switched_out_def)
      then show ?thesis using u off2 False by (auto simp: on_cpu_def ct q'_eq off_lists_def)
    qed
    then show ?thesis using on [of c] c same n by simp
  qed
  have "qrep (tls s') q'" using s'(2) by (simp add: q'_eq)
  with ok' on' have "thread_inv s' q'" by (simp add: thread_inv_def)
  moreover have "klk s' k = (if ns = S_SLEEP \<and> k = snd (snd (the wc)) then spinlock_init else klk s k)" for k
    using out lk(1) by (auto simp: s'(7) switched_out_def lk_free_def)
  moreover have "t_curspl (c_state (cpus s' me)) = resume_spl (thr s t)" "c_spinlocks (c_state (cpus s' me)) = 0"
    by (simp_all add: s'(8) spl_state_def)
  ultimately show ?thesis
    using run' ct s' out by (auto simp: switched_out_def q2_def cur_def)
qed

end
