(* ===== verification/Thread_Example.thy ===== *)
theory Thread_Example
  imports Thread_Switch
begin

text \<open>
  A concrete system on which the theorems about threads and synchronisation are instantiated: two
  CPUs; thread 1 runs on CPU 0 and thread 4 on CPU 1; thread 2 waits on CPU 0's run queue and
  thread 3 sleeps on wait channel 0. The store is built from empty lists with the list operations
  of \<open>Threadlist\<close>.
\<close>

definition empty_store :: tlstore where
  "empty_store =
     \<lparr>tln_prev = (\<lambda>a. case a of TlTail l \<Rightarrow> Some (TlHead l) | _ \<Rightarrow> None),
      tln_next = (\<lambda>a. case a of TlHead l \<Rightarrow> Some (TlTail l) | _ \<Rightarrow> None),
      tln_self = (\<lambda>a. case a of TNode t \<Rightarrow> Some t | _ \<Rightarrow> None),
      tln_priority = (\<lambda>_. 0), tl_count = (\<lambda>_. 0)\<rparr>"

lemma empty_store_qrep: "qrep empty_store (\<lambda>_. [])"
  by (simp add: qrep_def tl_repr_def spine_def empty_store_def)

definition ex_store :: tlstore where
  "ex_store = the (threadlist_addtail (runqueue 0) 2 empty_store \<bind> threadlist_addtail (wchan_threads 0) 3)"

definition ex_queues :: "nat \<Rightarrow> nat list" where
  "ex_queues = (\<lambda>_. [])(runqueue 0 := [2], wchan_threads 0 := [3])"

lemma ex_store_qrep: "qrep ex_store ex_queues"
proof -
  obtain st where st: "threadlist_addtail (runqueue 0) 2 empty_store = Some st" "qrep st ((\<lambda>_. [])(runqueue 0 := [2]))"
    using qrep_addtail [OF empty_store_qrep, of 2 "runqueue 0"] by (auto simp: off_lists_def)
  have "off_lists ((\<lambda>_. [])(runqueue 0 := [2])) 3" by (simp add: off_lists_def)
  then obtain st2 where "threadlist_addtail (wchan_threads 0) 3 st = Some st2" "qrep st2 ex_queues"
    using qrep_addtail [OF st(2), of 3 "wchan_threads 0"] by (auto simp: ex_queues_def)
  then show ?thesis using st(1) by (simp add: ex_store_def)
qed

lemma ex_store_priority [simp]: "tln_priority ex_store a = 0"
  by (simp add: ex_store_def threadlist_addtail_def threadlist_insertbeforenode_def Let_def empty_store_def
      set_next_def set_prev_def set_count_def)

definition ex_thread :: "threadstate \<Rightarrow> nat \<Rightarrow> kthread" where
  "ex_thread st c =
     \<lparr>t_name = ''thread'', t_wchan_name = None, t_state = st,
      t_stack = Some (replicate 4 THREAD_STACK_MAGIC), t_context = SwitchContext IPL_NONE, t_cpu = Some c,
      t_proc = None, t_in_interrupt = False, t_savedspl = IPL_HIGH, t_savedcount = 2\<rparr>"

definition ex_cpu :: "nat \<Rightarrow> nat kcpu" where
  "ex_cpu t = \<lparr>c_curthread = t, c_hardclocks = 0, c_isidle = False, c_ipi_pending = 0, c_shootdown = [],
     c_state = \<lparr>curcpu_exists = True, irq_on = True, t_iplhigh_count = 0, t_curspl = IPL_NONE, c_spinlocks = 0\<rparr>\<rparr>"

definition ex_sys :: "nat ksys" where
  "ex_sys =
     \<lparr>tls = ex_store,
      thr = (\<lambda>t. if t = 2 then ex_thread S_READY 0 else if t = 3 then ex_thread S_SLEEP 1
                 else if t = 4 then ex_thread S_RUN 1 else ex_thread S_RUN 0),
      num_cpus = 2, cpus = (\<lambda>c. if c = 0 then ex_cpu 1 else ex_cpu 4), klk = (\<lambda>_. spinlock_init),
      thread_count = 4, p_numthreads = (\<lambda>_. 1), freed = {}, ipi_log = []\<rparr>"

lemma ex_queues_sel [simp]:
  "ex_queues (runqueue c) = (if c = 0 then [2] else [])" "ex_queues (wchan_threads w) = (if w = 0 then [3] else [])"
  "ex_queues (zombies c) = []" "ex_queues (stacklist c) = []"
  by (simp_all add: ex_queues_def)

lemma ex_queues_mem: "t \<in> set (ex_queues l) \<Longrightarrow> (t = 2 \<and> l = runqueue 0) \<or> (t = 3 \<and> l = wchan_threads 0)"
  by (auto simp: ex_queues_def split: if_splits)

lemma ex_sys_sel [simp]:
  "tls ex_sys = ex_store" "num_cpus ex_sys = 2" "klk ex_sys k = spinlock_init" "freed ex_sys = {}"
  "cpus ex_sys 0 = ex_cpu 1" "cpus ex_sys (Suc 0) = ex_cpu 4" "curthread 0 ex_sys = 1" "curthread (Suc 0) ex_sys = 4"
  "thr ex_sys 1 = ex_thread S_RUN 0" "thr ex_sys (Suc 0) = ex_thread S_RUN 0" "thr ex_sys 2 = ex_thread S_READY 0" "thr ex_sys 3 = ex_thread S_SLEEP 1"
  "thr ex_sys 4 = ex_thread S_RUN 1" "lk_free ex_sys k"
  by (simp_all add: ex_sys_def curthread_def ex_cpu_def lk_free_def)

lemma ex_parked: "parked (ex_thread st c)"
  by (simp add: parked_def ex_thread_def resume_spl_def stack_ok_def numeral_2_eq_2 numeral_3_eq_3)

lemma ex_thread_sel [simp]:
  "t_state (ex_thread st c) = st" "t_cpu (ex_thread st c) = Some c" "t_proc (ex_thread st c) = None"
  "\<not> t_in_interrupt (ex_thread st c)" "resume_spl (ex_thread st c) = IPL_NONE" "stack_ok (ex_thread st c)"
  using ex_parked [of st c] by (simp_all add: ex_thread_def resume_spl_def parked_def)

lemma ex_cpu_sel [simp]:
  "c_curthread (ex_cpu t) = t" "\<not> c_isidle (ex_cpu t)" "c_spinlocks (c_state (ex_cpu t)) = 0" "spl_inv (c_state (ex_cpu t))"
  "c_hardclocks (ex_cpu t) = 0"
  by (simp_all add: ex_cpu_def spl_inv_def)

lemma ex_inv: "thread_inv ex_sys ex_queues"
proof -
  have "queued_ok ex_sys ex_queues"
  proof -
    have "parked (thr ex_sys t)" if "t \<in> set (ex_queues l)" for t l
      using ex_queues_mem [OF that] by (auto simp: ex_parked)
    then show ?thesis unfolding queued_ok_def by auto
  qed
  moreover have "cpu_ok c ex_sys \<and> (\<not> c_isidle (cpus ex_sys c) \<longrightarrow> on_cpu ex_sys ex_queues c)" if "c < num_cpus ex_sys" for c
  proof -
    have "off_lists ex_queues 1" "off_lists ex_queues 4" using ex_queues_mem [of 1] ex_queues_mem [of 4]
      by (auto simp: off_lists_def)
    moreover have "c = 0 \<or> c = Suc 0" using that by auto
    ultimately show ?thesis by (auto simp: on_cpu_def)
  qed
  ultimately show ?thesis by (simp add: thread_inv_def ex_store_qrep)
qed

section \<open>Properties of the context switch\<close>

text \<open>
  C1. A context switch, for each of the three reasons to leave the CPU (yield, sleep, exit),
  never panics while the run queue is not empty: the thread at the head of the run queue becomes
  the running one, with the interrupt level it was suspended with and no spinlock held; the old
  thread is at the end of the queue its new state names; the zombies of this CPU are freed and no
  others; every spinlock is as before, except that a sleeper's channel lock is released; and the
  invariant of the thread system holds again.
\<close>

theorem thread_switch_correct:
  assumes "thread_inv s q" "me < num_cpus s" "\<not> c_isidle (cpus s me)" "may_switch me ns wc s"
    "lk_free s (RunqL me)" "lk_free s (IpiL me)" "q (runqueue me) = t # ts"
  shows "\<exists>s'. thread_switch cpu_idle me ns wc s = Some s' \<and>
    thread_inv s' ((switch_queues me ns wc (curthread me s) q)(zombies me := [])) \<and> curthread me s' = t \<and>
    t_state (thr s' t) = S_RUN \<and> t_curspl (c_state (cpus s' me)) = resume_spl (thr s t) \<and>
    c_spinlocks (c_state (cpus s' me)) = 0 \<and>
    freed s' = freed s \<union> set (switch_queues me ns wc (curthread me s) q (zombies me)) \<and>
    (\<forall>k. klk s' k = (if ns = S_SLEEP \<and> k = snd (snd (the wc)) then spinlock_init else klk s k))"
  by (rule thread_switch_ok [OF assms])

theorem thread_switch_correct_witness:
  "\<exists>s'. thread_switch id 0 S_READY None ex_sys = Some s' \<and>
    thread_inv s' ((switch_queues 0 S_READY None 1 ex_queues)(zombies 0 := [])) \<and> curthread 0 s' = 2"
proof -
  have "may_switch 0 S_READY None ex_sys" by (simp add: may_switch_def)
  with thread_switch_correct [of ex_sys ex_queues 0 S_READY None 2 "[]" id] ex_inv show ?thesis by auto
qed

text \<open>
  Waking a wait channel moves every sleeper, in the order they went to sleep, to the end of
  the run queue of the CPU each last ran on, marks exactly those threads ready, and leaves the
  channel empty; lock words and the interrupt state of every CPU are as before.
\<close>

theorem wchan_wakeall_correct:
  assumes "qrep (tls s) q" "q (wchan_threads w) = ts" "q (stacklist me) = []" "sholds me lk s" "cpu_ok me s"
    "\<And>t. t \<in> set ts \<Longrightarrow> t_cpu (thr s t) = Some (cpu t)"
    "\<And>c. lk_free s (RunqL c)" "\<And>c. lk_free s (IpiL c)"
  shows "\<exists>s'. wchan_wakeall me w lk s = Some s' \<and>
    qrep (tls s') ((deal cpu ts q)(wchan_threads w := [])) \<and> klk s' = klk s \<and> curthread me s' = curthread me s \<and>
    (\<forall>t. thr s' t = (if t \<in> set ts then (thr s t)\<lparr>t_state := S_READY\<rparr> else thr s t))"
proof -
  obtain s' where "wchan_wakeall me w lk s = Some s'" "qrep (tls s') ((deal cpu ts q)(wchan_threads w := []))"
      and fr: "wake_frame s s'" and "\<forall>t. thr s' t = (if t \<in> set ts then (thr s t)\<lparr>t_state := S_READY\<rparr> else thr s t)"
    using wchan_wakeall_ok [OF assms] by blast
  moreover have "klk s' = klk s" "curthread me s' = curthread me s" using wake_frameD(5,3) [OF fr] by simp_all
  ultimately show ?thesis by blast
qed

theorem wchan_wakeall_correct_witness:
  "\<exists>s'. wchan_wakeall 0 0 (ObjL 7) (slocked 0 (ObjL 7) ex_sys) = Some s' \<and>
    qrep (tls s') ((deal (\<lambda>_. 1) [3] ex_queues)(wchan_threads 0 := []))"
proof -
  have "sholds 0 (ObjL 7) (slocked 0 (ObjL 7) ex_sys)" by (simp add: sholds_def spinlock_do_i_hold_def)
  moreover have "cpu_ok 0 (slocked 0 (ObjL 7) ex_sys)" by (simp add: lock_entered_inv)
  moreover have "lk_free (slocked 0 (ObjL 7) ex_sys) (RunqL c)" "lk_free (slocked 0 (ObjL 7) ex_sys) (IpiL c)" for c
    by (simp_all add: lk_free_def)
  ultimately show ?thesis
    using wchan_wakeall_correct [of "slocked 0 (ObjL 7) ex_sys" ex_queues 0 "[3]" 0 "ObjL 7" "\<lambda>_. 1"] ex_store_qrep
    by auto
qed

end
