(* ===== verification/Thread_Sched.thy ===== *)
theory Thread_Sched
  imports Thread_Example
begin

text \<open>
  The scheduler pass of \<open>thread.c\<close> (\<open>schedule\<close>) and thread migration
  (\<open>thread_consider_migration\<close>). \<open>bubble\<close> is the list function that one pass computes;
  \<open>schedule\<close> implements it exactly when no bookend takes part in a swap, and faults otherwise.
\<close>

section \<open>Priorities are not touched by list operations\<close>

lemma set_priority [simp]:
  "tln_priority (set_next a x s) = tln_priority s" "tln_priority (set_prev a x s) = tln_priority s"
  "tln_priority (set_count l n s) = tln_priority s"
  by (simp_all add: set_next_def set_prev_def set_count_def)

lemma remove_priority: "threadlist_remove l t s = Some s' \<Longrightarrow> tln_priority s' = tln_priority s"
  by (auto simp: threadlist_remove_def threadlist_removenode_def Let_def split: Option.bind_splits)

lemma insertbefore_priority: "threadlist_insertbefore l t u s = Some s' \<Longrightarrow> tln_priority s' = tln_priority s"
  by (auto simp: threadlist_insertbefore_def threadlist_insertbeforenode_def Let_def split: Option.bind_splits)

lemma qrep_priority [simp]: "qrep (st\<lparr>tln_priority := p\<rparr>) q \<longleftrightarrow> qrep st q"
proof -
  have "linked (st\<lparr>tln_priority := p\<rparr>) xs \<longleftrightarrow> linked st xs" for xs
    by (induction st xs rule: linked.induct) auto
  then show ?thesis by (simp add: qrep_def tl_repr_def)
qed

section \<open>Ageing\<close>

lemma sched_age_spine:
  assumes "linked st (a # as)" "tln_next st (last (a # as)) = None" "distinct (a # as)"
  shows "sched_age a st = Some (st\<lparr>tln_priority := (\<lambda>x. if x \<in> set (butlast (a # as)) then tln_priority st x + 1 else tln_priority st x)\<rparr>)"
  using assms
proof (induction as arbitrary: a st)
  case Nil
  then show ?case by (subst sched_age.simps) simp
next
  case (Cons b as)
  let ?st = "st\<lparr>tln_priority := (tln_priority st)(a := tln_priority st a + 1)\<rparr>"
  have "linked ?st xs \<longleftrightarrow> linked st xs" for xs by (induction st xs rule: linked.induct) auto
  then have "sched_age b ?st = Some (?st\<lparr>tln_priority := (\<lambda>x. if x \<in> set (butlast (b # as)) then tln_priority ?st x + 1 else tln_priority ?st x)\<rparr>)"
    using Cons.prems by (intro Cons.IH) auto
  moreover have "(\<lambda>x. if x \<in> set (butlast (b # as)) then tln_priority ?st x + 1 else tln_priority ?st x) =
      (\<lambda>x. if x \<in> set (butlast (a # b # as)) then tln_priority st x + 1 else tln_priority st x)"
    using Cons.prems(3) in_set_butlastD [of a "b # as"] by (auto simp: fun_eq_iff)
  moreover have "sched_age a st = sched_age b ?st"
    using Cons.prems(1) by (subst sched_age.simps) simp
  ultimately show ?case by simp
qed

definition aged :: "nat \<Rightarrow> nat list \<Rightarrow> (tlref \<Rightarrow> int) \<Rightarrow> (tlref \<Rightarrow> int)" where
  "aged l ts p = (\<lambda>x. if x = TlHead l \<or> x \<in> TNode ` set ts then p x + 1 else p x)"

lemma sched_age_ok:
  assumes "qrep st q"
  shows "sched_age (TlHead l) st = Some (st\<lparr>tln_priority := aged l (q l) (tln_priority st)\<rparr>)"
proof -
  have R: "tl_repr st l (q l)" by (rule qrepD(1) [OF assms])
  have "set (butlast (spine l (q l))) = insert (TlHead l) (TNode ` set (q l))"
    by (auto simp: spine_def butlast_append)
  moreover have "sched_age (TlHead l) st = Some (st\<lparr>tln_priority := (\<lambda>x. if x \<in> set (butlast (spine l (q l)))
      then tln_priority st x + 1 else tln_priority st x)\<rparr>)"
    using sched_age_spine [of st "TlHead l" "map TNode (q l) @ [TlTail l]"] R distinct_spine [of "q l" l]
    by (simp add: tl_repr_def spine_def)
  ultimately show ?thesis by (simp add: aged_def image_iff)
qed

section \<open>One bubble pass\<close>

fun bubble :: "(nat \<Rightarrow> int) \<Rightarrow> nat list \<Rightarrow> nat list" where
  "bubble pr (x # y # zs) = (if pr y > pr x then y # x # bubble pr zs else x # bubble pr (y # zs))"
| "bubble pr xs = xs"

lemma bubble_mset [simp]: "mset (bubble pr xs) = mset xs"
  by (induction pr xs rule: bubble.induct) auto

lemma bubble_set [simp]: "set (bubble pr xs) = set xs"
  by (metis bubble_mset set_mset_mset)

lemma bubble_sorted: "sorted_wrt (\<lambda>x y. pr x \<ge> pr y) xs \<Longrightarrow> bubble pr xs = xs"
  by (induction pr xs rule: bubble.induct) auto

lemma bubble_fixpoint: "bubble pr xs = xs \<Longrightarrow> sorted_wrt (\<lambda>x y. pr x \<ge> pr y) xs"
proof (induction pr xs rule: bubble.induct)
  case (1 pr x y zs)
  show ?case
  proof (cases "pr y > pr x")
    case True
    have "hd (bubble pr (x # y # zs)) = x" unfolding "1.prems" by simp
    with True have "y = x" by simp
    with True show ?thesis by simp
  next
    case False
    with 1 have "sorted_wrt (\<lambda>x y. pr x \<ge> pr y) (y # zs)" by simp
    with False show ?thesis by fastforce
  qed
qed auto

text \<open>The pointer-level list operations the pass uses, on the queues of a system.\<close>

lemma qrep_remove:
  assumes "qrep st q" "q l = us @ t # vs"
  shows "\<exists>st'. threadlist_remove l t st = Some st' \<and> qrep st' (q(l := us @ vs)) \<and> off_lists (q(l := us @ vs)) t"
  using remove_repr [of st l us t vs] qrepD(1) [OF assms(1), of l] qrep_rem [OF assms] assms(2) by fastforce

lemma qrep_insertbefore:
  assumes "qrep st q" "q l = us @ u # vs" "off_lists q t"
  shows "\<exists>st'. threadlist_insertbefore l t u st = Some st' \<and> qrep st' (q(l := us @ t # u # vs))"
proof -
  have "tl_repr st l (us @ u # vs)" using qrepD(1) [OF assms(1), of l] assms(2) by simp
  moreover have "t \<notin> set (us @ u # vs)" using off_listsD(1) [OF assms(3), of l] assms(2) by simp
  moreover have "tln_self st (TNode t) = Some t" using qrepD(5) [OF assms(1) off_listsD(2) [OF assms(3)]] .
  ultimately obtain st' where "threadlist_insertbefore l t u st = Some st'"
      "tl_repr st' l (us @ t # u # vs)" "tl_frame l (us @ t # u # vs) st st'"
    using insertbefore_repr by blast
  then show ?thesis using qrep_add [OF assms(1,3), of st' l "us @ t # u # vs"] assms(2) by auto
qed

lemma qrep_next:
  assumes "qrep st q" "q l = us @ t # vs"
  shows "tln_next st (TNode t) = Some (node_after l vs)"
  using repr_mid(2) [of st l us t vs] qrepD(1) [OF assms(1), of l] assms(2) by simp

lemma qrep_tail_next: "qrep st q \<Longrightarrow> tln_next st (TlTail l) = None"
  using qrepD(1) [of st q l] by (simp add: tl_repr_def)

lemma sched_bubble_ok:
  assumes "qrep st q" "q l = us @ x # zs" "\<And>t. t \<in> set (x # zs) \<Longrightarrow> tln_priority st (TlTail l) \<le> pr t"
    "\<And>t. t \<in> set (x # zs) \<Longrightarrow> tln_priority st (TNode t) = pr t"
  shows "\<exists>st'. sched_bubble l (TNode x) st = Some st' \<and> qrep st' (q(l := us @ bubble pr (x # zs))) \<and>
    tln_priority st' = tln_priority st"
  using assms
proof (induction "length zs" arbitrary: us x zs st q rule: less_induct)
  case less
  have self: "tln_self st (TNode t) = Some t" if "t \<in> set (x # zs)" for t
    using qrepD(4) [OF less.prems(1), of t l] qrepD(5) [OF less.prems(1), of t] that less.prems(2) by auto
  have tail: "sched_bubble l (TlTail l) st' = Some st'" if "tln_next st' (TlTail l) = None" for st'
    using that by (subst sched_bubble.simps) simp
  show ?case
  proof (cases zs)
    case Nil
    then have "sched_bubble l (TNode x) st = Some st"
      using qrep_next [OF less.prems(1), of l us x "[]"] less.prems(2) less.prems(3,4) [of x]
        tail [OF qrep_tail_next [OF less.prems(1)]]
      by (subst sched_bubble.simps) (auto simp: node_after_def)
    moreover have "q(l := us @ bubble pr (x # zs)) = q" using less.prems(2) Nil by auto
    ultimately show ?thesis using less.prems(1) by auto
  next
    case (Cons y ws)
    have nx: "tln_next st (TNode x) = Some (TNode y)"
      using qrep_next [OF less.prems(1), of l us x zs] less.prems(2) by (simp add: node_after_def Cons)
    show ?thesis
    proof (cases "pr y > pr x")
      case False
      obtain st' where "sched_bubble l (TNode y) st = Some st'"
          "qrep st' (q(l := (us @ [x]) @ bubble pr (y # ws)))" "tln_priority st' = tln_priority st"
        using less.hyps [of ws st q "us @ [x]" y] less.prems Cons by auto
      moreover have "sched_bubble l (TNode x) st = sched_bubble l (TNode y) st"
        using False nx less.prems(4) [of x] less.prems(4) [of y] Cons by (subst sched_bubble.simps) simp
      ultimately show ?thesis using False Cons by auto
    next
      case True
      obtain st1 where st1: "threadlist_remove l y st = Some st1" "qrep st1 (q(l := us @ x # ws))"
          "off_lists (q(l := us @ x # ws)) y"
        using qrep_remove [of st q l "us @ [x]" y ws] less.prems(1,2) Cons by auto
      obtain st2 where st2: "threadlist_insertbefore l y x st1 = Some st2" "qrep st2 (q(l := us @ y # x # ws))"
        using qrep_insertbefore [OF st1(2), of l us x ws y] st1(3) by auto
      have pr: "tln_priority st2 = tln_priority st"
        using remove_priority [OF st1(1)] insertbefore_priority [OF st2(1)] by simp
      have self1: "tln_self st1 (TNode y) = Some y" "tln_self st1 (TNode x) = Some x"
        using qrepD(4) [OF less.prems(1), of _ l] qrepD(5) [OF st1(2)] less.prems(2) Cons by auto
      define q2 where "q2 = q(l := us @ y # x # ws)"
      have q2: "qrep st2 q2" "q2 l = us @ y # x # ws" using st2(2) by (simp_all add: q2_def)
      have "tln_next st2 (TNode x) = Some (node_after l ws)"
        using qrep_next [OF q2(1), of l "us @ [y]" x ws] q2(2) by simp
      then have go: "sched_bubble l (TNode x) st = sched_bubble l (node_after l ws) st2"
        using True nx self self1 st1(1) st2(1) less.prems(4) [of x] less.prems(4) [of y] Cons
        by (subst sched_bubble.simps) simp
      show ?thesis
      proof (cases ws)
        case Nil
        then have "sched_bubble l (TNode x) st = Some st2"
          using go tail [OF qrep_tail_next [OF q2(1)]] by (simp add: node_after_def)
        then show ?thesis using True Cons Nil st2(2) pr by auto
      next
        case (Cons z vs)
        have "\<exists>st'. sched_bubble l (TNode z) st2 = Some st' \<and>
            qrep st' (q2(l := (us @ [y, x]) @ bubble pr (z # vs))) \<and> tln_priority st' = tln_priority st2"
          by (rule less.hyps) (use less.prems(3,4) q2 pr \<open>zs = y # ws\<close> Cons in auto)
        moreover have "q2(l := (us @ [y, x]) @ bubble pr (z # vs)) = q(l := us @ bubble pr (x # zs))"
          using True \<open>zs = y # ws\<close> Cons by (simp add: q2_def)
        ultimately show ?thesis using go pr Cons by (auto simp: node_after_def)
      qed
    qed
  qed
qed

lemma schedule_ok:
  assumes "qrep (tls s) q" "t_cpu (thr s (curthread me s)) = Some c"
    and head: "\<And>t. t \<in> set (q (runqueue c)) \<Longrightarrow> tln_priority (tls s) (TNode t) \<le> tln_priority (tls s) (TlHead (runqueue c))"
    and tail: "\<And>t. t \<in> set (q (runqueue c)) \<Longrightarrow> tln_priority (tls s) (TlTail (runqueue c)) \<le> tln_priority (tls s) (TNode t) + 1"
    and empty: "q (runqueue c) = [] \<Longrightarrow> tln_priority (tls s) (TlTail (runqueue c)) \<le> tln_priority (tls s) (TlHead (runqueue c)) + 1"
  shows "\<exists>st. schedule me s = Some (s\<lparr>tls := st\<rparr>) \<and>
    qrep st (q(runqueue c := bubble (\<lambda>t. tln_priority (tls s) (TNode t)) (q (runqueue c)))) \<and>
    tln_priority st = aged (runqueue c) (q (runqueue c)) (tln_priority (tls s))"
proof -
  define l where "l = runqueue c"
  define p where "p = tln_priority (tls s)"
  let ?st1 = "(tls s)\<lparr>tln_priority := aged l (q l) p\<rparr>"
  have age: "sched_age (TlHead l) (tls s) = Some ?st1" using sched_age_ok [OF assms(1)] by (simp add: p_def)
  have Q1: "qrep ?st1 q" using assms(1) by simp
  have hd: "tln_next ?st1 (TlHead l) = Some (node_after l (q l))"
    using repr_gap(1) [of "tls s" l "[]" "q l"] qrepD(1) [OF assms(1), of l] by (simp add: node_before_def)
  have sh: "bubble (\<lambda>t. p (TNode t) + 1) ts = bubble (\<lambda>t. p (TNode t)) ts" for ts
    by (induction "\<lambda>t. p (TNode t)" ts rule: bubble.induct) auto
  have "\<not> tln_priority ?st1 (node_after l (q l)) > tln_priority ?st1 (TlHead l)"
  proof (cases "q l")
    case (Cons a as)
    with head [of a] show ?thesis by (simp add: node_after_def aged_def l_def p_def)
  qed (use empty in \<open>simp add: node_after_def aged_def l_def p_def\<close>)
  then have step: "sched_bubble l (TlHead l) ?st1 = sched_bubble l (node_after l (q l)) ?st1"
    using hd by (subst sched_bubble.simps) simp
  have "\<exists>st. sched_bubble l (node_after l (q l)) ?st1 = Some st \<and>
      qrep st (q(l := bubble (\<lambda>t. p (TNode t)) (q l))) \<and> tln_priority st = aged l (q l) p"
  proof (cases "q l")
    case Nil
    then have "q(l := bubble (\<lambda>t. p (TNode t)) (q l)) = q" by auto
    with Nil Q1 qrep_tail_next [OF Q1, of l] show ?thesis
      by (subst sched_bubble.simps) (auto simp: node_after_def)
  next
    case (Cons x zs)
    have "\<exists>st. sched_bubble l (TNode x) ?st1 = Some st \<and>
        qrep st (q(l := [] @ bubble (\<lambda>t. p (TNode t) + 1) (x # zs))) \<and> tln_priority st = tln_priority ?st1"
      by (rule sched_bubble_ok [OF Q1]) (use Cons tail in \<open>auto simp: l_def [symmetric] p_def [symmetric] aged_def\<close>)
    then show ?thesis using Cons by (simp add: sh node_after_def)
  qed
  then show ?thesis
    using assms(2) age step unfolding l_def p_def by (auto simp: schedule_def Let_def)
qed

text \<open>
  The bookends have no initialised priority. A queued thread with a priority above the head
  bookend's (it has aged on another CPU and was migrated here) makes the pass fault.
\<close>

lemma schedule_faults:
  assumes "qrep (tls s) q" "t_cpu (thr s (curthread me s)) = Some c" "q (runqueue c) = t # ts"
    "tln_priority (tls s) (TNode t) > tln_priority (tls s) (TlHead (runqueue c))"
  shows "schedule me s = None"
proof -
  define l where "l = runqueue c"
  let ?st1 = "(tls s)\<lparr>tln_priority := aged l (q l) (tln_priority (tls s))\<rparr>"
  have age: "sched_age (TlHead l) (tls s) = Some ?st1" by (rule sched_age_ok [OF assms(1)])
  have hd: "tln_next ?st1 (TlHead l) = Some (TNode t)"
    using repr_gap(1) [of "tls s" l "[]" "q l"] qrepD(1) [OF assms(1), of l] assms(3)
    by (simp add: node_before_def node_after_def l_def)
  have Q1: "qrep ?st1 q" using assms(1) by simp
  obtain st2 where "threadlist_remove l t ?st1 = Some st2" "qrep st2 (q(l := ts))"
    using qrep_remove [OF Q1, of l "[]" t ts] assms(3) by (auto simp: l_def)
  then have "sched_bubble l (TlHead l) ?st1 = None"
    using hd assms(3,4) qrepD(5) [OF Q1, of t] qrepD(4) [OF Q1, of t l] qrepD(1) [of st2 "q(l := ts)" l]
    by (subst sched_bubble.simps) (auto simp: aged_def l_def tl_repr_def split: Option.bind_splits)
  then show ?thesis using assms(2) age by (simp add: schedule_def l_def Let_def)
qed

section \<open>Properties\<close>

text \<open>
  When the bookends' priorities do not get in the way, \<open>schedule\<close> keeps the threads of the run
  queue (the queue is a permutation, reordered by one pass that moves a thread with a strictly
  higher priority in front of its predecessor), ages each of them by one, and changes no other
  list; a queue already in priority order is left as it is.
\<close>

theorem schedule_correct:
  assumes "qrep (tls s) q" "t_cpu (thr s (curthread me s)) = Some c"
    "\<And>t. t \<in> set (q (runqueue c)) \<Longrightarrow> tln_priority (tls s) (TNode t) \<le> tln_priority (tls s) (TlHead (runqueue c))"
    "\<And>t. t \<in> set (q (runqueue c)) \<Longrightarrow> tln_priority (tls s) (TlTail (runqueue c)) \<le> tln_priority (tls s) (TNode t) + 1"
    "q (runqueue c) = [] \<Longrightarrow> tln_priority (tls s) (TlTail (runqueue c)) \<le> tln_priority (tls s) (TlHead (runqueue c)) + 1"
  shows "\<exists>st ts. schedule me s = Some (s\<lparr>tls := st\<rparr>) \<and> qrep st (q(runqueue c := ts)) \<and>
    mset ts = mset (q (runqueue c)) \<and> ts = bubble (\<lambda>t. tln_priority (tls s) (TNode t)) (q (runqueue c)) \<and>
    (ts = q (runqueue c) \<longleftrightarrow> sorted_wrt (\<lambda>x y. tln_priority (tls s) (TNode x) \<ge> tln_priority (tls s) (TNode y)) (q (runqueue c))) \<and>
    tln_priority st = aged (runqueue c) (q (runqueue c)) (tln_priority (tls s))"
proof -
  let ?b = "bubble (\<lambda>t. tln_priority (tls s) (TNode t)) (q (runqueue c))"
  have "?b = q (runqueue c) \<longleftrightarrow> sorted_wrt (\<lambda>x y. tln_priority (tls s) (TNode x) \<ge> tln_priority (tls s) (TNode y)) (q (runqueue c))"
    using bubble_fixpoint bubble_sorted by metis
  moreover have "mset ?b = mset (q (runqueue c))" by simp
  ultimately show ?thesis using schedule_ok [OF assms] by blast
qed

theorem schedule_correct_witness:
  "\<exists>st ts. schedule 0 ex_sys = Some (ex_sys\<lparr>tls := st\<rparr>) \<and> qrep st (ex_queues(runqueue 0 := ts)) \<and> mset ts = {#2#}"
  using schedule_correct [of ex_sys ex_queues 0 0] ex_store_qrep ex_store_priority by auto

text \<open>
  \<open>schedule\<close> takes the head bookend for a thread: when the first thread of the run queue has a
  priority above the one found in the (never initialised) bookend, the kernel removes that thread
  and then dereferences the bookend's NULL \<open>tln_self\<close>.
\<close>

theorem schedule_null_dereference:
  assumes "qrep (tls s) q" "t_cpu (thr s (curthread me s)) = Some c" "q (runqueue c) = t # ts"
    "tln_priority (tls s) (TNode t) > tln_priority (tls s) (TlHead (runqueue c))"
  shows "schedule me s = None"
  by (rule schedule_faults [OF assms])

theorem schedule_null_dereference_witness:
  "schedule 0 (ex_sys\<lparr>tls := ex_store\<lparr>tln_priority := (\<lambda>_. 0)(TNode 2 := 1)\<rparr>\<rparr>) = None"
  by (rule schedule_null_dereference [where q = ex_queues and c = 0 and t = 2 and ts = "[]"])
    (simp_all add: ex_store_qrep curthread_def)

end
