(* ===== verification/Thread_Migrate.thy ===== *)
theory Thread_Migrate
  imports Thread_Example
begin

text \<open>
  \<open>thread_consider_migration\<close>: it never faults, loses no thread and duplicates none, keeps the
  invariant of the thread system, and leaves this CPU with at most its share of the ready
  threads. The statements are for a CPU that is running its current thread, so that this thread
  is on no queue (the function's own comment describes the idle case it also allows for).
\<close>

section \<open>Counting\<close>

lemma mig_count_ok:
  assumes "cpu_ok me s" "\<And>c. lk_free s (RunqL c)"
  shows "mig_count me cs my tot s =
    Some (if me \<in> set cs then tl_count (tls s) (runqueue me) else my,
          tot + (\<Sum>c\<leftarrow>cs. tl_count (tls s) (runqueue c)), s)"
proof (induction cs arbitrary: my tot)
  case (Cons c cs)
  then show ?case using assms by (simp add: sacq_ok srel_slocked Let_def add.assoc)
qed simp

section \<open>Taking threads off the tail\<close>

lemma mig_take_ok:
  assumes "qrep (tls s) q" "q (runqueue me) = us @ vs"
  shows "\<exists>st. mig_take me (length vs) s = Some (s\<lparr>tls := st\<rparr>) \<and>
    qrep st (q(runqueue me := us, stacklist me := vs @ q (stacklist me)))"
  using assms
proof (induction vs arbitrary: s q rule: rev_induct)
  case Nil
  then have "q(runqueue me := us, stacklist me := [] @ q (stacklist me)) = q" by auto
  with Nil(1) have "mig_take me (length []) s = Some (s\<lparr>tls := tls s\<rparr>) \<and>
      qrep (tls s) (q(runqueue me := us, stacklist me := [] @ q (stacklist me)))" by (simp only:) simp
  then show ?case by blast
next
  case (snoc t vs)
  obtain st where st: "tl_remtail (runqueue me) s = Some (Some t, s\<lparr>tls := st\<rparr>)"
      "qrep st (q(runqueue me := us @ vs))" "off_lists (q(runqueue me := us @ vs)) t"
    using tl_remtail_snoc [OF snoc.prems(1), of "runqueue me" "us @ vs" t] snoc.prems(2) by auto
  define q2 where "q2 = q(runqueue me := us @ vs, stacklist me := t # q (stacklist me))"
  obtain st2 where st2: "tl_addhead (stacklist me) t (s\<lparr>tls := st\<rparr>) = Some (s\<lparr>tls := st2\<rparr>)" "qrep st2 q2"
    using tl_addhead_ok [of "s\<lparr>tls := st\<rparr>" "q(runqueue me := us @ vs)" t "stacklist me"] st by (auto simp: q2_def)
  have "q2 (runqueue me) = us @ vs" by (simp add: q2_def)
  moreover have "qrep (tls (s\<lparr>tls := st2\<rparr>)) q2" using st2(2) by simp
  ultimately obtain st3 where st3: "mig_take me (length vs) (s\<lparr>tls := st2\<rparr>) = Some (s\<lparr>tls := st2, tls := st3\<rparr>)"
      "qrep st3 (q2(runqueue me := us, stacklist me := vs @ q2 (stacklist me)))"
    using snoc.IH [of "s\<lparr>tls := st2\<rparr>" q2] by blast
  have qs: "q2(runqueue me := us, stacklist me := vs @ q2 (stacklist me)) =
      q(runqueue me := us, stacklist me := (vs @ [t]) @ q (stacklist me))"
    by (auto simp: q2_def fun_eq_iff)
  have "mig_take me (length (vs @ [t])) s = mig_take me (length vs) (s\<lparr>tls := st2\<rparr>)"
    using st(1) st2(1) by simp
  then have "mig_take me (length (vs @ [t])) s = Some (s\<lparr>tls := st3\<rparr>)" using st3(1) by simp
  with st3(2) show ?case unfolding qs by blast
qed

section \<open>Handing them out\<close>

definition mig_frame :: "'tlb ksys \<Rightarrow> 'tlb ksys \<Rightarrow> bool" where
  "mig_frame s s' \<longleftrightarrow>
     num_cpus s' = num_cpus s \<and> klk s' = klk s \<and>
     (\<forall>c. (cpus s' c)\<lparr>c_ipi_pending := 0\<rparr> = (cpus s c)\<lparr>c_ipi_pending := 0\<rparr>)"

lemma mig_frame_refl [simp]: "mig_frame s s"
  by (simp add: mig_frame_def)

lemma mig_frame_trans: "mig_frame s s' \<Longrightarrow> mig_frame s' s'' \<Longrightarrow> mig_frame s s''"
  by (simp add: mig_frame_def)

lemma mig_frameD:
  assumes "mig_frame s s'"
  shows "c_state (cpus s' c) = c_state (cpus s c)" "c_isidle (cpus s' c) = c_isidle (cpus s c)"
    "curthread c s' = curthread c s" "klk s' = klk s" "num_cpus s' = num_cpus s"
  using assms cpu_eqD [of "cpus s' c" "cpus s c"] by (auto simp: mig_frame_def curthread_def)

lemma mig_frame_upd [simp]:
  "mig_frame s (s'\<lparr>tls := st\<rparr>) \<longleftrightarrow> mig_frame s s'" "mig_frame s (upd_thr t f s') \<longleftrightarrow> mig_frame s s'"
  by (simp_all add: mig_frame_def)

lemma mig_frame_relocked: "mig_frame (slocked me k s) s' \<Longrightarrow> mig_frame s (relocked s s')"
proof -
  assume F: "mig_frame (slocked me k s) s'"
  have "(cpus (relocked s s') c)\<lparr>c_ipi_pending := 0\<rparr> = (cpus s c)\<lparr>c_ipi_pending := 0\<rparr>" for c
  proof -
    have "(cpus s' c)\<lparr>c_ipi_pending := 0\<rparr> = (cpus (slocked me k s) c)\<lparr>c_ipi_pending := 0\<rparr>"
      using F by (simp add: mig_frame_def)
    then show ?thesis
      by (cases "cpus s' c"; cases "cpus s c"; cases "c = me")
         (auto simp: relocked_def slocked_def upd_cpu_def)
  qed
  then show ?thesis using F by (simp add: mig_frame_def)
qed

definition moved_to :: "nat \<Rightarrow> nat list \<Rightarrow> (nat \<Rightarrow> kthread) \<Rightarrow> (nat \<Rightarrow> kthread)" where
  "moved_to c ms th = (\<lambda>t. if t \<in> set ms then (th t)\<lparr>t_cpu := Some c\<rparr> else th t)"

text \<open>One thread handed to CPU \<open>c\<close>.\<close>

lemma mig_give_ok:
  assumes "qrep (tls s) q" "off_lists q t" "cpu_ok me s" "lk_free s (IpiL c)"
  shows "\<exists>s'. do { s \<leftarrow> tl_addtail (runqueue c) t (upd_thr t (t_cpu_update (\<lambda>_. Some c)) s);
            if c_isidle (cpus s c) then ipi_send me c IPI_UNIDLE s else Some s } = Some s' \<and>
    qrep (tls s') (q(runqueue c := q (runqueue c) @ [t])) \<and> mig_frame s s' \<and> thr s' = moved_to c [t] (thr s)"
proof -
  let ?s1 = "upd_thr t (t_cpu_update (\<lambda>_. Some c)) s"
  obtain st where st: "tl_addtail (runqueue c) t ?s1 = Some (?s1\<lparr>tls := st\<rparr>)"
      "qrep st (q(runqueue c := q (runqueue c) @ [t]))"
    using tl_addtail_ok [of ?s1 q t "runqueue c"] assms by auto
  have "ipi_send me c IPI_UNIDLE (?s1\<lparr>tls := st\<rparr>) = Some (ipi_posted c IPI_UNIDLE (?s1\<lparr>tls := st\<rparr>))"
    using assms by (intro ipi_send_ok) (auto simp: lk_free_def)
  moreover have "mig_frame s (ipi_posted c IPI_UNIDLE (?s1\<lparr>tls := st\<rparr>))"
    by (simp add: mig_frame_def ipi_posted_def)
  ultimately show ?thesis using st
    by (cases "c_isidle (cpus s c)") (auto simp: moved_to_def)
qed

lemma mig_fill_ok:
  assumes "qrep (tls s) q" "q (stacklist me) = vs" "length vs = n" "curthread me s \<notin> set vs" "cpu_ok me s"
    "lk_free s (IpiL c)"
  shows "\<exists>s' ms us. vs = ms @ us \<and> mig_fill me c share n s = Some (length us, s') \<and>
    qrep (tls s') (q(runqueue c := q (runqueue c) @ ms, stacklist me := us)) \<and>
    mig_frame s s' \<and> thr s' = moved_to c ms (thr s) \<and>
    (us \<noteq> [] \<longrightarrow> unat share \<le> length (q (runqueue c) @ ms)) \<and>
    length (q (runqueue c) @ ms) \<le> max (length (q (runqueue c))) (unat share)"
  using assms
proof (induction n arbitrary: s q vs)
  case 0
  then have "q(runqueue c := q (runqueue c) @ [], stacklist me := []) = q" by auto
  with 0 show ?case by (intro exI [of _ s] exI [of _ "[]"]) (auto simp: moved_to_def)
next
  case (Suc n)
  have len: "tl_count (tls s) (runqueue c) < share \<longleftrightarrow> length (q (runqueue c)) < unat share"
    using qrep_count [OF Suc.prems(1), of "runqueue c"] by (simp add: word_less_nat_alt)
  show ?case
  proof (cases "tl_count (tls s) (runqueue c) < share")
    case False
    have "q(runqueue c := q (runqueue c) @ [], stacklist me := vs) = q" using Suc.prems(2) by auto
    moreover have "mig_fill me c share (Suc n) s = Some (length vs, s)" using False Suc.prems(3) by simp
    ultimately show ?thesis using Suc.prems len False
      by (intro exI [of _ s] exI [of _ "[]"] exI [of _ vs]) (simp add: moved_to_def)
  next
    case True
    obtain t ts where vs: "vs = t # ts" "length ts = n" using Suc.prems(3) by (cases vs) auto
    obtain st where st: "tl_remhead (stacklist me) s = Some (Some t, s\<lparr>tls := st\<rparr>)"
        "qrep st (q(stacklist me := ts))" "off_lists (q(stacklist me := ts)) t"
      using tl_remhead_Cons [OF Suc.prems(1)] Suc.prems(2) vs by blast
    define q2 where "q2 = q(stacklist me := ts, runqueue c := q (runqueue c) @ [t])"
    obtain s2 where s2: "do { s \<leftarrow> tl_addtail (runqueue c) t (upd_thr t (t_cpu_update (\<lambda>_. Some c)) (s\<lparr>tls := st\<rparr>));
            if c_isidle (cpus s c) then ipi_send me c IPI_UNIDLE s else Some s } = Some s2"
        "qrep (tls s2) q2" "mig_frame (s\<lparr>tls := st\<rparr>) s2" "thr s2 = moved_to c [t] (thr s)"
      using mig_give_ok [of "s\<lparr>tls := st\<rparr>" "q(stacklist me := ts)" t me c] st Suc.prems
      by (auto simp: lk_free_def q2_def)
    have f: "mig_frame s s2" using s2(3) by (simp add: mig_frame_def)
    have "q2 (stacklist me) = ts" by (simp add: q2_def)
    moreover have "curthread me s2 \<notin> set ts" "cpu_ok me s2" "lk_free s2 (IpiL c)"
      using Suc.prems vs f by (simp_all add: mig_frameD lk_free_def)
    ultimately obtain s3 ms us where s3: "ts = ms @ us" "mig_fill me c share n s2 = Some (length us, s3)"
        "qrep (tls s3) (q2(runqueue c := q2 (runqueue c) @ ms, stacklist me := us))"
        "mig_frame s2 s3" "thr s3 = moved_to c ms (thr s2)"
        "us \<noteq> [] \<longrightarrow> unat share \<le> length (q2 (runqueue c) @ ms)"
        "length (q2 (runqueue c) @ ms) \<le> max (length (q2 (runqueue c))) (unat share)"
      using Suc.IH [OF s2(2)] vs(2) by blast
    have "mig_fill me c share (Suc n) s = Some (length us, s3)"
      using True st(1) s2(1) s3(2) Suc.prems(4) vs
      by (auto simp: Let_def split: Option.bind_splits if_splits)
    moreover have "q2(runqueue c := q2 (runqueue c) @ ms, stacklist me := us) =
        q(runqueue c := q (runqueue c) @ t # ms, stacklist me := us)"
      by (auto simp: q2_def fun_eq_iff)
    moreover have "moved_to c ms (moved_to c [t] (thr s)) = moved_to c (t # ms) (thr s)"
      by (auto simp: moved_to_def)
    moreover have "length (q2 (runqueue c) @ ms) = length (q (runqueue c) @ t # ms)"
      "length (q2 (runqueue c)) \<le> max (length (q (runqueue c))) (unat share)"
      using len True by (simp_all add: q2_def)
    moreover have "mig_frame s s3" by (rule mig_frame_trans [OF f s3(4)])
    ultimately show ?thesis
      using s3(1,3,5,6,7) vs(1) s2(4)
      by (intro exI [of _ s3] exI [of _ "t # ms"] exI [of _ us]) (simp only: append_Cons simp_thms, linarith)
  qed
qed

text \<open>
  The outcome of the distribution loop: the victims \<open>vs\<close> are split, in order, into what each CPU
  got (\<open>ms c\<close>) and what is left (\<open>us\<close>).
\<close>

definition spread_result ::
  "nat \<Rightarrow> u32 \<Rightarrow> nat list \<Rightarrow> nat list \<Rightarrow> (nat \<Rightarrow> nat list) \<Rightarrow> 'tlb ksys \<Rightarrow> (nat \<Rightarrow> nat list) \<Rightarrow> nat list \<Rightarrow> (nat \<Rightarrow> nat list) \<Rightarrow> 'tlb ksys \<Rightarrow> bool" where
  "spread_result me share cs vs q s ms us q' s' \<longleftrightarrow>
     qrep (tls s') q' \<and> mig_frame s s' \<and> vs = concat (map ms cs) @ us \<and>
     (\<forall>c. q' (runqueue c) = q (runqueue c) @ ms c) \<and> (\<forall>c. c \<notin> set cs \<or> c = me \<longrightarrow> ms c = []) \<and>
     q' (stacklist me) = us \<and> (\<forall>l. (\<forall>c. l \<noteq> runqueue c) \<and> l \<noteq> stacklist me \<longrightarrow> q' l = q l) \<and>
     (\<forall>c. \<forall>t\<in>set (ms c). thr s' t = (thr s t)\<lparr>t_cpu := Some c\<rparr>) \<and>
     (\<forall>t. (\<forall>c. t \<notin> set (ms c)) \<longrightarrow> thr s' t = thr s t) \<and>
     (us \<noteq> [] \<longrightarrow> (\<forall>c\<in>set cs. c \<noteq> me \<longrightarrow> unat share \<le> length (q' (runqueue c)))) \<and>
     (\<forall>c. length (q' (runqueue c)) \<le> max (length (q (runqueue c))) (unat share))"

lemma spread_result_nothing:
  assumes "qrep (tls s) q" "q (stacklist me) = us" "us \<noteq> [] \<longrightarrow> (\<forall>c\<in>set cs. c = me)"
  shows "spread_result me share cs us q s (\<lambda>_. []) us q s"
  using assms by (auto simp: spread_result_def)

lemma mig_spread_ok:
  assumes "qrep (tls s) q" "q (stacklist me) = vs" "length vs = n" "curthread me s \<notin> set vs" "cpu_ok me s"
    "\<And>c. lk_free s (RunqL c)" "\<And>c. lk_free s (IpiL c)" "distinct cs"
  shows "\<exists>s' q' us ms. mig_spread me share cs n s = Some s' \<and> spread_result me share cs vs q s ms us q' s'"
  using assms
proof (induction cs arbitrary: s q vs n)
  case Nil
  then show ?case using spread_result_nothing [of s q me vs "[]" share] by auto
next
  case (Cons c cs)
  consider "n = 0" | "n \<noteq> 0" "c = me" | "n \<noteq> 0" "c \<noteq> me" by blast
  then show ?case
  proof cases
    case 1
    then have "vs = []" "mig_spread me share (c # cs) n s = Some s" using Cons.prems(3) by auto
    then show ?thesis using spread_result_nothing [OF Cons.prems(1,2), of "c # cs" share] by auto
  next
    case 2
    obtain s' q' us ms where "mig_spread me share cs n s = Some s'" "spread_result me share cs vs q s ms us q' s'"
      using Cons.IH [OF Cons.prems(1-7)] Cons.prems(8) by auto
    moreover from this(2) have "spread_result me share (c # cs) vs q s ms us q' s'"
      using 2 Cons.prems(8) by (auto simp: spread_result_def)
    moreover have "mig_spread me share (c # cs) n s = mig_spread me share cs n s" using 2 by simp
    ultimately show ?thesis by auto
  next
    case 3
    let ?s1 = "slocked me (RunqL c) s"
    have "qrep (tls ?s1) q" "curthread me ?s1 \<notin> set vs" "cpu_ok me ?s1" "lk_free ?s1 (IpiL c)"
      using Cons.prems by (simp_all add: lock_entered_inv lk_free_def)
    from mig_fill_ok [OF this(1) Cons.prems(2,3) this(2-4), of share]
    obtain s2 ns vs' where s2: "vs = ns @ vs'" "mig_fill me c share n ?s1 = Some (length vs', s2)"
        "qrep (tls s2) (q(runqueue c := q (runqueue c) @ ns, stacklist me := vs'))" "mig_frame ?s1 s2"
        "thr s2 = moved_to c ns (thr s)" "vs' \<noteq> [] \<longrightarrow> unat share \<le> length (q (runqueue c) @ ns)"
        "length (q (runqueue c) @ ns) \<le> max (length (q (runqueue c))) (unat share)"
      by auto
    define s3 where "s3 = relocked s s2"
    have "same_locks ?s1 s2" using mig_frameD [OF s2(4)] by (simp add: same_locks_def)
    then have rel: "srel me (RunqL c) s2 = Some s3"
      unfolding s3_def by (rule bracket_release [OF Cons.prems(5,6)])
    have f: "mig_frame s s3" unfolding s3_def by (rule mig_frame_relocked [OF s2(4)])
    define q2 where "q2 = q(runqueue c := q (runqueue c) @ ns, stacklist me := vs')"
    have q2: "qrep (tls s3) q2" "q2 (stacklist me) = vs'" using s2(3) by (simp_all add: q2_def s3_def)
    have "curthread me s3 \<notin> set vs'" "cpu_ok me s3" "\<And>d. lk_free s3 (RunqL d)" "\<And>d. lk_free s3 (IpiL d)"
      using Cons.prems s2(1) f by (simp_all add: mig_frameD lk_free_def)
    from Cons.IH [OF q2 refl this] Cons.prems(8)
    obtain s4 q4 us ms where s4: "mig_spread me share cs (length vs') s3 = Some s4"
        and r: "spread_result me share cs vs' q2 s3 ms us q4 s4"
      by auto
    have c: "ms c = []" "c \<notin> set cs" using r Cons.prems(8) by (auto simp: spread_result_def)
    have thr3: "thr s3 = moved_to c ns (thr s)" using s2(5) by (simp add: s3_def)
    have dist: "distinct vs" using qrepD(2) [OF Cons.prems(1), of "stacklist me"] Cons.prems(2) by simp
    have apart: "t \<notin> set ns" if "t \<in> set (ms d)" for t d
    proof -
      have "d \<in> set cs" using r that by (auto simp: spread_result_def)
      then have "t \<in> set vs'" using r that by (auto simp: spread_result_def)
      then show ?thesis using dist s2(1) by auto
    qed
    let ?ms = "ms(c := ns)"
    have mcs: "map ?ms cs = map ms cs" using c(2) by auto
    have "spread_result me share (c # cs) vs q s ?ms us q4 s4"
      unfolding spread_result_def
    proof (intro conjI)
      show "qrep (tls s4) q4" "q4 (stacklist me) = us" using r by (simp_all add: spread_result_def)
      show "mig_frame s s4" using r mig_frame_trans [OF f] by (simp add: spread_result_def)
      show "vs = concat (map ?ms (c # cs)) @ us" using r s2(1) unfolding list.map mcs by (simp add: spread_result_def)
      show "\<forall>d. q4 (runqueue d) = q (runqueue d) @ ?ms d" using r c(1) by (simp add: spread_result_def q2_def)
      show "\<forall>d. d \<notin> set (c # cs) \<or> d = me \<longrightarrow> ?ms d = []" using r 3 by (auto simp: spread_result_def)
      show "\<forall>l. (\<forall>c. l \<noteq> runqueue c) \<and> l \<noteq> stacklist me \<longrightarrow> q4 l = q l"
        using r by (simp add: spread_result_def q2_def)
      show "\<forall>d. \<forall>t\<in>set (?ms d). thr s4 t = (thr s t)\<lparr>t_cpu := Some d\<rparr>"
      proof (intro allI ballI)
        fix d t assume t: "t \<in> set (?ms d)"
        show "thr s4 t = (thr s t)\<lparr>t_cpu := Some d\<rparr>"
        proof (cases "d = c")
          case True
          then have "t \<notin> set (ms e)" for e using t apart by auto
          then show ?thesis using r t True by (simp add: spread_result_def thr3 moved_to_def)
        next
          case False
          then show ?thesis using r t apart by (simp add: spread_result_def thr3 moved_to_def)
        qed
      qed
      show "\<forall>t. (\<forall>d. t \<notin> set (?ms d)) \<longrightarrow> thr s4 t = thr s t"
      proof (intro allI impI)
        fix t assume t: "\<forall>d. t \<notin> set (?ms d)"
        then have "\<forall>d. t \<notin> set (ms d)" using c(1) by (metis empty_iff empty_set fun_upd_other)
        moreover have "t \<notin> set ns" using t by (metis fun_upd_same)
        ultimately show "thr s4 t = thr s t" using r by (simp add: spread_result_def thr3 moved_to_def)
      qed
      show "us \<noteq> [] \<longrightarrow> (\<forall>d\<in>set (c # cs). d \<noteq> me \<longrightarrow> unat share \<le> length (q4 (runqueue d)))"
        using r s2(6) by (auto simp: spread_result_def q2_def c(1))
      have "length (q4 (runqueue d)) \<le> max (length (q2 (runqueue d))) (unat share)" for d
        using r unfolding spread_result_def by blast
      moreover have "length (q2 (runqueue d)) \<le> max (length (q (runqueue d))) (unat share)" for d
        using s2(7) by (auto simp: q2_def)
      ultimately show "\<forall>d. length (q4 (runqueue d)) \<le> max (length (q (runqueue d))) (unat share)"
        by (meson max.bounded_iff max.cobounded2 order.trans)
    qed
    moreover have "mig_spread me share (c # cs) n s = Some s4"
      using 3 s2(2) rel s4 Cons.prems(5,6) by (simp add: sacq_ok)
    ultimately show ?thesis by blast
  qed
qed

section \<open>The whole function\<close>

definition ready_total :: "nat \<Rightarrow> (nat \<Rightarrow> nat list) \<Rightarrow> nat" where
  "ready_total n q = (\<Sum>c<n. length (q (runqueue c)))"

definition one_share :: "nat \<Rightarrow> (nat \<Rightarrow> nat list) \<Rightarrow> nat" where
  "one_share n q = (ready_total n q + n - 1) div n"

lemma ready_total_bound: "qrep st q \<Longrightarrow> ready_total n q \<le> THREAD_ADDRS"
proof -
  assume Q: "qrep st q"
  have "ready_total n q = (\<Sum>c<n. card (set (q (runqueue c))))"
    unfolding ready_total_def using qrepD(2) [OF Q] by (simp add: distinct_card)
  also have "\<dots> = card (\<Union>c<n. set (q (runqueue c)))"
  proof (rule card_UN_disjoint [symmetric])
    show "\<forall>i\<in>{..<n}. \<forall>j\<in>{..<n}. i \<noteq> j \<longrightarrow> set (q (runqueue i)) \<inter> set (q (runqueue j)) = {}"
      using qrepD(3) [OF Q, of "runqueue _" "runqueue _"] by (metis disjoint_iff list_names(1))
  qed auto
  also have "\<dots> \<le> card {..<THREAD_ADDRS}"
    using qrepD(4) [OF Q] by (intro card_mono) auto
  finally show ?thesis by simp
qed

lemma count_sum:
  assumes Q: "qrep st q"
  shows "(\<Sum>c\<leftarrow>[0..<n]. tl_count st (runqueue c)) = of_nat (ready_total n q)"
proof -
  have "(\<Sum>c\<leftarrow>[0..<n]. tl_count st (runqueue c)) = (\<Sum>c\<leftarrow>[0..<n]. of_nat (length (q (runqueue c))))"
    using qrepD(1) [OF Q] by (simp add: tl_repr_def)
  also have "\<dots> = of_nat (\<Sum>c\<leftarrow>[0..<n]. length (q (runqueue c)))" by (induction n) simp_all
  finally show ?thesis
    by (simp add: ready_total_def interv_sum_list_conv_sum_set_nat atLeast_upt lessThan_atLeast0)
qed

text \<open>The queues after migrating \<open>ms c\<close> to each CPU \<open>c\<close> and putting \<open>us\<close> back.\<close>

lemma migrated_inv:
  assumes inv: "thread_inv s q" and me: "me < num_cpus s" and Q: "qrep (tls s') q'" and f: "mig_frame s s'"
    and cpus: "\<And>c. c \<noteq> me \<Longrightarrow> q' (runqueue c) = q (runqueue c) @ ms c"
    and mine: "set (q' (runqueue me)) \<subseteq> set (q (runqueue me))"
    and from_me: "\<And>c t. t \<in> set (ms c) \<Longrightarrow> t \<in> set (q (runqueue me)) \<and> c < num_cpus s \<and> c \<noteq> me"
    and other: "\<And>l. (\<And>c. l \<noteq> runqueue c) \<Longrightarrow> q' l = q l"
    and moved: "\<And>c t. t \<in> set (ms c) \<Longrightarrow> thr s' t = (thr s t)\<lparr>t_cpu := Some c\<rparr>"
    and kept: "\<And>t. (\<And>c. t \<notin> set (ms c)) \<Longrightarrow> thr s' t = thr s t"
  shows "thread_inv s' q'"
proof -
  have ok: "queued_ok s q" and on: "\<And>c. c < num_cpus s \<Longrightarrow> cpu_ok c s \<and> (\<not> c_isidle (cpus s c) \<longrightarrow> on_cpu s q c)"
    and Q0: "qrep (tls s) q"
    using inv by (simp_all add: thread_inv_def)
  note n = mig_frameD(5) [OF f]
  have thr': "thr s' t = thr s t \<or> (\<exists>c. t \<in> set (ms c) \<and> thr s' t = (thr s t)\<lparr>t_cpu := Some c\<rparr>)" for t
    using moved kept by blast
  have keep: "thr s' t = thr s t" if "t \<in> set (q l)" "l \<noteq> runqueue me" for t l
    using that from_me qrepD(3) [OF Q0] kept by blast
  have run: "c < num_cpus s' \<and> t_state (thr s' t) = S_READY \<and> t_cpu (thr s' t) = Some c \<and> parked (thr s' t)"
    if t: "t \<in> set (q' (runqueue c))" for t c
  proof (cases "c \<noteq> me \<and> t \<in> set (ms c)")
    case True
    then have "t \<in> set (q (runqueue me))" "c < num_cpus s" using from_me by blast+
    then show ?thesis using True moved [of t c] queued_okD(1,4) [OF ok] n
      by (auto simp: parked_def resume_spl_def stack_ok_def)
  next
    case False
    have old: "t \<in> set (q (runqueue c))" using t False cpus [of c] mine by (cases "c = me") auto
    moreover have "thr s' t = thr s t"
    proof (rule kept)
      fix d show "t \<notin> set (ms d)"
      proof
        assume d: "t \<in> set (ms d)"
        then have "t \<in> set (q (runqueue me))" "d \<noteq> me" using from_me by blast+
        moreover have "t \<in> set (q' (runqueue d))" using cpus [of d] d \<open>d \<noteq> me\<close> by simp
        ultimately show False using t False d qrepD(3) [OF Q, of "runqueue c" "runqueue d" t] old
            qrepD(3) [OF Q0, of "runqueue c" "runqueue me" t] by auto
      qed
    qed
    ultimately show ?thesis using queued_okD(1,4) [OF ok old] n by simp
  qed
  have "parked (thr s' t)" if "t \<in> set (q' l)" for t l
  proof (cases "\<exists>c. l = runqueue c")
    case True
    then show ?thesis using run that by blast
  next
    case False
    then have "t \<in> set (q l)" "l \<noteq> runqueue me" using other [of l] that by auto
    then show ?thesis using keep queued_okD(4) [OF ok] by simp
  qed
  moreover have "t_state (thr s' t) = S_SLEEP \<and> (\<exists>c<num_cpus s'. t_cpu (thr s' t) = Some c)"
    if "t \<in> set (q' (wchan_threads w))" for t w
    using that queued_okD(2) [OF ok, of t w] keep [of t "wchan_threads w"] other [of "wchan_threads w"] n by simp
  moreover have "t_state (thr s' t) = S_ZOMBIE \<and> t_proc (thr s' t) = None" if "t \<in> set (q' (zombies c))" for t c
    using that queued_okD(3) [OF ok, of t c] keep [of t "zombies c"] other [of "zombies c"] by simp
  moreover have "q' (stacklist c) = []" for c using other [of "stacklist c"] queued_okD(5) [OF ok] by simp
  ultimately have "queued_ok s' q'" unfolding queued_ok_def using run by blast
  moreover have "cpu_ok c s' \<and> (\<not> c_isidle (cpus s' c) \<longrightarrow> on_cpu s' q' c)" if c: "c < num_cpus s'" for c
  proof -
    let ?u = "curthread c s"
    have "on_cpu s' q' c" if "\<not> c_isidle (cpus s c)"
    proof -
      have u: "on_cpu s q c" using on [of c] c that n by simp
      then have off: "?u \<notin> set (q l)" for l by (simp add: on_cpu_def off_lists_def)
      have nms: "?u \<notin> set (ms d)" for d using from_me off by blast
      have "?u \<notin> set (q' l)" for l
      proof (cases "\<exists>d. l = runqueue d")
        case True
        then show ?thesis using cpus mine off nms by (metis Un_iff set_append subsetD)
      next
        case False
        then show ?thesis using other [of l] off by auto
      qed
      then show ?thesis using u kept [OF nms] by (simp add: on_cpu_def off_lists_def mig_frameD [OF f])
    qed
    then show ?thesis using on [of c] c n by (simp add: mig_frameD [OF f])
  qed
  ultimately show ?thesis using Q by (simp add: thread_inv_def)
qed

lemma share_covers: "0 < n \<Longrightarrow> ready_total n q \<le> n * one_share n q"
proof -
  assume "0 < n"
  then have "(ready_total n q + n - 1) mod n < n" by (rule mod_less_divisor)
  moreover have "n * one_share n q + (ready_total n q + n - 1) mod n = ready_total n q + n - 1"
    by (simp add: one_share_def)
  ultimately show ?thesis using \<open>0 < n\<close> by linarith
qed

text \<open>No victim is left over: the shares add up to at least the number of ready threads.\<close>

lemma spread_complete:
  assumes r: "spread_result me share [0..<n] vs q2 s2 ms us q3 s3" and share: "unat share = one_share n q" and me: "me < n"
    and q2: "\<And>c. c \<noteq> me \<Longrightarrow> q2 (runqueue c) = q (runqueue c)" and split: "q (runqueue me) = q2 (runqueue me) @ vs"
    and ts: "length (q2 (runqueue me)) = one_share n q"
  shows "us = []"
proof (rule ccontr)
  assume us: "us \<noteq> []"
  have q3: "length (q3 (runqueue c)) = length (q2 (runqueue c)) + length (ms c)" for c
    using r by (simp add: spread_result_def)
  have "(\<Sum>c<n. length (ms c)) + length us = length vs"
    using r by (simp add: spread_result_def length_concat comp_def interv_sum_list_conv_sum_set_nat
        atLeast_upt lessThan_atLeast0)
  moreover have "ready_total n q = (\<Sum>c\<in>{..<n} - {me}. length (q2 (runqueue c))) + length (q2 (runqueue me)) + length vs"
    unfolding ready_total_def using me q2 split by (subst sum.remove [of _ me]) auto
  moreover have "(\<Sum>c<n. length (ms c)) = (\<Sum>c\<in>{..<n} - {me}. length (ms c))"
    using me r by (subst sum.remove [of _ me]) (auto simp: spread_result_def)
  ultimately have "ready_total n q = (\<Sum>c\<in>{..<n} - {me}. length (q3 (runqueue c))) + one_share n q + length us"
    using ts by (simp add: q3 sum.distrib)
  moreover have "(\<Sum>c\<in>{..<n} - {me}. one_share n q) \<le> (\<Sum>c\<in>{..<n} - {me}. length (q3 (runqueue c)))"
    using r us share by (intro sum_mono) (auto simp: spread_result_def)
  moreover have "(\<Sum>c\<in>{..<n} - {me}. one_share n q) = (n - 1) * one_share n q" using me by simp
  ultimately have "ready_total n q \<ge> (n - 1) * one_share n q + one_share n q + 1"
    using us by (cases us) auto
  moreover have "(n - 1) * one_share n q + one_share n q = n * one_share n q"
    using me by (metis Suc_diff_1 add.commute gr_zeroI less_nat_zero_code mult_Suc)
  ultimately show False using share_covers [of n q] me by simp
qed

lemma thread_consider_migration_ok:
  assumes inv: "thread_inv s q" and me: "me < num_cpus s" "\<not> c_isidle (cpus s me)" and n: "num_cpus s \<le> 32"
    and lk: "\<And>c. lk_free s (RunqL c)" "\<And>c. lk_free s (IpiL c)"
  shows "\<exists>s' q' ms. thread_consider_migration me s = Some s' \<and> thread_inv s' q' \<and>
    (\<forall>c. c \<noteq> me \<longrightarrow> q' (runqueue c) = q (runqueue c) @ ms c \<and>
       length (q' (runqueue c)) \<le> max (length (q (runqueue c))) (one_share (num_cpus s) q)) \<and>
    q (runqueue me) = q' (runqueue me) @ concat (map ms [0..<num_cpus s]) \<and>
    length (q' (runqueue me)) \<le> one_share (num_cpus s) q \<and>
    (\<forall>l. (\<forall>c. l \<noteq> runqueue c) \<longrightarrow> q' l = q l)"
proof -
  let ?n = "num_cpus s" and ?my = "length (q (runqueue me))" and ?sh = "one_share (num_cpus s) q"
  have Q: "qrep (tls s) q" and ok: "queued_ok s q" and spl: "cpu_ok me s" and on: "on_cpu s q me"
    using inv me by (auto simp: thread_inv_def)
  have tot: "ready_total ?n q \<le> 2 ^ 29" by (rule ready_total_bound [OF Q])
  have utot: "unat (of_nat (ready_total ?n q) :: u32) = ready_total ?n q"
    using tot by (simp add: unsigned_of_nat take_bit_nat_eq_self)
  have sh: "DIVROUNDUP (ready_total ?n q) ?n = ?sh"
    using tot n by (subst DIVROUNDUP_exact) (auto simp: one_share_def)
  have "?sh \<le> ready_total ?n q + ?n" unfolding one_share_def by (rule order.trans [OF div_le_dividend]) simp
  then have ush: "unat (of_nat ?sh :: u32) = ?sh" using tot n by (simp add: unsigned_of_nat take_bit_nat_eq_self)
  have umy: "unat (tl_count (tls s) (runqueue me)) = ?my" by (rule qrep_count [OF Q])
  have cnt: "mig_count me [0..<?n] 0 0 s = Some (tl_count (tls s) (runqueue me), of_nat (ready_total ?n q), s)"
    using mig_count_ok [OF spl lk(1), of "[0..<?n]" 0 0] me(1) count_sum [OF Q, of ?n] by simp
  show ?thesis
  proof (cases "?my < ?sh")
    case True
    then have "thread_consider_migration me s = Some s"
      using cnt umy ush by (simp add: thread_consider_migration_def Let_def utot sh word_less_nat_alt)
    then show ?thesis using inv True by (intro exI [of _ s] exI [of _ q] exI [of _ "\<lambda>_. []"]) (auto simp: concat_map_singleton)
  next
    case False
    define vs where "vs = drop ?sh (q (runqueue me))"
    define ts where "ts = take ?sh (q (runqueue me))"
    have split: "q (runqueue me) = ts @ vs" "length ts = ?sh" "length vs = ?my - ?sh"
      using False by (simp_all add: vs_def ts_def)
    have send: "unat (tl_count (tls s) (runqueue me) - of_nat ?sh) = length vs"
      using False umy ush split(3) by (subst unat_sub) (auto simp: word_le_nat_alt)
    define s1 where "s1 = slocked me (RunqL me) (s\<lparr>tls := threadlist_init (stacklist me) (tls s)\<rparr>)"
    have stk: "q (stacklist me) = []" by (rule queued_okD(5) [OF ok])
    have Q1: "qrep (tls s1) q" using qrep_init [OF Q stk] by (simp add: s1_def)
    obtain st where take: "mig_take me (length vs) s1 = Some (s1\<lparr>tls := st\<rparr>)"
        "qrep st (q(runqueue me := ts, stacklist me := vs @ q (stacklist me)))"
      using mig_take_ok [OF Q1 split(1)] by blast
    define q2 where "q2 = q(runqueue me := ts, stacklist me := vs)"
    define s2 where "s2 = s\<lparr>tls := st\<rparr>"
    have acq: "sacq me (RunqL me) (s\<lparr>tls := threadlist_init (stacklist me) (tls s)\<rparr>) = Some s1"
      unfolding s1_def by (rule sacq_ok) (use spl lk in \<open>simp_all add: lk_free_def\<close>)
    have rel: "srel me (RunqL me) (s1\<lparr>tls := st\<rparr>) = Some s2"
    proof -
      have "s1\<lparr>tls := st\<rparr> = slocked me (RunqL me) s2" by (simp add: s1_def s2_def slocked_def upd_cpu_def)
      then show ?thesis using srel_slocked [where me = me and s = s2 and k = "RunqL me"] spl lk by (simp add: s2_def lk_free_def)
    qed
    have Q2: "qrep (tls s2) q2" "q2 (stacklist me) = vs" using take(2) stk by (simp_all add: q2_def s2_def)
    have "curthread me s2 \<notin> set vs"
      using on split(1) by (auto simp: s2_def on_cpu_def off_lists_def) (metis Un_iff set_append)
    then obtain s3 q3 us ms where sp: "mig_spread me (of_nat ?sh) [0..<?n] (length vs) s2 = Some s3"
        and r: "spread_result me (of_nat ?sh) [0..<?n] vs q2 s2 ms us q3 s3"
      using mig_spread_ok [OF Q2 refl, of "[0..<?n]" "of_nat ?sh"] spl lk by (auto simp: s2_def lk_free_def)
    have ush': "unat (of_nat ?sh :: u32) = one_share ?n q" by (rule ush)
    have us: "us = []"
      by (rule spread_complete [OF r ush' me(1)]) (use split in \<open>simp_all add: q2_def\<close>)
    have q3: "q3 (runqueue c) = q2 (runqueue c) @ ms c" "q3 (stacklist me) = []" "ms me = []" for c
      using r us by (simp_all add: spread_result_def)
    have "threadlist_isempty (stacklist me) (tls s3)"
      using r q3(2) qrep_isempty [of "tls s3" q3 "stacklist me"] by (simp add: spread_result_def)
    then have "thread_consider_migration me s = Some s3"
      using cnt False umy ush acq take(1) rel sp send
      by (simp add: thread_consider_migration_def Let_def utot sh word_less_nat_alt threadlist_cleanup_def threadlist_isempty_def)
    moreover have "thread_inv s3 q3"
    proof (rule migrated_inv [OF inv me(1)])
      show "qrep (tls s3) q3" using r by (simp add: spread_result_def)
      show "mig_frame s s3" using r by (auto simp: spread_result_def s2_def mig_frame_def)
      show "q3 (runqueue c) = q (runqueue c) @ ms c" if "c \<noteq> me" for c using q3(1) that by (simp add: q2_def)
      show "set (q3 (runqueue me)) \<subseteq> set (q (runqueue me))" using q3 split(1) by (simp add: q2_def)
      show "t \<in> set (q (runqueue me)) \<and> c < ?n \<and> c \<noteq> me" if "t \<in> set (ms c)" for c t
      proof -
        have c: "c < ?n" "c \<noteq> me" using r that by (auto simp: spread_result_def)
        then have "t \<in> set vs" using r that by (auto simp: spread_result_def)
        then show ?thesis using c split(1) by simp
      qed
      show "q3 l = q l" if "\<And>c. l \<noteq> runqueue c" for l
        using r q3(2) stk that by (cases "l = stacklist me") (auto simp: spread_result_def q2_def)
    qed (use r in \<open>auto simp: spread_result_def s2_def\<close>)
    moreover have "length (q3 (runqueue c)) \<le> max (length (q (runqueue c))) ?sh" if "c \<noteq> me" for c
    proof -
      have "length (q3 (runqueue c)) \<le> max (length (q2 (runqueue c))) (unat (of_nat ?sh :: u32))"
        using r unfolding spread_result_def by blast
      then show ?thesis using that ush by (simp add: q2_def)
    qed
    moreover have "q (runqueue me) = q3 (runqueue me) @ concat (map ms [0..<?n])"
      using r us q3 split(1) by (simp add: q2_def spread_result_def)
    moreover have "length (q3 (runqueue me)) \<le> ?sh" using q3 split(2) by (simp add: q2_def)
    moreover have "q3 l = q l" if "\<forall>c. l \<noteq> runqueue c" for l
      using r q3(2) stk that by (cases "l = stacklist me") (auto simp: spread_result_def q2_def)
    moreover have "q3 (runqueue c) = q (runqueue c) @ ms c" if "c \<noteq> me" for c using q3(1) that by (simp add: q2_def)
    ultimately show ?thesis by blast
  qed
qed

section \<open>Properties\<close>



end
