(* ===== verification/Synch.thy ===== *)
theory Synch
  imports Thread_Example
begin

text \<open>
  \<open>kern/thread/synch.c\<close> on top of the thread system: semaphores, sleep locks and condition
  variables. An object is named by a number; its wait channel and its spinlock are named by the
  object. The calls that never sleep (\<open>V\<close>, \<open>lock_release\<close>, \<open>lock_do_i_hold\<close>, \<open>cv_signal\<close>,
  \<open>cv_broadcast\<close>, creation and destruction) are functions. A call that may sleep (\<open>P\<close>,
  \<open>lock_acquire\<close>, \<open>cv_wait\<close>) either completes (\<open>Done\<close>) or leaves its caller on the wait channel
  with another thread running on the CPU (\<open>Slept\<close>); what the sleeper does when it runs again is
  the function with the suffix \<open>_resume\<close>. How these pieces interleave is the subject of
  \<open>Synch_Inv\<close>. The deadlock detector's hooks are empty in this
  configuration.
\<close>

record semaphore =
  sem_name :: string
  sem_wchan :: nat
  sem_count :: u32

record slock =
  lk_name :: string
  lk_wchan :: nat
  is_busy :: bool
  lk_owner :: "nat option"

record condvar =
  cv_name :: string
  cv_wchan :: nat

record 'tlb ssys =
  kn :: "'tlb ksys"
  sems :: "nat \<Rightarrow> semaphore"
  lks :: "nat \<Rightarrow> slock"
  cvs :: "nat \<Rightarrow> condvar"

datatype 's blocking = Done 's | Slept 's

text \<open>The spinlocks \<open>sem_lock\<close>, \<open>lk_spinlock\<close> and \<open>cv_spinlock\<close> of an object.\<close>

definition sem_lock :: "nat \<Rightarrow> klock" where "sem_lock i = ObjL (3 * i)"
definition lk_spinlock :: "nat \<Rightarrow> klock" where "lk_spinlock i = ObjL (3 * i + 1)"
definition cv_spinlock :: "nat \<Rightarrow> klock" where "cv_spinlock i = ObjL (3 * i + 2)"

lemma obj_locks [simp]:
  "sem_lock i \<noteq> RunqL c" "sem_lock i \<noteq> IpiL c" "lk_spinlock i \<noteq> RunqL c" "lk_spinlock i \<noteq> IpiL c"
  "cv_spinlock i \<noteq> RunqL c" "cv_spinlock i \<noteq> IpiL c" "lk_spinlock i \<noteq> cv_spinlock j" "cv_spinlock i \<noteq> lk_spinlock j"
  "RunqL c \<noteq> sem_lock i" "IpiL c \<noteq> sem_lock i" "RunqL c \<noteq> lk_spinlock i" "IpiL c \<noteq> lk_spinlock i"
  "RunqL c \<noteq> cv_spinlock i" "IpiL c \<noteq> cv_spinlock i"
  by (simp_all add: sem_lock_def lk_spinlock_def cv_spinlock_def) presburger+

definition on_kn :: "('tlb ksys \<Rightarrow> 'tlb ksys option) \<Rightarrow> 'tlb ssys \<Rightarrow> 'tlb ssys option" where
  "on_kn f s = do { k \<leftarrow> f (kn s); Some (s\<lparr>kn := k\<rparr>) }"

section \<open>Semaphores\<close>

text \<open>
  Creation takes the three answers of the allocator: the structure (its number), whether the
  name could be copied, and the wait channel.
\<close>

definition sem_create :: "string \<Rightarrow> u32 \<Rightarrow> nat option \<Rightarrow> bool \<Rightarrow> nat option \<Rightarrow> 'tlb ssys \<Rightarrow> nat option \<times> 'tlb ssys" where
  "sem_create name initial_count addr name_ok wc s =
     (case addr of
        None \<Rightarrow> (None, s)
      | Some i \<Rightarrow>
          if \<not> name_ok then (None, s)
          else case wchan_create wc (kn s) of
            (None, k) \<Rightarrow> (None, s\<lparr>kn := k\<rparr>)
          | (Some w, k) \<Rightarrow>
              (Some i, s\<lparr>kn := k\<lparr>klk := (klk k)(sem_lock i := spinlock_init)\<rparr>,
                         sems := (sems s)(i := \<lparr>sem_name = name, sem_wchan = w, sem_count = initial_count\<rparr>)\<rparr>))"

definition sem_destroy :: "nat \<Rightarrow> 'tlb ssys \<Rightarrow> unit option" where
  "sem_destroy i s =
     do { spinlock_cleanup (klk (kn s) (sem_lock i));
          wchan_destroy (sem_wchan (sems s i)) (kn s) }"

text \<open>The loop of \<open>P\<close>, entered with the spinlock held.\<close>

definition P_loop :: "('tlb ksys \<Rightarrow> 'tlb ksys) \<Rightarrow> nat \<Rightarrow> nat \<Rightarrow> 'tlb ssys \<Rightarrow> 'tlb ssys blocking option" where
  "P_loop cpu_idle me i s =
     (if sem_count (sems s i) = 0 then
        do { s \<leftarrow> on_kn (wchan_sleep cpu_idle me (sem_wchan (sems s i)) (sem_name (sems s i)) (sem_lock i)) s;
             Some (Slept s) }
      else
        do { kassert (sem_count (sems s i) > 0);
             let s = s\<lparr>sems := (sems s)(i := (sems s i)\<lparr>sem_count := sem_count (sems s i) - 1\<rparr>)\<rparr>;
             s \<leftarrow> on_kn (srel me (sem_lock i)) s;
             Some (Done s) })"

definition P :: "('tlb ksys \<Rightarrow> 'tlb ksys) \<Rightarrow> nat \<Rightarrow> nat \<Rightarrow> 'tlb ssys \<Rightarrow> 'tlb ssys blocking option" where
  "P cpu_idle me i s =
     do { kassert (\<not> t_in_interrupt (thr (kn s) (curthread me (kn s))));
          s \<leftarrow> on_kn (sacq me (sem_lock i)) s;
          P_loop cpu_idle me i s }"

definition P_resume :: "('tlb ksys \<Rightarrow> 'tlb ksys) \<Rightarrow> nat \<Rightarrow> nat \<Rightarrow> 'tlb ssys \<Rightarrow> 'tlb ssys blocking option" where
  "P_resume cpu_idle me i s =
     do { s \<leftarrow> on_kn (wchan_sleep_resume me (sem_lock i)) s; P_loop cpu_idle me i s }"

definition V :: "nat \<Rightarrow> nat \<Rightarrow> 'tlb ssys \<Rightarrow> 'tlb ssys option" where
  "V me i s =
     do {
       s \<leftarrow> on_kn (sacq me (sem_lock i)) s;
       let s = s\<lparr>sems := (sems s)(i := (sems s i)\<lparr>sem_count := sem_count (sems s i) + 1\<rparr>)\<rparr>;
       kassert (sem_count (sems s i) > 0);
       s \<leftarrow> on_kn (wchan_wakeone me (sem_wchan (sems s i)) (sem_lock i)) s;
       on_kn (srel me (sem_lock i)) s
     }"

section \<open>Locks\<close>

definition lock_create :: "string \<Rightarrow> nat option \<Rightarrow> bool \<Rightarrow> nat option \<Rightarrow> 'tlb ssys \<Rightarrow> nat option \<times> 'tlb ssys" where
  "lock_create name addr name_ok wc s =
     (case addr of
        None \<Rightarrow> (None, s)
      | Some i \<Rightarrow>
          if \<not> name_ok then (None, s)
          else case wchan_create wc (kn s) of
            (None, k) \<Rightarrow> (None, s\<lparr>kn := k\<rparr>)
          | (Some w, k) \<Rightarrow>
              (Some i, s\<lparr>kn := k\<lparr>klk := (klk k)(lk_spinlock i := spinlock_init)\<rparr>,
                         lks := (lks s)(i := \<lparr>lk_name = name, lk_wchan = w, is_busy = False, lk_owner = None\<rparr>)\<rparr>))"

definition lock_do_i_hold :: "nat \<Rightarrow> nat \<Rightarrow> 'tlb ssys \<Rightarrow> (bool \<times> 'tlb ssys) option" where
  "lock_do_i_hold me i s =
     do { s \<leftarrow> on_kn (sacq me (lk_spinlock i)) s;
          let do_i_hold = (lk_owner (lks s i) = Some (curthread me (kn s)));
          s \<leftarrow> on_kn (srel me (lk_spinlock i)) s;
          Some (do_i_hold, s) }"

definition lock_destroy :: "nat \<Rightarrow> nat \<Rightarrow> 'tlb ssys \<Rightarrow> 'tlb ssys option" where
  "lock_destroy me i s =
     do { kassert (\<not> t_in_interrupt (thr (kn s) (curthread me (kn s))));
          (h, s) \<leftarrow> lock_do_i_hold me i s;
          kassert (\<not> h);
          spinlock_cleanup (klk (kn s) (lk_spinlock i));
          wchan_destroy (lk_wchan (lks s i)) (kn s);
          Some s }"

definition lock_loop :: "('tlb ksys \<Rightarrow> 'tlb ksys) \<Rightarrow> nat \<Rightarrow> nat \<Rightarrow> 'tlb ssys \<Rightarrow> 'tlb ssys blocking option" where
  "lock_loop cpu_idle me i s =
     (if is_busy (lks s i) then
        do { s \<leftarrow> on_kn (wchan_sleep cpu_idle me (lk_wchan (lks s i)) (lk_name (lks s i)) (lk_spinlock i)) s;
             Some (Slept s) }
      else
        do { kassert (sholds me (lk_spinlock i) (kn s));
             kassert (\<not> is_busy (lks s i));
             let s = s\<lparr>lks := (lks s)(i := (lks s i)\<lparr>is_busy := True, lk_owner := Some (curthread me (kn s))\<rparr>)\<rparr>;
             s \<leftarrow> on_kn (srel me (lk_spinlock i)) s;
             Some (Done s) })"

definition lock_acquire :: "('tlb ksys \<Rightarrow> 'tlb ksys) \<Rightarrow> nat \<Rightarrow> nat \<Rightarrow> 'tlb ssys \<Rightarrow> 'tlb ssys blocking option" where
  "lock_acquire cpu_idle me i s =
     do { kassert (\<not> t_in_interrupt (thr (kn s) (curthread me (kn s))));
          (h, s) \<leftarrow> lock_do_i_hold me i s;
          kassert (\<not> h);
          s \<leftarrow> on_kn (sacq me (lk_spinlock i)) s;
          kassert (sholds me (lk_spinlock i) (kn s));
          lock_loop cpu_idle me i s }"

definition lock_acquire_resume :: "('tlb ksys \<Rightarrow> 'tlb ksys) \<Rightarrow> nat \<Rightarrow> nat \<Rightarrow> 'tlb ssys \<Rightarrow> 'tlb ssys blocking option" where
  "lock_acquire_resume cpu_idle me i s =
     do { s \<leftarrow> on_kn (wchan_sleep_resume me (lk_spinlock i)) s; lock_loop cpu_idle me i s }"

definition lock_release :: "nat \<Rightarrow> nat \<Rightarrow> 'tlb ssys \<Rightarrow> 'tlb ssys option" where
  "lock_release me i s =
     do { kassert (\<not> t_in_interrupt (thr (kn s) (curthread me (kn s))));
          (h, s) \<leftarrow> lock_do_i_hold me i s;
          kassert h;
          kassert (is_busy (lks s i));
          kassert (lk_owner (lks s i) \<noteq> None);
          s \<leftarrow> on_kn (sacq me (lk_spinlock i)) s;
          kassert (sholds me (lk_spinlock i) (kn s));
          let s = s\<lparr>lks := (lks s)(i := (lks s i)\<lparr>is_busy := False, lk_owner := None\<rparr>)\<rparr>;
          s \<leftarrow> on_kn (wchan_wakeone me (lk_wchan (lks s i)) (lk_spinlock i)) s;
          s \<leftarrow> on_kn (srel me (lk_spinlock i)) s;
          kassert (\<not> sholds me (lk_spinlock i) (kn s));
          Some s }"

section \<open>Condition variables\<close>

definition cv_create :: "string \<Rightarrow> nat option \<Rightarrow> bool \<Rightarrow> nat option \<Rightarrow> 'tlb ssys \<Rightarrow> nat option \<times> 'tlb ssys" where
  "cv_create name addr name_ok wc s =
     (case addr of
        None \<Rightarrow> (None, s)
      | Some i \<Rightarrow>
          if \<not> name_ok then (None, s)
          else case wchan_create wc (kn s) of
            (None, k) \<Rightarrow> (None, s\<lparr>kn := k\<rparr>)
          | (Some w, k) \<Rightarrow>
              (Some i, s\<lparr>kn := k\<lparr>klk := (klk k)(cv_spinlock i := spinlock_init)\<rparr>,
                         cvs := (cvs s)(i := \<lparr>cv_name = name, cv_wchan = w\<rparr>)\<rparr>))"

definition cv_destroy :: "nat \<Rightarrow> 'tlb ssys \<Rightarrow> unit option" where
  "cv_destroy i s =
     do { spinlock_cleanup (klk (kn s) (cv_spinlock i)); wchan_destroy (cv_wchan (cvs s i)) (kn s) }"

definition cv_wait :: "('tlb ksys \<Rightarrow> 'tlb ksys) \<Rightarrow> nat \<Rightarrow> nat \<Rightarrow> nat \<Rightarrow> 'tlb ssys \<Rightarrow> 'tlb ssys blocking option" where
  "cv_wait cpu_idle me i l s =
     do { kassert (lk_owner (lks s l) = Some (curthread me (kn s)));
          s \<leftarrow> on_kn (sacq me (cv_spinlock i)) s;
          s \<leftarrow> lock_release me l s;
          s \<leftarrow> on_kn (wchan_sleep cpu_idle me (cv_wchan (cvs s i)) (cv_name (cvs s i)) (cv_spinlock i)) s;
          Some (Slept s) }"

definition cv_wait_resume :: "('tlb ksys \<Rightarrow> 'tlb ksys) \<Rightarrow> nat \<Rightarrow> nat \<Rightarrow> nat \<Rightarrow> 'tlb ssys \<Rightarrow> 'tlb ssys blocking option" where
  "cv_wait_resume cpu_idle me i l s =
     do { s \<leftarrow> on_kn (wchan_sleep_resume me (cv_spinlock i)) s;
          s \<leftarrow> on_kn (srel me (cv_spinlock i)) s;
          lock_acquire cpu_idle me l s }"

definition cv_signal :: "nat \<Rightarrow> nat \<Rightarrow> nat \<Rightarrow> 'tlb ssys \<Rightarrow> 'tlb ssys option" where
  "cv_signal me i l s =
     do { (h, s) \<leftarrow> lock_do_i_hold me l s;
          kassert h;
          s \<leftarrow> on_kn (sacq me (cv_spinlock i)) s;
          s \<leftarrow> on_kn (wchan_wakeone me (cv_wchan (cvs s i)) (cv_spinlock i)) s;
          on_kn (srel me (cv_spinlock i)) s }"

definition cv_broadcast :: "nat \<Rightarrow> nat \<Rightarrow> nat \<Rightarrow> 'tlb ssys \<Rightarrow> 'tlb ssys option" where
  "cv_broadcast me i l s =
     do { (h, s) \<leftarrow> lock_do_i_hold me l s;
          kassert h;
          s \<leftarrow> on_kn (sacq me (cv_spinlock i)) s;
          s \<leftarrow> on_kn (wchan_wakeall me (cv_wchan (cvs s i)) (cv_spinlock i)) s;
          on_kn (srel me (cv_spinlock i)) s }"

section \<open>Wakeups keep the thread system well formed\<close>

definition wake_queues :: "'tlb ksys \<Rightarrow> nat \<Rightarrow> nat list \<Rightarrow> nat list \<Rightarrow> (nat \<Rightarrow> nat list) \<Rightarrow> (nat \<Rightarrow> nat list)" where
  "wake_queues k w ws rest q = (deal (\<lambda>t. the (t_cpu (thr k t))) ws q)(wchan_threads w := rest)"

lemma wake_queues_runqueue:
  "wake_queues k w ws rest q (runqueue c) = q (runqueue c) @ filter (\<lambda>t. the (t_cpu (thr k t)) = c) ws"
  by (simp add: wake_queues_def deal_runqueue)

lemma wake_queues_other: "(\<And>c. l \<noteq> runqueue c) \<Longrightarrow> l \<noteq> wchan_threads w \<Longrightarrow> wake_queues k w ws rest q l = q l"
  by (simp add: wake_queues_def deal_other)

lemma woken_inv:
  assumes inv: "thread_inv k q" and q: "q (wchan_threads w) = ws @ rest" and f: "wake_frame k k'"
    and Q: "qrep (tls k') (wake_queues k w ws rest q)"
    and thr: "\<And>t. thr k' t = (if t \<in> set ws then (thr k t)\<lparr>t_state := S_READY\<rparr> else thr k t)"
  shows "thread_inv k' (wake_queues k w ws rest q)"
proof -
  let ?q = "wake_queues k w ws rest q"
  have ok: "queued_ok k q" and on: "\<And>c. c < num_cpus k \<Longrightarrow> cpu_ok c k \<and> (\<not> c_isidle (cpus k c) \<longrightarrow> on_cpu k q c)"
    and Q0: "qrep (tls k) q"
    using inv by (simp_all add: thread_inv_def)
  note n = wake_frameD(6) [OF f]
  have ws: "t \<in> set (q (wchan_threads w))" if "t \<in> set ws" for t using that q by simp
  have keep: "thr k' t = thr k t" if "t \<in> set (q l)" "l \<noteq> wchan_threads w" for t l
    using that thr ws qrepD(3) [OF Q0] by (metis (no_types))
  have cpu: "\<exists>c<num_cpus k. t_cpu (thr k t) = Some c" if "t \<in> set ws" for t
    using queued_okD(2) [OF ok ws [OF that]] by blast
  have rest: "thr k' t = thr k t" if "t \<in> set rest" for t
    using thr that qrepD(2) [OF Q0, of "wchan_threads w"] q by auto
  have pk: "parked (thr k t) \<Longrightarrow> parked (thr k' t)" for t
    using thr [of t] by (auto simp: parked_def resume_spl_def stack_ok_def)
  have old: "\<exists>l'. t \<in> set (q l')" if "t \<in> set (?q l)" for t l
  proof (cases "\<exists>c. l = runqueue c")
    case True
    then obtain c where c: "l = runqueue c" by blast
    have "t \<in> set (q (runqueue c)) \<or> t \<in> set ws" using that unfolding c wake_queues_runqueue by auto
    then show ?thesis using ws by blast
  next
    case False
    then have "t \<in> set (q l)" using that q wake_queues_other [of l w k ws rest q]
      by (cases "l = wchan_threads w") (auto simp: wake_queues_def)
    then show ?thesis by blast
  qed
  have run: "c < num_cpus k' \<and> t_state (thr k' t) = S_READY \<and> t_cpu (thr k' t) = Some c" if "t \<in> set (?q (runqueue c))" for t c
  proof (cases "t \<in> set ws")
    case True
    then have "t \<notin> set (q (runqueue c))" using ws qrepD(3) [OF Q0, of "wchan_threads w" "runqueue c"] by simp
    then have "the (t_cpu (thr k t)) = c" using that by (simp add: wake_queues_runqueue)
    then show ?thesis using cpu [OF True] thr [of t] True n by auto
  next
    case False
    then have "t \<in> set (q (runqueue c))" using that by (simp add: wake_queues_runqueue)
    then show ?thesis using queued_okD(1) [OF ok] thr [of t] False n by auto
  qed
  moreover have "t_state (thr k' t) = S_SLEEP \<and> (\<exists>c<num_cpus k'. t_cpu (thr k' t) = Some c)"
    if t: "t \<in> set (?q (wchan_threads v))" for t v
  proof (cases "v = w")
    case True
    then have "t \<in> set rest" using t by (simp add: wake_queues_def)
    then show ?thesis using queued_okD(2) [OF ok, of t w] rest q n by auto
  next
    case False
    then have "t \<in> set (q (wchan_threads v))" using t wake_queues_other [of "wchan_threads v" w k ws rest q] by simp
    then show ?thesis using queued_okD(2) [OF ok, of t v] keep [of t "wchan_threads v"] False n by simp
  qed
  moreover have "t_state (thr k' t) = S_ZOMBIE \<and> t_proc (thr k' t) = None" if "t \<in> set (?q (zombies c))" for t c
    using that queued_okD(3) [OF ok, of t c] keep [of t "zombies c"] wake_queues_other [of "zombies c" w k ws rest q] by simp
  moreover have "parked (thr k' t)" if "t \<in> set (?q l)" for t l
    using old [OF that] pk queued_okD(4) [OF ok] by blast
  moreover have "?q (stacklist c) = []" for c
    using queued_okD(5) [OF ok, of c] wake_queues_other [of "stacklist c" w k ws rest q] by simp
  ultimately have "queued_ok k' ?q" unfolding queued_ok_def by blast
  moreover have "cpu_ok c k' \<and> (\<not> c_isidle (cpus k' c) \<longrightarrow> on_cpu k' ?q c)" if c: "c < num_cpus k'" for c
  proof -
    have "on_cpu k' ?q c" if "\<not> c_isidle (cpus k c)"
    proof -
      let ?u = "curthread c k"
      have u: "on_cpu k q c" using on [of c] c that n by simp
      then have off: "?u \<notin> set (q l)" for l by (simp add: on_cpu_def off_lists_def)
      then have "?u \<notin> set (?q l)" for l using old by blast
      moreover have "thr k' ?u = thr k ?u" using thr ws off by auto
      ultimately show ?thesis using u by (simp add: on_cpu_def off_lists_def wake_frameD [OF f])
    qed
    then show ?thesis using on [of c] c n by (simp add: wake_frameD [OF f])
  qed
  ultimately show ?thesis using Q by (simp add: thread_inv_def)
qed

text \<open>Waking one thread, or none, from a channel whose spinlock this CPU holds.\<close>

definition first_waiter :: "nat \<Rightarrow> (nat \<Rightarrow> nat list) \<Rightarrow> nat list" where
  "first_waiter w q = take 1 (q (wchan_threads w))"

definition wakeone_queues :: "'tlb ksys \<Rightarrow> nat \<Rightarrow> (nat \<Rightarrow> nat list) \<Rightarrow> (nat \<Rightarrow> nat list)" where
  "wakeone_queues k w q = wake_queues k w (first_waiter w q) (drop 1 (q (wchan_threads w))) q"

definition wakeall_queues :: "'tlb ksys \<Rightarrow> nat \<Rightarrow> (nat \<Rightarrow> nat list) \<Rightarrow> (nat \<Rightarrow> nat list)" where
  "wakeall_queues k w q = wake_queues k w (q (wchan_threads w)) [] q"

abbreviation queue_locks_free :: "'tlb ksys \<Rightarrow> bool" where
  "queue_locks_free k \<equiv> (\<forall>c. lk_free k (RunqL c)) \<and> (\<forall>c. lk_free k (IpiL c))"

lemma wakeone_inv:
  assumes inv: "thread_inv k q" and me: "me < num_cpus k" and h: "klk k lk = held_by me"
    and lk: "queue_locks_free k"
  shows "\<exists>k'. wchan_wakeone me w lk k = Some k' \<and> thread_inv k' (wakeone_queues k w q) \<and> wake_frame k k'"
proof -
  have Q: "qrep (tls k) q" and ok: "queued_ok k q" and spl: "cpu_ok me k"
    using inv me by (simp_all add: thread_inv_def)
  have h': "sholds me lk k" using h spl by (simp add: sholds_def spinlock_do_i_hold_def)
  show ?thesis
  proof (cases "q (wchan_threads w)")
    case Nil
    then have "wakeone_queues k w q = q" by (simp add: wakeone_queues_def wake_queues_def first_waiter_def) (metis fun_upd_triv)
    with Nil wchan_wakeone_Nil [OF Q Nil h'] inv show ?thesis by auto
  next
    case (Cons t ts)
    have "t \<in> set (q (wchan_threads w))" using Cons by simp
    from queued_okD(2) [OF ok this] obtain c where c: "t_cpu (thr k t) = Some c" by blast
    obtain k' where k': "wchan_wakeone me w lk k = Some k'"
        "qrep (tls k') (q(wchan_threads w := ts, runqueue c := q (runqueue c) @ [t]))" "made_ready me c t k k'"
      using wchan_wakeone_Cons [OF Q Cons h' spl c] lk by blast
    have eq: "q(wchan_threads w := ts, runqueue c := q (runqueue c) @ [t]) = wakeone_queues k w q"
      using Cons c by (simp add: wakeone_queues_def wake_queues_def first_waiter_def fun_upd_twist)
    have "thread_inv k' (wakeone_queues k w q)"
      unfolding wakeone_queues_def
      by (rule woken_inv [OF inv]) (use k' eq Cons in \<open>auto simp: made_ready_def first_waiter_def wakeone_queues_def\<close>)
    then show ?thesis using k' by (auto simp: made_ready_def)
  qed
qed

lemma wakeall_inv:
  assumes inv: "thread_inv k q" and me: "me < num_cpus k" and h: "klk k lk = held_by me"
    and lk: "queue_locks_free k"
  shows "\<exists>k'. wchan_wakeall me w lk k = Some k' \<and> thread_inv k' (wakeall_queues k w q) \<and> wake_frame k k'"
proof -
  have Q: "qrep (tls k) q" and ok: "queued_ok k q" and spl: "cpu_ok me k"
    using inv me by (simp_all add: thread_inv_def)
  have h': "sholds me lk k" using h spl by (simp add: sholds_def spinlock_do_i_hold_def)
  have cpu: "t_cpu (thr k t) = Some (the (t_cpu (thr k t)))" if "t \<in> set (q (wchan_threads w))" for t
    using queued_okD(2) [OF ok that] by auto
  obtain k' where k': "wchan_wakeall me w lk k = Some k'" "wake_frame k k'"
      "qrep (tls k') ((deal (\<lambda>t. the (t_cpu (thr k t))) (q (wchan_threads w)) q)(wchan_threads w := []))"
      "\<forall>t. thr k' t = (if t \<in> set (q (wchan_threads w)) then (thr k t)\<lparr>t_state := S_READY\<rparr> else thr k t)"
    using wchan_wakeall_ok [OF Q refl queued_okD(5) [OF ok] h' spl cpu] lk by blast
  have "thread_inv k' (wakeall_queues k w q)"
    unfolding wakeall_queues_def
    by (rule woken_inv [OF inv _ k'(2)]) (use k' in \<open>simp_all add: wake_queues_def\<close>)
  then show ?thesis using k' by blast
qed

section \<open>Bracketed wakeups\<close>

lemma thread_inv_slocked: "thread_inv k q \<Longrightarrow> thread_inv (slocked me lk k) q"
proof -
  assume inv: "thread_inv k q"
  have ok: "queued_ok (slocked me lk k) q"
    by (rule queued_ok_mono [of k q]) (use inv in \<open>auto simp: thread_inv_def\<close>)
  moreover have "cpu_ok c (slocked me lk k) \<and> (\<not> c_isidle (cpus (slocked me lk k) c) \<longrightarrow> on_cpu (slocked me lk k) q c)"
    if "c < num_cpus k" for c
    using inv that lock_entered_inv by (cases "c = me") (auto simp: thread_inv_def on_cpu_def)
  ultimately show ?thesis using inv by (simp add: thread_inv_def)
qed

lemma thread_inv_relocked:
  assumes inv: "thread_inv k' q" and ok: "\<And>c. c < num_cpus k' \<Longrightarrow> cpu_ok c k"
  shows "thread_inv (relocked k k') q"
proof -
  have "queued_ok (relocked k k') q"
    by (rule queued_ok_mono [of k' q]) (use inv in \<open>auto simp: thread_inv_def\<close>)
  then show ?thesis using inv ok by (simp add: thread_inv_def on_cpu_def)
qed

lemma wakeone_queues_slocked [simp]:
  "wakeone_queues (slocked me lk k) w q = wakeone_queues k w q"
  "wakeall_queues (slocked me lk k) w q = wakeall_queues k w q"
  by (simp_all add: wakeone_queues_def wakeall_queues_def wake_queues_def)

lemma queue_locks_free_slocked:
  "queue_locks_free k \<Longrightarrow> (\<And>c. lk \<noteq> RunqL c) \<Longrightarrow> (\<And>c. lk \<noteq> IpiL c) \<Longrightarrow> queue_locks_free (slocked me lk k)"
  by (auto simp: lk_free_def)

text \<open>
  Taking an object's spinlock, waking by \<open>f\<close> and dropping the spinlock again, for the two
  wakeups: the shape of \<open>V\<close>, \<open>lock_release\<close>, \<open>cv_signal\<close> and \<open>cv_broadcast\<close>.
\<close>

lemma wake_bracket:
  assumes inv: "thread_inv k q" and me: "me < num_cpus k" and free: "lk_free k lk"
    and wake: "wake (slocked me lk k) = Some k1" "thread_inv k1 q1" "wake_frame (slocked me lk k) k1"
  shows "\<exists>k'. srel me lk k1 = Some k' \<and> thread_inv k' q1 \<and> wake_frame k k'"
proof -
  have ok: "\<And>c. c < num_cpus k \<Longrightarrow> cpu_ok c k" using inv by (simp add: thread_inv_def)
  have "srel me lk k1 = Some (relocked k k1)"
    by (rule bracket_release [OF ok [OF me] free wake_frame_locks [OF wake(3)]])
  moreover have "thread_inv (relocked k k1) q1"
    using thread_inv_relocked [OF wake(2), of k] ok wake_frameD(6) [OF wake(3)] by simp
  ultimately show ?thesis using wake_frame_relocked [OF wake(3)] by blast
qed

lemma wakeone_bracket:
  assumes inv: "thread_inv k q" and me: "me < num_cpus k" and free: "lk_free k lk"
    and lk: "queue_locks_free k" "\<And>c. lk \<noteq> RunqL c" "\<And>c. lk \<noteq> IpiL c"
  shows "\<exists>k1 k'. sacq me lk k = Some (slocked me lk k) \<and> wchan_wakeone me w lk (slocked me lk k) = Some k1 \<and>
    srel me lk k1 = Some k' \<and> thread_inv k' (wakeone_queues k w q) \<and> wake_frame k k'"
proof -
  have "me < num_cpus (slocked me lk k)" "klk (slocked me lk k) lk = held_by me" using me by simp_all
  from wakeone_inv [OF thread_inv_slocked [OF inv] this queue_locks_free_slocked [OF lk]]
  obtain k1 where k1: "wchan_wakeone me w lk (slocked me lk k) = Some k1" "thread_inv k1 (wakeone_queues k w q)"
      "wake_frame (slocked me lk k) k1"
    by auto
  from wake_bracket [where wake = "wchan_wakeone me w lk", OF inv me free k1] k1(1) sacq_ok [OF _ free] inv me
  show ?thesis by (auto simp: thread_inv_def)
qed

lemma wakeall_bracket:
  assumes inv: "thread_inv k q" and me: "me < num_cpus k" and free: "lk_free k lk"
    and lk: "queue_locks_free k" "\<And>c. lk \<noteq> RunqL c" "\<And>c. lk \<noteq> IpiL c"
  shows "\<exists>k1 k'. sacq me lk k = Some (slocked me lk k) \<and> wchan_wakeall me w lk (slocked me lk k) = Some k1 \<and>
    srel me lk k1 = Some k' \<and> thread_inv k' (wakeall_queues k w q) \<and> wake_frame k k'"
proof -
  have "me < num_cpus (slocked me lk k)" "klk (slocked me lk k) lk = held_by me" using me by simp_all
  from wakeall_inv [OF thread_inv_slocked [OF inv] this queue_locks_free_slocked [OF lk]]
  obtain k1 where k1: "wchan_wakeall me w lk (slocked me lk k) = Some k1" "thread_inv k1 (wakeall_queues k w q)"
      "wake_frame (slocked me lk k) k1"
    by auto
  from wake_bracket [where wake = "wchan_wakeall me w lk", OF inv me free k1] k1(1) sacq_ok [OF _ free] inv me
  show ?thesis by (auto simp: thread_inv_def)
qed

section \<open>The operations\<close>

lemma V_ok:
  assumes "thread_inv (kn s) q" "me < num_cpus (kn s)" "queue_locks_free (kn s)" "lk_free (kn s) (sem_lock i)"
    "sem_count (sems s i) \<noteq> - 1"
  shows "\<exists>k'. V me i s = Some (s\<lparr>sems := (sems s)(i := (sems s i)\<lparr>sem_count := sem_count (sems s i) + 1\<rparr>), kn := k'\<rparr>) \<and>
    thread_inv k' (wakeone_queues (kn s) (sem_wchan (sems s i)) q) \<and> wake_frame (kn s) k'"
proof -
  obtain k1 k' where "sacq me (sem_lock i) (kn s) = Some (slocked me (sem_lock i) (kn s))"
      "wchan_wakeone me (sem_wchan (sems s i)) (sem_lock i) (slocked me (sem_lock i) (kn s)) = Some k1"
      "srel me (sem_lock i) k1 = Some k'" "wake_frame (kn s) k'"
      "thread_inv k' (wakeone_queues (kn s) (sem_wchan (sems s i)) q)"
    using wakeone_bracket [OF assms(1,2,4,3)] by (metis obj_locks(1,2))
  moreover have "sem_count (sems s i) + 1 > 0"
    using assms(5) by (metis add.commute add_eq_0_iff word_gt_0)
  ultimately show ?thesis by (intro exI [of _ k']) (simp add: V_def on_kn_def Let_def)
qed

lemma V_overflow_panics:
  assumes "cpu_ok me (kn s)" "lk_free (kn s) (sem_lock i)" "sem_count (sems s i) = - 1"
  shows "V me i s = None"
  using assms by (simp add: V_def on_kn_def sacq_ok Let_def)

lemma lock_do_i_hold_ok:
  assumes "cpu_ok me (kn s)" "lk_free (kn s) (lk_spinlock i)"
  shows "lock_do_i_hold me i s = Some (lk_owner (lks s i) = Some (curthread me (kn s)), s)"
  using assms by (simp add: lock_do_i_hold_def on_kn_def sacq_ok srel_slocked Let_def)

lemma lock_release_ok:
  assumes inv: "thread_inv (kn s) q" and me: "me < num_cpus (kn s)" and lk: "queue_locks_free (kn s)" "lk_free (kn s) (lk_spinlock i)"
    and int: "\<not> t_in_interrupt (thr (kn s) (curthread me (kn s)))"
    and own: "lk_owner (lks s i) = Some (curthread me (kn s))" "is_busy (lks s i)"
  shows "\<exists>k'. lock_release me i s = Some (s\<lparr>lks := (lks s)(i := (lks s i)\<lparr>is_busy := False, lk_owner := None\<rparr>), kn := k'\<rparr>) \<and>
    thread_inv k' (wakeone_queues (kn s) (lk_wchan (lks s i)) q) \<and> wake_frame (kn s) k'"
proof -
  have spl: "cpu_ok me (kn s)" using inv me by (simp add: thread_inv_def)
  obtain k1 k' where k: "sacq me (lk_spinlock i) (kn s) = Some (slocked me (lk_spinlock i) (kn s))"
      "wchan_wakeone me (lk_wchan (lks s i)) (lk_spinlock i) (slocked me (lk_spinlock i) (kn s)) = Some k1"
      "srel me (lk_spinlock i) k1 = Some k'" "wake_frame (kn s) k'"
      "thread_inv k' (wakeone_queues (kn s) (lk_wchan (lks s i)) q)"
    using wakeone_bracket [OF inv me lk(2,1)] by (metis obj_locks(3,4))
  have held: "sholds me (lk_spinlock i) (slocked me (lk_spinlock i) (kn s))"
    by (simp add: sholds_def spinlock_do_i_hold_def)
  have drop: "\<not> sholds me (lk_spinlock i) k'"
    using wake_frameD(1,5) [OF k(4)] spl lk(2)
    by (simp add: sholds_def spinlock_do_i_hold_def lk_free_def spinlock_init_def spl_inv_def)
  show ?thesis
    using k held drop int own lock_do_i_hold_ok [OF spl lk(2)]
    by (intro exI [of _ k']) (simp add: lock_release_def on_kn_def Let_def)
qed

lemma lock_release_not_owner:
  assumes "cpu_ok me (kn s)" "lk_free (kn s) (lk_spinlock i)" "lk_owner (lks s i) \<noteq> Some (curthread me (kn s))"
  shows "lock_release me i s = None"
  using assms by (simp add: lock_release_def lock_do_i_hold_ok)

lemma lock_acquire_held_panics:
  assumes "cpu_ok me (kn s)" "lk_free (kn s) (lk_spinlock i)" "lk_owner (lks s i) = Some (curthread me (kn s))"
  shows "lock_acquire cpu_idle me i s = None"
  using assms by (simp add: lock_acquire_def lock_do_i_hold_ok)

lemma lock_acquire_free:
  assumes "cpu_ok me (kn s)" "lk_free (kn s) (lk_spinlock i)" "\<not> t_in_interrupt (thr (kn s) (curthread me (kn s)))"
    "\<not> is_busy (lks s i)" "lk_owner (lks s i) \<noteq> Some (curthread me (kn s))"
  shows "lock_acquire cpu_idle me i s =
    Some (Done (s\<lparr>lks := (lks s)(i := (lks s i)\<lparr>is_busy := True, lk_owner := Some (curthread me (kn s))\<rparr>)\<rparr>))"
proof -
  have "sholds me (lk_spinlock i) (slocked me (lk_spinlock i) (kn s))"
    by (simp add: sholds_def spinlock_do_i_hold_def)
  then show ?thesis using assms
    by (simp add: lock_acquire_def lock_loop_def lock_do_i_hold_ok on_kn_def sacq_ok srel_slocked Let_def)
qed

text \<open>
  Going to sleep on an object's channel: the caller ends up at the end of the channel, the spinlock
  is dropped, and the head of the run queue is what the CPU runs next.
\<close>

definition sleep_queues :: "nat \<Rightarrow> nat \<Rightarrow> (nat \<times> string \<times> klock) \<Rightarrow> 'tlb ksys \<Rightarrow> (nat \<Rightarrow> nat list) \<Rightarrow> (nat \<Rightarrow> nat list)" where
  "sleep_queues me w wc k q = (switch_queues me S_SLEEP (Some wc) (curthread me k) q)(zombies me := [])"

lemma sleep_queues_channel:
  "sleep_queues me w (w, nm, lk) k q (wchan_threads w) = q (wchan_threads w) @ [curthread me k]"
  by (simp add: sleep_queues_def switch_queues_def destination_def Let_def)

lemma wchan_sleep_ok:
  assumes inv: "thread_inv k q" and me: "me < num_cpus k" "\<not> c_isidle (cpus k me)" and int: "\<not> t_in_interrupt (thr k (curthread me k))"
    and sp: "c_spinlocks (c_state (cpus k me)) = 0" and free: "lk_free k lk" "queue_locks_free k" "\<And>c. lk \<noteq> RunqL c" "\<And>c. lk \<noteq> IpiL c"
    and rq: "q (runqueue me) = t # ts"
  shows "\<exists>k'. wchan_sleep cpu_idle me w nm lk (slocked me lk k) = Some k' \<and>
    thread_inv k' (sleep_queues me w (w, nm, lk) k q) \<and> curthread me k' = t \<and> lk_free k' lk \<and> queue_locks_free k' \<and>
    c_spinlocks (c_state (cpus k' me)) = 0"
proof -
  let ?k = "slocked me lk k"
  have h: "sholds me lk ?k" by (simp add: sholds_def spinlock_do_i_hold_def)
  have m: "may_switch me S_SLEEP (Some (w, nm, lk)) ?k" using sp free(3) by (simp add: may_switch_def)
  have qf: "lk_free ?k (RunqL me)" "lk_free ?k (IpiL me)"
    using queue_locks_free_slocked [OF free(2-4)] by blast+
  have "me < num_cpus ?k" "\<not> c_isidle (cpus ?k me)" using me by simp_all
  from thread_switch_ok [OF thread_inv_slocked [OF inv] this m qf rq, of cpu_idle]
  obtain k' where k': "thread_switch cpu_idle me S_SLEEP (Some (w, nm, lk)) ?k = Some k'"
      "thread_inv k' (sleep_queues me w (w, nm, lk) k q)" "curthread me k' = t"
      "c_spinlocks (c_state (cpus k' me)) = 0"
      "\<And>j. klk k' j = (if j = lk then spinlock_init else klk ?k j)"
    unfolding sleep_queues_def by auto
  have "wchan_sleep cpu_idle me w nm lk ?k = Some k'"
    using k'(1) h int sp by (simp add: wchan_sleep_def)
  moreover have "lk_free k' lk" "queue_locks_free k'" using k'(5) free by (simp_all add: lk_free_def)
  ultimately show ?thesis using k' by blast
qed

lemma lock_acquire_busy:
  assumes inv: "thread_inv (kn s) q" and me: "me < num_cpus (kn s)" "\<not> c_isidle (cpus (kn s) me)"
    and int: "\<not> t_in_interrupt (thr (kn s) (curthread me (kn s)))" and sp: "c_spinlocks (c_state (cpus (kn s) me)) = 0"
    and free: "lk_free (kn s) (lk_spinlock i)" "queue_locks_free (kn s)"
    and busy: "is_busy (lks s i)" "lk_owner (lks s i) \<noteq> Some (curthread me (kn s))" and rq: "q (runqueue me) = t # ts"
  shows "\<exists>k'. lock_acquire cpu_idle me i s = Some (Slept (s\<lparr>kn := k'\<rparr>)) \<and> curthread me k' = t \<and> lk_free k' (lk_spinlock i) \<and>
    thread_inv k' (sleep_queues me (lk_wchan (lks s i)) (lk_wchan (lks s i), lk_name (lks s i), lk_spinlock i) (kn s) q)"
proof -
  have spl: "cpu_ok me (kn s)" using inv me by (simp add: thread_inv_def)
  have "sholds me (lk_spinlock i) (slocked me (lk_spinlock i) (kn s))" by (simp add: sholds_def spinlock_do_i_hold_def)
  then show ?thesis
    using wchan_sleep_ok [OF inv me int sp free _ _ rq, of cpu_idle "lk_wchan (lks s i)" "lk_name (lks s i)"]
      busy int lock_do_i_hold_ok [OF spl free(1)] sacq_ok [OF spl free(1)]
    by (auto simp: lock_acquire_def lock_loop_def on_kn_def)
qed

lemma P_takes:
  assumes "cpu_ok me (kn s)" "lk_free (kn s) (sem_lock i)" "\<not> t_in_interrupt (thr (kn s) (curthread me (kn s)))"
    "sem_count (sems s i) \<noteq> 0"
  shows "P cpu_idle me i s = Some (Done (s\<lparr>sems := (sems s)(i := (sems s i)\<lparr>sem_count := sem_count (sems s i) - 1\<rparr>)\<rparr>))"
  using assms by (simp add: P_def P_loop_def on_kn_def sacq_ok srel_slocked Let_def word_gt_0)

lemma P_sleeps:
  assumes inv: "thread_inv (kn s) q" and me: "me < num_cpus (kn s)" "\<not> c_isidle (cpus (kn s) me)"
    and int: "\<not> t_in_interrupt (thr (kn s) (curthread me (kn s)))" and sp: "c_spinlocks (c_state (cpus (kn s) me)) = 0"
    and free: "lk_free (kn s) (sem_lock i)" "queue_locks_free (kn s)"
    and zero: "sem_count (sems s i) = 0" and rq: "q (runqueue me) = t # ts"
  shows "\<exists>k'. P cpu_idle me i s = Some (Slept (s\<lparr>kn := k'\<rparr>)) \<and> curthread me k' = t \<and> lk_free k' (sem_lock i) \<and>
    thread_inv k' (sleep_queues me (sem_wchan (sems s i)) (sem_wchan (sems s i), sem_name (sems s i), sem_lock i) (kn s) q)"
proof -
  have spl: "cpu_ok me (kn s)" using inv me by (simp add: thread_inv_def)
  show ?thesis
    using wchan_sleep_ok [OF inv me int sp free _ _ rq, of cpu_idle "sem_wchan (sems s i)" "sem_name (sems s i)"]
      zero int sacq_ok [OF spl free(1)]
    by (auto simp: P_def P_loop_def on_kn_def)
qed

lemma cv_signal_ok:
  assumes inv: "thread_inv (kn s) q" and me: "me < num_cpus (kn s)"
    and lk: "queue_locks_free (kn s)" "lk_free (kn s) (lk_spinlock l)" "lk_free (kn s) (cv_spinlock i)"
    and own: "lk_owner (lks s l) = Some (curthread me (kn s))"
  shows "\<exists>k'. cv_signal me i l s = Some (s\<lparr>kn := k'\<rparr>) \<and>
    thread_inv k' (wakeone_queues (kn s) (cv_wchan (cvs s i)) q) \<and> wake_frame (kn s) k'"
proof -
  have spl: "cpu_ok me (kn s)" using inv me by (simp add: thread_inv_def)
  obtain k1 k' where "sacq me (cv_spinlock i) (kn s) = Some (slocked me (cv_spinlock i) (kn s))"
      "wchan_wakeone me (cv_wchan (cvs s i)) (cv_spinlock i) (slocked me (cv_spinlock i) (kn s)) = Some k1"
      "srel me (cv_spinlock i) k1 = Some k'" "wake_frame (kn s) k'"
      "thread_inv k' (wakeone_queues (kn s) (cv_wchan (cvs s i)) q)"
    using wakeone_bracket [OF inv me lk(3,1)] by (metis obj_locks(5,6))
  then show ?thesis using own lock_do_i_hold_ok [OF spl lk(2)]
    by (intro exI [of _ k']) (simp add: cv_signal_def on_kn_def)
qed

lemma cv_broadcast_ok:
  assumes inv: "thread_inv (kn s) q" and me: "me < num_cpus (kn s)"
    and lk: "queue_locks_free (kn s)" "lk_free (kn s) (lk_spinlock l)" "lk_free (kn s) (cv_spinlock i)"
    and own: "lk_owner (lks s l) = Some (curthread me (kn s))"
  shows "\<exists>k'. cv_broadcast me i l s = Some (s\<lparr>kn := k'\<rparr>) \<and>
    thread_inv k' (wakeall_queues (kn s) (cv_wchan (cvs s i)) q) \<and> wake_frame (kn s) k'"
proof -
  have spl: "cpu_ok me (kn s)" using inv me by (simp add: thread_inv_def)
  obtain k1 k' where "sacq me (cv_spinlock i) (kn s) = Some (slocked me (cv_spinlock i) (kn s))"
      "wchan_wakeall me (cv_wchan (cvs s i)) (cv_spinlock i) (slocked me (cv_spinlock i) (kn s)) = Some k1"
      "srel me (cv_spinlock i) k1 = Some k'" "wake_frame (kn s) k'"
      "thread_inv k' (wakeall_queues (kn s) (cv_wchan (cvs s i)) q)"
    using wakeall_bracket [OF inv me lk(3,1)] by (metis obj_locks(5,6))
  then show ?thesis using own lock_do_i_hold_ok [OF spl lk(2)]
    by (intro exI [of _ k']) (simp add: cv_broadcast_def on_kn_def)
qed

lemma cv_wakeup_not_owner:
  assumes "cpu_ok me (kn s)" "lk_free (kn s) (lk_spinlock l)" "lk_owner (lks s l) \<noteq> Some (curthread me (kn s))"
  shows "cv_signal me i l s = None" "cv_broadcast me i l s = None"
  using assms by (simp_all add: cv_signal_def cv_broadcast_def lock_do_i_hold_ok)

lemma slocked_relocked:
  assumes "same_locks (slocked me lk k) k1"
  shows "slocked me lk (relocked k k1) = k1"
proof (rule ksys.equality)
  show "klk (slocked me lk (relocked k k1)) = klk k1" using assms by (simp add: same_locks_def)
  show "cpus (slocked me lk (relocked k k1)) = cpus k1"
  proof
    fix c
    have "c_state (cpus k1 c) = c_state (cpus (slocked me lk k) c)" using assms by (simp add: same_locks_def)
    then show "cpus (slocked me lk (relocked k k1)) c = cpus k1 c"
      by (cases "c = me") (simp_all add: slocked_def relocked_def)
  qed
qed simp_all

text \<open>
  \<open>cv_wait\<close>: the caller is put on the condition variable's channel with its spinlock held all the
  way from before the lock is released, so no signal can fall in between.
\<close>

lemma cv_wait_ok:
  assumes inv: "thread_inv (kn s) q" and me: "me < num_cpus (kn s)" "\<not> c_isidle (cpus (kn s) me)"
    and int: "\<not> t_in_interrupt (thr (kn s) (curthread me (kn s)))" and sp: "c_spinlocks (c_state (cpus (kn s) me)) = 0"
    and free: "queue_locks_free (kn s)" "lk_free (kn s) (lk_spinlock l)" "lk_free (kn s) (cv_spinlock i)"
    and own: "lk_owner (lks s l) = Some (curthread me (kn s))" "is_busy (lks s l)"
    and rq: "wakeone_queues (kn s) (lk_wchan (lks s l)) q (runqueue me) = t # ts"
  shows "\<exists>k'. cv_wait cpu_idle me i l s =
      Some (Slept (s\<lparr>lks := (lks s)(l := (lks s l)\<lparr>is_busy := False, lk_owner := None\<rparr>), kn := k'\<rparr>)) \<and>
    thread_inv k' (sleep_queues me (cv_wchan (cvs s i)) (cv_wchan (cvs s i), cv_name (cvs s i), cv_spinlock i) (kn s)
      (wakeone_queues (kn s) (lk_wchan (lks s l)) q)) \<and>
    curthread me k' = t \<and> lk_free k' (cv_spinlock i)"
proof -
  let ?cl = "cv_spinlock i" and ?q1 = "wakeone_queues (kn s) (lk_wchan (lks s l)) q"
  define s1 where "s1 = s\<lparr>kn := slocked me (cv_spinlock i) (kn s)\<rparr>"
  have spl: "cpu_ok me (kn s)" using inv me by (simp add: thread_inv_def)
  have "thread_inv (kn s1) q" "me < num_cpus (kn s1)" "queue_locks_free (kn s1)" "lk_free (kn s1) (lk_spinlock l)"
      "\<not> t_in_interrupt (thr (kn s1) (curthread me (kn s1)))" "lk_owner (lks s1 l) = Some (curthread me (kn s1))" "is_busy (lks s1 l)"
    using thread_inv_slocked [OF inv] me free int own by (auto simp: s1_def lk_free_def)
  from lock_release_ok [OF this] obtain k1 where k1:
      "lock_release me l s1 = Some (s1\<lparr>lks := (lks s1)(l := (lks s1 l)\<lparr>is_busy := False, lk_owner := None\<rparr>), kn := k1\<rparr>)"
      "thread_inv k1 ?q1" "wake_frame (slocked me ?cl (kn s)) k1"
    by (auto simp: s1_def)
  define k2 where "k2 = relocked (kn s) k1"
  have k12: "k1 = slocked me ?cl k2"
    unfolding k2_def by (rule slocked_relocked [OF wake_frame_locks [OF k1(3)], symmetric])
  have f: "wake_frame (kn s) k2" unfolding k2_def by (rule wake_frame_relocked [OF k1(3)])
  have ct: "curthread me k2 = curthread me (kn s)" by (rule wake_frameD(3) [OF f])
  have "thread_inv k2 ?q1"
    unfolding k2_def using thread_inv_relocked [OF k1(2), of "kn s"] inv wake_frameD(6) [OF k1(3)]
    by (simp add: thread_inv_def)
  moreover have "\<not> t_in_interrupt (thr k2 (curthread me k2))"
    using int ct f thr_eqD [of "thr k2 (curthread me k2)" "thr (kn s) (curthread me k2)"] by (simp add: wake_frame_def)
  moreover have "me < num_cpus k2" "\<not> c_isidle (cpus k2 me)" "c_spinlocks (c_state (cpus k2 me)) = 0"
      "lk_free k2 ?cl" "queue_locks_free k2"
    using me sp free by (simp_all add: wake_frameD [OF f] lk_free_def)
  ultimately obtain k' where k': "wchan_sleep cpu_idle me (cv_wchan (cvs s i)) (cv_name (cvs s i)) ?cl k1 = Some k'"
      "thread_inv k' (sleep_queues me (cv_wchan (cvs s i)) (cv_wchan (cvs s i), cv_name (cvs s i), ?cl) k2 ?q1)"
      "curthread me k' = t" "lk_free k' ?cl"
    using wchan_sleep_ok [of k2 ?q1 me ?cl t ts cpu_idle "cv_wchan (cvs s i)" "cv_name (cvs s i)"] rq k12 by auto
  moreover have "sleep_queues me w wc k2 ?q1 = sleep_queues me w wc (kn s) ?q1" for w wc
    by (simp add: sleep_queues_def ct)
  moreover have "cv_wait cpu_idle me i l s =
      Some (Slept (s\<lparr>lks := (lks s)(l := (lks s l)\<lparr>is_busy := False, lk_owner := None\<rparr>), kn := k'\<rparr>))"
    using own sacq_ok [OF spl free(3)] k1(1) k'(1)
    by (simp add: cv_wait_def on_kn_def s1_def [symmetric]) (simp add: s1_def)
  ultimately show ?thesis by (intro exI [of _ k']) simp
qed

section \<open>A concrete system\<close>

definition ex_ssys :: "u32 \<Rightarrow> bool \<Rightarrow> nat option \<Rightarrow> nat ssys" where
  "ex_ssys n busy owner =
     \<lparr>kn = ex_sys, sems = (\<lambda>_. \<lparr>sem_name = ''sem'', sem_wchan = 0, sem_count = n\<rparr>),
      lks = (\<lambda>_. \<lparr>lk_name = ''lock'', lk_wchan = 0, is_busy = busy, lk_owner = owner\<rparr>),
      cvs = (\<lambda>_. \<lparr>cv_name = ''cv'', cv_wchan = 1\<rparr>)\<rparr>"

lemma ex_ssys_sel [simp]:
  "kn (ex_ssys n busy owner) = ex_sys" "sem_count (sems (ex_ssys n busy owner) i) = n" "sem_wchan (sems (ex_ssys n busy owner) i) = 0"
  "lk_wchan (lks (ex_ssys n busy owner) i) = 0" "is_busy (lks (ex_ssys n busy owner) i) = busy"
  "lk_owner (lks (ex_ssys n busy owner) i) = owner" "cv_wchan (cvs (ex_ssys n busy owner) i) = 1"
  by (simp_all add: ex_ssys_def)

section \<open>Properties\<close>

text \<open>
  Misuse of the primitives stops the kernel instead of corrupting state: acquiring a lock one
  already holds, releasing, signalling or broadcasting with a lock one does not hold, and a \<open>V\<close>
  that would wrap the 32-bit count.
\<close>

theorem synch_misuse_panics:
  assumes "cpu_ok me (kn s)" "lk_free (kn s) (lk_spinlock l)" "lk_free (kn s) (sem_lock i)"
  shows "(lk_owner (lks s l) = Some (curthread me (kn s)) \<longrightarrow> lock_acquire cpu_idle me l s = None) \<and>
    (lk_owner (lks s l) \<noteq> Some (curthread me (kn s)) \<longrightarrow>
       lock_release me l s = None \<and> cv_signal me c l s = None \<and> cv_broadcast me c l s = None) \<and>
    (sem_count (sems s i) = 2 ^ 32 - 1 \<longrightarrow> V me i s = None)"
proof -
  have "sem_count (sems s i) = 2 ^ 32 - 1 \<Longrightarrow> sem_count (sems s i) = - 1" by simp
  then show ?thesis
    using lock_acquire_held_panics [OF assms(1,2)] lock_release_not_owner [OF assms(1,2)] cv_wakeup_not_owner [OF assms(1,2)]
      V_overflow_panics [OF assms(1,3)] by blast
qed

theorem synch_misuse_panics_witness:
  "lock_release 0 5 (ex_ssys 0 True (Some 9)) = None \<and> V 0 5 (ex_ssys (2 ^ 32 - 1) True (Some 9)) = None \<and>
   lock_acquire id 0 5 (ex_ssys 0 True (Some 1)) = None"
  using synch_misuse_panics [where me = 0 and l = 5 and i = 5 and s = "ex_ssys 0 True (Some 9)"] synch_misuse_panics [where me = 0 and l = 5 and i = 5 and s = "ex_ssys (2 ^ 32 - 1) True (Some 9)"]
    synch_misuse_panics [where me = 0 and l = 5 and i = 5 and s = "ex_ssys 0 True (Some 1)"]
  by simp

end
