(* ===== verification/Linked_List.thy ===== *)
theory Linked_List
  imports Threadlist
begin

text \<open>
  \<open>kern/concurrent_list/linked_list.c\<close>: the doubly linked, NULL-terminated list with integer keys
  and a lock, at pointer level. The heap maps node addresses to nodes; keys and the length are C
  \<open>int\<close>s, kept as 32-bit words and compared as signed numbers. \<open>ll_lock\<close> is the owner of
  the list's lock; a call that finds it taken by its own thread panics and one that finds it taken
  by another thread waits, so neither has a value here. \<open>kmalloc\<close>'s answers are arguments;
  the code never checks them, so NULL is a fault. \<open>test_mode\<close> only adds \<open>thread_yield\<close> calls
  inside the lock, and \<open>linked_list_printlist\<close> only prints.

  The correctness statements say which list of (key, data) pairs each operation produces. The link
  structure is handled by viewing head and tail pointer as the two bookends of \<open>Threadlist\<close>.
\<close>

record lnode =
  ln_prev :: "nat option"
  ln_next :: "nat option"
  ln_key :: u32
  ln_data :: nat

record llist =
  ll_heap :: "nat \<Rightarrow> lnode"
  ll_first :: "nat option"
  ll_last :: "nat option"
  ll_length :: u32
  ll_lock :: "nat option option"

section \<open>The operations\<close>

definition ll_acquire :: "nat \<Rightarrow> llist \<Rightarrow> llist option" where
  "ll_acquire me s = (if ll_lock s = Some None then Some (s\<lparr>ll_lock := Some (Some me)\<rparr>) else None)"

definition ll_release :: "nat \<Rightarrow> llist \<Rightarrow> llist option" where
  "ll_release me s = do { kassert (ll_lock s = Some (Some me)); Some (s\<lparr>ll_lock := Some None\<rparr>) }"

definition upd_node :: "nat \<Rightarrow> (lnode \<Rightarrow> lnode) \<Rightarrow> llist \<Rightarrow> llist" where
  "upd_node a f s = s\<lparr>ll_heap := (ll_heap s)(a := f (ll_heap s a))\<rparr>"

text \<open>\<open>ok_lock\<close> is whether \<open>lock_create\<close> finds memory: its NULL answer is stored unchecked, and the
  first operation on the list then stops in \<open>lock_acquire\<close>.\<close>

definition linked_list_create :: "(nat \<Rightarrow> lnode) \<Rightarrow> nat option \<Rightarrow> bool \<Rightarrow> llist option" where
  "linked_list_create h addr ok_lock =
     do { _ \<leftarrow> addr;
          Some \<lparr>ll_heap = h, ll_first = None, ll_last = None, ll_length = 0,
                ll_lock = (if ok_lock then Some None else None)\<rparr> }"

definition linked_list_create_node :: "u32 \<Rightarrow> nat \<Rightarrow> nat option \<Rightarrow> llist \<Rightarrow> (nat \<times> llist) option" where
  "linked_list_create_node key data addr s =
     do { a \<leftarrow> addr;
          Some (a, upd_node a (\<lambda>_. \<lparr>ln_prev = None, ln_next = None, ln_key = key, ln_data = data\<rparr>) s) }"

definition linked_list_prepend :: "nat \<Rightarrow> nat \<Rightarrow> nat option \<Rightarrow> llist \<Rightarrow> llist option" where
  "linked_list_prepend me data addr s =
     do {
       s \<leftarrow> ll_acquire me s;
       s \<leftarrow> (case ll_first s of
               None \<Rightarrow>
                 do { (newnode, s) \<leftarrow> linked_list_create_node 0 data addr s;
                      Some (s\<lparr>ll_first := Some newnode, ll_last := Some newnode\<rparr>) }
             | Some f \<Rightarrow>
                 do { (newnode, s) \<leftarrow> linked_list_create_node (ln_key (ll_heap s f) - 1) data addr s;
                      let s = upd_node newnode (ln_next_update (\<lambda>_. ll_first s)) s;
                      let s = upd_node f (ln_prev_update (\<lambda>_. Some newnode)) s;
                      Some (s\<lparr>ll_first := Some newnode\<rparr>) });
       let s = s\<lparr>ll_length := ll_length s + 1\<rparr>;
       ll_release me s
     }"

text \<open>The search loop of \<open>linked_list_insert\<close>.\<close>

partial_function (option) ll_runner :: "u32 \<Rightarrow> nat \<Rightarrow> llist \<Rightarrow> nat option" where
  "ll_runner key runner s =
     (case ln_next (ll_heap s runner) of
        None \<Rightarrow> Some runner
      | Some n \<Rightarrow> if sint (ln_key (ll_heap s n)) < sint key then ll_runner key n s else Some runner)"

definition linked_list_insert :: "nat \<Rightarrow> u32 \<Rightarrow> nat \<Rightarrow> nat option \<Rightarrow> llist \<Rightarrow> llist option" where
  "linked_list_insert me key data addr s =
     do {
       s \<leftarrow> ll_acquire me s;
       s \<leftarrow> (case ll_first s of
               None \<Rightarrow>
                 do { (newnode, s) \<leftarrow> linked_list_create_node key data addr s;
                      Some (s\<lparr>ll_first := Some newnode, ll_last := Some newnode\<rparr>) }
             | Some f \<Rightarrow>
                 if sint (ln_key (ll_heap s f)) > sint key then
                   do { (newnode, s) \<leftarrow> linked_list_create_node key data addr s;
                        let s = upd_node newnode (ln_next_update (\<lambda>_. ll_first s)) s;
                        let s = upd_node f (ln_prev_update (\<lambda>_. Some newnode)) s;
                        Some (s\<lparr>ll_first := Some newnode\<rparr>) }
                 else
                   do { (newnode, s) \<leftarrow> linked_list_create_node key data addr s;
                        runner \<leftarrow> ll_runner key f s;
                        case ln_next (ll_heap s runner) of
                          None \<Rightarrow>
                            (let s = upd_node newnode (ln_prev_update (\<lambda>_. Some runner)) s;
                                 s = upd_node runner (ln_next_update (\<lambda>_. Some newnode)) s
                             in Some (s\<lparr>ll_last := Some newnode\<rparr>))
                        | Some n \<Rightarrow>
                            (let s = upd_node newnode (ln_next_update (\<lambda>_. Some n)) s;
                                 s = upd_node newnode (ln_prev_update (\<lambda>_. Some runner)) s
                             in do { nn \<leftarrow> ln_next (ll_heap s newnode);
                                     let s = upd_node nn (ln_prev_update (\<lambda>_. Some newnode)) s;
                                     np \<leftarrow> ln_prev (ll_heap s newnode);
                                     Some (upd_node np (ln_next_update (\<lambda>_. Some newnode)) s) }) });
       let s = s\<lparr>ll_length := ll_length s + 1\<rparr>;
       ll_release me s
     }"

definition linked_list_remove_head :: "nat \<Rightarrow> llist \<Rightarrow> ((nat \<times> u32) option \<times> llist) option" where
  "linked_list_remove_head me s =
     do {
       s \<leftarrow> ll_acquire me s;
       case ll_first s of
         None \<Rightarrow> do { s \<leftarrow> ll_release me s; Some (None, s) }
       | Some to_remove \<Rightarrow>
           do {
             let s = s\<lparr>ll_first := ln_next (ll_heap s to_remove)\<rparr>;
             let s = (case ll_first s of None \<Rightarrow> s | Some f \<Rightarrow> upd_node f (ln_prev_update (\<lambda>_. None)) s);
             let s = upd_node to_remove (ln_next_update (\<lambda>_. None)) s;
             let key = ln_key (ll_heap s to_remove);
             let s = (if ll_first s = None then s\<lparr>ll_last := None\<rparr> else s);
             let s = s\<lparr>ll_length := ll_length s - 1\<rparr>;
             let to_return = ln_data (ll_heap s to_remove);
             s \<leftarrow> ll_release me s;
             Some (Some (to_return, key), s)
           }
     }"

text \<open>The loop of \<open>linked_list_remove\<close> that decrements every remaining key.\<close>

partial_function (option) ll_decr :: "nat option \<Rightarrow> llist \<Rightarrow> llist option" where
  "ll_decr runner s =
     (case runner of
        None \<Rightarrow> Some s
      | Some r \<Rightarrow>
          (let s = upd_node r (\<lambda>x. x\<lparr>ln_key := ln_key x - 1\<rparr>) s
           in ll_decr (ln_next (ll_heap s r)) s))"

text \<open>Its two conditionals that take the node out of the chain.\<close>

definition ll_unlink :: "nat \<Rightarrow> llist \<Rightarrow> llist" where
  "ll_unlink node s =
     (let s = (case ln_prev (ll_heap s node) of
                 Some p \<Rightarrow> upd_node p (ln_next_update (\<lambda>_. ln_next (ll_heap s node))) s
               | None \<Rightarrow> s\<lparr>ll_first := ln_next (ll_heap s node)\<rparr>)
      in case ln_next (ll_heap s node) of
           Some n \<Rightarrow> upd_node n (ln_prev_update (\<lambda>_. ln_prev (ll_heap s node))) s
         | None \<Rightarrow> s\<lparr>ll_last := ln_prev (ll_heap s node)\<rparr>)"

definition linked_list_remove :: "nat \<Rightarrow> nat option \<Rightarrow> llist \<Rightarrow> llist option" where
  "linked_list_remove me nd s =
     do {
       s \<leftarrow> ll_acquire me s;
       case nd of
         None \<Rightarrow> ll_release me s
       | Some node \<Rightarrow>
           do {
             let s = ll_unlink node s;
             s \<leftarrow> ll_decr (ll_first s) s;
             let s = s\<lparr>ll_length := ll_length s - 1\<rparr>;
             ll_release me s
           }
     }"

text \<open>The loop of \<open>linked_list_destroy\<close>: each round frees the first node.\<close>

partial_function (option) ll_destroy_loop :: "llist \<Rightarrow> llist option" where
  "ll_destroy_loop s =
     (case ll_first s of
        None \<Rightarrow> Some s
      | Some to_remove \<Rightarrow>
          (let s = s\<lparr>ll_first := ln_next (ll_heap s to_remove)\<rparr>;
               s = (case ll_first s of None \<Rightarrow> s | Some f \<Rightarrow> upd_node f (ln_prev_update (\<lambda>_. None)) s);
               s = upd_node to_remove (ln_next_update (\<lambda>_. None)) s;
               s = (if ll_first s = None then s\<lparr>ll_last := None\<rparr> else s);
               s = s\<lparr>ll_length := ll_length s - 1\<rparr>
           in ll_destroy_loop s))"

definition linked_list_destroy :: "nat \<Rightarrow> llist \<Rightarrow> llist option" where
  "linked_list_destroy me s =
     do { s \<leftarrow> ll_acquire me s; s \<leftarrow> ll_destroy_loop s; s \<leftarrow> ll_release me s;
          kassert (ll_lock s \<noteq> Some (Some me)); Some s }"

section \<open>Representation\<close>

definition toref :: "tlref \<Rightarrow> nat option \<Rightarrow> tlref" where
  "toref d x = (case x of None \<Rightarrow> d | Some a \<Rightarrow> TNode a)"

definition ll_view :: "llist \<Rightarrow> tlstore" where
  "ll_view s =
     \<lparr>tln_prev = (\<lambda>r. case r of TlHead _ \<Rightarrow> None | TlTail n \<Rightarrow> if n = 0 then Some (toref (TlHead 0) (ll_last s)) else None
                       | TNode a \<Rightarrow> Some (toref (TlHead 0) (ln_prev (ll_heap s a)))),
      tln_next = (\<lambda>r. case r of TlTail _ \<Rightarrow> None | TlHead n \<Rightarrow> if n = 0 then Some (toref (TlTail 0) (ll_first s)) else None
                       | TNode a \<Rightarrow> Some (toref (TlTail 0) (ln_next (ll_heap s a)))),
      tln_self = (\<lambda>_. None), tln_priority = (\<lambda>_. 0), tl_count = (\<lambda>_. 0)\<rparr>"

definition ll_nodes :: "llist \<Rightarrow> nat list \<Rightarrow> bool" where
  "ll_nodes s xs \<longleftrightarrow> linked (ll_view s) (spine 0 xs) \<and> distinct xs \<and> ll_length s = of_nat (length xs)"

definition kd :: "llist \<Rightarrow> nat \<Rightarrow> u32 \<times> nat" where
  "kd s a = (ln_key (ll_heap s a), ln_data (ll_heap s a))"

definition ll_repr :: "llist \<Rightarrow> nat list \<Rightarrow> (u32 \<times> nat) list \<Rightarrow> bool" where
  "ll_repr s xs ys \<longleftrightarrow> ll_nodes s xs \<and> map (kd s) xs = ys \<and> ll_lock s = Some None"

definition hd_opt :: "'a list \<Rightarrow> 'a option" where
  "hd_opt xs = (case xs of [] \<Rightarrow> None | x # _ \<Rightarrow> Some x)"

definition last_opt :: "'a list \<Rightarrow> 'a option" where
  "last_opt xs = (if xs = [] then None else Some (last xs))"

lemma hd_opt_simps [simp]: "hd_opt [] = None" "hd_opt (x # xs) = Some x"
  by (simp_all add: hd_opt_def)

lemma last_opt_simps [simp]: "last_opt [] = None" "last_opt (xs @ [x]) = Some x" "last_opt [x] = Some x"
  by (simp_all add: last_opt_def)

lemma toref_inject: "(\<And>a. d \<noteq> TNode a) \<Longrightarrow> toref d x = toref d y \<longleftrightarrow> x = y"
  by (auto simp: toref_def split: option.splits)

lemma toref_inj [simp]: "toref (TlTail 0) x = toref (TlTail 0) y \<longleftrightarrow> x = y" "toref (TlHead 0) x = toref (TlHead 0) y \<longleftrightarrow> x = y"
  by (simp_all add: toref_inject)

lemma node_after_toref: "node_after 0 vs = toref (TlTail 0) (hd_opt vs)"
  by (cases vs) (simp_all add: node_after_def toref_def)

lemma node_before_toref: "node_before 0 us = toref (TlHead 0) (last_opt us)"
  by (cases us rule: rev_cases) (simp_all add: node_before_def toref_def last_opt_def last_map)

lemma ll_nodes_gap:
  assumes "ll_nodes s (us @ vs)"
  shows "tln_next (ll_view s) (node_before 0 us) = Some (node_after 0 vs)"
    "tln_prev (ll_view s) (node_after 0 vs) = Some (node_before 0 us)"
  using assms linked_at unfolding ll_nodes_def spine_split by blast+

lemma toref_simps [simp]: "toref d None = d" "toref d (Some a) = TNode a"
  by (simp_all add: toref_def)

lemma ll_nodes_at:
  assumes "ll_nodes s (us @ a # vs)"
  shows "ln_next (ll_heap s a) = hd_opt vs" "ln_prev (ll_heap s a) = last_opt us"
proof -
  show "ln_next (ll_heap s a) = hd_opt vs"
    using ll_nodes_gap(1) [of s "us @ [a]" vs] assms by (simp add: ll_view_def node_before_toref node_after_toref)
  show "ln_prev (ll_heap s a) = last_opt us"
    using ll_nodes_gap(2) [of s us "a # vs"] assms by (simp add: ll_view_def node_before_toref node_after_toref)
qed

lemma ll_nodes_ends:
  assumes "ll_nodes s xs"
  shows "ll_first s = hd_opt xs" "ll_last s = last_opt xs"
proof -
  show "ll_first s = hd_opt xs"
    using ll_nodes_gap(1) [of s "[]" xs] assms by (simp add: ll_view_def node_before_toref node_after_toref)
  show "ll_last s = last_opt xs"
    using ll_nodes_gap(2) [of s xs "[]"] assms by (simp add: ll_view_def node_before_toref node_after_toref)
qed

lemma ll_nodes_insert:
  assumes S: "ll_nodes s (us @ vs)" and c: "c \<notin> set (us @ vs)"
    and n: "tln_next (ll_view s') = (tln_next (ll_view s))(TNode c := Some (node_after 0 vs), node_before 0 us := Some (TNode c))"
    and p: "tln_prev (ll_view s') = (tln_prev (ll_view s))(TNode c := Some (node_before 0 us), node_after 0 vs := Some (TNode c))"
    and len: "ll_length s' = ll_length s + 1"
  shows "ll_nodes s' (us @ c # vs)"
proof -
  have D: "distinct (spine 0 (us @ vs))" using S by (simp add: ll_nodes_def distinct_spine)
  have "linked (ll_view s') (spine 0 (us @ c # vs))"
    unfolding spine_split_mid
    by (rule linked_insert [OF _ _ _ n p])
       (use S D c in \<open>simp_all only: ll_nodes_def spine_split [symmetric] spine_set, auto\<close>)
  then show ?thesis using S c len by (auto simp: ll_nodes_def add.commute)
qed

lemma ll_nodes_delete:
  assumes S: "ll_nodes s (us @ c # vs)"
    and n: "\<And>r. r \<noteq> TNode c \<Longrightarrow> tln_next (ll_view s') r = ((tln_next (ll_view s))(node_before 0 us := Some (node_after 0 vs))) r"
    and p: "\<And>r. r \<noteq> TNode c \<Longrightarrow> tln_prev (ll_view s') r = ((tln_prev (ll_view s))(node_after 0 vs := Some (node_before 0 us))) r"
    and len: "ll_length s' = ll_length s - 1"
  shows "ll_nodes s' (us @ vs)"
proof -
  let ?v = "(ll_view s')\<lparr>tln_next := (tln_next (ll_view s))(node_before 0 us := Some (node_after 0 vs), TNode c := None),
    tln_prev := (tln_prev (ll_view s))(node_after 0 vs := Some (node_before 0 us), TNode c := None)\<rparr>"
  have D: "distinct (spine 0 (us @ c # vs))" using S by (simp add: ll_nodes_def distinct_spine)
  have L: "linked ?v (spine 0 (us @ vs))"
    unfolding spine_split
  proof (rule linked_delete [of "ll_view s" _ _ "TNode c"], goal_cases)
    case 1
    show ?case using S unfolding ll_nodes_def spine_split_mid by blast
  next
    case 2
    show ?case using D unfolding spine_split_mid .
  qed simp_all
  have off: "r \<noteq> TNode c" if "r \<in> set (spine 0 (us @ vs))" for r
    using that S by (auto simp: spine_set ll_nodes_def)
  have "linked (ll_view s') (spine 0 (us @ vs))"
  proof (rule linked_frame [OF L])
    fix r assume "r \<in> set (butlast (spine 0 (us @ vs)))"
    then have "r \<noteq> TNode c" using off in_set_butlastD by fast
    then show "tln_next (ll_view s') r = tln_next ?v r" using n by simp
  next
    fix r assume "r \<in> set (tl (spine 0 (us @ vs)))"
    then have "r \<noteq> TNode c" using off list.set_sel(2) [of "spine 0 (us @ vs)" r] by (auto simp: spine_def)
    then show "tln_prev (ll_view s') r = tln_prev ?v r" using p by simp
  qed
  then show ?thesis using S len by (auto simp: ll_nodes_def)
qed

section \<open>What the operations do\<close>

lemma upd_node_sel [simp]:
  "ll_heap (upd_node a f s) = (ll_heap s)(a := f (ll_heap s a))" "ll_first (upd_node a f s) = ll_first s"
  "ll_last (upd_node a f s) = ll_last s" "ll_length (upd_node a f s) = ll_length s" "ll_lock (upd_node a f s) = ll_lock s"
  by (simp_all add: upd_node_def)

lemma ll_view_sel:
  "tln_next (ll_view s) (TlHead n) = (if n = 0 then Some (toref (TlTail 0) (ll_first s)) else None)"
  "tln_next (ll_view s) (TNode a) = Some (toref (TlTail 0) (ln_next (ll_heap s a)))"
  "tln_next (ll_view s) (TlTail n) = None"
  "tln_prev (ll_view s) (TlTail n) = (if n = 0 then Some (toref (TlHead 0) (ll_last s)) else None)"
  "tln_prev (ll_view s) (TNode a) = Some (toref (TlHead 0) (ln_prev (ll_heap s a)))"
  "tln_prev (ll_view s) (TlHead n) = None"
  by (simp_all add: ll_view_def)

lemma view_eqI: "(\<And>n. f (TlHead n) = g (TlHead n)) \<Longrightarrow> (\<And>n. f (TlTail n) = g (TlTail n)) \<Longrightarrow> (\<And>a. f (TNode a) = g (TNode a)) \<Longrightarrow> f = g"
  by (rule ext) (metis tlref.exhaust)

lemma ll_view_fields: "tln_self (ll_view s) = (\<lambda>_. None)" "tln_priority (ll_view s) = (\<lambda>_. 0)" "tl_count (ll_view s) = (\<lambda>_. 0)"
  by (simp_all add: ll_view_def)

lemma ll_view_lock [simp]: "ll_view (s\<lparr>ll_lock := x\<rparr>) = ll_view s"
  by (intro tlstore.equality view_eqI) (simp_all add: ll_view_sel ll_view_fields)

lemma ll_nodes_lock [simp]: "ll_nodes (s\<lparr>ll_lock := x\<rparr>) xs \<longleftrightarrow> ll_nodes s xs"
  by (simp add: ll_nodes_def)

lemma linked_list_create_ok: "linked_list_create h (Some a) True = Some s \<Longrightarrow> ll_repr s [] []"
  by (auto simp: linked_list_create_def ll_repr_def ll_nodes_def spine_def ll_view_def)

definition prepend_key :: "(u32 \<times> nat) list \<Rightarrow> u32" where
  "prepend_key ys = (case ys of [] \<Rightarrow> 0 | (k, _) # _ \<Rightarrow> k - 1)"

lemma linked_list_prepend_ok:
  assumes R: "ll_repr s xs ys" and a: "a \<notin> set xs"
  shows "\<exists>s'. linked_list_prepend me d (Some a) s = Some s' \<and> ll_repr s' (a # xs) ((prepend_key ys, d) # ys)"
proof -
  have N: "ll_nodes s ([] @ xs)" and lk: "ll_lock s = Some None" and ys: "ys = map (kd s) xs" using R by (auto simp: ll_repr_def)
  define s' where "s' = s\<lparr>ll_heap := (case xs of [] \<Rightarrow> ll_heap s | f # _ \<Rightarrow> (ll_heap s)(f := (ll_heap s f)\<lparr>ln_prev := Some a\<rparr>))
      (a := \<lparr>ln_prev = None, ln_next = hd_opt xs, ln_key = prepend_key ys, ln_data = d\<rparr>),
      ll_first := Some a, ll_last := (if xs = [] then Some a else ll_last s), ll_length := ll_length s + 1\<rparr>"
  have run: "linked_list_prepend me d (Some a) s = Some s'"
    using ll_nodes_ends(1) [OF N] lk ys a
    by (cases xs) (auto simp: linked_list_prepend_def ll_acquire_def ll_release_def linked_list_create_node_def
        s'_def prepend_key_def kd_def Let_def upd_node_def fun_upd_twist intro!: llist.equality)
  have "ll_nodes s' ([] @ a # xs)"
  proof (rule ll_nodes_insert [OF N])
    show "a \<notin> set ([] @ xs)" using a by simp
    show "tln_next (ll_view s') = (tln_next (ll_view s))(TNode a := Some (node_after 0 xs), node_before 0 [] := Some (TNode a))"
      by (rule view_eqI; cases xs) (auto simp: ll_view_sel node_before_toref node_after_toref s'_def)
    show "tln_prev (ll_view s') = (tln_prev (ll_view s))(TNode a := Some (node_before 0 []), node_after 0 xs := Some (TNode a))"
      using a by (intro view_eqI; cases xs) (auto simp: ll_view_sel node_before_toref node_after_toref s'_def)
    show "ll_length s' = ll_length s + 1" by (simp add: s'_def)
  qed
  moreover have "map (kd s') (a # xs) = (prepend_key ys, d) # ys"
    using a by (cases xs) (auto simp: ys kd_def s'_def)
  ultimately show ?thesis using run lk by (auto simp: ll_repr_def s'_def)
qed

lemma linked_list_remove_head_Nil:
  assumes "ll_repr s [] []"
  shows "linked_list_remove_head me s = Some (None, s)"
  using assms ll_nodes_ends(1) [of s "[]"]
  by (cases s) (simp add: ll_repr_def linked_list_remove_head_def ll_acquire_def ll_release_def)

text \<open>Unlinking the first node, as \<open>linked_list_remove_head\<close> and \<open>linked_list_destroy\<close> do it.\<close>

definition popped :: "nat \<Rightarrow> nat list \<Rightarrow> llist \<Rightarrow> llist" where
  "popped a xs s = s\<lparr>ll_heap := (case xs of [] \<Rightarrow> ll_heap s | f # _ \<Rightarrow> (ll_heap s)(f := (ll_heap s f)\<lparr>ln_prev := None\<rparr>))
      (a := (ll_heap s a)\<lparr>ln_next := None\<rparr>),
      ll_first := hd_opt xs, ll_last := (if xs = [] then None else ll_last s), ll_length := ll_length s - 1\<rparr>"

lemma popped_nodes:
  assumes "ll_nodes s (a # xs)"
  shows "ll_nodes (popped a xs s) xs"
proof -
  have N: "ll_nodes s ([] @ a # xs)" using assms by simp
  have ax: "a \<notin> set xs" using N by (simp add: ll_nodes_def)
  have "ll_nodes (popped a xs s) ([] @ xs)"
  proof (rule ll_nodes_delete [OF N])
    show "tln_next (ll_view (popped a xs s)) r = ((tln_next (ll_view s))(node_before 0 [] := Some (node_after 0 xs))) r" if "r \<noteq> TNode a" for r
      using that ax by (cases r; cases xs) (auto simp: ll_view_sel node_before_toref node_after_toref popped_def)
    show "tln_prev (ll_view (popped a xs s)) r = ((tln_prev (ll_view s))(node_after 0 xs := Some (node_before 0 []))) r" if "r \<noteq> TNode a" for r
      using that ax by (cases r; cases xs) (auto simp: ll_view_sel node_before_toref node_after_toref popped_def)
    show "ll_length (popped a xs s) = ll_length s - 1" by (simp add: popped_def)
  qed
  then show ?thesis by simp
qed

lemma linked_list_remove_head_Cons:
  assumes R: "ll_repr s (a # xs) ((k, d) # ys)"
  shows "\<exists>s'. linked_list_remove_head me s = Some (Some (d, k), s') \<and> ll_repr s' xs ys"
proof -
  have N: "ll_nodes s ([] @ a # xs)" and lk: "ll_lock s = Some None" and ys: "ys = map (kd s) xs"
    and k: "ln_key (ll_heap s a) = k" "ln_data (ll_heap s a) = d"
    using R by (auto simp: ll_repr_def kd_def)
  have ax: "a \<notin> set xs" using N by (simp add: ll_nodes_def)
  have run: "linked_list_remove_head me s = Some (Some (d, k), popped a xs s)"
    using ll_nodes_ends(1) [OF N] ll_nodes_at(1) [OF N] lk k ax
    by (cases xs) (auto simp: linked_list_remove_head_def ll_acquire_def ll_release_def popped_def Let_def upd_node_def
        intro!: llist.equality)
  moreover have "map (kd (popped a xs s)) xs = ys" using ax by (cases xs) (auto simp: ys kd_def popped_def)
  ultimately show ?thesis using popped_nodes N lk by (auto simp: ll_repr_def popped_def)
qed

lemma ll_destroy_loop_ok:
  "ll_nodes s xs \<Longrightarrow> \<exists>s'. ll_destroy_loop s = Some s' \<and> ll_nodes s' [] \<and> ll_lock s' = ll_lock s"
proof (induction xs arbitrary: s)
  case Nil
  then show ?case using ll_nodes_ends(1) [of s "[]"] by (subst ll_destroy_loop.simps) simp
next
  case (Cons a xs)
  have N: "ll_nodes s ([] @ a # xs)" using Cons.prems by simp
  then have ax: "a \<notin> set xs" by (simp add: ll_nodes_def)
  have "ll_destroy_loop s = ll_destroy_loop (popped a xs s)"
  proof -
    have "popped a xs s =
       (let s = s\<lparr>ll_first := ln_next (ll_heap s a)\<rparr>;
            s = (case ll_first s of None \<Rightarrow> s | Some f \<Rightarrow> upd_node f (ln_prev_update (\<lambda>_. None)) s);
            s = upd_node a (ln_next_update (\<lambda>_. None)) s;
            s = (if ll_first s = None then s\<lparr>ll_last := None\<rparr> else s)
        in s\<lparr>ll_length := ll_length s - 1\<rparr>)"
      using ll_nodes_at(1) [OF N] ax
      by (cases xs) (auto simp: popped_def Let_def upd_node_def intro!: llist.equality)
    then show ?thesis using ll_nodes_ends(1) [OF N] by (subst ll_destroy_loop.simps) (simp add: Let_def)
  qed
  then show ?case using Cons.IH [OF popped_nodes [OF Cons.prems]] by (simp add: popped_def)
qed

lemma linked_list_destroy_ok:
  assumes "ll_repr s xs ys"
  shows "\<exists>s'. linked_list_destroy me s = Some s' \<and> ll_repr s' [] []"
proof -
  have "ll_nodes (s\<lparr>ll_lock := Some (Some me)\<rparr>) xs" using assms by (simp add: ll_repr_def)
  then obtain s' where s': "ll_destroy_loop (s\<lparr>ll_lock := Some (Some me)\<rparr>) = Some s'" "ll_nodes s' []" "ll_lock s' = Some (Some me)"
    using ll_destroy_loop_ok by fastforce
  then have "linked_list_destroy me s = Some (s'\<lparr>ll_lock := Some None\<rparr>)"
    using assms by (simp add: linked_list_destroy_def ll_acquire_def ll_release_def ll_repr_def)
  moreover have "ll_nodes (s'\<lparr>ll_lock := Some None\<rparr>) []" using s'(2) by simp
  ultimately show ?thesis by (auto simp: ll_repr_def)
qed

section \<open>Sorted insertion\<close>

definition before :: "u32 \<Rightarrow> u32 \<times> nat \<Rightarrow> bool" where
  "before k y \<longleftrightarrow> sint (fst y) < sint k"

definition ll_ins :: "u32 \<Rightarrow> nat \<Rightarrow> (u32 \<times> nat) list \<Rightarrow> (u32 \<times> nat) list" where
  "ll_ins k d ys =
     (case ys of
        [] \<Rightarrow> [(k, d)]
      | y # zs \<Rightarrow> if sint (fst y) > sint k then (k, d) # ys
                 else y # takeWhile (before k) zs @ (k, d) # dropWhile (before k) zs)"

abbreviation key_sorted :: "(u32 \<times> nat) list \<Rightarrow> bool" where
  "key_sorted ys \<equiv> sorted (map (\<lambda>y. sint (fst y)) ys)"

lemma ll_ins_mset: "mset (ll_ins k d ys) = add_mset (k, d) (mset ys)"
proof (cases ys)
  case (Cons y zs)
  have "mset (takeWhile (before k) zs) + mset (dropWhile (before k) zs) = mset zs"
    by (metis mset_append takeWhile_dropWhile_id)
  then show ?thesis by (simp add: ll_ins_def Cons)
qed (simp add: ll_ins_def)

lemma sorted_key_append:
  "key_sorted (us @ (k, d) # vs) \<longleftrightarrow> key_sorted (us @ vs) \<and> (\<forall>u\<in>set us. sint (fst u) \<le> sint k) \<and> (\<forall>v\<in>set vs. sint k \<le> sint (fst v))"
  by (auto simp: sorted_append)

lemma ll_ins_sorted: "key_sorted ys \<Longrightarrow> key_sorted (ll_ins k d ys)"
proof (cases ys)
  case (Cons y zs)
  assume S: "key_sorted ys"
  show ?thesis
  proof (cases "sint (fst y) > sint k")
    case False
    let ?us = "y # takeWhile (before k) zs" and ?vs = "dropWhile (before k) zs"
    have eq: "?us @ ?vs = ys" by (simp add: Cons)
    have "sint (fst u) \<le> sint k" if "u \<in> set ?us" for u
      using that False set_takeWhileD [of u "before k" zs] by (auto simp: before_def)
    moreover have "sint k \<le> sint (fst v)" if "v \<in> set ?vs" for v
    proof -
      have "?vs \<noteq> []" using that by (intro notI) (simp only: list.set(1) empty_iff)
      then obtain w ws where w: "?vs = w # ws" by (meson neq_Nil_conv)
      then have "\<not> before k w" by (metis hd_dropWhile list.distinct(1) list.sel(1))
      moreover have "key_sorted ?vs" using S Cons eq by (metis map_append sorted_append)
      ultimately show ?thesis using that w by (auto simp: before_def)
    qed
    moreover have "key_sorted (?us @ ?vs)" using S eq by simp
    ultimately have "key_sorted (?us @ (k, d) # ?vs)" by (subst sorted_key_append) blast
    then show ?thesis using False by (simp add: ll_ins_def Cons)
  qed (use S Cons in \<open>auto simp: ll_ins_def\<close>)
qed (simp add: ll_ins_def)

lemma ll_nodes_off:
  assumes "c \<notin> set xs" "ll_nodes s xs"
  shows "ll_nodes (upd_node c f s) xs"
proof -
  have "linked (ll_view (upd_node c f s)) (spine 0 xs)"
  proof (rule linked_frame)
    show "linked (ll_view s) (spine 0 xs)" using assms by (simp add: ll_nodes_def)
    show "tln_next (ll_view (upd_node c f s)) r = tln_next (ll_view s) r" if "r \<in> set (butlast (spine 0 xs))" for r
      using in_set_butlastD [OF that] assms(1) by (auto simp: spine_set ll_view_sel)
    show "tln_prev (ll_view (upd_node c f s)) r = tln_prev (ll_view s) r" if "r \<in> set (tl (spine 0 xs))" for r
      using that assms(1) by (auto simp: spine_def ll_view_sel)
  qed
  then show ?thesis using assms by (simp add: ll_nodes_def)
qed

lemma ll_runner_ok:
  "ll_nodes s (us @ a # vs) \<Longrightarrow>
    ll_runner key a s = Some (last (a # takeWhile (\<lambda>x. sint (ln_key (ll_heap s x)) < sint key) vs))"
proof (induction vs arbitrary: us a)
  case Nil
  then show ?case using ll_nodes_at(1) [OF Nil] by (subst ll_runner.simps) simp
next
  case (Cons b vs)
  then show ?case using ll_nodes_at(1) [OF Cons.prems] Cons.IH [of "us @ [a]" b] by (subst ll_runner.simps) simp
qed

text \<open>Linking a fresh node between \<open>us\<close> and \<open>vs\<close>.\<close>

definition spliced :: "nat \<Rightarrow> nat list \<Rightarrow> nat list \<Rightarrow> u32 \<Rightarrow> nat \<Rightarrow> llist \<Rightarrow> llist" where
  "spliced c us vs k d s =
     (let h = (ll_heap s)(c := \<lparr>ln_prev = last_opt us, ln_next = hd_opt vs, ln_key = k, ln_data = d\<rparr>);
          h = (case last_opt us of None \<Rightarrow> h | Some p \<Rightarrow> h(p := (h p)\<lparr>ln_next := Some c\<rparr>));
          h = (case hd_opt vs of None \<Rightarrow> h | Some n \<Rightarrow> h(n := (h n)\<lparr>ln_prev := Some c\<rparr>))
      in s\<lparr>ll_heap := h, ll_first := (if us = [] then Some c else ll_first s),
           ll_last := (if vs = [] then Some c else ll_last s), ll_length := ll_length s + 1\<rparr>)"

lemma spliced_ends [simp]:
  "ll_first (spliced c us vs k d s) = (if us = [] then Some c else ll_first s)"
  "ll_last (spliced c us vs k d s) = (if vs = [] then Some c else ll_last s)"
  "ll_lock (spliced c us vs k d s) = ll_lock s" "ll_length (spliced c us vs k d s) = ll_length s + 1"
  by (simp_all add: spliced_def Let_def)

lemma opt_mem: "last_opt us = Some p \<Longrightarrow> p \<in> set us" "hd_opt vs = Some n \<Longrightarrow> n \<in> set vs"
  by (auto simp: last_opt_def hd_opt_def split: if_splits list.splits)

lemma opt_None [simp]: "last_opt us = None \<longleftrightarrow> us = []" "hd_opt vs = None \<longleftrightarrow> vs = []"
  by (auto simp: last_opt_def hd_opt_def split: list.splits)

lemma spliced_heap:
  assumes "distinct (us @ vs)" "c \<notin> set (us @ vs)"
  shows "ll_heap (spliced c us vs k d s) x =
    (if x = c then \<lparr>ln_prev = last_opt us, ln_next = hd_opt vs, ln_key = k, ln_data = d\<rparr>
     else if last_opt us = Some x then (ll_heap s x)\<lparr>ln_next := Some c\<rparr>
     else if hd_opt vs = Some x then (ll_heap s x)\<lparr>ln_prev := Some c\<rparr>
     else ll_heap s x)"
proof -
  have "p \<noteq> c" if "last_opt us = Some p" for p using opt_mem(1) [OF that] assms(2) by auto
  moreover have "n \<noteq> c" if "hd_opt vs = Some n" for n using opt_mem(2) [OF that] assms(2) by auto
  moreover have "p \<noteq> n" if "last_opt us = Some p" "hd_opt vs = Some n" for p n
    using opt_mem(1) [OF that(1)] opt_mem(2) [OF that(2)] assms(1) by auto
  ultimately show ?thesis by (auto simp: spliced_def Let_def split: option.splits)
qed

lemma spliced_nodes:
  assumes N: "ll_nodes s (us @ vs)" and c: "c \<notin> set (us @ vs)"
  shows "ll_nodes (spliced c us vs k d s) (us @ c # vs)"
proof -
  have D: "distinct (us @ vs)" using N by (simp add: ll_nodes_def)
  note h = spliced_heap [OF D c, of k d s]
  have apart: "last_opt us = Some x \<Longrightarrow> hd_opt vs \<noteq> Some x" "last_opt us \<noteq> Some c" "hd_opt vs \<noteq> Some c" for x
    using opt_mem D c by (metis disjoint_iff distinct_append, metis Un_iff set_append opt_mem(1), metis Un_iff set_append opt_mem(2))
  have tr: "toref e x = TNode a \<longleftrightarrow> x = Some a" if "\<And>a. e \<noteq> TNode a" for e x a using that by (cases x) auto
  have tr': "TNode a = toref e x \<longleftrightarrow> x = Some a" if "\<And>a. e \<noteq> TNode a" for e x a using tr [OF that] by (metis)
  have be: "toref (TlHead 0) x = TlHead n \<longleftrightarrow> x = None \<and> n = 0" "toref (TlTail 0) x = TlTail n \<longleftrightarrow> x = None \<and> n = 0"
    "toref (TlHead 0) x \<noteq> TlTail n" "toref (TlTail 0) x \<noteq> TlHead n"
    "TlHead n = toref (TlHead 0) x \<longleftrightarrow> x = None \<and> n = 0" "TlTail n = toref (TlTail 0) x \<longleftrightarrow> x = None \<and> n = 0"
    "TlTail n \<noteq> toref (TlHead 0) x" "TlHead n \<noteq> toref (TlTail 0) x" for x n
    by (cases x; auto)+
  show ?thesis
  proof (rule ll_nodes_insert [OF N c])
    show "tln_next (ll_view (spliced c us vs k d s)) = (tln_next (ll_view s))(TNode c := Some (node_after 0 vs), node_before 0 us := Some (TNode c))"
      using apart by (intro view_eqI) (simp_all add: ll_view_sel node_before_toref node_after_toref h be tr')
    show "tln_prev (ll_view (spliced c us vs k d s)) = (tln_prev (ll_view s))(TNode c := Some (node_before 0 us), node_after 0 vs := Some (TNode c))"
      using apart by (intro view_eqI) (simp_all add: ll_view_sel node_before_toref node_after_toref h be tr')
    show "ll_length (spliced c us vs k d s) = ll_length s + 1" by (simp add: spliced_def Let_def)
  qed
qed

lemma spliced_kd:
  assumes "ll_nodes s (us @ vs)" "c \<notin> set (us @ vs)"
  shows "map (kd (spliced c us vs k d s)) (us @ c # vs) = map (kd s) us @ (k, d) # map (kd s) vs"
proof -
  have D: "distinct (us @ vs)" using assms(1) by (simp add: ll_nodes_def)
  show ?thesis using assms(2) by (auto simp: kd_def spliced_heap [OF D assms(2)])
qed

lemma linked_list_insert_ok:
  assumes R: "ll_repr s xs ys" and c: "c \<notin> set xs"
  shows "\<exists>s' xs'. linked_list_insert me k d (Some c) s = Some s' \<and> ll_repr s' xs' (ll_ins k d ys) \<and> set xs' = insert c (set xs)"
proof -
  have N: "ll_nodes s xs" and lk: "ll_lock s = Some None" and ys: "ys = map (kd s) xs" using R by (auto simp: ll_repr_def)
  have D: "distinct xs" using N by (simp add: ll_nodes_def)
  have finish: ?thesis if run: "linked_list_insert me k d (Some c) s = Some (spliced c us vs k d s)"
    and xs: "xs = us @ vs" and ins: "ll_ins k d ys = map (kd s) us @ (k, d) # map (kd s) vs" for us vs
  proof -
    have "ll_nodes s (us @ vs)" "c \<notin> set (us @ vs)" using N c xs by simp_all
    from spliced_nodes [OF this, of k d] spliced_kd [OF this, of k d]
    have "ll_repr (spliced c us vs k d s) (us @ c # vs) (ll_ins k d ys)" using lk ins by (simp add: ll_repr_def)
    then show ?thesis using run xs by (intro exI [of _ "spliced c us vs k d s"] exI [of _ "us @ c # vs"]) simp
  qed
  note defs = linked_list_insert_def ll_acquire_def ll_release_def linked_list_create_node_def Let_def upd_node_def
  show ?thesis
  proof (cases xs)
    case Nil
    show ?thesis
      by (rule finish [of "[]" "[]"])
         (use Nil ll_nodes_ends [OF N] lk ys in \<open>auto simp: defs spliced_def ll_ins_def intro!: llist.equality\<close>)
  next
    case (Cons f zs)
    have cf: "c \<noteq> f" using c Cons by auto
    have first: "ll_first s = Some f" using ll_nodes_ends(1) [OF N] Cons by simp
    show ?thesis
    proof (cases "sint (ln_key (ll_heap s f)) > sint k")
      case True
      show ?thesis
        by (rule finish [of "[]" xs])
           (use Cons True first lk ys cf in \<open>auto simp: defs spliced_def ll_ins_def kd_def fun_upd_twist intro!: llist.equality\<close>)
    next
      case False
      define ws where "ws = takeWhile (\<lambda>x. sint (ln_key (ll_heap s x)) < sint k) zs"
      define rest where "rest = dropWhile (\<lambda>x. sint (ln_key (ll_heap s x)) < sint k) zs"
      define r where "r = last (f # ws)"
      define s1 where "s1 = upd_node c (\<lambda>_. \<lparr>ln_prev = None, ln_next = None, ln_key = k, ln_data = d\<rparr>) (s\<lparr>ll_lock := Some (Some me)\<rparr>)"
      have zs: "zs = ws @ rest" by (simp add: ws_def rest_def)
      have N1: "ll_nodes s1 ([] @ f # zs)" unfolding s1_def by (rule ll_nodes_off) (use c N Cons in simp_all)
      have keys: "ln_key (ll_heap s1 x) = ln_key (ll_heap s x)" if "x \<in> set zs" for x
        using that c Cons by (auto simp: s1_def)
      have "takeWhile (\<lambda>x. sint (ln_key (ll_heap s1 x)) < sint k) zs = ws"
        unfolding ws_def by (rule takeWhile_cong) (use keys in simp_all)
      then have run: "ll_runner k f s1 = Some r" using ll_runner_ok [OF N1, of k] by (simp add: r_def)
      have lo: "last_opt (f # ws) = Some r" by (simp add: last_opt_def r_def)
      have xs2: "xs = butlast (f # ws) @ r # rest" using Cons zs by (simp add: r_def append_butlast_last_id)
      have rc: "r \<noteq> c" using opt_mem(1) [OF lo] c Cons zs by auto
      have nr: "ln_next (ll_heap s1 r) = hd_opt rest" "ln_next (ll_heap s r) = hd_opt rest"
        using ll_nodes_at(1) [of s "butlast (f # ws)" r rest] N xs2 rc by (simp_all add: s1_def)
      have rest: "hd_opt rest \<noteq> Some c" "hd_opt rest \<noteq> Some r"
        using opt_mem(2) [of rest] c Cons zs D opt_mem(1) [OF lo] by auto
      have ins: "ll_ins k d ys = map (kd s) (f # ws) @ (k, d) # map (kd s) rest"
        using False by (simp add: ll_ins_def ys Cons kd_def takeWhile_map dropWhile_map before_def comp_def ws_def rest_def)
      show ?thesis
      proof (rule finish [OF _ _ ins])
        show "xs = (f # ws) @ rest" using Cons zs by simp
        have st: "linked_list_create_node k d (Some c) (s\<lparr>ll_lock := Some (Some me)\<rparr>) = Some (c, s1)"
          by (simp add: linked_list_create_node_def s1_def)
        show "linked_list_insert me k d (Some c) s = Some (spliced c (f # ws) rest k d s)"
        proof (cases rest)
          case Nil
          then show ?thesis
            using first lk False run nr(1) lo rc st
            by (simp add: linked_list_insert_def ll_acquire_def)
               (auto simp: Let_def ll_release_def spliced_def s1_def upd_node_def intro!: llist.equality)
        next
          case (Cons n ns)
          then have "n \<noteq> c" "n \<noteq> r" using rest by auto
          then show ?thesis
            using first lk False run nr(1) lo rc st Cons
            by (simp add: linked_list_insert_def ll_acquire_def)
               (auto simp: Let_def ll_release_def spliced_def s1_def upd_node_def fun_upd_twist intro!: llist.equality)
        qed
      qed
    qed
  qed
qed

section \<open>Removing a given node\<close>

definition decremented :: "nat set \<Rightarrow> llist \<Rightarrow> llist" where
  "decremented A s = s\<lparr>ll_heap := (\<lambda>x. if x \<in> A then (ll_heap s x)\<lparr>ln_key := ln_key (ll_heap s x) - 1\<rparr> else ll_heap s x)\<rparr>"

lemma decremented_sel [simp]:
  "ll_heap (decremented A s) x = (if x \<in> A then (ll_heap s x)\<lparr>ln_key := ln_key (ll_heap s x) - 1\<rparr> else ll_heap s x)"
  "ll_first (decremented A s) = ll_first s" "ll_last (decremented A s) = ll_last s"
  "ll_length (decremented A s) = ll_length s" "ll_lock (decremented A s) = ll_lock s"
  by (simp_all add: decremented_def)

lemma decremented_view [simp]: "ll_view (decremented A s) = ll_view s"
  by (intro tlstore.equality view_eqI) (simp_all add: ll_view_sel ll_view_fields)

lemma decremented_nodes [simp]: "ll_nodes (decremented A s) xs \<longleftrightarrow> ll_nodes s xs"
  by (simp add: ll_nodes_def)

lemma decremented_length: "decremented A (s\<lparr>ll_length := n\<rparr>) = (decremented A s)\<lparr>ll_length := n\<rparr>"
  by (intro llist.equality ext) simp_all

lemma ll_decr_ok: "ll_nodes (s\<lparr>ll_length := n\<rparr>) (us @ vs) \<Longrightarrow> ll_decr (hd_opt vs) s = Some (decremented (set vs) s)"
proof (induction vs arbitrary: us s)
  case Nil
  then show ?case by (subst ll_decr.simps) (simp add: decremented_def)
next
  case (Cons v vs)
  let ?s = "upd_node v (\<lambda>x. x\<lparr>ln_key := ln_key x - 1\<rparr>) s"
  have eq: "?s = decremented {v} s" by (auto simp: upd_node_def decremented_def intro!: llist.equality)
  have "v \<notin> set vs" using Cons.prems by (simp add: ll_nodes_def)
  then have "decremented (set vs) (decremented {v} s) = decremented (set (v # vs)) s"
    by (auto simp: decremented_def intro!: llist.equality)
  moreover have "ll_decr (hd_opt vs) (decremented {v} s) = Some (decremented (set vs) (decremented {v} s))"
    using Cons.IH [of "decremented {v} s" "us @ [v]"] Cons.prems by (simp flip: decremented_length)
  ultimately show ?case
    using ll_nodes_at(1) [OF Cons.prems] by (subst ll_decr.simps) (simp add: Let_def eq)
qed

definition unlinked :: "nat list \<Rightarrow> nat list \<Rightarrow> llist \<Rightarrow> llist" where
  "unlinked us vs s =
     (let h = ll_heap s;
          h = (case last_opt us of None \<Rightarrow> h | Some p \<Rightarrow> h(p := (h p)\<lparr>ln_next := hd_opt vs\<rparr>));
          h = (case hd_opt vs of None \<Rightarrow> h | Some n \<Rightarrow> h(n := (h n)\<lparr>ln_prev := last_opt us\<rparr>))
      in s\<lparr>ll_heap := h, ll_first := (if us = [] then hd_opt vs else ll_first s),
           ll_last := (if vs = [] then last_opt us else ll_last s), ll_length := ll_length s - 1\<rparr>)"

lemma unlinked_sel [simp]:
  "ll_first (unlinked us vs s) = (if us = [] then hd_opt vs else ll_first s)"
  "ll_last (unlinked us vs s) = (if vs = [] then last_opt us else ll_last s)"
  "ll_length (unlinked us vs s) = ll_length s - 1" "ll_lock (unlinked us vs s) = ll_lock s"
  by (simp_all add: unlinked_def Let_def)

lemma unlinked_heap:
  assumes "distinct (us @ vs)"
  shows "ll_heap (unlinked us vs s) x =
    (if last_opt us = Some x then (ll_heap s x)\<lparr>ln_next := hd_opt vs\<rparr>
     else if hd_opt vs = Some x then (ll_heap s x)\<lparr>ln_prev := last_opt us\<rparr> else ll_heap s x)"
proof -
  have "p \<noteq> n" if "last_opt us = Some p" "hd_opt vs = Some n" for p n
    using opt_mem(1) [OF that(1)] opt_mem(2) [OF that(2)] assms by auto
  then show ?thesis by (auto simp: unlinked_def Let_def split: option.splits)
qed

lemma unlinked_nodes:
  assumes N: "ll_nodes s (us @ a # vs)"
  shows "ll_nodes (unlinked us vs s) (us @ vs)"
proof (rule ll_nodes_delete [OF N])
  have D: "distinct (us @ vs)" using N by (simp add: ll_nodes_def)
  have apart: "last_opt us = Some x \<Longrightarrow> hd_opt vs \<noteq> Some x" for x
    using opt_mem D by (metis disjoint_iff distinct_append)
  have tr': "TNode b = toref (TlHead 0) x \<longleftrightarrow> x = Some b" "TNode b = toref (TlTail 0) x \<longleftrightarrow> x = Some b"
    "TlHead n = toref (TlHead 0) x \<longleftrightarrow> x = None \<and> n = 0" "TlTail n = toref (TlTail 0) x \<longleftrightarrow> x = None \<and> n = 0"
    "TlTail n \<noteq> toref (TlHead 0) x" "TlHead n \<noteq> toref (TlTail 0) x" for b n x
    by (cases x; auto)+
  show "tln_next (ll_view (unlinked us vs s)) r = ((tln_next (ll_view s))(node_before 0 us := Some (node_after 0 vs))) r"
    if "r \<noteq> TNode a" for r
    using apart by (cases r) (auto simp: ll_view_sel node_before_toref node_after_toref unlinked_heap [OF D] tr')
  show "tln_prev (ll_view (unlinked us vs s)) r = ((tln_prev (ll_view s))(node_after 0 vs := Some (node_before 0 us))) r"
    if "r \<noteq> TNode a" for r
    using apart by (cases r) (auto simp: ll_view_sel node_before_toref node_after_toref unlinked_heap [OF D] tr')
qed simp

lemma linked_list_remove_ok:
  assumes R: "ll_repr s (us @ a # vs) ys"
  shows "\<exists>s'. linked_list_remove me (Some a) s = Some s' \<and>
    ll_repr s' (us @ vs) (map (\<lambda>(k, d). (k - 1, d)) (take (length us) ys @ drop (Suc (length us)) ys))"
proof -
  have N: "ll_nodes s (us @ a # vs)" and lk: "ll_lock s = Some None" and ys: "ys = map (kd s) (us @ a # vs)"
    using R by (auto simp: ll_repr_def)
  have D: "distinct (us @ a # vs)" "distinct (us @ vs)" using N by (simp_all add: ll_nodes_def)
  have at: "ln_next (ll_heap s a) = hd_opt vs" "ln_prev (ll_heap s a) = last_opt us" by (rule ll_nodes_at [OF N])+
  have ne: "last_opt us \<noteq> Some a" "hd_opt vs \<noteq> Some a" using opt_mem D(1) by fastforce+
  let ?s1 = "s\<lparr>ll_lock := Some (Some me)\<rparr>"
  define s2 where "s2 = (unlinked us vs ?s1)\<lparr>ll_length := ll_length s\<rparr>"
  have N2: "ll_nodes (unlinked us vs ?s1) (us @ vs)" using unlinked_nodes [of ?s1 us a vs] N by simp
  have eq2: "s2\<lparr>ll_length := ll_length s - 1\<rparr> = unlinked us vs ?s1"
    by (simp add: s2_def unlinked_def Let_def)
  have first: "ll_first s2 = hd_opt (us @ vs)"
    using ll_nodes_ends(1) [OF N2] by (simp add: s2_def)
  have decr: "ll_decr (hd_opt (us @ vs)) s2 = Some (decremented (set (us @ vs)) s2)"
    by (rule ll_decr_ok [where s = s2 and n = "ll_length s - 1" and us = "[]"]) (simp only: eq2 N2 append_Nil)
  have links: "ll_unlink a ?s1 = s2"
    using at ne by (cases "last_opt us"; cases "hd_opt vs")
      (auto simp: ll_unlink_def s2_def unlinked_def Let_def upd_node_def intro!: llist.equality)
  define s3 where "s3 = (decremented (set (us @ vs)) (unlinked us vs s))"
  have eq3: "(decremented (set (us @ vs)) s2)\<lparr>ll_length := ll_length s - 1, ll_lock := Some None\<rparr> = s3"
    using lk by (intro llist.equality ext) (simp_all add: s3_def s2_def, simp add: unlinked_def Let_def)
  have "linked_list_remove me (Some a) s = Some s3"
    using lk links first decr
    by (simp add: linked_list_remove_def ll_acquire_def Let_def)
       (simp add: ll_release_def eq3 [symmetric] s2_def)
  moreover have "ll_nodes s3 (us @ vs)" using unlinked_nodes [OF N] by (simp add: s3_def)
  moreover have "map (kd s3) (us @ vs) = map (\<lambda>(k, d). (k - 1, d)) (take (length us) ys @ drop (Suc (length us)) ys)"
    by (simp add: ys kd_def s3_def unlinked_heap [OF D(2)])
  ultimately show ?thesis using lk by (auto simp: ll_repr_def s3_def)
qed

section \<open>Properties\<close>

definition ex_nodes :: "nat \<Rightarrow> lnode" where
  "ex_nodes = (\<lambda>_. \<lparr>ln_prev = None, ln_next = None, ln_key = 0, ln_data = 0\<rparr>)"

definition ex_llist :: llist where
  "ex_llist = \<lparr>ll_heap = ex_nodes(1 := \<lparr>ln_prev = None, ln_next = Some 2, ln_key = 3, ln_data = 30\<rparr>,
                                   2 := \<lparr>ln_prev = Some 1, ln_next = None, ln_key = 8, ln_data = 80\<rparr>),
               ll_first = Some 1, ll_last = Some 2, ll_length = 2, ll_lock = Some None\<rparr>"

lemma ex_llist_repr: "ll_repr ex_llist [1, 2] [(3, 30), (8, 80)]"
  by (simp add: ll_repr_def ll_nodes_def ll_view_def spine_def ex_llist_def kd_def toref_def)

text \<open>
  \<open>linked_list_insert\<close> terminates without a fault on every well-formed list, links the new node
  in, and gives a well-formed list with exactly one more item; a list in ascending key order stays
  in ascending key order.
\<close>

theorem linked_list_insert_correct:
  assumes "ll_repr s xs ys" "c \<notin> set xs"
  shows "\<exists>s' xs' ys'. linked_list_insert me k d (Some c) s = Some s' \<and> ll_repr s' xs' ys' \<and> set xs' = insert c (set xs) \<and>
    mset ys' = add_mset (k, d) (mset ys) \<and> (key_sorted ys \<longrightarrow> key_sorted ys')"
  using linked_list_insert_ok [OF assms] ll_ins_mset ll_ins_sorted by metis

theorem linked_list_insert_correct_witness:
  "\<exists>s' xs' ys'. linked_list_insert 7 5 50 (Some 4) ex_llist = Some s' \<and> ll_repr s' xs' ys' \<and>
    mset ys' = {#(5, 50), (3, 30), (8, 80)#} \<and> key_sorted ys'"
proof -
  obtain s' xs' ys' where r: "linked_list_insert 7 5 50 (Some 4) ex_llist = Some s'" "ll_repr s' xs' ys'"
      "mset ys' = add_mset (5, 50) (mset [(3, 30), (8, 80)])" "key_sorted [(3::u32, 30::nat), (8, 80)] \<longrightarrow> key_sorted ys'"
    using linked_list_insert_correct [OF ex_llist_repr, of 4 7 5 50] by auto
  moreover have "key_sorted [(3::u32, 30::nat), (8, 80)]" by simp
  ultimately show ?thesis by auto
qed

text \<open>
  \<open>linked_list_remove\<close> takes exactly the given node out of the list, wherever it stands, keeps
  the order of the others, and decrements every remaining key by one.
\<close>

theorem linked_list_remove_correct:
  assumes "ll_repr s (us @ a # vs) (ys @ (k, d) # zs)" "length us = length ys"
  shows "\<exists>s'. linked_list_remove me (Some a) s = Some s' \<and> ll_repr s' (us @ vs) (map (\<lambda>(k, d). (k - 1, d)) (ys @ zs))"
proof -
  have "take (length us) (ys @ (k, d) # zs) @ drop (Suc (length us)) (ys @ (k, d) # zs) = ys @ zs"
    by (simp add: assms(2))
  with linked_list_remove_ok [OF assms(1), of me] show ?thesis by metis
qed

theorem linked_list_remove_correct_witness:
  "\<exists>s'. linked_list_remove 7 (Some 1) ex_llist = Some s' \<and> ll_repr s' ([] @ [2]) [(7, 80)]"
  using linked_list_remove_correct [of ex_llist "[]" 1 "[2]" "[]" 3 30 "[(8, 80)]" 7] ex_llist_repr by simp

end
