(* ===== verification/Shared_Buffer.thy ===== *)
theory Shared_Buffer
  imports Linked_List
begin

text \<open>
  \<open>kern/shared_buffer/shared_buffer.c\<close>: the bounded buffer built from the linked list, one lock and
  two condition variables. The bodies between \<open>lock_acquire\<close> and \<open>lock_release\<close> are functions on
  the buffer; a body that finds the buffer full or empty waits. Their interleaving by any number
  of producers and consumers is a step relation: the lock makes each body one step (see
  \<open>Synch_Inv\<close>), \<open>cv_wait\<close> puts the thread on its channel, and a signal sends the longest waiting
  thread back to its test (Mesa semantics).

  What the buffer needs from the list is the locale \<open>item_stack\<close>; the linked list provides it.
\<close>

section \<open>The list interface\<close>

primrec push_all :: "('a \<Rightarrow> 'd \<Rightarrow> 's \<Rightarrow> 's option) \<Rightarrow> ('a \<times> 'd) list \<Rightarrow> 's \<Rightarrow> 's option" where
  "push_all push [] s = Some s"
| "push_all push (x # xs) s = push (fst x) (snd x) s \<bind> push_all push xs"

primrec pop_n :: "('s \<Rightarrow> ('d option \<times> 's) option) \<Rightarrow> nat \<Rightarrow> 's \<Rightarrow> ('d option list \<times> 's) option" where
  "pop_n pop 0 s = Some ([], s)"
| "pop_n pop (Suc n) s = do { (x, s) \<leftarrow> pop s; (xs, s) \<leftarrow> pop_n pop n s; Some (x # xs, s) }"

locale item_stack =
  fixes push :: "'a \<Rightarrow> 'd \<Rightarrow> 's \<Rightarrow> 's option" and pop :: "'s \<Rightarrow> ('d option \<times> 's) option"
    and items :: "'s \<Rightarrow> 'a set \<Rightarrow> 'd list \<Rightarrow> bool"
  assumes push: "items s A xs \<Longrightarrow> a \<notin> A \<Longrightarrow> \<exists>s'. push a d s = Some s' \<and> items s' (insert a A) (d # xs)"
    and pop_Nil: "items s A [] \<Longrightarrow> pop s = Some (None, s)"
    and pop_Cons: "items s A (d # xs) \<Longrightarrow> \<exists>s' A'. pop s = Some (Some d, s') \<and> items s' A' xs \<and> A' \<subseteq> A"
begin

lemma push_all_items:
  assumes "items s A xs" "distinct (map fst ps)" "set (map fst ps) \<inter> A = {}"
  shows "\<exists>s'. push_all push ps s = Some s' \<and> items s' (A \<union> set (map fst ps)) (rev (map snd ps) @ xs)"
  using assms
proof (induction ps arbitrary: s A xs)
  case (Cons p ps)
  obtain s1 where s1: "push (fst p) (snd p) s = Some s1" "items s1 (insert (fst p) A) (snd p # xs)"
    using push [of s A xs "fst p" "snd p"] Cons.prems by auto
  from Cons.IH [OF s1(2)] Cons.prems obtain s2 where "push_all push ps s1 = Some s2"
      "items s2 (insert (fst p) A \<union> set (map fst ps)) (rev (map snd ps) @ snd p # xs)"
    by auto
  moreover have "insert (fst p) A \<union> set (map fst ps) = A \<union> set (map fst (p # ps))" by auto
  ultimately show ?case using s1 by auto
qed simp

lemma pop_n_items: "items s A (ds @ xs) \<Longrightarrow> \<exists>s' A'. pop_n pop (length ds) s = Some (map Some ds, s') \<and> items s' A' xs"
proof (induction ds arbitrary: s A)
  case (Cons d ds)
  then obtain s1 A1 where "pop s = Some (Some d, s1)" "items s1 A1 (ds @ xs)" using pop_Cons [of s A d "ds @ xs"] by auto
  with Cons.IH [of s1 A1] show ?case by auto
qed auto

lemma lifo:
  assumes "items s A []" "distinct (map fst ps)" "set (map fst ps) \<inter> A = {}"
  shows "\<exists>s1 s2. push_all push ps s = Some s1 \<and> pop_n pop (length ps) s1 = Some (map Some (rev (map snd ps)), s2)"
  using push_all_items [OF assms] pop_n_items [of _ _ "rev (map snd ps)" "[]"] by fastforce

end

definition ll_pop :: "nat \<Rightarrow> llist \<Rightarrow> (nat option \<times> llist) option" where
  "ll_pop me s = do { (r, s) \<leftarrow> linked_list_remove_head me s; Some (map_option fst r, s) }"

definition ll_items :: "llist \<Rightarrow> nat set \<Rightarrow> nat list \<Rightarrow> bool" where
  "ll_items s A ds \<longleftrightarrow> (\<exists>xs ys. ll_repr s xs ys \<and> set xs = A \<and> map snd ys = ds)"

lemma ll_repr_length: "ll_repr s xs ys \<Longrightarrow> length xs = length ys"
  by (auto simp: ll_repr_def)

interpretation ll: item_stack "\<lambda>a d s. linked_list_prepend me d (Some a) s" "ll_pop me" ll_items for me
proof
  show "\<exists>s'. linked_list_prepend me d (Some a) s = Some s' \<and> ll_items s' (insert a A) (d # xs)"
    if "ll_items s A xs" "a \<notin> A" for s A xs a d
    using that linked_list_prepend_ok [where me = me and d = d and a = a] by (fastforce simp: ll_items_def)
  show "ll_pop me s = Some (None, s)" if "ll_items s A []" for s A
    using that linked_list_remove_head_Nil [where me = me] ll_repr_length by (fastforce simp: ll_items_def ll_pop_def)
  show "\<exists>s' A'. ll_pop me s = Some (Some d, s') \<and> ll_items s' A' xs \<and> A' \<subseteq> A" if I: "ll_items s A (d # xs)" for s A d xs
  proof -
    from I obtain as ys where R: "ll_repr s as ys" "set as = A" "map snd ys = d # xs" by (auto simp: ll_items_def)
    then obtain k ys' where ys: "ys = (k, d) # ys'" "map snd ys' = xs" by (cases ys) auto
    then obtain a as' where as: "as = a # as'" using ll_repr_length [OF R(1)] by (cases as) auto
    then obtain s' where "linked_list_remove_head me s = Some (Some (d, k), s')" "ll_repr s' as' ys'"
      using linked_list_remove_head_Cons [where me = me] R(1) ys(1) by blast
    then show ?thesis using ys R(2) as by (auto simp: ll_pop_def ll_items_def)
  qed
qed

section \<open>The buffer\<close>

record sbuf =
  buffer_ll :: llist
  sb_count :: int
  BUFFER_SIZE :: int
  sb_lock :: bool

text \<open>
  \<open>shared_buffer_create\<close> with the allocator's answers in the order the code asks for them: the
  structure, the list and its lock, the two condition variables, the lock. A NULL \<open>sb_lock\<close> is
  stored unchecked (\<open>sb_lock\<close> is whether there is one) and stops the first \<open>lock_acquire\<close>. A failure after the list exists calls
  \<open>shared_buffer_destroy\<close>, which hands the uninitialised \<open>sb_lock\<close> to \<open>lock_destroy\<close>: a fault.
\<close>

definition shared_buffer_create ::
  "(nat \<Rightarrow> lnode) \<Rightarrow> int \<Rightarrow> bool \<Rightarrow> nat option \<Rightarrow> bool \<Rightarrow> bool \<Rightarrow> bool \<Rightarrow> bool \<Rightarrow> sbuf option option" where
  "shared_buffer_create h sz ok_buf ll_addr ok_ll ok_pcv ok_ccv ok_lock =
     (if \<not> ok_buf then Some None
      else do {
        l \<leftarrow> linked_list_create h ll_addr ok_ll;
        if \<not> ok_pcv then None
        else if \<not> ok_ccv then None
        else Some (Some \<lparr>buffer_ll = l, sb_count = 0, BUFFER_SIZE = sz, sb_lock = ok_lock\<rparr>)
      })"

text \<open>The bodies of \<open>shared_buffer_produce\<close> and \<open>shared_buffer_consume\<close>, from the loop test on: \<open>None\<close>
  inside the result means \<open>cv_wait\<close>.\<close>

definition shared_buffer_produce :: "nat \<Rightarrow> nat \<Rightarrow> nat option \<Rightarrow> sbuf \<Rightarrow> sbuf option option" where
  "shared_buffer_produce me c addr b =
     (if \<not> sb_lock b then None
      else if sb_count b = BUFFER_SIZE b then Some None
      else do {
        kassert (sb_count b < BUFFER_SIZE b);
        l \<leftarrow> linked_list_prepend me c addr (buffer_ll b);
        Some (Some (b\<lparr>buffer_ll := l, sb_count := sb_count b + 1\<rparr>))
      })"

definition shared_buffer_consume :: "nat \<Rightarrow> nat option \<Rightarrow> sbuf \<Rightarrow> (nat option \<times> sbuf) option option" where
  "shared_buffer_consume me key b =
     (if \<not> sb_lock b then None
      else if sb_count b = 0 then Some None
      else do {
        kassert (sb_count b > 0);
        _ \<leftarrow> key;
        (r, l) \<leftarrow> linked_list_remove_head me (buffer_ll b);
        Some (Some (map_option fst r, b\<lparr>buffer_ll := l, sb_count := sb_count b - 1\<rparr>))
      })"

definition sb_repr :: "sbuf \<Rightarrow> nat set \<Rightarrow> nat list \<Rightarrow> bool" where
  "sb_repr b A ds \<longleftrightarrow> ll_items (buffer_ll b) A ds \<and> sb_count b = int (length ds) \<and> int (length ds) \<le> BUFFER_SIZE b \<and> sb_lock b"

lemma shared_buffer_create_ok:
  "0 \<le> sz \<Longrightarrow> shared_buffer_create h sz True (Some a) True True True True = Some (Some b) \<Longrightarrow> sb_repr b {} [] \<and> BUFFER_SIZE b = sz"
  by (auto simp: shared_buffer_create_def sb_repr_def ll_items_def dest!: linked_list_create_ok split: Option.bind_splits)

lemma shared_buffer_create_fails: "\<not> ok_pcv \<or> \<not> ok_ccv \<Longrightarrow> shared_buffer_create h sz True la ok_ll ok_pcv ok_ccv ok_lock = None"
  by (cases "linked_list_create h la ok_ll") (auto simp: shared_buffer_create_def)

lemma shared_buffer_produce_ok:
  assumes "sb_repr b A ds"
  shows "int (length ds) = BUFFER_SIZE b \<Longrightarrow> shared_buffer_produce me c addr b = Some None"
    "int (length ds) < BUFFER_SIZE b \<Longrightarrow> a \<notin> A \<Longrightarrow>
      \<exists>b'. shared_buffer_produce me c (Some a) b = Some (Some b') \<and> sb_repr b' (insert a A) (c # ds) \<and> BUFFER_SIZE b' = BUFFER_SIZE b"
  using assms ll.push [of "buffer_ll b" A ds a me c] by (auto simp: shared_buffer_produce_def sb_repr_def)

lemma shared_buffer_consume_ok:
  assumes "sb_repr b A ds"
  shows "ds = [] \<Longrightarrow> shared_buffer_consume me key b = Some None"
    "ds = d # es \<Longrightarrow> \<exists>b' A'. shared_buffer_consume me (Some k) b = Some (Some (Some d, b')) \<and> sb_repr b' A' es \<and> A' \<subseteq> A \<and>
      BUFFER_SIZE b' = BUFFER_SIZE b"
proof -
  show "ds = [] \<Longrightarrow> shared_buffer_consume me key b = Some None"
    using assms by (simp add: shared_buffer_consume_def sb_repr_def)
  assume ds: "ds = d # es"
  then obtain l' A' where l': "ll_pop me (buffer_ll b) = Some (Some d, l')" "ll_items l' A' es" "A' \<subseteq> A"
    using assms ll.pop_Cons [of "buffer_ll b" A d es me] by (auto simp: sb_repr_def)
  then obtain r where "linked_list_remove_head me (buffer_ll b) = Some (r, l')" "map_option fst r = Some d"
    by (auto simp: ll_pop_def split: Option.bind_splits)
  then show "\<exists>b' A'. shared_buffer_consume me (Some k) b = Some (Some (Some d, b')) \<and> sb_repr b' A' es \<and> A' \<subseteq> A \<and>
      BUFFER_SIZE b' = BUFFER_SIZE b"
    using assms ds l' by (intro exI [of _ "b\<lparr>buffer_ll := l', sb_count := sb_count b - 1\<rparr>"] exI [of _ A'])
      (simp add: shared_buffer_consume_def sb_repr_def)
qed

section \<open>Producers and consumers\<close>

text \<open>
  \<open>BProd d\<close>, \<open>BCons\<close>: about to run the body (first time or after a signal); \<open>BProdWait d\<close>,
  \<open>BConsWait\<close>: on the channel of \<open>producer_cv\<close>, \<open>consumer_cv\<close>.
\<close>

datatype bpc = BOut | is_BProd: BProd nat | is_BProdWait: BProdWait nat | BCons | BConsWait

record bsys =
  bs_buf :: sbuf
  bs_pwait :: "nat list"
  bs_cwait :: "nat list"
  bs_pc :: "nat \<Rightarrow> bpc"
  bs_in :: "nat list"
  bs_out :: "nat list"

definition retry :: "bpc \<Rightarrow> bpc" where
  "retry p = (case p of BProdWait d \<Rightarrow> BProd d | BConsWait \<Rightarrow> BCons | _ \<Rightarrow> p)"

definition bs_signal :: "nat list \<Rightarrow> (nat \<Rightarrow> bpc) \<Rightarrow> (nat \<Rightarrow> bpc)" where
  "bs_signal ws pc = (case ws of [] \<Rightarrow> pc | u # _ \<Rightarrow> pc(u := retry (pc u)))"

inductive buf_step :: "bsys \<Rightarrow> bsys \<Rightarrow> bool" where
  buf_produce: "bs_pc s t = BOut \<Longrightarrow> buf_step s (s\<lparr>bs_pc := (bs_pc s)(t := BProd d)\<rparr>)"
| buf_consume: "bs_pc s t = BOut \<Longrightarrow> buf_step s (s\<lparr>bs_pc := (bs_pc s)(t := BCons)\<rparr>)"
| buf_full: "bs_pc s t = BProd d \<Longrightarrow> shared_buffer_produce t d addr (bs_buf s) = Some None \<Longrightarrow>
    buf_step s (s\<lparr>bs_pwait := bs_pwait s @ [t], bs_pc := (bs_pc s)(t := BProdWait d)\<rparr>)"
| buf_put: "bs_pc s t = BProd d \<Longrightarrow> (\<And>A ds. sb_repr (bs_buf s) A ds \<Longrightarrow> a \<notin> A) \<Longrightarrow>
    shared_buffer_produce t d (Some a) (bs_buf s) = Some (Some b) \<Longrightarrow>
    buf_step s (s\<lparr>bs_buf := b, bs_pc := bs_signal (bs_cwait s) ((bs_pc s)(t := BOut)),
                  bs_cwait := drop 1 (bs_cwait s), bs_in := d # bs_in s\<rparr>)"
| buf_empty: "bs_pc s t = BCons \<Longrightarrow> shared_buffer_consume t key (bs_buf s) = Some None \<Longrightarrow>
    buf_step s (s\<lparr>bs_cwait := bs_cwait s @ [t], bs_pc := (bs_pc s)(t := BConsWait)\<rparr>)"
| buf_get: "bs_pc s t = BCons \<Longrightarrow> shared_buffer_consume t (Some key) (bs_buf s) = Some (Some (Some d, b)) \<Longrightarrow>
    buf_step s (s\<lparr>bs_buf := b, bs_pc := bs_signal (bs_pwait s) ((bs_pc s)(t := BOut)),
                  bs_pwait := drop 1 (bs_pwait s), bs_out := d # bs_out s\<rparr>)"

definition buf_start :: "int \<Rightarrow> bsys \<Rightarrow> bool" where
  "buf_start n s \<longleftrightarrow> sb_repr (bs_buf s) {} [] \<and> BUFFER_SIZE (bs_buf s) = n \<and> bs_pwait s = [] \<and> bs_cwait s = [] \<and>
     bs_pc s = (\<lambda>_. BOut) \<and> bs_in s = [] \<and> bs_out s = []"

definition having :: "('p \<Rightarrow> bool) \<Rightarrow> (nat \<Rightarrow> 'p) \<Rightarrow> nat set" where
  "having P pc = {t. P (pc t)}"

lemma having_mem [simp]: "t \<in> having P pc \<longleftrightarrow> P (pc t)"
  by (simp add: having_def)

lemma having_upd [simp]: "having P (pc(t := p)) = (if P p then insert t (having P pc) else having P pc - {t})"
  by (auto simp: having_def)

lemma having_start [simp]: "\<not> P p \<Longrightarrow> having P (\<lambda>_. p) = {}"
  by (simp add: having_def)

text \<open>
  The buffer holds exactly what was produced and not yet consumed, never more than its size; a
  waiting consumer means that every item present has a consumer about to look at it, and a waiting
  producer that every free slot has a producer about to look at it.
\<close>

definition buf_inv :: "int \<Rightarrow> bsys \<Rightarrow> bool" where
  "buf_inv n s \<longleftrightarrow>
     BUFFER_SIZE (bs_buf s) = n \<and> finite (having (\<lambda>p. p \<noteq> BOut) (bs_pc s)) \<and>
     distinct (bs_pwait s) \<and> set (bs_pwait s) = having is_BProdWait (bs_pc s) \<and>
     distinct (bs_cwait s) \<and> set (bs_cwait s) = having (\<lambda>p. p = BConsWait) (bs_pc s) \<and>
     (\<exists>A ds. sb_repr (bs_buf s) A ds \<and> mset (bs_in s) = mset (bs_out s) + mset ds) \<and>
     (bs_cwait s \<noteq> [] \<longrightarrow> sb_count (bs_buf s) \<le> int (card (having (\<lambda>p. p = BCons) (bs_pc s)))) \<and>
     (bs_pwait s \<noteq> [] \<longrightarrow> n - sb_count (bs_buf s) \<le> int (card (having is_BProd (bs_pc s))))"

lemma finite_users:
  assumes "finite (having (\<lambda>p. p \<noteq> BOut) pc)" "\<not> P BOut"
  shows "finite (having P pc)"
  by (rule finite_subset [OF _ assms(1)]) (use assms(2) in auto)

lemma card_leave: "finite S \<Longrightarrow> int (card S) \<le> int (card (S - {t})) + 1"
proof -
  assume "finite S"
  then have "card S \<le> card (insert t (S - {t}))" by (intro card_mono) auto
  also have "\<dots> \<le> Suc (card (S - {t}))" using \<open>finite S\<close> by (simp add: card.insert_remove)
  finally show ?thesis by simp
qed

lemma card_stay: "finite S \<Longrightarrow> int (card S) \<le> int (card (insert t S))"
  by (simp add: card_insert_le)

lemma produce_full_iff: "shared_buffer_produce me d addr b = Some None \<longleftrightarrow> sb_lock b \<and> sb_count b = BUFFER_SIZE b"
  by (auto simp: shared_buffer_produce_def split: Option.bind_splits)

lemma consume_empty_iff: "shared_buffer_consume me key b = Some None \<longleftrightarrow> sb_lock b \<and> sb_count b = 0"
  by (auto simp: shared_buffer_consume_def split: Option.bind_splits prod.splits)

lemma buf_put_inv:
  assumes inv: "buf_inv n s" and t: "bs_pc s t = BProd d"
    and put: "\<And>A ds. sb_repr (bs_buf s) A ds \<Longrightarrow> a \<notin> A" "shared_buffer_produce t d (Some a) (bs_buf s) = Some (Some b)"
  shows "buf_inv n (s\<lparr>bs_buf := b, bs_pc := bs_signal (bs_cwait s) ((bs_pc s)(t := BOut)),
                  bs_cwait := drop 1 (bs_cwait s), bs_in := d # bs_in s\<rparr>)" (is "buf_inv n ?s")
proof -
  obtain A ds where R: "sb_repr (bs_buf s) A ds" "mset (bs_in s) = mset (bs_out s) + mset ds" and n: "BUFFER_SIZE (bs_buf s) = n"
    using inv by (auto simp: buf_inv_def)
  have "int (length ds) < BUFFER_SIZE (bs_buf s)"
    using R(1) put(2) produce_full_iff [of t d "Some a" "bs_buf s"] by (auto simp: sb_repr_def)
  from shared_buffer_produce_ok(2) [OF R(1) this put(1) [OF R(1)], of t d] put(2)
  have b: "sb_repr b (insert a A) (d # ds)" "BUFFER_SIZE b = n" using n by auto
  have cnt: "sb_count b = sb_count (bs_buf s) + 1" using b(1) R(1) by (simp add: sb_repr_def)
  have fin: "finite (having (\<lambda>p. p \<noteq> BOut) (bs_pc s))" using inv by (simp add: buf_inv_def)
  have items: "\<exists>A ds'. sb_repr b A ds' \<and> add_mset d (mset (bs_in s)) = mset (bs_out s) + mset ds'"
    using b(1) R(2) by (intro exI [of _ "insert a A"] exI [of _ "d # ds"]) simp
  have leave: "int (card (having is_BProd (bs_pc s))) \<le> int (card (having is_BProd (bs_pc s) - {t})) + 1"
    by (rule card_leave [OF finite_users [OF fin]]) simp
  show ?thesis
  proof (cases "bs_cwait s")
    case Nil
    then show ?thesis using inv t b(2) cnt items leave by (auto simp: buf_inv_def bs_signal_def)
  next
    case (Cons u us)
    have q: "set (u # us) = having (\<lambda>p. p = BConsWait) (bs_pc s)" "distinct (u # us)"
      using inv unfolding buf_inv_def Cons by blast+
    have u1: "bs_pc s u = BConsWait" using q(1) by (metis having_mem list.set_intros(1))
    have u: "bs_pc s u = BConsWait" "u \<notin> set us" "u \<noteq> t" "set us = having (\<lambda>p. p = BConsWait) (bs_pc s) - {u}"
      using u1 q t by (simp, simp, force, metis Diff_insert_absorb distinct.simps(2) list.simps(15))
    have "finite (having (\<lambda>p. p = BCons) (bs_pc s))" by (rule finite_users [OF fin]) simp
    then have "int (card (insert u (having (\<lambda>p. p = BCons) (bs_pc s)))) = int (card (having (\<lambda>p. p = BCons) (bs_pc s))) + 1"
      using u(1) by simp
    moreover have "bs_pc ?s = (bs_pc s)(t := BOut, u := BCons)" using Cons u by (simp add: bs_signal_def retry_def)
    ultimately show ?thesis using inv t b(2) cnt items leave u Cons by (auto simp: buf_inv_def)
  qed
qed

lemma buf_get_inv:
  assumes inv: "buf_inv n s" and t: "bs_pc s t = BCons"
    and get: "shared_buffer_consume t (Some key) (bs_buf s) = Some (Some (Some d, b))"
  shows "buf_inv n (s\<lparr>bs_buf := b, bs_pc := bs_signal (bs_pwait s) ((bs_pc s)(t := BOut)),
                  bs_pwait := drop 1 (bs_pwait s), bs_out := d # bs_out s\<rparr>)" (is "buf_inv n ?s")
proof -
  obtain A ds where R: "sb_repr (bs_buf s) A ds" "mset (bs_in s) = mset (bs_out s) + mset ds" and n: "BUFFER_SIZE (bs_buf s) = n"
    using inv by (auto simp: buf_inv_def)
  have "ds \<noteq> []" using R(1) get consume_empty_iff [of t "Some key" "bs_buf s"] by (auto simp: sb_repr_def)
  then obtain e es where ds: "ds = e # es" by (cases ds) auto
  from shared_buffer_consume_ok(2) [OF R(1) this, of t key] get obtain A' where
    b: "sb_repr b A' es" "BUFFER_SIZE b = n" "e = d" using n by auto
  have cnt: "sb_count b = sb_count (bs_buf s) - 1" using b(1) R(1) ds by (simp add: sb_repr_def)
  have fin: "finite (having (\<lambda>p. p \<noteq> BOut) (bs_pc s))" using inv by (simp add: buf_inv_def)
  have items: "\<exists>A ds'. sb_repr b A ds' \<and> mset (bs_in s) = add_mset d (mset (bs_out s) + mset ds')"
    using b R(2) ds by (intro exI [of _ A'] exI [of _ es]) simp
  have leave: "int (card (having (\<lambda>p. p = BCons) (bs_pc s))) \<le> int (card (having (\<lambda>p. p = BCons) (bs_pc s) - {t})) + 1"
    by (rule card_leave [OF finite_users [OF fin]]) simp
  show ?thesis
  proof (cases "bs_pwait s")
    case Nil
    then show ?thesis using inv t b(2) cnt items leave by (auto simp: buf_inv_def bs_signal_def)
  next
    case (Cons u us)
    have "is_BProdWait (bs_pc s u)" using inv Cons by (metis buf_inv_def having_mem list.set_intros(1))
    then obtain e where e: "bs_pc s u = BProdWait e" by (cases "bs_pc s u") auto
    have q: "set (u # us) = having is_BProdWait (bs_pc s)" "distinct (u # us)"
      using inv unfolding buf_inv_def Cons by blast+
    have "u \<noteq> t" using e t by auto
    moreover have "set us = having is_BProdWait (bs_pc s) - {u}"
      using q by (metis Diff_insert_absorb distinct.simps(2) list.simps(15))
    ultimately have u: "u \<notin> set us" "u \<noteq> t" "set us = having is_BProdWait (bs_pc s) - {u}" using q by simp_all
    have "finite (having is_BProd (bs_pc s))" by (rule finite_users [OF fin]) simp
    then have "int (card (insert u (having is_BProd (bs_pc s)))) = int (card (having is_BProd (bs_pc s))) + 1"
      using e by simp
    moreover have "bs_pc ?s = (bs_pc s)(t := BOut, u := BProd e)" using Cons u e by (simp add: bs_signal_def retry_def)
    ultimately show ?thesis using inv t b(2) cnt items leave u e Cons by (auto simp: buf_inv_def)
  qed
qed

lemma buf_step_inv: "buf_step s s' \<Longrightarrow> buf_inv n s \<Longrightarrow> buf_inv n s'"
proof (induction rule: buf_step.induct)
  case (buf_put s t d a b)
  then show ?case by (intro buf_put_inv) auto
next
  case (buf_get s t key d b)
  then show ?case by (intro buf_get_inv) auto
next
  case (buf_produce s t d)
  have "finite (having (\<lambda>p. p \<noteq> BOut) (bs_pc s))" using buf_produce(2) by (simp add: buf_inv_def)
  then have "finite (having is_BProd (bs_pc s))" by (rule finite_users) simp
  from card_stay [OF this, of t] show ?case using buf_produce by (auto simp: buf_inv_def)
next
  case (buf_consume s t)
  have "finite (having (\<lambda>p. p \<noteq> BOut) (bs_pc s))" using buf_consume(2) by (simp add: buf_inv_def)
  then have "finite (having (\<lambda>p. p = BCons) (bs_pc s))" by (rule finite_users) simp
  from card_stay [OF this, of t] show ?case using buf_consume by (auto simp: buf_inv_def)
next
  case (buf_full s t d addr)
  then have "sb_count (bs_buf s) = n" by (simp add: produce_full_iff buf_inv_def)
  then show ?case using buf_full by (auto simp: buf_inv_def)
next
  case (buf_empty s t key)
  then have "sb_count (bs_buf s) = 0" by (simp add: consume_empty_iff)
  then show ?case using buf_empty by (auto simp: buf_inv_def)
qed

interpretation buf: step_system "buf_start n" buf_step "buf_inv n" for n
proof
  show "buf_start n s \<Longrightarrow> buf_inv n s" for s by (auto simp: buf_start_def buf_inv_def)
  show "buf_step s s' \<Longrightarrow> buf_inv n s \<Longrightarrow> buf_inv n s'" for s s' by (rule buf_step_inv)
qed

text \<open>With room for at least one item, producers and consumers are never all asleep at once.\<close>

lemma buf_never_stuck:
  assumes "buf_inv n s" "0 < n" "bs_pwait s \<noteq> []" "bs_cwait s \<noteq> []"
  shows "\<exists>t. bs_pc s t = BCons \<or> is_BProd (bs_pc s t)"
proof (rule ccontr)
  assume "\<not> ?thesis"
  then have "having (\<lambda>p. p = BCons) (bs_pc s) = {}" "having is_BProd (bs_pc s) = {}" by (auto simp: having_def)
  then show False using assms by (simp add: buf_inv_def)
qed

section \<open>Properties\<close>

text \<open>
  The linked list used as a stack: whatever is prepended comes back from the head in the
  opposite order, whatever the number of items.
\<close>

theorem linked_list_lifo:
  assumes "ll_items s A []" "distinct (map fst ps)" "set (map fst ps) \<inter> A = {}"
  shows "\<exists>s1 s2. push_all (\<lambda>a d s. linked_list_prepend me d (Some a) s) ps s = Some s1 \<and>
    pop_n (ll_pop me) (length ps) s1 = Some (map Some (rev (map snd ps)), s2)"
  by (rule ll.lifo [OF assms])

lemma ex_empty_items: "ll_items \<lparr>ll_heap = ex_nodes, ll_first = None, ll_last = None, ll_length = 0, ll_lock = Some None\<rparr> {} []"
  using linked_list_create_ok [of ex_nodes 0] by (fastforce simp: ll_items_def linked_list_create_def)

theorem linked_list_lifo_witness:
  "\<exists>s1 s2. push_all (\<lambda>a d s. linked_list_prepend 0 d (Some a) s) [(1, 10), (2, 20)]
      \<lparr>ll_heap = ex_nodes, ll_first = None, ll_last = None, ll_length = 0, ll_lock = Some None\<rparr> = Some s1 \<and>
    pop_n (ll_pop 0) 2 s1 = Some ([Some 20, Some 10], s2)"
  using linked_list_lifo [OF ex_empty_items, of "[(1, 10), (2, 20)]" 0] by (simp add: numeral_2_eq_2)

text \<open>
  C23. The bounded buffer, for any number of producers and consumers in any interleaving: it never
  holds more than its size, and it holds exactly the items that were produced and not yet
  consumed, so nothing is lost, duplicated or invented.
\<close>

theorem bounded_buffer_safe:
  assumes "buf_step\<^sup>*\<^sup>* s s'" "buf_start n s"
  shows "\<exists>A ds. sb_repr (bs_buf s') A ds \<and> mset (bs_in s') = mset (bs_out s') + mset ds \<and>
    int (length ds) \<le> n \<and> sb_count (bs_buf s') = int (length ds)"
  using buf.reach_inv [OF assms] by (auto simp: buf_inv_def sb_repr_def)

definition ex_buf :: sbuf where
  "ex_buf = \<lparr>buffer_ll = \<lparr>ll_heap = ex_nodes, ll_first = None, ll_last = None, ll_length = 0, ll_lock = Some None\<rparr>,
     sb_count = 0, BUFFER_SIZE = 1, sb_lock = True\<rparr>"

definition ex_bsys :: bsys where
  "ex_bsys = \<lparr>bs_buf = ex_buf, bs_pwait = [], bs_cwait = [], bs_pc = (\<lambda>_. BOut), bs_in = [], bs_out = []\<rparr>"

lemma ex_bsys_start: "buf_start 1 ex_bsys"
  using ex_empty_items by (simp add: buf_start_def ex_bsys_def ex_buf_def sb_repr_def)

lemma ex_buf_produce: "\<exists>b. shared_buffer_produce t d (Some 5) ex_buf = Some (Some b) \<and> sb_lock b \<and> sb_count b = 1 \<and> BUFFER_SIZE b = 1"
  "sb_repr ex_buf A ds \<Longrightarrow> 5 \<notin> A"
proof -
  have sb: "sb_repr ex_buf {} []" using ex_empty_items by (simp add: ex_buf_def sb_repr_def)
  have "int (length ([] :: nat list)) < BUFFER_SIZE ex_buf" by (simp add: ex_buf_def)
  from shared_buffer_produce_ok(2) [OF sb this, of 5 t d]
  show "\<exists>b. shared_buffer_produce t d (Some 5) ex_buf = Some (Some b) \<and> sb_lock b \<and> sb_count b = 1 \<and> BUFFER_SIZE b = 1"
    by (auto simp: sb_repr_def ex_buf_def)
  show "sb_repr ex_buf A ds \<Longrightarrow> 5 \<notin> A"
    by (auto simp: sb_repr_def ll_items_def ex_buf_def ll_repr_def)
qed

theorem bounded_buffer_safe_witness:
  "\<exists>b. buf_step\<^sup>*\<^sup>* ex_bsys (ex_bsys\<lparr>bs_buf := b, bs_in := [65]\<rparr>) \<and> (\<exists>A. sb_repr b A [65])"
proof -
  obtain b where b: "shared_buffer_produce 0 65 (Some 5) ex_buf = Some (Some b)" using ex_buf_produce(1) by blast
  let ?s1 = "ex_bsys\<lparr>bs_pc := (\<lambda>_. BOut)(0 := BProd 65)\<rparr>"
  have 1: "buf_step ex_bsys ?s1" using buf_produce [of ex_bsys 0 65] by (simp add: ex_bsys_def)
  have "(\<lambda>_. BOut)(0 := BOut) = (\<lambda>_::nat. BOut)" by auto
  then have 2: "buf_step ?s1 (ex_bsys\<lparr>bs_buf := b, bs_in := [65]\<rparr>)"
    using buf_put [of ?s1 0 65 5 b] b ex_buf_produce(2) by (simp add: ex_bsys_def bs_signal_def)
  have st: "buf_step\<^sup>*\<^sup>* ex_bsys (ex_bsys\<lparr>bs_buf := b, bs_in := [65]\<rparr>)"
    using 1 2 r_into_rtranclp [of buf_step] steps_Cons [of buf_step] by presburger
  from bounded_buffer_safe [OF this ex_bsys_start] obtain A ds where
    "sb_repr b A ds" "{#65#} = mset ds" by (auto simp: ex_bsys_def)
  then have "sb_repr b A [65]" by simp
  with st show ?thesis by blast
qed

text \<open>
  C24. Producers and consumers of a buffer with room for at least one item are never all asleep: in
  every reachable state with both a waiting producer and a waiting consumer, some thread is about
  to run its body.
\<close>

theorem bounded_buffer_never_stuck:
  assumes "buf_step\<^sup>*\<^sup>* s s'" "buf_start n s" "0 < n" "bs_pwait s' \<noteq> []" "bs_cwait s' \<noteq> []"
  shows "\<exists>t. bs_pc s' t = BCons \<or> is_BProd (bs_pc s' t)"
  by (rule buf_never_stuck [OF buf.reach_inv [OF assms(1,2)] assms(3-5)])

theorem bounded_buffer_never_stuck_witness:
  "\<exists>s'. buf_step\<^sup>*\<^sup>* ex_bsys s' \<and> bs_pwait s' = [4] \<and> bs_cwait s' = [2] \<and> (\<exists>t. bs_pc s' t = BCons \<or> is_BProd (bs_pc s' t))"
proof -
  obtain b where b: "shared_buffer_produce 3 65 (Some 5) ex_buf = Some (Some b)" "sb_lock b" "sb_count b = 1" "BUFFER_SIZE b = 1"
    using ex_buf_produce(1) by blast
  define s1 where "s1 = ex_bsys\<lparr>bs_pc := (bs_pc ex_bsys)(1 := BCons)\<rparr>"
  define s2 where "s2 = s1\<lparr>bs_cwait := bs_cwait s1 @ [1], bs_pc := (bs_pc s1)(1 := BConsWait)\<rparr>"
  define s3 where "s3 = s2\<lparr>bs_pc := (bs_pc s2)(2 := BCons)\<rparr>"
  define s4 where "s4 = s3\<lparr>bs_cwait := bs_cwait s3 @ [2], bs_pc := (bs_pc s3)(2 := BConsWait)\<rparr>"
  define s5 where "s5 = s4\<lparr>bs_pc := (bs_pc s4)(3 := BProd 65)\<rparr>"
  define s6 where "s6 = s5\<lparr>bs_buf := b, bs_pc := bs_signal (bs_cwait s5) ((bs_pc s5)(3 := BOut)),
    bs_cwait := drop 1 (bs_cwait s5), bs_in := 65 # bs_in s5\<rparr>"
  define s7 where "s7 = s6\<lparr>bs_pc := (bs_pc s6)(4 := BProd 66)\<rparr>"
  define s8 where "s8 = s7\<lparr>bs_pwait := bs_pwait s7 @ [4], bs_pc := (bs_pc s7)(4 := BProdWait 66)\<rparr>"
  note defs = s1_def s2_def s3_def s4_def s5_def s6_def s7_def s8_def ex_bsys_def bs_signal_def retry_def
  have e: "shared_buffer_consume t None ex_buf = Some None" for t by (simp add: consume_empty_iff) (simp add: ex_buf_def)
  have f: "shared_buffer_produce t d None b = Some None" for t d using b by (simp add: produce_full_iff)
  have 1: "buf_step ex_bsys s1" unfolding s1_def by (rule buf_consume) (simp add: defs)
  have 2: "buf_step s1 s2" unfolding s2_def by (rule buf_empty [where key = None]) (simp_all add: defs e)
  have 3: "buf_step s2 s3" unfolding s3_def by (rule buf_consume) (simp add: defs)
  have 4: "buf_step s3 s4" unfolding s4_def by (rule buf_empty [where key = None]) (simp_all add: defs e)
  have 5: "buf_step s4 s5" unfolding s5_def by (rule buf_produce) (simp add: defs)
  have 6: "buf_step s5 s6" unfolding s6_def by (rule buf_put [where a = 5]) (auto simp: defs b(1) dest: ex_buf_produce(2))
  have 7: "buf_step s6 s7" unfolding s7_def by (rule buf_produce) (simp add: defs)
  have 8: "buf_step s7 s8" unfolding s8_def by (rule buf_full [where addr = None]) (simp_all add: defs f)
  have st: "buf_step\<^sup>*\<^sup>* ex_bsys s8"
    using 1 2 3 4 5 6 7 8 r_into_rtranclp [of buf_step] steps_Cons [of buf_step] by presburger
  moreover have w: "bs_pwait s8 = [4]" "bs_cwait s8 = [2]" by (simp_all add: defs)
  ultimately show ?thesis using bounded_buffer_never_stuck [OF st ex_bsys_start] by (intro exI [of _ s8]) simp
qed

end
