(* ===== verification/Cmem.thy ===== *)
theory Cmem
  imports Kernel_Prelude
begin

text \<open>
  The memory functions of \<open>common/libc/string\<close> (\<open>memcpy\<close>, \<open>memmove\<close>, \<open>memset\<close>, \<open>bzero\<close>), which
  kernel and userland share. Memory is a function from addresses to bytes. An address is a
  \<open>nat\<close>: C gives no meaning to a block that runs over the top of memory. A \<open>long\<close> is four bytes,
  most significant first (big-endian MIPS). A \<open>for\<close> loop over an index range is a \<open>fold\<close> over
  that range, in the order the loop runs.
\<close>

type_synonym cmem = "nat \<Rightarrow> u8"

definition load_long :: "cmem \<Rightarrow> nat \<Rightarrow> u32" where
  "load_long m a = push_bit 24 (ucast (m a)) OR push_bit 16 (ucast (m (a + 1))) OR
     push_bit 8 (ucast (m (a + 2))) OR ucast (m (a + 3))"

definition store_long :: "nat \<Rightarrow> u32 \<Rightarrow> cmem \<Rightarrow> cmem" where
  "store_long a w m = m(a := ucast (drop_bit 24 w), a + 1 := ucast (drop_bit 16 w),
     a + 2 := ucast (drop_bit 8 w), a + 3 := ucast w)"

definition memcpy :: "nat \<Rightarrow> nat \<Rightarrow> nat \<Rightarrow> cmem \<Rightarrow> nat \<times> cmem" where
  "memcpy dst src len m =
     (if dst mod 4 = 0 \<and> src mod 4 = 0 \<and> len mod 4 = 0
      then (dst, fold (\<lambda>i m. store_long (dst + 4 * i) (load_long m (src + 4 * i)) m) [0..<len div 4] m)
      else (dst, fold (\<lambda>i m. m(dst + i := m (src + i))) [0..<len] m))"

definition memmove :: "nat \<Rightarrow> nat \<Rightarrow> nat \<Rightarrow> cmem \<Rightarrow> nat \<times> cmem" where
  "memmove dst src len m =
     (if dst < src then memcpy dst src len m
      else if dst mod 4 = 0 \<and> src mod 4 = 0 \<and> len mod 4 = 0
      then (dst, fold (\<lambda>i m. store_long (dst + 4 * (i - 1)) (load_long m (src + 4 * (i - 1))) m) (rev [1..<len div 4 + 1]) m)
      else (dst, fold (\<lambda>i m. m(dst + (i - 1) := m (src + (i - 1)))) (rev [1..<len + 1]) m))"

definition memset :: "nat \<Rightarrow> u32 \<Rightarrow> nat \<Rightarrow> cmem \<Rightarrow> nat \<times> cmem" where
  "memset ptr ch len m = (ptr, fold (\<lambda>i m. m(ptr + i := ucast ch)) [0..<len] m)"

definition bzero :: "nat \<Rightarrow> nat \<Rightarrow> cmem \<Rightarrow> cmem" where
  "bzero block len m =
     (if block mod 4 = 0 \<and> len mod 4 = 0
      then fold (\<lambda>i m. store_long (block + 4 * i) 0 m) [0..<len div 4] m
      else fold (\<lambda>i m. m(block + i := 0)) [0..<len] m)"

section \<open>What they do\<close>

text \<open>The reference: \<open>n\<close> bytes from \<open>src\<close>, all read before any is written.\<close>

definition block_move :: "nat \<Rightarrow> nat \<Rightarrow> nat \<Rightarrow> cmem \<Rightarrow> cmem" where
  "block_move dst src n m = (\<lambda>a. if dst \<le> a \<and> a < dst + n then m (src + (a - dst)) else m a)"

definition block_fill :: "nat \<Rightarrow> nat \<Rightarrow> u8 \<Rightarrow> cmem \<Rightarrow> cmem" where
  "block_fill dst n b m = (\<lambda>a. if dst \<le> a \<and> a < dst + n then b else m a)"

lemma long_bytes:
  "ucast (drop_bit 24 (load_long m a)) = m a" "ucast (drop_bit 16 (load_long m a)) = m (a + 1)"
  "ucast (drop_bit 8 (load_long m a)) = m (a + 2)" "ucast (load_long m a) = m (a + 3)"
  by (rule bit_word_eqI; auto simp: load_long_def bit_simps dest: bit_imp_le_length)+

lemma store_load_long: "store_long d (load_long m s) m = block_move d s 4 m"
proof
  fix a
  consider "a < d" | "a = d" | "a = d + 1" | "a = d + 2" | "a = d + 3" | "a \<ge> d + 4" by linarith
  then show "store_long d (load_long m s) m a = block_move d s 4 m a"
    by cases (simp_all add: store_long_def long_bytes block_move_def)
qed

lemma store_zero: "store_long d 0 m = block_fill d 4 0 m"
  by (auto simp: store_long_def block_fill_def fun_eq_iff)

lemma block_move_0 [simp]: "block_move d s 0 m = m"
  by (auto simp: block_move_def fun_eq_iff)

lemma block_move_out: "\<not> (d \<le> a \<and> a < d + n) \<Longrightarrow> block_move d s n m a = m a"
  unfolding block_move_def by (simp only: if_False)

text \<open>Copying upwards piece by piece is right when the destination is not inside the source.\<close>

lemma block_move_up:
  assumes "d \<le> s \<or> s + k + n \<le> d"
  shows "block_move (d + k) (s + k) n (block_move d s k m) = block_move d s (k + n) m"
proof
  fix a
  show "block_move (d + k) (s + k) n (block_move d s k m) a = block_move d s (k + n) m a"
  proof (cases "d + k \<le> a \<and> a < d + k + n")
    case True
    then obtain j where a: "a = d + k + j" "j < n" by (metis add_less_cancel_left le_Suc_ex)
    have "block_move d s k m (s + k + j) = m (s + k + j)" using assms a(2) by (auto simp: block_move_def)
    moreover have "block_move (d + k) (s + k) n f a = f (s + k + j)" for f using a by (simp add: block_move_def)
    moreover have "block_move d s (k + n) m a = m (s + k + j)" using a by (simp add: block_move_def add.assoc)
    ultimately show ?thesis by simp
  qed (auto simp: block_move_def)
qed

lemma block_move_1: "m(d := m s) = block_move d s 1 m"
  by (auto simp: block_move_def fun_eq_iff)

lemma copy_up:
  assumes step: "\<And>i m. f i m = block_move (d + w * i) (s + w * i) w m"
  shows "d \<le> s \<or> s + w * n \<le> d \<Longrightarrow> fold f [0..<n] m = block_move d s (w * n) m"
proof (induction n)
  case (Suc n)
  have "s + w * Suc n \<le> d \<Longrightarrow> s + w * n \<le> d" by (simp add: algebra_simps)
  with Suc have IH: "fold f [0..<n] m = block_move d s (w * n) m" by blast
  have "fold f [0..<Suc n] m = block_move (d + w * n) (s + w * n) w (block_move d s (w * n) m)"
    by (simp add: step IH)
  also have "\<dots> = block_move d s (w * n + w) m" using Suc.prems by (intro block_move_up) (auto simp: algebra_simps)
  finally show ?case by (simp add: add.commute)
qed simp

text \<open>Copying downwards is right when the destination is at or above the source.\<close>

lemma block_move_down:
  assumes "s \<le> d"
  shows "block_move d s k (block_move (d + k) (s + k) n m) = block_move d s (k + n) m"
proof
  fix a
  show "block_move d s k (block_move (d + k) (s + k) n m) a = block_move d s (k + n) m a"
  proof (cases "d \<le> a \<and> a < d + k")
    case True
    then obtain j where a: "a = d + j" "j < k" by (metis add_less_cancel_left le_Suc_ex)
    have "block_move (d + k) (s + k) n m (s + j) = m (s + j)" using assms a(2) by (auto simp: block_move_def)
    moreover have "block_move d s k f a = f (s + j)" for f using a by (simp add: block_move_def)
    moreover have "block_move d s (k + n) m a = m (s + j)" using a by (simp add: block_move_def)
    ultimately show ?thesis by simp
  next
    case False
    then have out: "block_move d s k f a = f a" for f by (rule block_move_out)
    show ?thesis
    proof (cases "d + k \<le> a \<and> a < d + k + n")
      case True
      then obtain j where "a = d + k + j" "j < n" by (metis add_less_cancel_left le_Suc_ex)
      then show ?thesis unfolding out by (simp add: block_move_def add.assoc)
    next
      case outside: False
      then have "\<not> (d \<le> a \<and> a < d + (k + n))" using False by linarith
      with outside show ?thesis unfolding out by (simp only: block_move_out if_False not_False_eq_True)
    qed
  qed
qed

lemma fold_rev_shift: "fold f (rev [1..<n + 1]) m = fold (\<lambda>i. f (i + 1)) (rev [0..<n]) m"
proof -
  have "rev [1..<n + 1] = map Suc (rev [0..<n])" unfolding rev_map [symmetric] map_Suc_upt by simp
  then show ?thesis by (simp add: fold_map comp_def)
qed

lemma copy_down:
  assumes "s \<le> d" and step: "\<And>i m. f i m = block_move (d + w * i) (s + w * i) w m"
  shows "fold f (rev [0..<n]) m = block_move d s (w * n) m"
proof (induction n arbitrary: m)
  case (Suc n)
  have "fold f (rev [0..<Suc n]) m = block_move d s (w * n) (block_move (d + w * n) (s + w * n) w m)"
    by (simp add: step Suc.IH)
  also have "\<dots> = block_move d s (w * Suc n) m" using block_move_down [OF assms(1), of "w * n" w m] by (simp add: add.commute)
  finally show ?case .
qed simp

lemma memcpy_ok:
  assumes "dst \<le> src \<or> src + len \<le> dst"
  shows "memcpy dst src len m = (dst, block_move dst src len m)"
proof (cases "dst mod 4 = 0 \<and> src mod 4 = 0 \<and> len mod 4 = 0")
  case True
  then have "4 * (len div 4) = len" by auto
  then show ?thesis using True assms
      copy_up [of "\<lambda>i m. store_long (dst + 4 * i) (load_long m (src + 4 * i)) m" dst 4 src "len div 4" m]
    by (simp add: memcpy_def store_load_long)
next
  case False
  then have "memcpy dst src len m = (dst, fold (\<lambda>i m. m(dst + i := m (src + i))) [0..<len] m)"
    unfolding memcpy_def by (simp only: if_False)
  then show ?thesis using assms copy_up [of "\<lambda>i m. m(dst + i := m (src + i))" dst 1 src len m] block_move_1 by simp
qed

text \<open>Neither routine touches a byte outside its destination, whatever the overlap.\<close>

lemma fold_frame:
  assumes "\<And>i m. i \<in> set xs \<Longrightarrow> f i m a = m a"
  shows "fold f xs m a = m a"
  using assms by (induction xs arbitrary: m) simp_all

lemma memcpy_frame:
  assumes "a < dst \<or> dst + len \<le> a"
  shows "snd (memcpy dst src len m) a = m a"
proof -
  have "store_long (dst + 4 * i) w m a = m a" if "i < len div 4" for i w m
  proof -
    have "4 * i + 4 \<le> len" using that by linarith
    then show ?thesis using assms by (auto simp: store_long_def)
  qed
  then have "fold (\<lambda>i m. store_long (dst + 4 * i) (load_long m (src + 4 * i)) m) [0..<len div 4] m a = m a"
    by (intro fold_frame) simp
  moreover have "fold (\<lambda>i m. m(dst + i := m (src + i))) [0..<len] m a = m a"
    using assms by (intro fold_frame) auto
  ultimately show ?thesis by (simp add: memcpy_def)
qed

lemma memmove_ok: "memmove dst src len m = (dst, block_move dst src len m)"
proof -
  have bytes: "fold (\<lambda>i m. m(dst + (i - 1) := m (src + (i - 1)))) (rev [1..<len + 1]) m = block_move dst src len m"
    if "src \<le> dst"
    using copy_down [OF that, of "\<lambda>i m. m(dst + i := m (src + i))" 1 len m] block_move_1 unfolding fold_rev_shift
    by simp
  have longs: "fold (\<lambda>i m. store_long (dst + 4 * (i - 1)) (load_long m (src + 4 * (i - 1))) m) (rev [1..<len div 4 + 1]) m =
      block_move dst src (4 * (len div 4)) m" if "src \<le> dst"
    using copy_down [OF that, of "\<lambda>i m. store_long (dst + 4 * i) (load_long m (src + 4 * i)) m" 4 "len div 4" m]
    unfolding fold_rev_shift by (simp add: store_load_long)
  have len: "len mod 4 = 0 \<Longrightarrow> 4 * (len div 4) = len" by auto
  show ?thesis
  proof (cases "dst < src")
    case True
    then show ?thesis by (simp add: memmove_def memcpy_ok)
  next
    case False
    then show ?thesis using longs bytes len unfolding memmove_def by simp
  qed
qed

lemma block_fill_up: "block_fill (d + k) n b (block_fill d k b m) = block_fill d (k + n) b m"
  by (auto simp: block_fill_def fun_eq_iff)

lemma block_fill_0 [simp]: "block_fill d 0 b m = m"
  by (auto simp: block_fill_def fun_eq_iff)

lemma fill_up:
  assumes step: "\<And>i m. f i m = block_fill (d + w * i) w b m"
  shows "fold f [0..<n] m = block_fill d (w * n) b m"
proof (induction n)
  case (Suc n)
  have "fold f [0..<Suc n] m = block_fill (d + w * n) w b (block_fill d (w * n) b m)" by (simp add: step Suc.IH)
  then show ?case by (simp add: block_fill_up add.commute)
qed simp

lemma block_fill_1: "m(d := b) = block_fill d 1 b m"
  by (auto simp: block_fill_def fun_eq_iff)

lemma fill_bytes: "fold (\<lambda>i m. m(d + i := b)) [0..<n] m = block_fill d n b m"
  using fill_up [of "\<lambda>i m. m(d + i := b)" d 1 b n m] block_fill_1 by simp

lemma fill_longs: "fold (\<lambda>i m. store_long (d + 4 * i) 0 m) [0..<n] m = block_fill d (4 * n) 0 m"
  by (rule fill_up) (simp add: store_zero)

lemma bzero_ok: "bzero block len m = block_fill block len 0 m"
proof (cases "block mod 4 = 0 \<and> len mod 4 = 0")
  case True
  then have "4 * (len div 4) = len" by auto
  then show ?thesis using True fill_longs [of block "len div 4" m] by (simp add: bzero_def)
next
  case False
  then show ?thesis by (auto simp: bzero_def fill_bytes)
qed

section \<open>Properties\<close>

text \<open>
  C28. \<open>memmove\<close> moves any block anywhere, overlapping or not, upwards or downwards, by words or by
  bytes: the destination gets the bytes the source had before the call and nothing else changes.
  \<open>memcpy\<close> does the same whenever the destination does not start inside the source, and \<open>bzero\<close>
  and \<open>memset\<close> fill exactly their block.
\<close>

theorem memmove_moves_block:
  "memmove dst src len m = (dst, block_move dst src len m) \<and>
   (dst \<le> src \<or> src + len \<le> dst \<longrightarrow> memcpy dst src len m = (dst, block_move dst src len m)) \<and>
   bzero dst len m = block_fill dst len 0 m \<and> memset dst ch len m = (dst, block_fill dst len (ucast ch) m)"
  by (simp add: memmove_ok memcpy_ok bzero_ok memset_def fill_bytes)

theorem memmove_moves_block_witness:
  "snd (memcpy 8 4 4 (\<lambda>a. of_nat a)) 9 = 5 \<and> snd (memmove 6 4 6 (\<lambda>a. of_nat a)) 11 = (9 :: u8)"
  using memmove_moves_block [of 8 4 4 "\<lambda>a. of_nat a"] memmove_moves_block [of 6 4 6 "\<lambda>a. of_nat a"]
  by (simp add: block_move_def)

end
