(* ===== verification/Cstring.thy ===== *)
theory Cstring
  imports Cmem "HOL-Library.List_Lexorder"
begin

text \<open>
  The string functions of \<open>common/libc/string\<close> and \<open>atoi\<close> of \<open>common/libc/stdlib\<close>, on the memory of
  \<open>Cmem\<close>. A loop that only ends at a terminator may run for ever, so the loops are partial
  functions; the lemmas show that they return on every terminated string. \<open>cstr m p xs\<close> says that
  the bytes \<open>xs\<close>, none of them zero, followed by a zero byte, are at address \<open>p\<close>.
\<close>

section \<open>The functions\<close>

partial_function (option) strlen_loop :: "cmem \<Rightarrow> nat \<Rightarrow> nat \<Rightarrow> nat option" where
  "strlen_loop m str ret = (if m (str + ret) \<noteq> 0 then strlen_loop m str (ret + 1) else Some ret)"

definition strlen :: "cmem \<Rightarrow> nat \<Rightarrow> nat option" where
  "strlen m str = strlen_loop m str 0"

partial_function (option) strcpy_loop :: "nat \<Rightarrow> nat \<Rightarrow> nat \<Rightarrow> cmem \<Rightarrow> (nat \<times> cmem) option" where
  "strcpy_loop dest src i m =
     (if m (src + i) \<noteq> 0 then strcpy_loop dest src (i + 1) (m(dest + i := m (src + i))) else Some (i, m))"

definition strcpy :: "nat \<Rightarrow> nat \<Rightarrow> cmem \<Rightarrow> (nat \<times> cmem) option" where
  "strcpy dest src m = do { (i, m) \<leftarrow> strcpy_loop dest src 0 m; Some (dest, m(dest + i := 0)) }"

definition strcat :: "nat \<Rightarrow> nat \<Rightarrow> cmem \<Rightarrow> (nat \<times> cmem) option" where
  "strcat dest src m =
     do { offset \<leftarrow> strlen m dest; (_, m) \<leftarrow> strcpy (dest + offset) src m; Some (dest, m) }"

partial_function (option) strcmp_loop :: "cmem \<Rightarrow> nat \<Rightarrow> nat \<Rightarrow> nat \<Rightarrow> nat option" where
  "strcmp_loop m a b i =
     (if m (a + i) \<noteq> 0 \<and> m (a + i) = m (b + i) then strcmp_loop m a b (i + 1) else Some i)"

definition strcmp :: "cmem \<Rightarrow> nat \<Rightarrow> nat \<Rightarrow> int option" where
  "strcmp m a b =
     do { i \<leftarrow> strcmp_loop m a b 0;
          if m (a + i) > m (b + i) then Some 1 else if m (a + i) = m (b + i) then Some 0 else Some (- 1) }"

text \<open>The inner result of \<open>strchr\<close> and \<open>strrchr\<close> is the pointer they return, \<open>None\<close> for NULL.\<close>

partial_function (option) strchr_loop :: "cmem \<Rightarrow> u8 \<Rightarrow> nat \<Rightarrow> nat option option" where
  "strchr_loop m ch s =
     (if m s \<noteq> 0 then (if m s = ch then Some (Some s) else strchr_loop m ch (s + 1))
      else if m s = ch then Some (Some s) else Some None)"

definition strchr :: "cmem \<Rightarrow> nat \<Rightarrow> u32 \<Rightarrow> nat option option" where
  "strchr m s ch_arg = strchr_loop m (ucast ch_arg) s"

primrec strrchr_loop :: "cmem \<Rightarrow> nat \<Rightarrow> u8 \<Rightarrow> nat \<Rightarrow> nat option" where
  "strrchr_loop m s ch 0 = None"
| "strrchr_loop m s ch (Suc i) = (if m (s + i) = ch then Some (s + i) else strrchr_loop m s ch i)"

definition strrchr :: "cmem \<Rightarrow> nat \<Rightarrow> u32 \<Rightarrow> nat option option" where
  "strrchr m s ch_arg = do { n \<leftarrow> strlen m s; Some (strrchr_loop m s (ucast ch_arg) (n + 1)) }"

text \<open>The two loops of \<open>strtok_r\<close>: \<open>want\<close> is whether the loop runs over separators or over others.\<close>

partial_function (option) tok_loop :: "cmem \<Rightarrow> nat \<Rightarrow> bool \<Rightarrow> nat \<Rightarrow> nat option" where
  "tok_loop m seps want p =
     (if m p \<noteq> 0 then
        do { w \<leftarrow> strchr m seps (ucast (m p));
             if (w \<noteq> None) = want then tok_loop m seps want (p + 1) else Some p }
      else Some p)"

definition strtok_r :: "nat option \<Rightarrow> nat \<Rightarrow> nat option \<Rightarrow> cmem \<Rightarrow> (nat option \<times> nat option \<times> cmem) option" where
  "strtok_r str seps ctx m =
     (let ctx = (case str of Some s \<Rightarrow> Some s | None \<Rightarrow> ctx) in
      case ctx of
        None \<Rightarrow> Some (None, ctx, m)
      | Some head \<Rightarrow>
          do {
            head \<leftarrow> tok_loop m seps True head;
            if m head = 0 then Some (None, None, m)
            else do {
              tail \<leftarrow> tok_loop m seps False head;
              if m tail = 0 then Some (Some head, None, m)
              else Some (Some head, Some (tail + 1), m(tail := 0))
            }
          })"

text \<open>\<open>digits\<close> is the address of the static array \<open>"0123456789"\<close>.\<close>

partial_function (option) skip_blank :: "cmem \<Rightarrow> nat \<Rightarrow> nat option" where
  "skip_blank m s = (if m s = 32 \<or> m s = 9 then skip_blank m (s + 1) else Some s)"

partial_function (option) atoi_loop :: "cmem \<Rightarrow> nat \<Rightarrow> nat \<Rightarrow> u32 \<Rightarrow> u32 option" where
  "atoi_loop m digits s val =
     (if m s \<noteq> 0 then
        do { w \<leftarrow> strchr m digits (ucast (m s));
             case w of
               None \<Rightarrow> Some val
             | Some p \<Rightarrow> atoi_loop m digits (s + 1) (val * 10 + of_nat (p - digits)) }
      else Some val)"

definition atoi :: "cmem \<Rightarrow> nat \<Rightarrow> nat \<Rightarrow> u32 option" where
  "atoi m digits s =
     do {
       s \<leftarrow> skip_blank m s;
       let (neg, s) = (if m s = 45 then (True, s + 1) else if m s = 43 then (False, s + 1) else (False, s));
       val \<leftarrow> atoi_loop m digits s 0;
       if neg then Some (- val) else Some val
     }"

section \<open>Strings in memory\<close>

fun cstr :: "cmem \<Rightarrow> nat \<Rightarrow> u8 list \<Rightarrow> bool" where
  "cstr m p [] \<longleftrightarrow> m p = 0"
| "cstr m p (x # xs) \<longleftrightarrow> m p = x \<and> x \<noteq> 0 \<and> cstr m (Suc p) xs"

fun put_bytes :: "nat \<Rightarrow> u8 list \<Rightarrow> cmem \<Rightarrow> cmem" where
  "put_bytes p [] m = m"
| "put_bytes p (x # xs) m = put_bytes (Suc p) xs (m(p := x))"

lemma cstr_frame: "(\<And>a. p \<le> a \<Longrightarrow> a \<le> p + length xs \<Longrightarrow> m' a = m a) \<Longrightarrow> cstr m' p xs = cstr m p xs"
  by (induction xs arbitrary: p) auto

lemma cstr_append: "cstr m p (xs @ ys) \<longleftrightarrow> (\<forall>i<length xs. m (p + i) = xs ! i \<and> xs ! i \<noteq> 0) \<and> cstr m (p + length xs) ys"
proof (induction xs arbitrary: p)
  case (Cons x xs)
  have "(\<forall>i<length (x # xs). m (p + i) = (x # xs) ! i \<and> (x # xs) ! i \<noteq> 0) \<longleftrightarrow>
      m p = x \<and> x \<noteq> 0 \<and> (\<forall>i<length xs. m (Suc p + i) = xs ! i \<and> xs ! i \<noteq> 0)"
    by (auto simp: less_Suc_eq_0_disj)
  then show ?case using Cons.IH [of "Suc p"] by simp
qed simp

lemma cstr_at: "cstr m p xs \<Longrightarrow> i < length xs \<Longrightarrow> m (p + i) = xs ! i \<and> m (p + i) \<noteq> 0"
  using cstr_append [of m p xs "[]"] by auto

lemma cstr_end: "cstr m p xs \<Longrightarrow> m (p + length xs) = 0"
  using cstr_append [of m p xs "[]"] by simp

lemma cstr_no_zero: "cstr m p xs \<Longrightarrow> 0 \<notin> set xs"
  by (induction xs arbitrary: p) auto

lemma cstr_drop: "cstr m p xs \<Longrightarrow> cstr m (p + length us) vs" if "xs = us @ vs"
  using cstr_append [of m p us vs] that by simp

lemma put_bytes_below: "a < p \<Longrightarrow> put_bytes p xs m a = m a"
  by (induction xs arbitrary: p m) auto

lemma put_bytes_above: "p + length xs \<le> a \<Longrightarrow> put_bytes p xs m a = m a"
  by (induction xs arbitrary: p m) auto

lemma put_bytes_snoc: "put_bytes p (xs @ [x]) m = (put_bytes p xs m)(p + length xs := x)"
  by (induction xs arbitrary: p m) auto

lemma cstr_put: "0 \<notin> set xs \<Longrightarrow> cstr (put_bytes p (xs @ [0]) m) p xs"
proof (induction xs arbitrary: p m)
  case (Cons x xs)
  have "put_bytes (Suc p) (xs @ [0]) (m(p := x)) p = x" by (simp add: put_bytes_below)
  then show ?case using Cons by simp
qed simp

section \<open>Length, copy, append\<close>

lemma strlen_loop_ok: "cstr m (str + ret) xs \<Longrightarrow> strlen_loop m str ret = Some (ret + length xs)"
proof (induction xs arbitrary: ret)
  case (Cons x xs)
  from Cons.IH [of "ret + 1"] Cons.prems show ?case by (subst strlen_loop.simps) simp
qed (subst strlen_loop.simps, simp)

lemma strlen_ok: "cstr m p xs \<Longrightarrow> strlen m p = Some (length xs)"
  using strlen_loop_ok [of m p 0 xs] by (simp add: strlen_def)

lemma strcpy_loop_ok:
  assumes "cstr m (src + i) xs" "{dest + i..dest + i + length xs} \<inter> {src + i..src + i + length xs} = {}"
  shows "strcpy_loop dest src i m = Some (i + length xs, put_bytes (dest + i) xs m)"
  using assms
proof (induction xs arbitrary: i m)
  case (Cons x xs)
  let ?m = "m(dest + i := x)"
  have dis: "a \<notin> {src + i..src + i + length (x # xs)}" if "a \<in> {dest + i..dest + i + length (x # xs)}" for a
    using Cons.prems(2) that by blast
  have "cstr ?m (src + (i + 1)) xs"
    using Cons.prems(1) dis [of "dest + i"] by (subst cstr_frame [where m = m]) auto
  moreover have "{dest + (i + 1)..dest + (i + 1) + length xs} \<inter> {src + (i + 1)..src + (i + 1) + length xs} = {}"
    using dis by fastforce
  ultimately have "strcpy_loop dest src (i + 1) ?m = Some (i + 1 + length xs, put_bytes (dest + (i + 1)) xs ?m)"
    by (rule Cons.IH)
  then show ?case using Cons.prems(1) by (subst strcpy_loop.simps) simp
qed (subst strcpy_loop.simps, simp)

lemma strcpy_ok:
  assumes "cstr m src xs" "{dest..dest + length xs} \<inter> {src..src + length xs} = {}"
  shows "strcpy dest src m = Some (dest, put_bytes dest (xs @ [0]) m)"
  using strcpy_loop_ok [of m src 0 xs dest] assms by (simp add: strcpy_def put_bytes_snoc)

lemma strcat_ok:
  assumes "cstr m dest ys" "cstr m src xs" "{dest + length ys..dest + length ys + length xs} \<inter> {src..src + length xs} = {}"
  shows "strcat dest src m = Some (dest, put_bytes (dest + length ys) (xs @ [0]) m)"
  using strlen_ok [OF assms(1)] strcpy_ok [OF assms(2,3)] by (simp add: strcat_def)

section \<open>Comparison and search\<close>

definition scmp :: "u8 list \<Rightarrow> u8 list \<Rightarrow> int" where
  "scmp xs ys = (if xs = ys then 0 else if xs < ys then - 1 else 1)"

lemma strcmp_loop_ok:
  assumes "cstr m (a + i) xs" "cstr m (b + i) ys"
  shows "\<exists>j. strcmp_loop m a b i = Some j \<and>
    (if m (a + j) > m (b + j) then 1 else if m (a + j) = m (b + j) then 0 else - 1) = scmp xs ys"
  using assms
proof (induction xs arbitrary: i ys)
  case Nil
  then have "strcmp_loop m a b i = Some i" by (subst strcmp_loop.simps) simp
  moreover have "m (b + i) = 0 \<longleftrightarrow> ys = []" using Nil.prems(2) by (cases ys) auto
  ultimately show ?case using Nil
    by (cases ys) (auto simp: scmp_def word_gt_0 intro!: exI [of _ i])
next
  case (Cons x xs)
  show ?case
  proof (cases "\<exists>zs. ys = x # zs")
    case True
    then obtain zs where ys: "ys = x # zs" by blast
    have "strcmp_loop m a b i = strcmp_loop m a b (i + 1)"
      using Cons.prems ys by (subst strcmp_loop.simps) simp
    moreover have "scmp (x # xs) ys = scmp xs zs" by (simp add: scmp_def ys)
    ultimately show ?thesis using Cons.IH [of "i + 1" zs] Cons.prems ys by simp
  next
    case False
    then have ne: "m (b + i) \<noteq> x" using Cons.prems(2) Cons.prems(1) by (cases ys) auto
    then have "strcmp_loop m a b i = Some i" using Cons.prems(1) by (subst strcmp_loop.simps) auto
    moreover have "scmp (x # xs) ys = (if x > m (b + i) then 1 else - 1)"
      using Cons.prems False ne by (cases ys) (auto simp: scmp_def word_gt_0 not_less_iff_gr_or_eq)
    ultimately show ?thesis using Cons.prems(1) ne by (intro exI [of _ i]) auto
  qed
qed

lemma strcmp_ok: "cstr m a xs \<Longrightarrow> cstr m b ys \<Longrightarrow> strcmp m a b = Some (scmp xs ys)"
  using strcmp_loop_ok [of m a 0 xs b ys] by (auto simp: strcmp_def)

definition first_at :: "u8 \<Rightarrow> u8 list \<Rightarrow> nat option" where
  "first_at c xs = (if c = 0 then Some (length xs) else if c \<in> set xs then Some (length (takeWhile (\<lambda>x. x \<noteq> c) xs)) else None)"

lemma strchr_loop_ok: "cstr m s xs \<Longrightarrow> strchr_loop m c s = Some (map_option ((+) s) (first_at c xs))"
proof (induction xs arbitrary: s)
  case (Cons x xs)
  show ?case
  proof (cases "x = c")
    case True
    then show ?thesis using Cons.prems by (subst strchr_loop.simps) (simp add: first_at_def)
  next
    case False
    then have "strchr_loop m c s = strchr_loop m c (s + 1)" using Cons.prems by (subst strchr_loop.simps) simp
    then show ?thesis using Cons.IH [of "Suc s"] Cons.prems False by (auto simp: first_at_def)
  qed
qed (subst strchr_loop.simps, auto simp: first_at_def)

lemma strchr_ok: "cstr m s xs \<Longrightarrow> strchr m s ch = Some (map_option ((+) s) (first_at (ucast ch) xs))"
  by (simp add: strchr_def strchr_loop_ok)

lemma strrchr_loop_ok: "strrchr_loop m s c n = (if \<exists>i<n. m (s + i) = c then Some (s + Max {i. i < n \<and> m (s + i) = c}) else None)"
proof (induction n)
  case (Suc n)
  show ?case
  proof (cases "m (s + n) = c")
    case True
    then have "Max {i. i < Suc n \<and> m (s + i) = c} = n" by (intro Max_eqI) auto
    then show ?thesis using True by auto
  next
    case False
    then have "{i. i < Suc n \<and> m (s + i) = c} = {i. i < n \<and> m (s + i) = c}" by (auto simp: less_Suc_eq)
    then show ?thesis using Suc False by (auto simp: less_Suc_eq)
  qed
qed simp

lemma strrchr_ok:
  assumes "cstr m s xs"
  shows "strrchr m s ch = Some (if ucast ch \<in> set (xs @ [0]) then Some (s + Max {i. i \<le> length xs \<and> (xs @ [0]) ! i = ucast ch}) else None)"
proof -
  have at: "i < length xs + 1 \<Longrightarrow> m (s + i) = (xs @ [0]) ! i" for i
    using cstr_at [OF assms, of i] cstr_end [OF assms] by (cases "i = length xs") (auto simp: nth_append)
  then have "{i. i < length xs + 1 \<and> m (s + i) = ucast ch} = {i. i \<le> length xs \<and> (xs @ [0]) ! i = ucast ch}" by auto
  moreover have "(\<exists>i<length xs + 1. m (s + i) = ucast ch) \<longleftrightarrow> ucast ch \<in> set (xs @ [0])"
    using at unfolding in_set_conv_nth by auto
  ultimately show ?thesis by (simp only: strrchr_def strlen_ok [OF assms] strrchr_loop_ok Option.bind.simps)
qed

section \<open>Tokens\<close>

lemma ucast_ucast_byte: "ucast (ucast (x :: u8) :: u32) = x"
  by (rule bit_word_eqI) (auto simp: bit_simps dest: bit_imp_le_length)

lemma tok_loop_ok:
  assumes "cstr m seps ss" "cstr m p xs"
  shows "tok_loop m seps want p = Some (p + length (takeWhile (\<lambda>x. (x \<in> set ss) = want) xs))"
  using assms(2)
proof (induction xs arbitrary: p)
  case (Cons x xs)
  then have "strchr m seps (ucast (m p)) = Some (map_option ((+) seps) (first_at x ss))"
    by (simp add: strchr_ok [OF assms(1)] ucast_ucast_byte)
  moreover have "first_at x ss \<noteq> None \<longleftrightarrow> x \<in> set ss" using Cons.prems by (auto simp: first_at_def)
  ultimately have "tok_loop m seps want p = (if (x \<in> set ss) = want then tok_loop m seps want (p + 1) else Some p)"
    using Cons.prems by (subst tok_loop.simps) auto
  then show ?case using Cons.IH [of "Suc p"] Cons.prems by auto
qed (subst tok_loop.simps, simp)

lemma strtok_r_ok:
  assumes "cstr m seps ss" "cstr m p xs" and dis: "{p..p + length xs} \<inter> {seps..seps + length ss} = {}"
    and p: "str = Some p \<or> str = None \<and> ctx = Some p"
    and ys: "ys = dropWhile (\<lambda>x. x \<in> set ss) xs" and w: "w = takeWhile (\<lambda>x. x \<notin> set ss) ys" and r: "r = dropWhile (\<lambda>x. x \<notin> set ss) ys"
  shows "ys = [] \<Longrightarrow> strtok_r str seps ctx m = Some (None, None, m)"
    "ys \<noteq> [] \<Longrightarrow> r = [] \<Longrightarrow> strtok_r str seps ctx m = Some (Some (p + (length xs - length ys)), None, m) \<and>
       cstr m (p + (length xs - length ys)) w"
    "ys \<noteq> [] \<Longrightarrow> r \<noteq> [] \<Longrightarrow> \<exists>m' c. strtok_r str seps ctx m = Some (Some (p + (length xs - length ys)), Some c, m') \<and>
       cstr m' (p + (length xs - length ys)) w \<and> cstr m' c (tl r) \<and> cstr m' seps ss \<and> c + length (tl r) = p + length xs"
proof -
  define us where "us = takeWhile (\<lambda>x. x \<in> set ss) xs"
  have xs: "xs = us @ ys" by (simp add: us_def ys)
  have h: "tok_loop m seps True p = Some (p + length us)" using tok_loop_ok [OF assms(1,2), of True] by (simp add: us_def)
  have len: "length xs - length ys = length us" by (simp add: xs)
  have cy: "cstr m (p + length us) ys" by (rule cstr_drop [OF xs assms(2)])
  have yw: "ys = w @ r" by (simp add: w r)
  have t: "tok_loop m seps False (p + length us) = Some (p + length us + length w)"
    using tok_loop_ok [OF assms(1) cy, of False] by (simp add: w)
  have cr: "cstr m (p + length us + length w) r" by (rule cstr_drop [OF yw cy])
  have start: "strtok_r str seps ctx m = (if m (p + length us) = 0 then Some (None, None, m) else
      if m (p + length us + length w) = 0 then Some (Some (p + length us), None, m)
      else Some (Some (p + length us), Some (p + length us + length w + 1), m(p + length us + length w := 0)))"
    using p h t by (auto simp: strtok_r_def)
  show "strtok_r str seps ctx m = Some (None, None, m)" if "ys = []" using start cy that by simp
  have nz: "m (p + length us) \<noteq> 0" if "ys \<noteq> []" using cy that by (cases ys) auto
  show "strtok_r str seps ctx m = Some (Some (p + (length xs - length ys)), None, m) \<and> cstr m (p + (length xs - length ys)) w"
    if "ys \<noteq> []" "r = []"
    unfolding len using start nz [OF that(1)] cr that cy yw by simp
  assume ne: "ys \<noteq> []" "r \<noteq> []"
  then obtain z zs where zs: "r = z # zs" by (cases r) auto
  let ?m = "m(p + length us + length w := 0)"
  have "m (p + length us + length w) \<noteq> 0" using cr zs by simp
  then have run: "strtok_r str seps ctx m = Some (Some (p + length us), Some (p + length us + length w + 1), ?m)"
    using start nz [OF ne(1)] by simp
  have cw: "cstr ?m (p + length us) w"
  proof -
    have "cstr ?m (p + length us) (w @ []) \<longleftrightarrow> (\<forall>i<length w. ?m (p + length us + i) = w ! i \<and> w ! i \<noteq> 0) \<and> cstr ?m (p + length us + length w) []"
      by (rule cstr_append)
    moreover have "\<forall>i<length w. m (p + length us + i) = w ! i \<and> w ! i \<noteq> 0"
      using cy unfolding yw cstr_append by blast
    ultimately show ?thesis by auto
  qed
  have cz: "cstr ?m (p + length us + length w + 1) zs" using cr zs by (subst cstr_frame [where m = m]) auto
  have "p + length us + length w \<notin> {seps..seps + length ss}" using dis xs yw zs by auto
  then have cs: "cstr ?m seps ss" using assms(1) by (subst cstr_frame [where m = m]) auto
  have "p + length us + length w + 1 + length zs = p + length xs" by (simp add: xs yw zs)
  with run cw cz cs zs show "\<exists>m' c. strtok_r str seps ctx m = Some (Some (p + (length xs - length ys)), Some c, m') \<and>
       cstr m' (p + (length xs - length ys)) w \<and> cstr m' c (tl r) \<and> cstr m' seps ss \<and> c + length (tl r) = p + length xs"
    unfolding len by (intro exI [of _ ?m] exI [of _ "p + length us + length w + 1"]) simp
qed

section \<open>Numbers\<close>

definition ascii_digit :: "nat \<Rightarrow> u8" where "ascii_digit d = of_nat (48 + d)"

definition digit_chars :: "u8 list" where "digit_chars = map ascii_digit [0..<10]"

fun decimal :: "nat \<Rightarrow> nat list" where
  "decimal n = (if n < 10 then [n] else decimal (n div 10) @ [n mod 10])"

declare decimal.simps [simp del]

lemma decimal_digits: "d \<in> set (decimal n) \<Longrightarrow> d < 10"
  by (induction n rule: decimal.induct) (subst (asm) (2) decimal.simps, auto split: if_splits)

lemma decimal_value: "foldl (\<lambda>v d. v * 10 + of_nat d) 0 (decimal n) = (of_nat n :: u32)"
proof (induction n rule: decimal.induct)
  case (1 n)
  have "(of_nat (n div 10) * 10 + of_nat (n mod 10) :: u32) = of_nat (n div 10 * 10 + n mod 10)" by (simp only: of_nat_add of_nat_mult of_nat_numeral)
  then show ?case using 1 by (subst decimal.simps) simp
qed

lemma digit_cases: "d < 10 \<Longrightarrow> d = 0 \<or> d = 1 \<or> d = 2 \<or> d = 3 \<or> d = 4 \<or> d = 5 \<or> d = 6 \<or> d = 7 \<or> d = 8 \<or> d = (9::nat)"
  by presburger

lemma digit_chars_eq: "digit_chars = [48, 49, 50, 51, 52, 53, 54, 55, 56, 57]"
  by (simp add: digit_chars_def ascii_digit_def upt_rec)

lemma first_at_digit: "d < 10 \<Longrightarrow> first_at (ascii_digit d) digit_chars = Some d"
  by (drule digit_cases) (elim disjE; simp add: first_at_def ascii_digit_def digit_chars_eq)

lemma ascii_digit_no_blank: "d < 10 \<Longrightarrow> ascii_digit d \<noteq> 0 \<and> ascii_digit d \<noteq> 32 \<and> ascii_digit d \<noteq> 9 \<and> ascii_digit d \<noteq> 45 \<and> ascii_digit d \<noteq> 43"
  by (drule digit_cases) (elim disjE; simp add: ascii_digit_def)

lemma atoi_loop_ok:
  assumes D: "cstr m digits digit_chars" and "cstr m s (map ascii_digit ds @ rest)" "\<forall>d\<in>set ds. d < 10"
    and rest: "rest = [] \<or> first_at (hd rest) digit_chars = None"
  shows "atoi_loop m digits s val = Some (foldl (\<lambda>v d. v * 10 + of_nat d) val ds)"
  using assms(2,3)
proof (induction ds arbitrary: s val)
  case Nil
  show ?case
  proof (cases rest)
    case (Cons c cs)
    then have "strchr m digits (ucast (m s)) = Some None"
      using Nil rest by (simp add: strchr_ok [OF D] ucast_ucast_byte)
    then show ?thesis using Nil Cons by (subst atoi_loop.simps) simp
  qed (use Nil in \<open>subst atoi_loop.simps, simp\<close>)
next
  case (Cons d ds)
  have "strchr m digits (ucast (m s)) = Some (Some (digits + d))"
    using Cons.prems by (simp add: strchr_ok [OF D] ucast_ucast_byte first_at_digit)
  then have "atoi_loop m digits s val = atoi_loop m digits (s + 1) (val * 10 + of_nat d)"
    using Cons.prems by (subst atoi_loop.simps) auto
  then show ?case using Cons.IH [of "Suc s"] Cons.prems by simp
qed

lemma skip_blank_ok:
  "cstr m s (replicate k 32 @ x # xs) \<Longrightarrow> x \<noteq> 32 \<Longrightarrow> x \<noteq> 9 \<Longrightarrow> skip_blank m s = Some (s + k)"
  by (induction k arbitrary: s) (subst skip_blank.simps, simp)+

section \<open>Properties\<close>

text \<open>
  \<open>strcat\<close> on two terminated strings that do not overlap returns and leaves at the destination
  the concatenation of both strings, terminated, and every byte outside the appended part as it
  was; \<open>strlen\<close> then measures the sum of the lengths.
\<close>

theorem strcat_appends:
  assumes "cstr m dest ys" "cstr m src xs" "{dest..dest + length ys + length xs} \<inter> {src..src + length xs} = {}"
  shows "\<exists>m'. strcat dest src m = Some (dest, m') \<and> cstr m' dest (ys @ xs) \<and> strlen m' dest = Some (length ys + length xs) \<and>
    (\<forall>a. a < dest + length ys \<or> dest + length ys + length xs < a \<longrightarrow> m' a = m a)"
proof -
  let ?m = "put_bytes (dest + length ys) (xs @ [0]) m"
  have "{dest + length ys..dest + length ys + length xs} \<inter> {src..src + length xs} = {}" using assms(3) by auto
  then have run: "strcat dest src m = Some (dest, ?m)" by (rule strcat_ok [OF assms(1,2)])
  have below: "a < dest + length ys \<Longrightarrow> ?m a = m a" for a by (rule put_bytes_below)
  have "cstr ?m (dest + length ys) xs" by (rule cstr_put [OF cstr_no_zero [OF assms(2)]])
  then have c: "cstr ?m dest (ys @ xs)" using cstr_at [OF assms(1)] below by (simp add: cstr_append) (metis nat_add_left_cancel_less)
  have "a > dest + length ys + length xs \<Longrightarrow> ?m a = m a" for a by (rule put_bytes_above) simp
  then show ?thesis using run c strlen_ok [OF c] below by (intro exI [of _ ?m]) auto
qed

definition ex_mem :: "cmem" where
  "ex_mem = put_bytes 100 [97, 98, 0] (put_bytes 200 [99, 0] (put_bytes 300 (digit_chars @ [0]) (put_bytes 400 [32, 45, 52, 50, 0] (\<lambda>_. 0))))"

lemma ex_mem_strings: "cstr ex_mem 100 [97, 98]" "cstr ex_mem 200 [99]" "cstr ex_mem 300 digit_chars" "cstr ex_mem 400 [32, 45, 52, 50]"
  by (simp_all add: ex_mem_def digit_chars_eq)

theorem strcat_appends_witness: "\<exists>m'. strcat 100 200 ex_mem = Some (100, m') \<and> cstr m' 100 [97, 98, 99]"
  using strcat_appends [OF ex_mem_strings(1,2)] by auto

text \<open>
  \<open>strcmp\<close> on two terminated strings returns 0 exactly when they are equal, and otherwise its
  sign is the lexicographic order of the strings as unsigned bytes.
\<close>

theorem strcmp_is_lexicographic:
  assumes "cstr m a xs" "cstr m b ys"
  shows "\<exists>r. strcmp m a b = Some r \<and> (r = 0 \<longleftrightarrow> xs = ys) \<and> (r < 0 \<longleftrightarrow> xs < ys) \<and> (r > 0 \<longleftrightarrow> ys < xs)"
  using strcmp_ok [OF assms] by (auto simp: scmp_def)

theorem strcmp_is_lexicographic_witness: "\<exists>r. strcmp ex_mem 100 200 = Some r \<and> r < 0"
  using strcmp_is_lexicographic [OF ex_mem_strings(1,2)] by auto

text \<open>
  \<open>strtok_r\<close>: skipping leading separators, it returns the next word, terminated in place, and a
  context that is the terminated rest of the string after the separator; when only separators
  are left it returns NULL.
\<close>

theorem strtok_r_next_word:
  assumes "cstr m seps ss" "cstr m p xs" "{p..p + length xs} \<inter> {seps..seps + length ss} = {}"
    "str = Some p \<or> str = None \<and> ctx = Some p" "ys = dropWhile (\<lambda>x. x \<in> set ss) xs"
  shows "\<exists>h ctx' m'. strtok_r str seps ctx m = Some (h, ctx', m') \<and> (h = None \<longleftrightarrow> ys = []) \<and>
    (\<forall>q. h = Some q \<longrightarrow> cstr m' q (takeWhile (\<lambda>x. x \<notin> set ss) ys)) \<and>
    (\<forall>c. ctx' = Some c \<longrightarrow> cstr m' c (tl (dropWhile (\<lambda>x. x \<notin> set ss) ys)) \<and> cstr m' seps ss) \<and>
    (ctx' = None \<longleftrightarrow> dropWhile (\<lambda>x. x \<notin> set ss) ys = [])"
  using strtok_r_ok [OF assms refl refl]
  by (cases "ys = []"; cases "dropWhile (\<lambda>x. x \<notin> set ss) ys = []") auto

theorem strtok_r_next_word_witness:
  "\<exists>h ctx' m'. strtok_r (Some 400) 200 None ex_mem = Some (h, ctx', m') \<and> (\<forall>q. h = Some q \<longrightarrow> cstr m' q [32, 45, 52, 50])"
  using strtok_r_next_word [OF ex_mem_strings(2,4), of "Some 400" None, OF _ _ refl] by auto

text \<open>
  \<open>atoi\<close> reads back what decimal printing writes: after any number of blanks and an optional
  minus sign, the digits of \<open>n\<close> give \<open>n\<close> (or its negation) modulo \<open>2 ^ 32\<close>, whatever follows that
  is not a digit.
\<close>

theorem atoi_reads_decimal:
  assumes "cstr m digits digit_chars" "cstr m s (replicate k 32 @ (if neg then [45] else []) @ map ascii_digit (decimal n) @ rest)"
    "rest = [] \<or> first_at (hd rest) digit_chars = None"
  shows "atoi m digits s = Some (if neg then - of_nat n else of_nat n)"
proof -
  obtain d ds where d: "decimal n = d # ds" by (cases "decimal n") (auto simp: decimal.simps [of n] split: if_splits)
  have dd: "\<forall>d\<in>set (decimal n). d < 10" using decimal_digits by blast
  then have d9: "d < 10" using d by simp
  have sk: "skip_blank m s = Some (s + k)"
    using skip_blank_ok [of m s k] assms(2) ascii_digit_no_blank [OF d9] d by (cases neg) auto
  have c: "cstr m (s + k) ((if neg then [45] else []) @ map ascii_digit (decimal n) @ rest)"
    using cstr_drop [OF refl assms(2)] by simp
  let ?s = "s + k + (if neg then 1 else 0)"
  have "cstr m ?s (map ascii_digit (decimal n) @ rest)" using c by (cases neg) auto
  from atoi_loop_ok [OF assms(1) this dd assms(3), of 0]
  have l: "atoi_loop m digits ?s 0 = Some (of_nat n)" by (simp add: decimal_value)
  show ?thesis
  proof (cases neg)
    case True
    then show ?thesis using sk l c by (simp add: atoi_def)
  next
    case False
    then have "m (s + k) = ascii_digit d" using c d by simp
    then show ?thesis using False sk l ascii_digit_no_blank [OF d9] by (simp add: atoi_def)
  qed
qed

theorem atoi_reads_decimal_witness: "atoi ex_mem 300 400 = Some (- 42)"
proof -
  have "decimal 42 = [4, 2]" by (simp add: decimal.simps)
  then have "cstr ex_mem 400 (replicate 1 32 @ (if True then [45] else []) @ map ascii_digit (decimal 42) @ [])"
    using ex_mem_strings(4) by (simp add: ascii_digit_def)
  from atoi_reads_decimal [OF ex_mem_strings(3) this] show ?thesis by simp
qed

end
