(* ===== verification/Copyinout.thy ===== *)
theory Copyinout
  imports Cstring
begin

text \<open>
  \<open>kern/vm/copyinout.c\<close>: copying blocks and strings between kernel and user memory. User pointers
  and lengths are 32-bit words, as \<open>copycheck\<close> computes with them; memory is that of \<open>Cmem\<close>.
  Which user addresses can be accessed is up to the address space, so it is a parameter \<open>ok\<close>; an
  access to an address that is not \<open>ok\<close> is the fault that \<open>tm_badfaultfunc\<close> turns into
  \<open>EFAULT\<close>, with the bytes before it copied. \<open>tm_badfaultfunc\<close> is modelled as whether the field is
  set: leaving it set would make later kernel faults look like user faults.
\<close>

abbreviation USERSPACETOP :: u32 where "USERSPACETOP \<equiv> 0x80000000"

record ucopy =
  uc_mem :: cmem
  tm_badfaultfunc :: bool

definition copycheck :: "u32 \<Rightarrow> u32 \<Rightarrow> errno \<times> u32" where
  "copycheck userptr len =
     (let stoplen = len; bot = userptr; top = bot + len - 1 in
      if top < bot then (EFAULT, stoplen)
      else if bot \<ge> USERSPACETOP then (EFAULT, stoplen)
      else if top \<ge> USERSPACETOP then (0, USERSPACETOP - bot)
      else (0, stoplen))"

text \<open>\<open>memcpy\<close> under fault protection: \<open>u\<close> is the side that is user memory.\<close>

definition memcpy_fault :: "(nat \<Rightarrow> bool) \<Rightarrow> nat \<Rightarrow> nat \<Rightarrow> nat \<Rightarrow> nat \<Rightarrow> cmem \<Rightarrow> bool \<times> cmem" where
  "memcpy_fault ok u dst src n m =
     (let k = length (takeWhile (\<lambda>i. ok (u + i)) [0..<n]) in (k = n, snd (memcpy dst src k m)))"

definition copyin :: "(nat \<Rightarrow> bool) \<Rightarrow> u32 \<Rightarrow> nat \<Rightarrow> u32 \<Rightarrow> ucopy \<Rightarrow> errno \<times> ucopy" where
  "copyin ok usersrc dest len s =
     (let (result, stoplen) = copycheck usersrc len in
      if result \<noteq> 0 then (result, s)
      else if stoplen \<noteq> len then (EFAULT, s)
      else
        (let s = s\<lparr>tm_badfaultfunc := True\<rparr>;
             (fine, m) = memcpy_fault ok (unat usersrc) dest (unat usersrc) (unat len) (uc_mem s);
             s = s\<lparr>uc_mem := m, tm_badfaultfunc := False\<rparr>
         in if fine then (0, s) else (EFAULT, s)))"

definition copyout :: "(nat \<Rightarrow> bool) \<Rightarrow> nat \<Rightarrow> u32 \<Rightarrow> u32 \<Rightarrow> ucopy \<Rightarrow> errno \<times> ucopy" where
  "copyout ok src userdest len s =
     (let (result, stoplen) = copycheck userdest len in
      if result \<noteq> 0 then (result, s)
      else if stoplen \<noteq> len then (EFAULT, s)
      else
        (let s = s\<lparr>tm_badfaultfunc := True\<rparr>;
             (fine, m) = memcpy_fault ok (unat userdest) (unat userdest) src (unat len) (uc_mem s);
             s = s\<lparr>uc_mem := m, tm_badfaultfunc := False\<rparr>
         in if fine then (0, s) else (EFAULT, s)))"

text \<open>\<open>copystr\<close> either faults in its loop or returns a code, and the length found when that is 0.\<close>

datatype copyres = CFault cmem | CRet errno "nat option" cmem

function copystr_loop :: "(nat \<Rightarrow> bool) \<Rightarrow> (nat \<Rightarrow> bool) \<Rightarrow> nat \<Rightarrow> nat \<Rightarrow> nat \<Rightarrow> nat \<Rightarrow> nat \<Rightarrow> cmem \<Rightarrow> copyres" where
  "copystr_loop okd oks dest src maxlen stoplen i m =
     (if i < maxlen \<and> i < stoplen then
        (if \<not> oks (src + i) \<or> \<not> okd (dest + i) then CFault m
         else
           (let m = m(dest + i := m (src + i)) in
            if m (src + i) = 0 then CRet 0 (Some (i + 1)) m
            else copystr_loop okd oks dest src maxlen stoplen (i + 1) m))
      else if stoplen < maxlen then CRet EFAULT None m
      else CRet ENAMETOOLONG None m)"
  by pat_completeness auto
termination by (relation "measure (\<lambda>(okd, oks, dest, src, maxlen, stoplen, i, m). maxlen - i)") auto

declare copystr_loop.simps [simp del]

definition copystr :: "(nat \<Rightarrow> bool) \<Rightarrow> (nat \<Rightarrow> bool) \<Rightarrow> nat \<Rightarrow> nat \<Rightarrow> nat \<Rightarrow> nat \<Rightarrow> cmem \<Rightarrow> copyres" where
  "copystr okd oks dest src maxlen stoplen m = copystr_loop okd oks dest src maxlen stoplen 0 m"

definition finish_copystr :: "ucopy \<Rightarrow> copyres \<Rightarrow> errno \<times> nat option \<times> ucopy" where
  "finish_copystr s r =
     (case r of CFault m \<Rightarrow> (EFAULT, None, s\<lparr>uc_mem := m, tm_badfaultfunc := False\<rparr>)
      | CRet e n m \<Rightarrow> (e, n, s\<lparr>uc_mem := m, tm_badfaultfunc := False\<rparr>))"

definition copyinstr :: "(nat \<Rightarrow> bool) \<Rightarrow> u32 \<Rightarrow> nat \<Rightarrow> u32 \<Rightarrow> ucopy \<Rightarrow> errno \<times> nat option \<times> ucopy" where
  "copyinstr ok usersrc dest len s =
     (let (result, stoplen) = copycheck usersrc len in
      if result \<noteq> 0 then (result, None, s)
      else
        (let s = s\<lparr>tm_badfaultfunc := True\<rparr>
         in finish_copystr s (copystr (\<lambda>_. True) ok dest (unat usersrc) (unat len) (unat stoplen) (uc_mem s))))"

definition copyoutstr :: "(nat \<Rightarrow> bool) \<Rightarrow> nat \<Rightarrow> u32 \<Rightarrow> u32 \<Rightarrow> ucopy \<Rightarrow> errno \<times> nat option \<times> ucopy" where
  "copyoutstr ok src userdest len s =
     (let (result, stoplen) = copycheck userdest len in
      if result \<noteq> 0 then (result, None, s)
      else
        (let s = s\<lparr>tm_badfaultfunc := True\<rparr>
         in finish_copystr s (copystr ok (\<lambda>_. True) (unat userdest) src (unat len) (unat stoplen) (uc_mem s))))"

section \<open>The range check\<close>

lemma top_nowrap:
  assumes "(len::u32) \<noteq> 0"
  shows "p + len - 1 < p \<longleftrightarrow> 2 ^ 32 < unat p + unat len"
    "unat p + unat len \<le> 2 ^ 32 \<Longrightarrow> unat (p + len - 1) = unat p + unat len - 1"
proof -
  have l: "unat (len - 1) = unat len - 1" "0 < unat len" using assms by (simp_all add: unat_minus_one unat_gt_0)
  have e: "unat (p + len - 1) = (unat p + (unat len - 1)) mod 2 ^ 32"
    using unat_word_ariths(1) [of p "len - 1"] by (simp add: l(1) add_diff_eq)
  have b: "unat p < 2 ^ 32" "unat len < 2 ^ 32" using unsigned_less [of p, where ?'a = nat] unsigned_less [of len, where ?'a = nat] by simp_all
  show *: "unat (p + len - 1) = unat p + unat len - 1" if "unat p + unat len \<le> 2 ^ 32"
    using e l(2) that by simp
  show "p + len - 1 < p \<longleftrightarrow> 2 ^ 32 < unat p + unat len"
  proof (cases "2 ^ 32 < unat p + unat len")
    case True
    then have "(unat p + (unat len - 1)) mod 2 ^ 32 = unat p + (unat len - 1) - 2 ^ 32"
      using b l(2) by (subst le_mod_geq) simp_all
    then show ?thesis using e b l(2) True by (simp add: word_less_nat_alt)
  next
    case False
    then show ?thesis using * l(2) by (simp add: word_less_nat_alt)
  qed
qed

text \<open>The check refuses every empty range: a copy of length 0 never succeeds.\<close>

lemma copycheck_zero: "fst (copycheck p 0) = EFAULT \<or> snd (copycheck p 0) \<noteq> 0"
proof (cases "p = 0")
  case False
  then have "p - 1 < p" by (simp add: word_less_nat_alt unat_minus_one unat_gt_0)
  then show ?thesis by (simp add: copycheck_def Let_def)
qed (simp add: copycheck_def Let_def)

lemma copycheck_ok:
  assumes "len \<noteq> 0"
  shows "fst (copycheck p len) = 0 \<longleftrightarrow> unat p < 2 ^ 31 \<and> unat p + unat len \<le> 2 ^ 32"
    "fst (copycheck p len) = 0 \<Longrightarrow> unat (snd (copycheck p len)) = min (unat len) (2 ^ 31 - unat p)"
proof -
  have bot: "p \<ge> USERSPACETOP \<longleftrightarrow> 2 ^ 31 \<le> unat p" by (simp add: word_le_nat_alt)
  show iff: "fst (copycheck p len) = 0 \<longleftrightarrow> unat p < 2 ^ 31 \<and> unat p + unat len \<le> 2 ^ 32"
    using top_nowrap(1) [OF assms, of p] bot by (auto simp: copycheck_def Let_def)
  assume "fst (copycheck p len) = 0"
  then have r: "unat p < 2 ^ 31" "unat p + unat len \<le> 2 ^ 32" using iff by simp_all
  have top: "p + len - 1 \<ge> USERSPACETOP \<longleftrightarrow> 2 ^ 31 \<le> unat p + unat len - 1"
    using top_nowrap(2) [OF assms r(2)] by (simp add: word_le_nat_alt)
  have "unat (USERSPACETOP - p) = 2 ^ 31 - unat p" using r(1) by (subst unat_sub) (simp_all add: word_le_nat_alt)
  then show "unat (snd (copycheck p len)) = min (unat len) (2 ^ 31 - unat p)"
    using top_nowrap(1) [OF assms, of p] bot top r by (auto simp: copycheck_def Let_def)
qed

definition user_range :: "u32 \<Rightarrow> u32 \<Rightarrow> bool" where
  "user_range p len \<longleftrightarrow> len \<noteq> 0 \<and> unat p + unat len \<le> 2 ^ 31"

lemma copycheck_block: "fst (copycheck p len) = 0 \<and> snd (copycheck p len) = len \<longleftrightarrow> user_range p len"
proof (cases "len = 0")
  case True
  then show ?thesis using copycheck_zero [of p] by (auto simp: user_range_def)
next
  case False
  have "snd (copycheck p len) = len \<longleftrightarrow> unat (snd (copycheck p len)) = unat len" by (simp add: word_unat_eq_iff)
  moreover have "0 < unat len" using False by (simp add: unat_gt_0)
  ultimately show ?thesis using copycheck_ok [OF False, of p] False by (auto simp: user_range_def)
qed

section \<open>Blocks\<close>

lemma leading_ok: "length (takeWhile P [0..<n]) = n \<longleftrightarrow> (\<forall>i<n. P i)"
proof -
  have "length (takeWhile P [0..<n]) = n \<longleftrightarrow> takeWhile P [0..<n] = [0..<n]"
    by (metis length_upt minus_nat.diff_0 takeWhile_eq_take take_all_iff order_refl)
  then show ?thesis by (auto simp: takeWhile_eq_all_conv)
qed

lemma leading_le: "length (takeWhile P [0..<n]) \<le> n"
  by (metis length_takeWhile_le length_upt minus_nat.diff_0)

lemma copyin_cases:
  "copyin ok p dest len s =
     (if user_range p len then
        (if \<forall>i<unat len. ok (unat p + i) then 0 else EFAULT,
         s\<lparr>uc_mem := snd (memcpy dest (unat p) (length (takeWhile (\<lambda>i. ok (unat p + i)) [0..<unat len])) (uc_mem s)),
           tm_badfaultfunc := False\<rparr>)
      else (EFAULT, s))"
  using copycheck_block [of p len]
  by (auto simp: copyin_def memcpy_fault_def Let_def leading_ok split: prod.splits)
    (auto simp: copycheck_def Let_def split: if_splits)

lemma copyout_cases:
  "copyout ok src p len s =
     (if user_range p len then
        (if \<forall>i<unat len. ok (unat p + i) then 0 else EFAULT,
         s\<lparr>uc_mem := snd (memcpy (unat p) src (length (takeWhile (\<lambda>i. ok (unat p + i)) [0..<unat len])) (uc_mem s)),
           tm_badfaultfunc := False\<rparr>)
      else (EFAULT, s))"
  using copycheck_block [of p len]
  by (auto simp: copyout_def memcpy_fault_def Let_def leading_ok split: prod.splits)
    (auto simp: copycheck_def Let_def split: if_splits)

section \<open>Strings\<close>

definition copy_mem :: "copyres \<Rightarrow> cmem" where
  "copy_mem r = (case r of CFault m \<Rightarrow> m | CRet _ _ m \<Rightarrow> m)"

text \<open>One round of the loop that does not fault.\<close>

lemma copystr_loop_step:
  assumes "i < maxlen" "i < stoplen" "oks (src + i)" "okd (dest + i)"
  shows "copystr_loop okd oks dest src maxlen stoplen i m =
    (if (m(dest + i := m (src + i))) (src + i) = 0 then CRet 0 (Some (i + 1)) (m(dest + i := m (src + i)))
     else copystr_loop okd oks dest src maxlen stoplen (i + 1) (m(dest + i := m (src + i))))"
  using assms by (subst copystr_loop.simps) (simp only: Let_def if_True if_False simp_thms)

text \<open>The loop writes at most the first \<open>stoplen\<close> bytes at \<open>dest\<close>.\<close>

lemma copystr_loop_frame:
  "a < dest + i \<or> dest + stoplen \<le> a \<Longrightarrow> copy_mem (copystr_loop okd oks dest src maxlen stoplen i m) a = m a"
proof (induction okd oks dest src maxlen stoplen i m rule: copystr_loop.induct)
  case (1 okd oks dest src maxlen stoplen i m)
  let ?m = "m(dest + i := m (src + i))"
  show ?case
  proof (cases "i < maxlen \<and> i < stoplen \<and> oks (src + i) \<and> okd (dest + i)")
    case True
    then have "?m a = m a" using "1.prems" by auto
    moreover have "?m (src + i) \<noteq> 0 \<Longrightarrow> copy_mem (copystr_loop okd oks dest src maxlen stoplen (i + 1) ?m) a = ?m a"
      by (rule "1.IH" [OF _ _ refl]) (use True "1.prems" in auto)
    moreover note copystr_loop_step [of i maxlen stoplen oks src okd dest m]
    moreover have "copy_mem (CRet 0 (Some (i + 1)) ?m) = ?m" by (simp add: copy_mem_def)
    ultimately show ?thesis using True by presburger
  next
    case False
    then show ?thesis by (subst copystr_loop.simps) (auto simp: copy_mem_def)
  qed
qed

lemma copystr_loop_ok:
  assumes "cstr m (src + i) xs" "{dest..<dest + stoplen} \<inter> {src..src + i + length xs} = {}" "i + length xs < maxlen" "i + length xs < stoplen"
    "\<And>j. j \<le> i + length xs \<Longrightarrow> oks (src + j) \<and> okd (dest + j)"
  shows "copystr_loop okd oks dest src maxlen stoplen i m = CRet 0 (Some (i + length xs + 1)) (put_bytes (dest + i) (xs @ [0]) m)"
  using assms
proof (induction xs arbitrary: i m)
  case Nil
  have "dest + i \<notin> {src..src + i}" using Nil.prems(2,4) by (auto simp: disjoint_iff)
  then show ?case using Nil.prems by (subst copystr_loop.simps) (auto simp: Let_def)
next
  case (Cons x xs)
  let ?m = "m(dest + i := x)"
  have di: "dest + i \<notin> {src..src + i + length (x # xs)}" using Cons.prems(2,4) by (auto simp: disjoint_iff)
  have "cstr ?m (src + (i + 1)) xs" using Cons.prems(1) di by (subst cstr_frame [where m = m]) auto
  then have "copystr_loop okd oks dest src maxlen stoplen (i + 1) ?m = CRet 0 (Some (i + 1 + length xs + 1)) (put_bytes (dest + (i + 1)) (xs @ [0]) ?m)"
    by (rule Cons.IH) (use Cons.prems(2-5) in auto)
  moreover have "copystr_loop okd oks dest src maxlen stoplen i m = copystr_loop okd oks dest src maxlen stoplen (i + 1) ?m"
    using Cons.prems di by (subst copystr_loop.simps) (auto simp: Let_def)
  ultimately show ?case by simp
qed

lemma copystr_loop_toolong:
  assumes "maxlen \<le> stoplen" "{dest..<dest + maxlen} \<inter> {src..<src + maxlen} = {}"
    "\<And>j. j < maxlen \<Longrightarrow> oks (src + j) \<and> okd (dest + j) \<and> m0 (src + j) \<noteq> 0" "\<And>j. m (src + j) = m0 (src + j) \<or> maxlen \<le> j"
  shows "\<exists>m'. copystr_loop okd oks dest src maxlen stoplen i m = CRet ENAMETOOLONG None m'"
  using assms
proof (induction okd oks dest src maxlen stoplen i m rule: copystr_loop.induct)
  case (1 okd oks dest src maxlen stoplen i m)
  show ?case
  proof (cases "i < maxlen")
    case True
    let ?m = "m(dest + i := m (src + i))"
    have d: "src + j \<noteq> dest + i" if "j < maxlen" for j using "1.prems"(2) True that by (auto simp: disjoint_iff)
    have keep: "?m (src + j) = m0 (src + j) \<or> maxlen \<le> j" for j using "1.prems"(4) [of j] d [of j] by auto
    have "\<exists>m'. copystr_loop okd oks dest src maxlen stoplen (i + 1) ?m = CRet ENAMETOOLONG None m'"
    proof (rule "1.IH" [OF _ _ refl])
      show "i < maxlen \<and> i < stoplen" "\<not> (\<not> oks (src + i) \<or> \<not> okd (dest + i))" using "1.prems"(1,3) True by auto
      show "?m (src + i) \<noteq> 0" using keep [of i] "1.prems"(3) [of i] True by (metis linorder_not_less)
    qed (use "1.prems" keep in blast)+
    moreover have "?m (src + i) \<noteq> 0" using keep [of i] "1.prems"(3) [of i] True by (metis linorder_not_less)
    ultimately show ?thesis using True "1.prems"(1) "1.prems"(3) [of i] by (simp only: copystr_loop_step if_False order_less_le_trans)
  next
    case False
    then show ?thesis using "1.prems"(1) by (subst copystr_loop.simps) auto
  qed
qed

lemma copystr_frame: "a < dest \<or> dest + stoplen \<le> a \<Longrightarrow> copy_mem (copystr okd oks dest src maxlen stoplen m) a = m a"
  unfolding copystr_def by (rule copystr_loop_frame) simp

lemma finish_copystr_sel [simp]:
  "uc_mem (snd (snd (finish_copystr s r))) = copy_mem r" "tm_badfaultfunc (snd (snd (finish_copystr s r))) = False"
  by (simp_all add: finish_copystr_def copy_mem_def split: copyres.splits)

section \<open>Properties\<close>

text \<open>
  C25. No user pointer makes the kernel overwrite itself: whatever destination address and length a
  process passes, \<open>copyout\<close> and \<open>copyoutstr\<close> leave every byte at or above \<open>USERSPACETOP\<close> as it
  was, and never return with the fault handler still installed.
\<close>

theorem copyout_protects_kernel:
  assumes "unat USERSPACETOP \<le> a" "\<not> tm_badfaultfunc s"
  shows "uc_mem (snd (copyout ok src userdest len s)) a = uc_mem s a \<and> \<not> tm_badfaultfunc (snd (copyout ok src userdest len s)) \<and>
    uc_mem (snd (snd (copyoutstr ok src userdest len s))) a = uc_mem s a \<and> \<not> tm_badfaultfunc (snd (snd (copyoutstr ok src userdest len s)))"
proof (intro conjI)
  have a: "2 ^ 31 \<le> a" using assms(1) by simp
  let ?k = "length (takeWhile (\<lambda>i. ok (unat userdest + i)) [0..<unat len])"
  have "unat userdest + ?k \<le> a" if "user_range userdest len"
    using that leading_le [of "\<lambda>i. ok (unat userdest + i)" "unat len"] a by (simp add: user_range_def)
  then show "uc_mem (snd (copyout ok src userdest len s)) a = uc_mem s a" by (simp add: copyout_cases memcpy_frame)
  show "\<not> tm_badfaultfunc (snd (copyout ok src userdest len s))" using assms(2) by (simp add: copyout_cases)
  have "unat userdest + unat (snd (copycheck userdest len)) \<le> a" if ok: "fst (copycheck userdest len) = 0"
  proof (cases "len = 0")
    case True
    have "userdest - 1 < userdest" if "userdest \<noteq> 0"
      using that by (simp add: word_less_nat_alt unat_minus_one unat_gt_0)
    then have u: "userdest = 0 \<and> snd (copycheck userdest len) = USERSPACETOP"
      using ok True copycheck_zero [of userdest] by (auto simp: copycheck_def Let_def split: if_splits)
    show ?thesis unfolding conjunct2 [OF u] using conjunct1 [OF u] a by simp
  next
    case False
    then show ?thesis using copycheck_ok [OF False, of userdest] ok a by (auto simp: min_def)
  qed
  then show "uc_mem (snd (snd (copyoutstr ok src userdest len s))) a = uc_mem s a"
    by (auto simp: copyoutstr_def Let_def copystr_frame split: prod.splits)
  show "\<not> tm_badfaultfunc (snd (snd (copyoutstr ok src userdest len s)))"
    using assms(2) by (auto simp: copyoutstr_def Let_def split: prod.splits)
qed

definition ex_ucopy :: ucopy where
  "ex_ucopy = \<lparr>uc_mem = put_bytes 0x1000 [104, 105, 0] (\<lambda>_. 7), tm_badfaultfunc = False\<rparr>"

theorem copyout_protects_kernel_witness:
  "uc_mem (snd (copyout (\<lambda>_. True) 0x80002000 0x7fffffff 0x10 ex_ucopy)) 0x80000003 = 7"
  using copyout_protects_kernel [of "0x80000003" ex_ucopy "\<lambda>_. True" "0x80002000" "0x7fffffff" "0x10"]
  by (simp add: ex_ucopy_def)

text \<open>
  C26. \<open>copyin\<close> succeeds exactly when the block is not empty, lies wholly below \<open>USERSPACETOP\<close> and
  every byte of it can be read; it then delivers the user bytes and changes nothing else.
  Otherwise it returns \<open>EFAULT\<close> and changes at most the destination block. (A block of length 0
  is always refused.)
\<close>

theorem copyin_correct:
  assumes "unat USERSPACETOP \<le> dest"
  shows "(fst (copyin ok usersrc dest len s) = 0 \<longleftrightarrow>
      len \<noteq> 0 \<and> unat usersrc + unat len \<le> unat USERSPACETOP \<and> (\<forall>i<unat len. ok (unat usersrc + i))) \<and>
    (fst (copyin ok usersrc dest len s) \<noteq> 0 \<longrightarrow> fst (copyin ok usersrc dest len s) = EFAULT) \<and>
    (fst (copyin ok usersrc dest len s) = 0 \<longrightarrow>
      uc_mem (snd (copyin ok usersrc dest len s)) = block_move dest (unat usersrc) (unat len) (uc_mem s)) \<and>
    (\<forall>a. a < dest \<or> dest + unat len \<le> a \<longrightarrow> uc_mem (snd (copyin ok usersrc dest len s)) a = uc_mem s a)"
proof -
  let ?k = "length (takeWhile (\<lambda>i. ok (unat usersrc + i)) [0..<unat len])"
  have k: "?k \<le> unat len" by (rule leading_le)
  have "snd (memcpy dest (unat usersrc) ?k (uc_mem s)) a = uc_mem s a" if "a < dest \<or> dest + unat len \<le> a" for a
    using that k by (intro memcpy_frame) linarith
  moreover have "?k = unat len \<longleftrightarrow> (\<forall>i<unat len. ok (unat usersrc + i))" by (rule leading_ok)
  moreover have "snd (memcpy dest (unat usersrc) (unat len) (uc_mem s)) = block_move dest (unat usersrc) (unat len) (uc_mem s)"
    if "user_range usersrc len" using that assms by (simp add: memcpy_ok user_range_def)
  ultimately show ?thesis by (auto simp: copyin_cases user_range_def)
qed

theorem copyin_correct_witness:
  "fst (copyin (\<lambda>_. True) 0x1000 0x80002000 3 ex_ucopy) = 0 \<and>
   uc_mem (snd (copyin (\<lambda>_. True) 0x1000 0x80002000 3 ex_ucopy)) 0x80002001 = 105"
  using copyin_correct [of "0x80002000" "\<lambda>_. True" "0x1000" 3 ex_ucopy] by (auto simp: block_move_def ex_ucopy_def)

text \<open>
  \<open>copyinstr\<close> brings a terminated user string of which every byte up to the terminator can be
  read into a kernel buffer that is large enough, terminator included, and reports its length; a
  string with no terminator in the first \<open>len\<close> bytes gives \<open>ENAMETOOLONG\<close>.
\<close>

theorem copyinstr_correct:
  assumes "unat USERSPACETOP \<le> dest" "len \<noteq> 0" "unat usersrc + unat len \<le> unat USERSPACETOP"
    "\<And>i. i < unat len \<Longrightarrow> ok (unat usersrc + i)"
  shows "(cstr (uc_mem s) (unat usersrc) xs \<and> length xs < unat len \<longrightarrow>
      (\<exists>s'. copyinstr ok usersrc dest len s = (0, Some (length xs + 1), s') \<and> cstr (uc_mem s') dest xs)) \<and>
    ((\<forall>i<unat len. uc_mem s (unat usersrc + i) \<noteq> 0) \<longrightarrow> fst (copyinstr ok usersrc dest len s) = ENAMETOOLONG)"
proof -
  have chk: "copycheck usersrc len = (0, len)"
    using copycheck_block [of usersrc len] assms(2,3) by (simp add: user_range_def prod_eq_iff)
  have run: "copyinstr ok usersrc dest len s = finish_copystr (s\<lparr>tm_badfaultfunc := True\<rparr>)
      (copystr_loop (\<lambda>_. True) ok dest (unat usersrc) (unat len) (unat len) 0 (uc_mem s))"
    by (simp add: copyinstr_def chk copystr_def)
  have dis: "{dest..<dest + unat len} \<inter> {unat usersrc..<unat usersrc + unat len} = {}" using assms(1,3) by auto
  show ?thesis
  proof (intro conjI impI)
    assume c: "cstr (uc_mem s) (unat usersrc) xs \<and> length xs < unat len"
    have "{dest..<dest + unat len} \<inter> {unat usersrc..unat usersrc + 0 + length xs} = {}" using assms(1,3) c by auto
    then have "copystr_loop (\<lambda>_. True) ok dest (unat usersrc) (unat len) (unat len) 0 (uc_mem s) =
        CRet 0 (Some (0 + length xs + 1)) (put_bytes (dest + 0) (xs @ [0]) (uc_mem s))"
      using c assms(4) by (intro copystr_loop_ok) auto
    then show "\<exists>s'. copyinstr ok usersrc dest len s = (0, Some (length xs + 1), s') \<and> cstr (uc_mem s') dest xs"
      using run cstr_put [OF cstr_no_zero [OF conjunct1 [OF c]]] by (simp add: finish_copystr_def)
  next
    assume nz: "\<forall>i<unat len. uc_mem s (unat usersrc + i) \<noteq> 0"
    then obtain m' where "copystr_loop (\<lambda>_. True) ok dest (unat usersrc) (unat len) (unat len) 0 (uc_mem s) = CRet ENAMETOOLONG None m'"
      using copystr_loop_toolong [of "unat len" "unat len" dest "unat usersrc" ok "\<lambda>_. True" "uc_mem s" "uc_mem s" 0] dis assms(4) by auto
    then show "fst (copyinstr ok usersrc dest len s) = ENAMETOOLONG" using run by (simp add: finish_copystr_def)
  qed
qed

theorem copyinstr_correct_witness:
  "\<exists>s'. copyinstr (\<lambda>_. True) 0x1000 0x80002000 64 ex_ucopy = (0, Some 3, s') \<and> cstr (uc_mem s') 0x80002000 [104, 105]"
proof -
  have "cstr (uc_mem ex_ucopy) (unat (0x1000 :: u32)) [104, 105]" by (simp add: ex_ucopy_def)
  with copyinstr_correct [of "0x80002000" 64 "0x1000" "\<lambda>_. True" ex_ucopy "[104, 105]"] show ?thesis
    by (simp add: numeral_3_eq_3)
qed

end
