(* ===== verification/Uio.thy ===== *)
theory Uio
  imports Copyinout
begin

text \<open>
  \<open>kern/lib/uio.c\<close>: moving data between a kernel buffer and the blocks a \<open>uio\<close> describes. The
  current \<open>iovec\<close> is the head of \<open>uio_iov\<close>; advancing \<open>uio_iov\<close> past the last block, or meeting a
  failed assertion, has no value (\<open>None\<close>). \<open>uio_offset\<close> is the 64-bit \<open>off_t\<close>. The address space
  of the current process, which \<open>proc_getas\<close> returns, is the argument \<open>curas\<close>.
\<close>

datatype uio_rw = UIO_READ | UIO_WRITE

datatype uio_seg = UIO_USERISPACE | UIO_USERSPACE | UIO_SYSSPACE

record iovec =
  iov_base :: u32
  iov_len :: u32

record uio =
  uio_iov :: "iovec list"
  uio_iovcnt :: u32
  uio_offset :: u64
  uio_resid :: u32
  uio_segflg :: uio_seg
  uio_rw :: uio_rw
  uio_space :: "nat option"

definition seg_move :: "(nat \<Rightarrow> bool) \<Rightarrow> uio_seg \<Rightarrow> uio_rw \<Rightarrow> nat \<Rightarrow> u32 \<Rightarrow> u32 \<Rightarrow> ucopy \<Rightarrow> errno \<times> ucopy" where
  "seg_move ok seg rw ptr base sz s =
     (case seg of
        UIO_SYSSPACE \<Rightarrow>
          (0, s\<lparr>uc_mem := snd (if rw = UIO_READ then memmove (unat base) ptr (unat sz) (uc_mem s)
                              else memmove ptr (unat base) (unat sz) (uc_mem s))\<rparr>)
      | _ \<Rightarrow> (if rw = UIO_READ then copyout ok ptr base sz s else copyin ok base ptr sz s))"

function uiomove_loop :: "(nat \<Rightarrow> bool) \<Rightarrow> nat \<Rightarrow> u32 \<Rightarrow> uio \<Rightarrow> ucopy \<Rightarrow> (errno \<times> uio \<times> ucopy) option" where
  "uiomove_loop ok ptr n u s =
     (if n > 0 \<and> uio_resid u > 0 then
        (case uio_iov u of
           [] \<Rightarrow> None
         | iov # rest \<Rightarrow>
             (let sz = iov_len iov;
                  sz = (if sz > n then n else sz)
              in if sz = 0 then
                   (if uio_iovcnt u - 1 = 0 then None
                    else uiomove_loop ok ptr n (u\<lparr>uio_iov := rest, uio_iovcnt := uio_iovcnt u - 1\<rparr>) s)
                 else
                   (let (result, s) = seg_move ok (uio_segflg u) (uio_rw u) ptr (iov_base iov) sz s
                    in if result \<noteq> 0 then Some (result, u, s)
                       else uiomove_loop ok (ptr + unat sz) (n - sz)
                              (u\<lparr>uio_iov := \<lparr>iov_base = iov_base iov + sz, iov_len = iov_len iov - sz\<rparr> # rest,
                                 uio_resid := uio_resid u - sz, uio_offset := uio_offset u + ucast sz\<rparr>) s)))
      else Some (0, u, s))"
  by pat_completeness auto
termination
proof (relation "measure (\<lambda>(ok, ptr, n, u, s). unat n + length (uio_iov u))", goal_cases)
  case (3 ok ptr n u s iov rest sz0 sz p result s')
  have "sz \<le> n" "sz \<noteq> 0" using 3 by (auto split: if_splits)
  then have "unat (n - sz) < unat n" by (simp add: unat_sub_less)
  then show ?case using 3 by simp
qed auto

declare uiomove_loop.simps [simp del]

definition uiomove :: "nat option \<Rightarrow> (nat \<Rightarrow> bool) \<Rightarrow> nat \<Rightarrow> u32 \<Rightarrow> uio \<Rightarrow> ucopy \<Rightarrow> (errno \<times> uio \<times> ucopy) option" where
  "uiomove curas ok ptr n u s =
     do {
       (if uio_segflg u = UIO_SYSSPACE then kassert (uio_space u = None) else kassert (uio_space u = curas));
       uiomove_loop ok ptr n u s
     }"

text \<open>\<open>zeros\<close> is the address of the static array of 16 zero bytes.\<close>

function uiomovezeros_loop ::
  "nat option \<Rightarrow> (nat \<Rightarrow> bool) \<Rightarrow> nat \<Rightarrow> u32 \<Rightarrow> uio \<Rightarrow> ucopy \<Rightarrow> (errno \<times> uio \<times> ucopy) option" where
  "uiomovezeros_loop curas ok zeros n u s =
     (if n > 0 then
        (let amt = 16; amt = (if amt > n then n else amt)
         in do {
              (result, u, s) \<leftarrow> uiomove curas ok zeros amt u s;
              if result \<noteq> 0 then Some (result, u, s)
              else uiomovezeros_loop curas ok zeros (n - amt) u s
            })
      else Some (0, u, s))"
  by pat_completeness auto
termination
proof (relation "measure (\<lambda>(curas, ok, zeros, n, u, s). unat n)", goal_cases)
  case (2 curas ok zeros n u s x amt z xa y xb ya)
  have "amt \<le> n" "amt \<noteq> 0" using 2 by (auto split: if_splits)
  then show ?case by (simp add: unat_sub_less)
qed simp

declare uiomovezeros_loop.simps [simp del]

definition uiomovezeros :: "nat option \<Rightarrow> (nat \<Rightarrow> bool) \<Rightarrow> nat \<Rightarrow> u32 \<Rightarrow> uio \<Rightarrow> ucopy \<Rightarrow> (errno \<times> uio \<times> ucopy) option" where
  "uiomovezeros curas ok zeros n u s =
     do { kassert (uio_rw u = UIO_READ); uiomovezeros_loop curas ok zeros n u s }"

definition uio_kinit :: "u32 \<Rightarrow> u32 \<Rightarrow> u64 \<Rightarrow> uio_rw \<Rightarrow> uio" where
  "uio_kinit kbuf len pos rw =
     \<lparr>uio_iov = [\<lparr>iov_base = kbuf, iov_len = len\<rparr>], uio_iovcnt = 1, uio_offset = pos, uio_resid = len,
      uio_segflg = UIO_SYSSPACE, uio_rw = rw, uio_space = None\<rparr>"

section \<open>The bytes a uio stands for\<close>

definition iov_addrs :: "iovec list \<Rightarrow> nat list" where
  "iov_addrs vs = concat (map (\<lambda>v. [unat (iov_base v)..<unat (iov_base v) + unat (iov_len v)]) vs)"

lemma iov_addrs_simps [simp]:
  "iov_addrs [] = []" "iov_addrs (v # vs) = [unat (iov_base v)..<unat (iov_base v) + unat (iov_len v)] @ iov_addrs vs"
  by (simp_all add: iov_addrs_def)

definition uio_wf :: "uio \<Rightarrow> bool" where
  "uio_wf u \<longleftrightarrow> unat (uio_resid u) = length (iov_addrs (uio_iov u)) \<and> uio_iovcnt u = of_nat (length (uio_iov u)) \<and>
     length (uio_iov u) < 2 ^ 32 \<and> (\<forall>v\<in>set (uio_iov u). unat (iov_base v) + unat (iov_len v) < 2 ^ 32)"

text \<open>Moving bytes one by one between consecutive addresses at \<open>p\<close> and the listed addresses.\<close>

fun scatter :: "nat list \<Rightarrow> nat \<Rightarrow> cmem \<Rightarrow> cmem" where
  "scatter [] p m = m"
| "scatter (a # as) p m = scatter as (Suc p) (m(a := m p))"

fun gather :: "nat list \<Rightarrow> nat \<Rightarrow> cmem \<Rightarrow> cmem" where
  "gather [] p m = m"
| "gather (a # as) p m = gather as (Suc p) (m(p := m a))"

lemma scatter_append: "scatter (as @ bs) p m = scatter bs (p + length as) (scatter as p m)"
  by (induction as arbitrary: p m) auto

lemma gather_append: "gather (as @ bs) p m = gather bs (p + length as) (gather as p m)"
  by (induction as arbitrary: p m) auto

lemma scatter_other: "a \<notin> set as \<Longrightarrow> scatter as p m a = m a"
  by (induction as arbitrary: p m) auto

lemma gather_other: "a < p \<or> p + length as \<le> a \<Longrightarrow> gather as p m a = m a"
  by (induction as arbitrary: p m) auto

lemma scatter_nth:
  "distinct as \<Longrightarrow> set as \<inter> {p..<p + length as} = {} \<Longrightarrow> i < length as \<Longrightarrow> scatter as p m (as ! i) = m (p + i)"
proof (induction as arbitrary: p m i)
  case (Cons a as)
  have a: "a \<notin> {p..<p + length (a # as)}" using Cons.prems(2) by auto
  show ?case
  proof (cases i)
    case 0
    then show ?thesis using Cons.prems(1) by (simp add: scatter_other)
  next
    case (Suc j)
    have "set as \<inter> {Suc p..<Suc p + length as} = {}" using Cons.prems(2) by auto
    then have "scatter as (Suc p) (m(a := m p)) (as ! j) = (m(a := m p)) (Suc p + j)"
      using Cons.prems Suc by (intro Cons.IH) auto
    then show ?thesis using Suc a Cons.prems(3) by auto
  qed
qed simp

lemma gather_nth:
  "set as \<inter> {p..<p + length as} = {} \<Longrightarrow> i < length as \<Longrightarrow> gather as p m (p + i) = m (as ! i)"
proof (induction as arbitrary: p m i)
  case (Cons a as)
  show ?case
  proof (cases i)
    case 0
    then show ?thesis by (simp add: gather_other)
  next
    case (Suc j)
    have "as ! j \<in> set as" using Cons.prems(2) Suc by simp
    then have "p \<noteq> as ! j" using Cons.prems(1) by auto
    moreover have "set as \<inter> {Suc p..<Suc p + length as} = {}" using Cons.prems(1) by auto
    then have "gather as (Suc p) (m(p := m a)) (Suc p + j) = (m(p := m a)) (as ! j)"
      using Cons.prems Suc by (intro Cons.IH) auto
    ultimately show ?thesis using Suc by simp
  qed
qed simp

lemma scatter_block: "{b..<b + n} \<inter> {p..<p + n} = {} \<Longrightarrow> scatter [b..<b + n] p m = block_move b p n m"
proof
  fix a
  assume dis: "{b..<b + n} \<inter> {p..<p + n} = {}"
  show "scatter [b..<b + n] p m a = block_move b p n m a"
  proof (cases "b \<le> a \<and> a < b + n")
    case True
    then obtain i where a: "a = b + i" "i < n" by (metis add_less_cancel_left le_Suc_ex)
    then have "[b..<b + n] ! i = a" by simp
    then show ?thesis using scatter_nth [of "[b..<b + n]" p i m] dis a by (simp add: block_move_def)
  next
    case False
    then have "a \<notin> set [b..<b + n]" by simp
    then show ?thesis by (simp add: scatter_other block_move_out False)
  qed
qed

lemma gather_block: "{b..<b + n} \<inter> {p..<p + n} = {} \<Longrightarrow> gather [b..<b + n] p m = block_move p b n m"
proof
  fix a
  assume dis: "{b..<b + n} \<inter> {p..<p + n} = {}"
  show "gather [b..<b + n] p m a = block_move p b n m a"
  proof (cases "p \<le> a \<and> a < p + n")
    case True
    then obtain i where a: "a = p + i" "i < n" by (metis add_less_cancel_left le_Suc_ex)
    then show ?thesis using gather_nth [of "[b..<b + n]" p i m] dis by (simp add: block_move_def)
  next
    case False
    then have "a < p \<or> p + length [b..<b + n] \<le> a" by auto
    then show ?thesis by (simp add: gather_other block_move_out False)
  qed
qed

definition transfer :: "uio_rw \<Rightarrow> nat list \<Rightarrow> nat \<Rightarrow> cmem \<Rightarrow> cmem" where
  "transfer rw as p m = (if rw = UIO_READ then scatter as p m else gather as p m)"

lemma transfer_append: "transfer rw (as @ bs) p m = transfer rw bs (p + length as) (transfer rw as p m)"
  by (simp add: transfer_def scatter_append gather_append)

lemma seg_move_sys:
  assumes "{unat b..<unat b + unat k} \<inter> {ptr..<ptr + unat k} = {}"
  shows "seg_move ok UIO_SYSSPACE rw ptr b k s =
    (0, s\<lparr>uc_mem := transfer rw [unat b..<unat b + unat k] ptr (uc_mem s)\<rparr>)"
  using assms by (simp add: seg_move_def transfer_def memmove_ok scatter_block gather_block)

text \<open>The loop moves the smaller of \<open>n\<close> and \<open>uio_resid\<close> bytes.\<close>

lemma uiomove_loop_ok:
  assumes "uio_wf u" "uio_segflg u = UIO_SYSSPACE" "set (iov_addrs (uio_iov u)) \<inter> {ptr..<ptr + unat n} = {}"
    "k = min (unat n) (unat (uio_resid u))" "as = iov_addrs (uio_iov u)"
  shows "\<exists>u' s'. uiomove_loop ok ptr n u s = Some (0, u', s') \<and> uio_wf u' \<and> iov_addrs (uio_iov u') = drop k as \<and>
    uio_offset u' = uio_offset u + of_nat k \<and> uc_mem s' = transfer (uio_rw u) (take k as) ptr (uc_mem s)"
  using assms
proof (induction ok ptr n u s arbitrary: k as rule: uiomove_loop.induct)
  case (1 ok ptr n u s)
  show ?case
  proof (cases "n > 0 \<and> uio_resid u > 0")
    case False
    then have "k = 0" using "1.prems"(4) by (auto simp: word_gt_0)
    then show ?thesis using False "1.prems"(1,5) by (subst uiomove_loop.simps) (auto simp: transfer_def)
  next
    case go: True
    then have "as \<noteq> []" using "1.prems"(1,5) by (auto simp: uio_wf_def word_gt_0 unat_eq_0)
    then obtain v vs where vs: "uio_iov u = v # vs" using "1.prems"(5) by (cases "uio_iov u") auto
    let ?sz = "if iov_len v > n then n else iov_len v"
    show ?thesis
    proof (cases "?sz = 0")
      case True
      then have len0: "iov_len v = 0" using go by (auto split: if_splits)
      let ?u = "u\<lparr>uio_iov := vs, uio_iovcnt := uio_iovcnt u - 1\<rparr>"
      have as: "as = iov_addrs vs" using "1.prems"(5) by (simp add: vs len0)
      have ne: "vs \<noteq> []" using as \<open>as \<noteq> []\<close> by auto
      have "uio_iovcnt u - 1 = of_nat (length vs)" using "1.prems"(1) by (simp add: uio_wf_def vs)
      moreover have "unat (of_nat (length vs) :: u32) = length vs"
        using "1.prems"(1) by (simp add: uio_wf_def vs unsigned_of_nat take_bit_nat_eq_self)
      then have "(of_nat (length vs) :: u32) \<noteq> 0" using ne by (metis length_0_conv unat_0)
      ultimately have step: "uiomove_loop ok ptr n u s = uiomove_loop ok ptr n ?u s"
        using go True by (subst uiomove_loop.simps) (simp add: vs len0)
      have "uio_wf ?u" using "1.prems"(1) by (simp add: uio_wf_def vs len0)
      then show ?thesis using "1.IH"(1) [OF go vs refl refl True] "1.prems" as step \<open>(of_nat (length vs) :: u32) \<noteq> 0\<close>
          \<open>uio_iovcnt u - 1 = of_nat (length vs)\<close> by (simp add: vs len0)
    next
      case False
      define sz where "sz = ?sz"
      have sz: "sz \<noteq> 0" "sz \<le> n" "sz \<le> iov_len v" using False by (auto simp: sz_def split: if_splits)
      then have usz: "unat sz \<le> unat n" "unat sz \<le> unat (iov_len v)" by (simp_all add: word_le_nat_alt)
      let ?u = "u\<lparr>uio_iov := \<lparr>iov_base = iov_base v + sz, iov_len = iov_len v - sz\<rparr> # vs,
        uio_resid := uio_resid u - sz, uio_offset := uio_offset u + ucast sz\<rparr>"
      let ?s = "s\<lparr>uc_mem := transfer (uio_rw u) [unat (iov_base v)..<unat (iov_base v) + unat sz] ptr (uc_mem s)\<rparr>"
      have b: "unat (iov_base v) + unat (iov_len v) < 2 ^ 32" using "1.prems"(1) by (simp add: uio_wf_def vs)
      have ub: "unat (iov_base v + sz) = unat (iov_base v) + unat sz"
        using b usz(2) by (subst unat_add_lem [THEN iffD1]) simp_all
      have ul: "unat (iov_len v - sz) = unat (iov_len v) - unat sz" using sz(3) by (rule unat_sub)
      have res: "unat (uio_resid u) = unat (iov_len v) + length (iov_addrs vs)" using "1.prems"(1) by (simp add: uio_wf_def vs)
      have szr: "sz \<le> uio_resid u" using res usz(2) by (simp add: word_le_nat_alt)
      have ur: "unat (uio_resid u - sz) = unat (uio_resid u) - unat sz" using szr by (rule unat_sub)
      have split: "[unat (iov_base v)..<unat (iov_base v) + unat (iov_len v)] =
          [unat (iov_base v)..<unat (iov_base v) + unat sz] @ [unat (iov_base v) + unat sz..<unat (iov_base v) + unat (iov_len v)]"
        using usz(2) upt_add_eq_append [of "unat (iov_base v)" "unat (iov_base v) + unat sz" "unat (iov_len v) - unat sz"] by simp
      have as: "as = [unat (iov_base v)..<unat (iov_base v) + unat sz] @ iov_addrs (uio_iov ?u)"
        using "1.prems"(5) usz(2) split by (simp add: vs ub ul)
      have n': "unat (n - sz) = unat n - unat sz" using sz(2) by (rule unat_sub)
      have dis: "{unat (iov_base v)..<unat (iov_base v) + unat sz} \<inter> {ptr..<ptr + unat sz} = {}"
        using "1.prems"(3,5) as usz(1) by fastforce
      have mv: "seg_move ok (uio_segflg u) (uio_rw u) ptr (iov_base v) sz s = (0, ?s)"
        using seg_move_sys [OF dis] "1.prems"(2) by simp
      have step: "uiomove_loop ok ptr n u s = uiomove_loop ok (ptr + unat sz) (n - sz) ?u ?s"
        using go sz(1) mv by (subst uiomove_loop.simps) (simp add: vs sz_def [symmetric])
      have wf: "uio_wf ?u" using "1.prems"(1) b usz(2) by (auto simp: uio_wf_def vs ub ul ur)
      have dis': "set (iov_addrs (uio_iov ?u)) \<inter> {ptr + unat sz..<ptr + unat sz + unat (n - sz)} = {}"
        using "1.prems"(3,5) as n' usz(1) by fastforce
      have k: "k = unat sz + min (unat (n - sz)) (unat (uio_resid ?u))"
        using "1.prems"(4) n' ur usz(1) szr [unfolded word_le_nat_alt] by (simp add: min_def) linarith
      have "\<exists>u' s'. uiomove_loop ok (ptr + unat sz) (n - sz) ?u ?s = Some (0, u', s') \<and> uio_wf u' \<and>
          iov_addrs (uio_iov u') = drop (k - unat sz) (iov_addrs (uio_iov ?u)) \<and>
          uio_offset u' = uio_offset ?u + of_nat (k - unat sz) \<and>
          uc_mem s' = transfer (uio_rw ?u) (take (k - unat sz) (iov_addrs (uio_iov ?u))) (ptr + unat sz) (uc_mem ?s)"
        by (rule "1.IH"(2) [OF go vs refl sz_def _ mv [symmetric] refl _ wf _ dis' _ refl])
          (use sz(1) "1.prems"(2) k in simp_all)
      then obtain u' s' where r: "uiomove_loop ok ptr n u s = Some (0, u', s')" "uio_wf u'"
          "iov_addrs (uio_iov u') = drop (k - unat sz) (iov_addrs (uio_iov ?u))"
          "uio_offset u' = uio_offset ?u + of_nat (k - unat sz)"
          "uc_mem s' = transfer (uio_rw ?u) (take (k - unat sz) (iov_addrs (uio_iov ?u))) (ptr + unat sz) (uc_mem ?s)"
        unfolding step by blast
      have ksz: "unat sz \<le> k" using k by simp
      have "uio_offset u' = uio_offset u + of_nat k"
      proof -
        have "(ucast sz :: u64) = of_nat (unat sz)" by simp
        then show ?thesis using r(4) ksz by (simp add: of_nat_diff)
      qed
      moreover have "iov_addrs (uio_iov u') = drop k as" using r(3) ksz unfolding as by simp
      moreover have "uc_mem s' = transfer (uio_rw u) (take k as) ptr (uc_mem s)"
        using r(5) ksz unfolding as by (simp add: transfer_append)
      ultimately show ?thesis using r(1,2) by blast
    qed
  qed
qed

section \<open>Properties\<close>


lemma uio_kinit_wf: "unat kbuf + unat len < 2 ^ 32 \<Longrightarrow> uio_wf (uio_kinit kbuf len pos rw)"
  by (simp add: uio_wf_def uio_kinit_def)


end
