(* ===== verification/Vnode.thy ===== *)
theory Vnode
  imports Uio
begin

text \<open>
  The state that the file-related parts of the kernel share, and \<open>kern/vfs/vnode.c\<close>,
  \<open>kern/vfs/vfsfail.c\<close>: reference-counted vnodes and the checks in front of every vnode operation.

  Vnodes, open files and file tables are addresses in a store (\<open>fstate\<close>); a freed or never allocated
  address maps to \<open>None\<close>. \<open>None\<close> as the result of an operation means that the calling thread does not
  come back: a failed \<open>KASSERT\<close> or \<open>panic\<close>, a NULL or freed block used, or a sleep lock that is already
  taken (by the caller: panic, by another thread: it waits). Lock fields hold the owner.
  \<open>vn_countlock\<close> and \<open>p_lock\<close> are spinlocks held only inside the functions modelled here, which are
  therefore single steps. The functions behind a vnode's \<open>vn_ops\<close> pointer and a file system's \<open>fs_ops\<close>
  pointer are reached through the tables \<open>vops\<close> and \<open>fops\<close>.

  The reference discipline is stated with \<open>keeps\<close> and \<open>gains\<close>: a call leaves the count of every vnode
  that was referenced before it as it was, except for the vnode it hands back, which has one more.
\<close>

section \<open>State\<close>

record vnode =
  vn_refcount :: int
  vn_fs :: "nat option"
  vn_data :: "nat option"
  vn_ops :: "nat option"

record kfile =
  file_vnode :: "nat option"
  file_lock :: "nat option"
  seek_pos :: u32
  file_path :: "nat option"
  master_fd :: int

record file_table =
  file_arr :: "nat \<Rightarrow> nat option"
  file_table_lock :: "nat option"
  num_files :: int

record device =
  d_ops :: nat
  d_blocks :: u32
  d_blocksize :: u32
  d_devnumber :: u32

text \<open>\<open>struct knowndev\<close>; \<open>SWAP_FS\<close> is the pointer value \<open>-1\<close>.\<close>

abbreviation SWAP_FS :: nat where "SWAP_FS \<equiv> 0xFFFFFFFF"

record knowndev =
  kd_name :: nat
  kd_rawname :: "nat option"
  kd_device :: "nat option"
  kd_vnode :: "nat option"
  kd_fs :: "nat option"

text \<open>
  \<open>p_cwd\<close> is the calling process's current directory. \<open>fs_console\<close> and \<open>fs_input\<close> are what
  \<open>putch\<close> has written and what \<open>getch\<close> will return. \<open>ef_root\<close> is the root vnode that an emulator
  file system (\<open>struct emufs_fs\<close>) holds.
\<close>

record fstate =
  vnodes :: "nat \<Rightarrow> vnode option"
  files :: "nat \<Rightarrow> kfile option"
  ftables :: "nat \<Rightarrow> file_table option"
  kproc_ft :: nat
  fs_uc :: ucopy
  fs_console :: "u8 list"
  fs_input :: "int list"
  p_cwd :: "nat option"
  bootfs_vnode :: "nat option"
  vfs_biglock :: "nat option"
  vfs_biglock_depth :: nat
  knowndevs :: "knowndev list"
  devices :: "nat \<Rightarrow> device option"
  ef_root :: "nat \<Rightarrow> nat option"

section \<open>Vnodes\<close>

text \<open>The functions a vnode's and a file system's operation tables point to. A path argument is the
  address of a string; a last path component that a caller keeps in a local buffer is a byte list.\<close>

record kstat =
  st_size :: u64
  st_mode :: u32
  st_nlink :: u16
  st_blocks :: u32
  st_dev :: u32
  st_rdev :: u32
  st_blksize :: u32

record vnode_ops =
  vop_eachopen :: "nat \<Rightarrow> u32 \<Rightarrow> fstate \<Rightarrow> (errno \<times> fstate) option"
  vop_reclaim :: "nat \<Rightarrow> fstate \<Rightarrow> (errno \<times> fstate) option"
  vop_read :: "nat \<Rightarrow> uio \<Rightarrow> fstate \<Rightarrow> (errno \<times> uio \<times> fstate) option"
  vop_readlink :: "nat \<Rightarrow> uio \<Rightarrow> fstate \<Rightarrow> (errno \<times> uio \<times> fstate) option"
  vop_getdirentry :: "nat \<Rightarrow> uio \<Rightarrow> fstate \<Rightarrow> (errno \<times> uio \<times> fstate) option"
  vop_write :: "nat \<Rightarrow> uio \<Rightarrow> fstate \<Rightarrow> (errno \<times> uio \<times> fstate) option"
  vop_ioctl :: "nat \<Rightarrow> u32 \<Rightarrow> u32 \<Rightarrow> fstate \<Rightarrow> (errno \<times> fstate) option"
  vop_stat :: "nat \<Rightarrow> fstate \<Rightarrow> (errno \<times> kstat \<times> fstate) option"
  vop_gettype :: "nat \<Rightarrow> fstate \<Rightarrow> (errno \<times> u32) option"
  vop_isseekable :: "nat \<Rightarrow> fstate \<Rightarrow> bool option"
  vop_fsync :: "nat \<Rightarrow> fstate \<Rightarrow> (errno \<times> fstate) option"
  vop_mmap :: "nat \<Rightarrow> fstate \<Rightarrow> (errno \<times> fstate) option"
  vop_truncate :: "nat \<Rightarrow> u64 \<Rightarrow> fstate \<Rightarrow> (errno \<times> fstate) option"
  vop_namefile :: "nat \<Rightarrow> uio \<Rightarrow> fstate \<Rightarrow> (errno \<times> uio \<times> fstate) option"
  vop_creat :: "nat \<Rightarrow> u8 list \<Rightarrow> bool \<Rightarrow> u32 \<Rightarrow> fstate \<Rightarrow> (errno \<times> nat option \<times> fstate) option"
  vop_symlink :: "nat \<Rightarrow> u8 list \<Rightarrow> nat \<Rightarrow> fstate \<Rightarrow> (errno \<times> fstate) option"
  vop_mkdir :: "nat \<Rightarrow> u8 list \<Rightarrow> u32 \<Rightarrow> fstate \<Rightarrow> (errno \<times> fstate) option"
  vop_link :: "nat \<Rightarrow> u8 list \<Rightarrow> nat \<Rightarrow> fstate \<Rightarrow> (errno \<times> fstate) option"
  vop_remove :: "nat \<Rightarrow> u8 list \<Rightarrow> fstate \<Rightarrow> (errno \<times> fstate) option"
  vop_rmdir :: "nat \<Rightarrow> u8 list \<Rightarrow> fstate \<Rightarrow> (errno \<times> fstate) option"
  vop_rename :: "nat \<Rightarrow> u8 list \<Rightarrow> nat \<Rightarrow> u8 list \<Rightarrow> fstate \<Rightarrow> (errno \<times> fstate) option"
  vop_lookup :: "nat \<Rightarrow> nat \<Rightarrow> fstate \<Rightarrow> (errno \<times> nat option \<times> fstate) option"
  vop_lookparent :: "nat \<Rightarrow> nat \<Rightarrow> u32 \<Rightarrow> fstate \<Rightarrow> (errno \<times> nat option \<times> u8 list \<times> fstate) option"

record fs_ops =
  fsop_sync :: "nat \<Rightarrow> fstate \<Rightarrow> (errno \<times> fstate) option"
  fsop_getvolname :: "nat \<Rightarrow> fstate \<Rightarrow> nat option"
  fsop_getroot :: "nat \<Rightarrow> fstate \<Rightarrow> (errno \<times> nat option \<times> fstate) option"
  fsop_unmount :: "nat \<Rightarrow> fstate \<Rightarrow> (errno \<times> fstate) option"

text \<open>Access through a vnode pointer.\<close>

definition upd_vnode :: "nat \<Rightarrow> (vnode \<Rightarrow> vnode) \<Rightarrow> fstate \<Rightarrow> fstate option" where
  "upd_vnode v g s = do { x \<leftarrow> vnodes s v; Some (s\<lparr>vnodes := (vnodes s)(v \<mapsto> g x)\<rparr>) }"

definition vnode_init :: "nat option \<Rightarrow> nat option \<Rightarrow> nat option \<Rightarrow> nat option \<Rightarrow> fstate \<Rightarrow> (errno \<times> fstate) option" where
  "vnode_init vn ops fs fsdata s =
     do { v \<leftarrow> vn;
          kassert (ops \<noteq> None);
          Some (0, s\<lparr>vnodes := (vnodes s)(v \<mapsto> \<lparr>vn_refcount = 1, vn_fs = fs, vn_data = fsdata, vn_ops = ops\<rparr>)\<rparr>) }"

definition vnode_cleanup :: "nat option \<Rightarrow> fstate \<Rightarrow> fstate option" where
  "vnode_cleanup vn s =
     do { v \<leftarrow> vn;
          x \<leftarrow> vnodes s v;
          kassert (vn_refcount x = 1);
          upd_vnode v (\<lambda>x. x\<lparr>vn_ops := None, vn_refcount := 0, vn_fs := None, vn_data := None\<rparr>) s }"

definition vnode_incref :: "nat option \<Rightarrow> fstate \<Rightarrow> fstate option" where
  "vnode_incref vn s = do { v \<leftarrow> vn; upd_vnode v (\<lambda>x. x\<lparr>vn_refcount := vn_refcount x + 1\<rparr>) s }"

text \<open>\<open>vnode_check\<close>, which every \<open>VOP_\<close> macro calls first; the macro then follows \<open>vn_ops\<close>.\<close>

definition vnode_check :: "nat option \<Rightarrow> fstate \<Rightarrow> unit option" where
  "vnode_check vn s =
     do { v \<leftarrow> vn;
          x \<leftarrow> vnodes s v;
          kassert (vn_ops x \<noteq> None);
          kassert (\<not> vn_refcount x < 0);
          kassert (vn_refcount x \<noteq> 0) }"

definition VOP :: "(nat \<Rightarrow> vnode_ops) \<Rightarrow> nat option \<Rightarrow> fstate \<Rightarrow> (nat \<times> vnode_ops) option" where
  "VOP vops vn s = do { vnode_check vn s; v \<leftarrow> vn; x \<leftarrow> vnodes s v; p \<leftarrow> vn_ops x; Some (v, vops p) }"

definition vnode_decref :: "(nat \<Rightarrow> vnode_ops) \<Rightarrow> nat option \<Rightarrow> fstate \<Rightarrow> fstate option" where
  "vnode_decref vops vn s =
     do { v \<leftarrow> vn;
          x \<leftarrow> vnodes s v;
          kassert (vn_refcount x > 0);
          if vn_refcount x > 1 then upd_vnode v (\<lambda>x. x\<lparr>vn_refcount := vn_refcount x - 1\<rparr>) s
          else do { (v, op) \<leftarrow> VOP vops vn s; (result, s) \<leftarrow> vop_reclaim op v s; Some s } }"


section \<open>Operations that fail\<close>

definition vopfail_uio_notdir :: "nat \<Rightarrow> uio \<Rightarrow> fstate \<Rightarrow> (errno \<times> uio \<times> fstate) option" where
  "vopfail_uio_notdir vn u s = Some (ENOTDIR, u, s)"

definition vopfail_uio_isdir :: "nat \<Rightarrow> uio \<Rightarrow> fstate \<Rightarrow> (errno \<times> uio \<times> fstate) option" where
  "vopfail_uio_isdir vn u s = Some (EISDIR, u, s)"

definition vopfail_uio_inval :: "nat \<Rightarrow> uio \<Rightarrow> fstate \<Rightarrow> (errno \<times> uio \<times> fstate) option" where
  "vopfail_uio_inval vn u s = Some (EINVAL, u, s)"

definition vopfail_creat_notdir :: "nat \<Rightarrow> u8 list \<Rightarrow> bool \<Rightarrow> u32 \<Rightarrow> fstate \<Rightarrow> (errno \<times> nat option \<times> fstate) option" where
  "vopfail_creat_notdir vn name excl mode s = Some (ENOTDIR, None, s)"

definition vopfail_symlink_notdir :: "nat \<Rightarrow> u8 list \<Rightarrow> nat \<Rightarrow> fstate \<Rightarrow> (errno \<times> fstate) option" where
  "vopfail_symlink_notdir vn contents name s = Some (ENOTDIR, s)"

definition vopfail_mkdir_notdir :: "nat \<Rightarrow> u8 list \<Rightarrow> u32 \<Rightarrow> fstate \<Rightarrow> (errno \<times> fstate) option" where
  "vopfail_mkdir_notdir vn name mode s = Some (ENOTDIR, s)"

definition vopfail_link_notdir :: "nat \<Rightarrow> u8 list \<Rightarrow> nat \<Rightarrow> fstate \<Rightarrow> (errno \<times> fstate) option" where
  "vopfail_link_notdir dir name f s = Some (ENOTDIR, s)"

definition vopfail_string_notdir :: "nat \<Rightarrow> u8 list \<Rightarrow> fstate \<Rightarrow> (errno \<times> fstate) option" where
  "vopfail_string_notdir vn name s = Some (ENOTDIR, s)"

definition vopfail_rename_notdir :: "nat \<Rightarrow> u8 list \<Rightarrow> nat \<Rightarrow> u8 list \<Rightarrow> fstate \<Rightarrow> (errno \<times> fstate) option" where
  "vopfail_rename_notdir fromdir fromname todir toname s = Some (ENOTDIR, s)"

definition vopfail_lookparent_notdir :: "nat \<Rightarrow> nat \<Rightarrow> u32 \<Rightarrow> fstate \<Rightarrow> (errno \<times> nat option \<times> u8 list \<times> fstate) option" where
  "vopfail_lookparent_notdir vn path len s = Some (ENOTDIR, None, [], s)"

section \<open>Reference discipline\<close>

definition refs :: "fstate \<Rightarrow> nat \<Rightarrow> int" where
  "refs s v = (case vnodes s v of None \<Rightarrow> 0 | Some x \<Rightarrow> vn_refcount x)"

text \<open>What no vnode operation touches.\<close>

definition same_env :: "fstate \<Rightarrow> fstate \<Rightarrow> bool" where
  "same_env s s' \<longleftrightarrow> files s' = files s \<and> ftables s' = ftables s \<and> kproc_ft s' = kproc_ft s \<and> p_cwd s' = p_cwd s \<and>
     bootfs_vnode s' = bootfs_vnode s \<and> vfs_biglock s' = vfs_biglock s \<and> vfs_biglock_depth s' = vfs_biglock_depth s \<and>
     knowndevs s' = knowndevs s \<and> ef_root s' = ef_root s"

definition keeps :: "fstate \<Rightarrow> fstate \<Rightarrow> bool" where
  "keeps s s' \<longleftrightarrow> (\<forall>u. 1 \<le> refs s u \<longrightarrow> refs s' u = refs s u)"

definition gains :: "nat \<Rightarrow> fstate \<Rightarrow> fstate \<Rightarrow> bool" where
  "gains w s s' \<longleftrightarrow> (\<forall>u. 1 \<le> refs s u \<longrightarrow> refs s' u = refs s u + (if u = w then 1 else 0)) \<and> 1 \<le> refs s' w"

named_theorems disc

lemma same_env_refl [simp]: "same_env s s"
  by (simp add: same_env_def)

lemma same_env_trans: "same_env s s1 \<Longrightarrow> same_env s1 s2 \<Longrightarrow> same_env s s2"
  by (simp add: same_env_def)

lemma keeps_refl [simp]: "keeps s s"
  by (simp add: keeps_def)

lemma keeps_trans: "keeps s s1 \<Longrightarrow> keeps s1 s2 \<Longrightarrow> keeps s s2"
  unfolding keeps_def by metis

lemma gains_keeps: "gains w s s1 \<Longrightarrow> keeps s1 s2 \<Longrightarrow> gains w s s2"
  unfolding gains_def keeps_def by fastforce

lemma keeps_gains: "keeps s s1 \<Longrightarrow> gains w s1 s2 \<Longrightarrow> gains w s s2"
  unfolding gains_def keeps_def by fastforce

lemma refs_same: "vnodes s' = vnodes s \<Longrightarrow> refs s' = refs s"
  by (simp add: refs_def fun_eq_iff)

lemma keeps_same: "vnodes s' = vnodes s \<Longrightarrow> keeps s s'"
  by (simp add: keeps_def refs_def)

lemma vnode_incref_gains:
  assumes "vnode_incref vn s = Some s'" "vn = Some w" "1 \<le> refs s w"
  shows "gains w s s'" "same_env s s'" "vnodes s w \<noteq> None"
  using assms by (auto simp: vnode_incref_def upd_vnode_def gains_def same_env_def refs_def split: bind_splits)

text \<open>What an operation table must do for its reclaim function.\<close>

definition reclaim_ok :: "(nat \<Rightarrow> vnode_ops) \<Rightarrow> bool" where
  "reclaim_ok vops \<longleftrightarrow> (\<forall>p v s e s'. vop_reclaim (vops p) v s = Some (e, s') \<longrightarrow>
     same_env s s' \<and> (\<forall>u. u \<noteq> v \<longrightarrow> 1 \<le> refs s u \<longrightarrow> refs s' u = refs s u))"

lemma vnode_decref_effect:
  assumes "reclaim_ok vops" "vnode_decref vops (Some w) s = Some s'"
  shows "same_env s s'" "1 < refs s w \<Longrightarrow> refs s' u = refs s u - (if u = w then 1 else 0)"
    "u \<noteq> w \<Longrightarrow> 1 \<le> refs s u \<Longrightarrow> refs s' u = refs s u"
proof -
  obtain x where x: "vnodes s w = Some x"
    and cases: "if vn_refcount x > 1 then s' = s\<lparr>vnodes := (vnodes s)(w \<mapsto> x\<lparr>vn_refcount := vn_refcount x - 1\<rparr>)\<rparr>
      else \<exists>p e. vop_reclaim (vops p) w s = Some (e, s')"
    using assms(2) unfolding vnode_decref_def VOP_def upd_vnode_def
    by (cases "vnodes s w") (auto split: bind_splits if_splits, blast)
  have r: "refs s w = vn_refcount x" using x by (simp add: refs_def)
  show "same_env s s'" "1 < refs s w \<Longrightarrow> refs s' u = refs s u - (if u = w then 1 else 0)"
    "u \<noteq> w \<Longrightarrow> 1 \<le> refs s u \<Longrightarrow> refs s' u = refs s u"
    using cases x r assms(1) unfolding reclaim_ok_def
    by (cases "vn_refcount x > 1"; force simp: refs_def same_env_def)+
qed

text \<open>Dropping a gained reference gives back the counts from before, also when another reference was
  gained in between.\<close>

lemma vnode_decref_gained:
  assumes "reclaim_ok vops" "gains w s s1" "vnode_decref vops (Some w) s1 = Some s2"
  shows "keeps s s2"
proof -
  have "refs s2 u = refs s u" if "1 \<le> refs s u" for u
    using assms(2) that vnode_decref_effect(2,3) [OF assms(1,3), of u]
    by (cases "u = w") (auto simp: gains_def)
  then show ?thesis by (simp add: keeps_def)
qed

lemma vnode_decref_inner:
  assumes "reclaim_ok vops" "gains w s s1" "gains b s1 s2" "vnode_decref vops (Some w) s2 = Some s3"
  shows "gains b s s3"
proof -
  note eff = vnode_decref_effect(2,3) [OF assms(1,4)]
  have "refs s3 u = refs s u + (if u = b then 1 else 0)" if "1 \<le> refs s u" for u
  proof -
    have 1: "refs s1 u = refs s u + (if u = w then 1 else 0)" using assms(2) that by (simp add: gains_def)
    then have "1 \<le> refs s1 u" using that by (simp split: if_splits)
    then have "refs s2 u = refs s1 u + (if u = b then 1 else 0)" using assms(3) unfolding gains_def by blast
    then show ?thesis using 1 eff [of u] that by (cases "u = w") auto
  qed
  moreover have "1 \<le> refs s3 b"
  proof (cases "b = w")
    case True
    then have "refs s2 b = refs s1 b + 1" "1 \<le> refs s1 b" using assms(2,3) by (auto simp: gains_def)
    then show ?thesis using eff(1) [of b] True by simp
  next
    case False
    then show ?thesis using eff(2) [of b] assms(3) by (simp add: gains_def)
  qed
  ultimately show ?thesis by (simp add: gains_def)
qed

end
