(* ===== verification/File_Table.thy ===== *)
theory File_Table
  imports Vnode
begin

text \<open>
  \<open>kern/thread/file_table.c\<close> and \<open>kern/include/file.h\<close>: open files, the per-process tables and the
  master table that the kernel process holds. The answers of \<open>kmalloc\<close> and \<open>lock_create\<close> are
  arguments. The second half executes the operations symbolically; the invariant they keep is in
  \<open>File_Table_Inv\<close>.
\<close>

abbreviation MIN_FD :: nat where "MIN_FD \<equiv> 3"
abbreviation FLOATING_FILE :: int where "FLOATING_FILE \<equiv> - 1"
abbreviation ONE_FILE_OWNER :: int where "ONE_FILE_OWNER \<equiv> 2"

section \<open>Access\<close>

text \<open>Access through a pointer, and the two kinds of lock.\<close>

definition upd_file :: "nat \<Rightarrow> (kfile \<Rightarrow> kfile) \<Rightarrow> fstate \<Rightarrow> fstate option" where
  "upd_file f g s = do { x \<leftarrow> files s f; Some (s\<lparr>files := (files s)(f \<mapsto> g x)\<rparr>) }"

definition upd_table :: "nat \<Rightarrow> (file_table \<Rightarrow> file_table) \<Rightarrow> fstate \<Rightarrow> fstate option" where
  "upd_table t g s = do { x \<leftarrow> ftables s t; Some (s\<lparr>ftables := (ftables s)(t \<mapsto> g x)\<rparr>) }"

definition file_acquire :: "nat \<Rightarrow> nat \<Rightarrow> fstate \<Rightarrow> fstate option" where
  "file_acquire me f s =
     do { x \<leftarrow> files s f; kassert (file_lock x = None); upd_file f (file_lock_update (\<lambda>_. Some me)) s }"

definition file_release :: "nat \<Rightarrow> nat \<Rightarrow> fstate \<Rightarrow> fstate option" where
  "file_release me f s =
     do { x \<leftarrow> files s f; kassert (file_lock x = Some me); upd_file f (file_lock_update (\<lambda>_. None)) s }"

definition table_acquire :: "nat \<Rightarrow> nat \<Rightarrow> fstate \<Rightarrow> fstate option" where
  "table_acquire me t s =
     do { x \<leftarrow> ftables s t; kassert (file_table_lock x = None); upd_table t (file_table_lock_update (\<lambda>_. Some me)) s }"

definition table_release :: "nat \<Rightarrow> nat \<Rightarrow> fstate \<Rightarrow> fstate option" where
  "table_release me t s =
     do { x \<leftarrow> ftables s t; kassert (file_table_lock x = Some me); upd_table t (file_table_lock_update (\<lambda>_. None)) s }"

text \<open>An array element; outside the array the code would touch other memory.\<close>

definition arr_get :: "nat \<Rightarrow> int \<Rightarrow> fstate \<Rightarrow> nat option option" where
  "arr_get t i s = do { x \<leftarrow> ftables s t; kassert (0 \<le> i \<and> i < int OPEN_MAX); Some (file_arr x (nat i)) }"

definition arr_set :: "nat \<Rightarrow> int \<Rightarrow> nat option \<Rightarrow> fstate \<Rightarrow> fstate option" where
  "arr_set t i p s =
     do { kassert (0 \<le> i \<and> i < int OPEN_MAX);
          upd_table t (\<lambda>x. x\<lparr>file_arr := (file_arr x)(nat i := p)\<rparr>) s }"

section \<open>Files\<close>

definition kstrdup :: "nat \<Rightarrow> nat option \<Rightarrow> fstate \<Rightarrow> (nat option \<times> fstate) option" where
  "kstrdup p addr s =
     do { _ \<leftarrow> strlen (uc_mem (fs_uc s)) p;
          case addr of None \<Rightarrow> Some (None, s)
          | Some z \<Rightarrow> do { (_, m) \<leftarrow> strcpy z p (uc_mem (fs_uc s));
                          Some (Some z, s\<lparr>fs_uc := (fs_uc s)\<lparr>uc_mem := m\<rparr>\<rparr>) } }"

text \<open>\<open>addr\<close>, \<open>dup\<close> and \<open>ok_lock\<close> are what the three allocations find.\<close>

definition file_create :: "nat option \<Rightarrow> nat option \<Rightarrow> nat option \<Rightarrow> bool \<Rightarrow> fstate \<Rightarrow> (nat option \<times> fstate) option" where
  "file_create path addr dup ok_lock s =
     (case path of None \<Rightarrow> Some (None, s)
      | Some p \<Rightarrow>
        (case addr of None \<Rightarrow> Some (None, s)
         | Some tmp \<Rightarrow>
           do { (z, s) \<leftarrow> kstrdup p dup s;
                if z = None then Some (None, s)
                else if \<not> ok_lock then Some (None, s)
                else Some (Some tmp, s\<lparr>files := (files s)(tmp \<mapsto>
                       \<lparr>file_vnode = None, file_lock = None, seek_pos = 0, file_path = z,
                        master_fd = FLOATING_FILE\<rparr>)\<rparr>) }))"

definition file_destroy :: "(nat \<Rightarrow> vnode_ops) \<Rightarrow> nat \<Rightarrow> nat option \<Rightarrow> fstate \<Rightarrow> (int \<times> fstate) option" where
  "file_destroy vops me fp s =
     (case fp of None \<Rightarrow> Some (0, s)
      | Some f \<Rightarrow>
        do {
          s \<leftarrow> file_acquire me f s;
          x \<leftarrow> files s f;
          v \<leftarrow> file_vnode x;
          vn \<leftarrow> vnodes s v;
          if vn_refcount vn = ONE_FILE_OWNER then
            do {
              s \<leftarrow> vnode_decref vops (file_vnode x) s;
              s \<leftarrow> upd_file f (\<lambda>x. x\<lparr>file_vnode := None, seek_pos := 0\<rparr>) s;
              x \<leftarrow> files s f;
              s \<leftarrow> (if master_fd x \<noteq> FLOATING_FILE then
                      do { s \<leftarrow> table_acquire me (kproc_ft s) s;
                           s \<leftarrow> arr_set (kproc_ft s) (master_fd x) None s;
                           table_release me (kproc_ft s) s }
                    else Some s);
              s \<leftarrow> upd_file f (master_fd_update (\<lambda>_. 0)) s;
              s \<leftarrow> file_release me f s;
              Some (0, s\<lparr>files := (files s)(f := None)\<rparr>)
            }
          else
            do { s \<leftarrow> vnode_decref vops (file_vnode x) s; s \<leftarrow> file_release me f s; Some (0, s) }
        })"

definition file_copy :: "(nat \<Rightarrow> vnode_ops) \<Rightarrow> nat \<Rightarrow> nat option \<Rightarrow> int \<Rightarrow> int \<Rightarrow> fstate \<Rightarrow> (int \<times> fstate) option" where
  "file_copy vops me file_t oldfd newfd s =
     (if oldfd < int MIN_FD \<or> newfd < int MIN_FD \<or> oldfd \<ge> int OPEN_MAX \<or> newfd \<ge> int OPEN_MAX \<or> file_t = None
      then Some (- 1, s)
      else do {
        k \<leftarrow> arr_get (kproc_ft s) oldfd s;
        if k = None then Some (- 1, s)
        else do {
          t \<leftarrow> file_t;
          s \<leftarrow> table_acquire me t s;
          old \<leftarrow> arr_get t oldfd s;
          f \<leftarrow> old;
          s \<leftarrow> file_acquire me f s;
          s \<leftarrow> table_acquire me (kproc_ft s) s;
          new \<leftarrow> arr_get t newfd s;
          s \<leftarrow> (if new \<noteq> None then do { (_, s) \<leftarrow> file_destroy vops me new s; Some s } else Some s);
          k \<leftarrow> arr_get (kproc_ft s) oldfd s;
          s \<leftarrow> arr_set t newfd k s;
          s \<leftarrow> table_release me (kproc_ft s) s;
          old \<leftarrow> arr_get t oldfd s;
          f \<leftarrow> old;
          s \<leftarrow> file_release me f s;
          s \<leftarrow> table_release me t s;
          Some (0, s)
        }
      })"

section \<open>File tables\<close>

text \<open>\<open>file_arr\<close> is an array inside the structure, so the test for NULL never fires, and
  \<open>kfree(tmp->file_arr)\<close> frees the structure itself (it is its first member): the \<open>kfree(tmp)\<close> that
  follows is a double free, which \<open>subpage_kfree\<close> answers with a failed assertion.\<close>

definition file_table_create :: "nat option \<Rightarrow> bool \<Rightarrow> fstate \<Rightarrow> (nat option \<times> fstate) option" where
  "file_table_create addr ok_lock s =
     (case addr of None \<Rightarrow> Some (None, s)
      | Some tmp \<Rightarrow>
          do { kassert ok_lock;
               Some (Some tmp, s\<lparr>ftables := (ftables s)(tmp \<mapsto>
                       \<lparr>file_arr = (\<lambda>_. None), file_table_lock = None, num_files = 0\<rparr>)\<rparr>) })"

fun destroy_loop :: "(nat \<Rightarrow> vnode_ops) \<Rightarrow> nat \<Rightarrow> nat \<Rightarrow> nat list \<Rightarrow> fstate \<Rightarrow> fstate option" where
  "destroy_loop vops me t [] s = Some s"
| "destroy_loop vops me t (i # is) s =
     do { p \<leftarrow> arr_get t (int i) s; (_, s) \<leftarrow> file_destroy vops me p s; destroy_loop vops me t is s }"

text \<open>\<open>kfree(file_t->file_arr)\<close> frees the table (see above), and \<open>kfree\<close> overwrites the block, so
  the uses of \<open>file_t\<close> that follow find no table.\<close>

definition file_table_destroy :: "(nat \<Rightarrow> vnode_ops) \<Rightarrow> nat \<Rightarrow> nat option \<Rightarrow> fstate \<Rightarrow> (int \<times> fstate) option" where
  "file_table_destroy vops me file_t s =
     do {
       t \<leftarrow> file_t;
       s \<leftarrow> table_acquire me t s;
       s \<leftarrow> destroy_loop vops me t [0..<OPEN_MAX] s;
       s \<leftarrow> upd_table t (num_files_update (\<lambda>_. 0)) s;
       let s = s\<lparr>ftables := (ftables s)(t := None)\<rparr>;
       s \<leftarrow> table_release me t s;
       Some (0, s\<lparr>ftables := (ftables s)(t := None)\<rparr>)
     }"

text \<open>The two conditionals at the top of the loop of \<open>file_table_add\<close>, for one index.\<close>

definition add_slot :: "nat \<Rightarrow> nat \<Rightarrow> nat \<Rightarrow> int \<Rightarrow> fstate \<Rightarrow> (int \<times> fstate) option" where
  "add_slot t f i fd s =
     do {
       g \<leftarrow> arr_get (kproc_ft s) (int i) s;
       x \<leftarrow> files s f;
       s \<leftarrow> (if g = None \<and> master_fd x = FLOATING_FILE then
               do { s \<leftarrow> arr_set (kproc_ft s) (int i) (Some f) s;
                    upd_file f (master_fd_update (\<lambda>_. int i)) s }
             else Some s);
       l \<leftarrow> arr_get t (int i) s;
       if l = None \<and> fd < int MIN_FD then
         do { s \<leftarrow> arr_set t (int i) (Some f) s;
              x \<leftarrow> files s f;
              s \<leftarrow> vnode_incref (file_vnode x) s;
              Some (int i, s) }
       else Some (fd, s)
     }"

text \<open>The loop; the flag says whether it ended in the early return.\<close>

fun add_loop :: "nat \<Rightarrow> nat \<Rightarrow> nat \<Rightarrow> nat list \<Rightarrow> int \<Rightarrow> fstate \<Rightarrow> (bool \<times> int \<times> fstate) option" where
  "add_loop me t f [] fd s = Some (False, fd, s)"
| "add_loop me t f (i # is) fd s =
     do {
       (fd, s) \<leftarrow> add_slot t f i fd s;
       x \<leftarrow> files s f;
       if fd \<ge> int MIN_FD \<and> master_fd x \<noteq> FLOATING_FILE then
         do { s \<leftarrow> table_release me (kproc_ft s) s;
              s \<leftarrow> table_release me t s;
              s \<leftarrow> file_release me f s;
              Some (True, fd, s) }
       else add_loop me t f is fd s
     }"

definition file_table_add :: "(nat \<Rightarrow> vnode_ops) \<Rightarrow> nat \<Rightarrow> nat \<Rightarrow> nat option \<Rightarrow> fstate \<Rightarrow> (int \<times> fstate) option" where
  "file_table_add vops me t fp s =
     do {
       kt \<leftarrow> ftables s (kproc_ft s);
       if num_files kt = int OPEN_MAX then Some (- 1, s)
       else (case fp of None \<Rightarrow> Some (- 1, s)
       | Some f \<Rightarrow>
         do {
           x \<leftarrow> files s f;
           if file_vnode x = None then Some (- 1, s)
           else do {
             s \<leftarrow> file_acquire me f s;
             s \<leftarrow> table_acquire me t s;
             s \<leftarrow> table_acquire me (kproc_ft s) s;
             (early, fd, s) \<leftarrow> add_loop me t f [MIN_FD..<OPEN_MAX] FLOATING_FILE s;
             if early then Some (fd, s)
             else do {
               x \<leftarrow> files s f;
               s \<leftarrow> (if fd \<ge> int MIN_FD then
                       do { s \<leftarrow> arr_set t fd None s; vnode_decref vops (file_vnode x) s }
                     else Some s);
               x \<leftarrow> files s f;
               s \<leftarrow> (if master_fd x \<noteq> FLOATING_FILE then
                       do { s \<leftarrow> arr_set (kproc_ft s) (master_fd x) None s;
                            upd_file f (master_fd_update (\<lambda>_. FLOATING_FILE)) s }
                     else Some s);
               s \<leftarrow> table_release me (kproc_ft s) s;
               s \<leftarrow> table_release me t s;
               s \<leftarrow> file_release me f s;
               Some (- 1, s)
             }
           }
         })
     }"

definition file_table_lookup :: "nat \<Rightarrow> nat option \<Rightarrow> int \<Rightarrow> fstate \<Rightarrow> (nat option \<times> fstate) option" where
  "file_table_lookup me file_t fd s =
     (case file_t of None \<Rightarrow> Some (None, s)
      | Some t \<Rightarrow>
        if fd < 3 then Some (None, s)
        else do { s \<leftarrow> table_acquire me t s;
                  f \<leftarrow> arr_get t fd s;
                  s \<leftarrow> table_release me t s;
                  Some (f, s) })"

fun copy_loop :: "nat \<Rightarrow> nat \<Rightarrow> nat \<Rightarrow> nat list \<Rightarrow> fstate \<Rightarrow> fstate option" where
  "copy_loop me t tmp [] s = Some s"
| "copy_loop me t tmp (i # is) s =
     do {
       p \<leftarrow> arr_get t (int i) s;
       s \<leftarrow> (case p of None \<Rightarrow> Some s
             | Some f \<Rightarrow>
                do { s \<leftarrow> file_acquire me f s;
                     s \<leftarrow> arr_set tmp (int i) (Some f) s;
                     x \<leftarrow> files s f;
                     s \<leftarrow> vnode_incref (file_vnode x) s;
                     file_release me f s });
       copy_loop me t tmp is s
     }"

text \<open>When \<open>file_table_create\<close> fails the code returns with \<open>file_table_lock\<close> still held.\<close>

definition file_table_copy :: "nat \<Rightarrow> nat option \<Rightarrow> nat option \<Rightarrow> bool \<Rightarrow> fstate \<Rightarrow> (nat option \<times> fstate) option" where
  "file_table_copy me file_t addr ok_lock s =
     (case file_t of None \<Rightarrow> Some (None, s)
      | Some t \<Rightarrow>
        do {
          s \<leftarrow> table_acquire me t s;
          (r, s) \<leftarrow> file_table_create addr ok_lock s;
          case r of None \<Rightarrow> Some (None, s)
          | Some tmp \<Rightarrow>
            do {
              x \<leftarrow> ftables s t;
              s \<leftarrow> upd_table tmp (num_files_update (\<lambda>_. num_files x)) s;
              s \<leftarrow> copy_loop me t tmp [MIN_FD..<OPEN_MAX] s;
              s \<leftarrow> table_release me t s;
              Some (Some tmp, s)
            }
        })"

section \<open>Symbolic execution\<close>

text \<open>
  \<open>view s t T K f x v n\<close> is the state \<open>s\<close> with the four objects an operation works on replaced: the
  caller's table, the master table, the file and its vnode. Every primitive acts on one of them.
\<close>

definition view :: "fstate \<Rightarrow> nat \<Rightarrow> file_table \<Rightarrow> file_table \<Rightarrow> nat \<Rightarrow> kfile \<Rightarrow> nat \<Rightarrow> vnode \<Rightarrow> fstate" where
  "view s t T K f x v n =
     s\<lparr>ftables := (ftables s)(t \<mapsto> T, kproc_ft s \<mapsto> K), files := (files s)(f \<mapsto> x), vnodes := (vnodes s)(v \<mapsto> n)\<rparr>"

named_theorems ft_exec

lemma view_sel [ft_exec]:
  "kproc_ft (view s t T K f x v n) = kproc_ft s"
  "fs_uc (view s t T K f x v n) = fs_uc s"
  "files (view s t T K f x v n) f = Some x"
  "vnodes (view s t T K f x v n) v = Some n"
  "ftables (view s t T K f x v n) (kproc_ft s) = Some K"
  "t \<noteq> kproc_ft s \<Longrightarrow> ftables (view s t T K f x v n) t = Some T"
  by (simp_all add: view_def)

lemma record_order [ft_exec]:
  "T\<lparr>file_table_lock := b, file_arr := a\<rparr> = (T :: file_table)\<lparr>file_arr := a, file_table_lock := b\<rparr>"
  "x\<lparr>file_lock := b, master_fd := m\<rparr> = (x :: kfile)\<lparr>master_fd := m, file_lock := b\<rparr>"
  by simp_all

lemma record_idem [ft_exec]:
  "file_table_lock T = b \<Longrightarrow> (T :: file_table)\<lparr>file_table_lock := b\<rparr> = T"
  "file_lock x = b \<Longrightarrow> (x :: kfile)\<lparr>file_lock := b\<rparr> = x"
  "master_fd x = m \<Longrightarrow> (x :: kfile)\<lparr>master_fd := m\<rparr> = x"
  by simp_all

lemma view_same:
  "ftables s t = Some T \<Longrightarrow> ftables s (kproc_ft s) = Some K \<Longrightarrow> files s f = Some x \<Longrightarrow> vnodes s v = Some n \<Longrightarrow>
   view s t T K f x v n = s"
  by (simp add: view_def map_upd_triv fun_upd_idem)

lemma view_upd [ft_exec]:
  "upd_file f g (view s t T K f x v n) = Some (view s t T K f (g x) v n)"
  "upd_vnode v h (view s t T K f x v n) = Some (view s t T K f x v (h n))"
  "upd_table (kproc_ft s) u (view s t T K f x v n) = Some (view s t T (u K) f x v n)"
  "t \<noteq> kproc_ft s \<Longrightarrow> upd_table t u (view s t T K f x v n) = Some (view s t (u T) K f x v n)"
  by (simp_all add: view_def upd_file_def upd_vnode_def upd_table_def fun_upd_twist [of t "kproc_ft s"])

lemma view_lock [ft_exec]:
  "file_lock x = None \<Longrightarrow> file_acquire me f (view s t T K f x v n) = Some (view s t T K f (x\<lparr>file_lock := Some me\<rparr>) v n)"
  "file_lock x = Some me \<Longrightarrow> file_release me f (view s t T K f x v n) = Some (view s t T K f (x\<lparr>file_lock := None\<rparr>) v n)"
  "file_table_lock K = None \<Longrightarrow>
     table_acquire me (kproc_ft s) (view s t T K f x v n) = Some (view s t T (K\<lparr>file_table_lock := Some me\<rparr>) f x v n)"
  "file_table_lock K = Some me \<Longrightarrow>
     table_release me (kproc_ft s) (view s t T K f x v n) = Some (view s t T (K\<lparr>file_table_lock := None\<rparr>) f x v n)"
  "t \<noteq> kproc_ft s \<Longrightarrow> file_table_lock T = None \<Longrightarrow>
     table_acquire me t (view s t T K f x v n) = Some (view s t (T\<lparr>file_table_lock := Some me\<rparr>) K f x v n)"
  "t \<noteq> kproc_ft s \<Longrightarrow> file_table_lock T = Some me \<Longrightarrow>
     table_release me t (view s t T K f x v n) = Some (view s t (T\<lparr>file_table_lock := None\<rparr>) K f x v n)"
  by (simp_all add: file_acquire_def file_release_def table_acquire_def table_release_def view_sel view_upd)

lemma view_arr [ft_exec]:
  "i < OPEN_MAX \<Longrightarrow> arr_get (kproc_ft s) (int i) (view s t T K f x v n) = Some (file_arr K i)"
  "i < OPEN_MAX \<Longrightarrow> t \<noteq> kproc_ft s \<Longrightarrow> arr_get t (int i) (view s t T K f x v n) = Some (file_arr T i)"
  "i < OPEN_MAX \<Longrightarrow> arr_set (kproc_ft s) (int i) p (view s t T K f x v n) =
     Some (view s t T (K\<lparr>file_arr := (file_arr K)(i := p)\<rparr>) f x v n)"
  "i < OPEN_MAX \<Longrightarrow> t \<noteq> kproc_ft s \<Longrightarrow> arr_set t (int i) p (view s t T K f x v n) =
     Some (view s t (T\<lparr>file_arr := (file_arr T)(i := p)\<rparr>) K f x v n)"
  by (simp_all add: arr_get_def arr_set_def view_sel view_upd)

lemma view_ref [ft_exec]:
  "vnode_incref (Some v) (view s t T K f x v n) = Some (view s t T K f x v (n\<lparr>vn_refcount := vn_refcount n + 1\<rparr>))"
  "vn_refcount n > 1 \<Longrightarrow>
     vnode_decref vops (Some v) (view s t T K f x v n) = Some (view s t T K f x v (n\<lparr>vn_refcount := vn_refcount n - 1\<rparr>))"
  by (simp_all add: vnode_incref_def vnode_decref_def view_sel view_upd)

section \<open>Finding a slot\<close>

definition first_free :: "(nat \<Rightarrow> nat option) \<Rightarrow> nat list \<Rightarrow> nat option" where
  "first_free arr is = find (\<lambda>i. arr i = None) is"

lemma first_free_simps [simp]:
  "first_free arr [] = None"
  "first_free arr (i # is) = (if arr i = None then Some i else first_free arr is)"
  by (simp_all add: first_free_def)

definition or_else :: "'a option \<Rightarrow> 'a option \<Rightarrow> 'a option" where
  "or_else a b = (case a of None \<Rightarrow> b | Some x \<Rightarrow> Some x)"

lemma or_else_simps [simp]: "or_else None b = b" "or_else (Some x) b = Some x" "or_else a None = a"
  by (simp_all add: or_else_def split: option.split)

text \<open>The objects once the file has been given the slots \<open>g\<close> and \<open>l\<close>, where it has.\<close>

definition put :: "nat \<Rightarrow> nat option \<Rightarrow> file_table \<Rightarrow> file_table" where
  "put f l T = (case l of None \<Rightarrow> T | Some i \<Rightarrow> T\<lparr>file_arr := (file_arr T)(i \<mapsto> f)\<rparr>)"

definition fd_of :: "nat option \<Rightarrow> int" where
  "fd_of l = (case l of None \<Rightarrow> - 1 | Some i \<Rightarrow> int i)"

definition placed :: "fstate \<Rightarrow> nat \<Rightarrow> file_table \<Rightarrow> file_table \<Rightarrow> nat \<Rightarrow> kfile \<Rightarrow> nat \<Rightarrow> vnode \<Rightarrow> nat option \<Rightarrow> nat option \<Rightarrow> fstate" where
  "placed s t T K f x v n g l =
     view s t (put f l T) (put f g K) f (x\<lparr>master_fd := fd_of g\<rparr>) v
       (n\<lparr>vn_refcount := vn_refcount n + (if l = None then 0 else 1)\<rparr>)"

lemma put_simps [simp]:
  "put f None T = T" "put f (Some i) T = T\<lparr>file_arr := (file_arr T)(i \<mapsto> f)\<rparr>"
  by (simp_all add: put_def)

lemma fd_of_simps [simp]:
  "fd_of None = - 1" "fd_of (Some i) = int i" "fd_of g = - 1 \<longleftrightarrow> g = None"
  by (simp_all add: fd_of_def split: option.split)

lemma add_slot_placed:
  assumes "t \<noteq> kproc_ft s" "MIN_FD \<le> i" "i < OPEN_MAX" "file_vnode x = Some v"
    and "\<And>j. l = Some j \<Longrightarrow> MIN_FD \<le> j"
  shows "add_slot t f i (fd_of l) (placed s t T K f x v n g l) =
    (let g' = or_else g (first_free (file_arr K) [i]); l' = or_else l (first_free (file_arr T) [i])
     in Some (fd_of l', placed s t T K f x v n g' l'))"
  using assms
  by (cases g; cases l) (auto simp: add_slot_def placed_def ft_exec)

lemma add_loop_placed:
  assumes "t \<noteq> kproc_ft s" "file_vnode x = Some v" "file_lock x = Some me"
    and "file_table_lock T = Some me" "file_table_lock K = Some me"
  shows "\<lbrakk>\<forall>i\<in>set is. MIN_FD \<le> i \<and> i < OPEN_MAX; g = None \<or> l = None; \<And>j. l = Some j \<Longrightarrow> MIN_FD \<le> j\<rbrakk> \<Longrightarrow>
    add_loop me t f is (fd_of l) (placed s t T K f x v n g l) =
    (let g' = or_else g (first_free (file_arr K) is); l' = or_else l (first_free (file_arr T) is)
     in if g' = None \<or> l' = None then Some (False, fd_of l', placed s t T K f x v n g' l')
        else Some (True, fd_of l', placed s t (T\<lparr>file_table_lock := None\<rparr>) (K\<lparr>file_table_lock := None\<rparr>) f
               (x\<lparr>file_lock := None\<rparr>) v n g' l'))"
proof (induction "is" arbitrary: g l)
  case Nil
  then show ?case by auto
next
  case (Cons i js)
  define G L where GL: "G = or_else g (first_free (file_arr K) [i])" "L = or_else l (first_free (file_arr T) [i])"
  have slot: "add_slot t f i (fd_of l) (placed s t T K f x v n g l) = Some (fd_of L, placed s t T K f x v n G L)"
    using add_slot_placed [OF assms(1), of i x v l f T K n g] Cons.prems assms(2) by (simp add: Let_def GL)
  have low: "MIN_FD \<le> j" if "L = Some j" for j
    using that Cons.prems by (cases l) (auto simp: GL split: if_splits)
  have fx: "files (placed s t T K f x v n G L) f = Some (x\<lparr>master_fd := fd_of G\<rparr>)"
    by (simp add: placed_def ft_exec)
  have nxt: "or_else g (first_free (file_arr K) (i # js)) = or_else G (first_free (file_arr K) js)"
    "or_else l (first_free (file_arr T) (i # js)) = or_else L (first_free (file_arr T) js)"
    by (cases g; cases l; simp add: GL)+
  show ?case
  proof (cases "G = None \<or> L = None")
    case True
    have "add_loop me t f (i # js) (fd_of l) (placed s t T K f x v n g l) =
        add_loop me t f js (fd_of L) (placed s t T K f x v n G L)"
      using True by (auto simp: slot fx)
    then show ?thesis
      unfolding nxt using Cons.IH [OF _ True low] Cons.prems(1) by simp
  next
    case False
    then obtain g' l' where gl: "G = Some g'" "L = Some l'" by auto
    then show ?thesis
      unfolding nxt using low [of l'] fx slot assms by (simp add: placed_def ft_exec)
  qed
qed

lemma first_free_SomeD:
  assumes "first_free arr is = Some i"
  shows "i \<in> set is" "arr i = None"
  using assms unfolding first_free_def find_Some_iff by auto

lemma first_free_least:
  "first_free arr is = Some i \<Longrightarrow> sorted is \<Longrightarrow> j \<in> set is \<Longrightarrow> j < i \<Longrightarrow> arr j \<noteq> None"
  by (induction "is") (auto split: if_splits)

lemma first_free_None: "first_free arr is = None \<longleftrightarrow> (\<forall>i\<in>set is. arr i \<noteq> None)"
  unfolding first_free_def find_None_iff by auto

text \<open>Undoing a placement in one table gives back the objects as they were.\<close>

lemma put_undo:
  "file_arr T i = None \<Longrightarrow> T\<lparr>file_arr := (file_arr T)(i := None)\<rparr> = T"
  by (simp add: fun_upd_idem)

lemma file_table_add_eq:
  assumes "t \<noteq> kproc_ft s" "ftables s t = Some T" "ftables s (kproc_ft s) = Some K" "files s f = Some x"
    "file_vnode x = Some v" "vnodes s v = Some n" "vn_refcount n > 0" "master_fd x = FLOATING_FILE"
    "file_lock x = None" "file_table_lock T = None" "file_table_lock K = None" "num_files K \<noteq> int OPEN_MAX"
  shows "file_table_add vops me t (Some f) s =
    (case (first_free (file_arr K) [MIN_FD..<OPEN_MAX], first_free (file_arr T) [MIN_FD..<OPEN_MAX]) of
       (Some g, Some l) \<Rightarrow> Some (int l, placed s t T K f x v n (Some g) (Some l))
     | _ \<Rightarrow> Some (- 1, s))"
proof -
  let ?G = "first_free (file_arr K) [MIN_FD..<OPEN_MAX]" and ?L = "first_free (file_arr T) [MIN_FD..<OPEN_MAX]"
  let ?T = "T\<lparr>file_table_lock := Some me\<rparr>" and ?K = "K\<lparr>file_table_lock := Some me\<rparr>" and ?x = "x\<lparr>file_lock := Some me\<rparr>"
  have s: "s = view s t T K f x v n"
    by (rule view_same [OF assms(2,3,4,6), symmetric])
  have start: "view s t ?T ?K f ?x v n = placed s t ?T ?K f ?x v n None None"
    using assms(8) by (cases x) (simp add: placed_def)
  have loop: "add_loop me t f [MIN_FD..<OPEN_MAX] (- 1) (view s t ?T ?K f ?x v n) =
    (if ?G = None \<or> ?L = None then Some (False, fd_of ?L, placed s t ?T ?K f ?x v n ?G ?L)
     else Some (True, fd_of ?L, placed s t T K f x v n ?G ?L))"
    using add_loop_placed [OF assms(1), of ?x v me ?T ?K "[MIN_FD..<OPEN_MAX]" None None f n] assms
    unfolding start by (simp add: Let_def ft_exec del: upt_rec_numeral)
  have ex: "file_table_add vops me t (Some f) (view s t T K f x v n) =
    (case (?G, ?L) of (Some g, Some l) \<Rightarrow> Some (int l, placed s t T K f x v n (Some g) (Some l))
     | _ \<Rightarrow> Some (- 1, view s t T K f x v n))"
    using assms loop first_free_SomeD [of "file_arr K" "[MIN_FD..<OPEN_MAX]"]
      first_free_SomeD [of "file_arr T" "[MIN_FD..<OPEN_MAX]"]
    by (auto simp: file_table_add_def ft_exec placed_def put_undo split: option.split simp del: upt_rec_numeral)
  show ?thesis
    using ex unfolding s [symmetric] .
qed

end
