(* ===== verification/File_Table_Inv.thy ===== *)
theory File_Table_Inv
  imports File_Table
begin

text \<open>
  The invariant of the file tables and that the operations of \<open>kern/thread/file_table.c\<close> keep it:
  every slot of every table refers to a live file with a live vnode that also sits in the master
  table, and a vnode's reference count is at least the number of slots that lead to it.
\<close>

section \<open>The invariant\<close>

text \<open>What slot \<open>i\<close> of table \<open>t\<close> holds, the vnode of a file, and all slots that lead to a vnode.\<close>

definition entry :: "fstate \<Rightarrow> nat \<Rightarrow> nat \<Rightarrow> nat option" where
  "entry s t i = do { T \<leftarrow> ftables s t; file_arr T i }"

definition vn_of :: "fstate \<Rightarrow> nat \<Rightarrow> nat option" where
  "vn_of s f = do { x \<leftarrow> files s f; file_vnode x }"

definition slots :: "fstate \<Rightarrow> nat \<Rightarrow> (nat \<times> nat) set" where
  "slots s v = {(t, i). \<exists>f. entry s t i = Some f \<and> vn_of s f = Some v}"

text \<open>A file in use has a vnode and sits in the master slot its \<open>master_fd\<close> names.\<close>

definition in_use :: "fstate \<Rightarrow> nat \<Rightarrow> bool" where
  "in_use s f \<longleftrightarrow> (\<exists>x v n j. files s f = Some x \<and> file_vnode x = Some v \<and> vnodes s v = Some n \<and>
     master_fd x = int j \<and> entry s (kproc_ft s) j = Some f)"

definition ft_core :: "fstate \<Rightarrow> bool" where
  "ft_core s \<longleftrightarrow>
     finite {(t, i). entry s t i \<noteq> None} \<and>
     (\<forall>t i f. entry s t i = Some f \<longrightarrow> MIN_FD \<le> i \<and> i < OPEN_MAX \<and> in_use s f) \<and>
     (\<forall>i f x. entry s (kproc_ft s) i = Some f \<longrightarrow> files s f = Some x \<longrightarrow> master_fd x = int i) \<and>
     (\<forall>v n. vnodes s v = Some n \<longrightarrow> slots s v \<noteq> {} \<longrightarrow> int (card (slots s v)) \<le> vn_refcount n)"

text \<open>Between two operations no lock is held and the master table is there.\<close>

definition ft_idle :: "fstate \<Rightarrow> bool" where
  "ft_idle s \<longleftrightarrow> (\<forall>f x. files s f = Some x \<longrightarrow> file_lock x = None) \<and>
     (\<forall>t T. ftables s t = Some T \<longrightarrow> file_table_lock T = None \<and> num_files T = 0) \<and> ftables s (kproc_ft s) \<noteq> None"

definition ft_inv :: "fstate \<Rightarrow> bool" where
  "ft_inv s \<longleftrightarrow> ft_core s \<and> ft_idle s"

lemma ft_coreD:
  assumes "ft_core s"
  shows "finite {(t, i). entry s t i \<noteq> None}"
    "entry s t i = Some f \<Longrightarrow> MIN_FD \<le> i \<and> i < OPEN_MAX"
    "entry s t i = Some f \<Longrightarrow> in_use s f"
    "entry s (kproc_ft s) i = Some f \<Longrightarrow> files s f = Some x \<Longrightarrow> master_fd x = int i"
    "vnodes s v = Some n \<Longrightarrow> slots s v \<noteq> {} \<Longrightarrow> int (card (slots s v)) \<le> vn_refcount n"
  using assms unfolding ft_core_def by blast+

lemma ft_coreI:
  assumes "finite {(t, i). entry s t i \<noteq> None}"
    "\<And>t i f. entry s t i = Some f \<Longrightarrow> MIN_FD \<le> i \<and> i < OPEN_MAX"
    "\<And>t i f. entry s t i = Some f \<Longrightarrow> in_use s f"
    "\<And>i f x. entry s (kproc_ft s) i = Some f \<Longrightarrow> files s f = Some x \<Longrightarrow> master_fd x = int i"
    "\<And>v n. vnodes s v = Some n \<Longrightarrow> slots s v \<noteq> {} \<Longrightarrow> int (card (slots s v)) \<le> vn_refcount n"
  shows "ft_core s"
  using assms unfolding ft_core_def by simp

lemma finite_slots: "ft_core s \<Longrightarrow> finite (slots s v)"
  by (rule finite_subset [OF _ ft_coreD(1)]) (auto simp: slots_def)

lemma slots_iff: "(t, i) \<in> slots s v \<longleftrightarrow> (\<exists>f. entry s t i = Some f \<and> vn_of s f = Some v)"
  by (simp add: slots_def)

lemma entry_view:
  "t \<noteq> kproc_ft s \<Longrightarrow> entry (view s t T K f x v n) t' i =
    (if t' = kproc_ft s then file_arr K i else if t' = t then file_arr T i else entry s t' i)"
  by (simp add: entry_def view_def)

lemma entry_files: "entry (s\<lparr>files := q\<rparr>) t i = entry s t i"
  by (simp add: entry_def)

lemma vn_of_view: "vn_of (view s t T K f x v n) f' = (if f' = f then file_vnode x else vn_of s f')"
  by (simp add: vn_of_def view_def)

text \<open>Everything an occupied slot gives.\<close>

lemma slot_objects:
  assumes "ft_core s" "entry s t i = Some f"
  obtains x v n j where "files s f = Some x" "file_vnode x = Some v" "vnodes s v = Some n" "master_fd x = int j"
    "entry s (kproc_ft s) j = Some f" "j < OPEN_MAX" "(t, i) \<in> slots s v" "(kproc_ft s, j) \<in> slots s v"
    "int (card (slots s v)) \<le> vn_refcount n"
proof -
  obtain x v n j where *: "files s f = Some x" "file_vnode x = Some v" "vnodes s v = Some n" "master_fd x = int j"
    "entry s (kproc_ft s) j = Some f"
    using ft_coreD(3) [OF assms] unfolding in_use_def by blast
  have mem: "(t, i) \<in> slots s v" "(kproc_ft s, j) \<in> slots s v"
    using * assms(2) by (simp_all add: slots_iff vn_of_def)
  then have "slots s v \<noteq> {}" by blast
  then show thesis
    using that [OF *] mem ft_coreD(2) [OF assms(1) *(5)] ft_coreD(5) [OF assms(1) *(3)] by blast
qed

lemma two_slots:
  assumes "finite S" "a \<in> S" "b \<in> S" "a \<noteq> b"
  shows "2 \<le> card S" "card S = 2 \<Longrightarrow> S = {a, b}"
proof -
  have sub: "{a, b} \<subseteq> S" "card {a, b} = 2" using assms by auto
  then show "2 \<le> card S" using card_mono [OF assms(1) sub(1)] by simp
  show "S = {a, b}" if "card S = 2"
    using card_subset_eq [OF assms(1) sub(1)] sub(2) that by simp
qed

text \<open>Removing a reference that is not the last, the last one, and adding one.\<close>

lemma core_unlink:
  assumes "ft_core s" "entry s t i = Some f" "t \<noteq> kproc_ft s" "vn_of s f = Some v" "vnodes s v = Some n"
    and s': "kproc_ft s' = kproc_ft s" "files s' = files s" "vnodes s' = (vnodes s)(v \<mapsto> n\<lparr>vn_refcount := vn_refcount n - 1\<rparr>)"
      "\<And>t' i'. entry s' t' i' = (if t' = t \<and> i' = i then None else entry s t' i')"
  shows "ft_core s'"
proof -
  have vn: "vn_of s' = vn_of s" by (simp add: vn_of_def s' fun_eq_iff)
  have sl: "slots s' w = slots s w - {(t, i)}" for w by (auto simp: slots_def s'(4) vn split: if_splits)
  have mem: "(t, i) \<in> slots s v" using assms(2,4) by (simp add: slots_iff)
  then have ne: "slots s v \<noteq> {}" by blast
  have use': "in_use s' f'" if u: "in_use s f'" for f'
  proof -
    obtain x w m j where "files s f' = Some x" "file_vnode x = Some w" "vnodes s w = Some m"
      "master_fd x = int j" "entry s (kproc_ft s) j = Some f'"
      using u unfolding in_use_def by blast
    then have "files s' f' = Some x" "file_vnode x = Some w"
      "vnodes s' w = Some (if w = v then n\<lparr>vn_refcount := vn_refcount n - 1\<rparr> else m)"
      "master_fd x = int j" "entry s' (kproc_ft s') j = Some f'"
      using assms(3) s' by auto
    then show ?thesis unfolding in_use_def by blast
  qed
  have cnt: "int (card (slots s' w)) \<le> vn_refcount m" if "vnodes s' w = Some m" "slots s' w \<noteq> {}" for w m
  proof (cases "w = v")
    case True
    then show ?thesis
      using that(1) ft_coreD(5) [OF assms(1,5) ne] mem finite_slots [OF assms(1), of v] card_gt_0_iff [of "slots s v"]
      by (auto simp: sl s' card_Diff_singleton)
  next
    case False
    moreover have "slots s w \<noteq> {}" using that(2) sl by blast
    ultimately have "int (card (slots s w)) \<le> vn_refcount m" using that(1) ft_coreD(5) [OF assms(1)] s' by simp
    then show ?thesis
      using card_Diff1_le [of "slots s w" "(t, i)"] by (simp add: sl)
  qed
  have fin: "finite {(t', i'). entry s' t' i' \<noteq> None}"
    by (rule finite_subset [OF _ ft_coreD(1) [OF assms(1)]]) (auto simp: s'(4) split: if_splits)
  have ent: "entry s t' i' = Some f'" if "entry s' t' i' = Some f'" for t' i' f'
    using that by (simp add: s'(4) split: if_splits)
  have mas: "master_fd x = int i'" if "entry s' (kproc_ft s') i' = Some f'" "files s' f' = Some x" for i' f' x
    using ent [OF that(1)] that(2) ft_coreD(4) [OF assms(1)] by (simp add: s')
  show ?thesis
  proof (rule ft_coreI)
    fix t' i' f'
    assume "entry s' t' i' = Some f'"
    then have e: "entry s t' i' = Some f'" by (rule ent)
    show "MIN_FD \<le> i' \<and> i' < OPEN_MAX" by (rule ft_coreD(2) [OF assms(1) e])
    show "in_use s' f'" by (rule use' [OF ft_coreD(3) [OF assms(1) e]])
  qed (fact fin mas cnt)+
qed

lemma core_last:
  assumes "ft_core s" "slots s v = {(t, i), (kproc_ft s, j)}" "entry s t i = Some f" "entry s (kproc_ft s) j = Some f"
    "t \<noteq> kproc_ft s" "vn_of s f = Some v"
    and s': "kproc_ft s' = kproc_ft s" "files s' = (files s)(f := None)" "vnodes s' = (vnodes s)(v \<mapsto> n)" "vn_refcount n \<ge> 0"
      "\<And>t' i'. entry s' t' i' = (if t' = t \<and> i' = i \<or> t' = kproc_ft s \<and> i' = j then None else entry s t' i')"
  shows "ft_core s'"
proof -
  have only: "t' = t \<and> i' = i \<or> t' = kproc_ft s \<and> i' = j" if "entry s t' i' = Some f'" "vn_of s f' = Some v" for t' i' f'
    using that assms(2) slots_iff [of t' i' s v] by auto
  have other: "f' \<noteq> f \<and> vn_of s f' \<noteq> Some v" if "entry s' t' i' = Some f'" for t' i' f'
    using that only [of t' i' f'] assms(6) s'(5) [of t' i'] by (auto split: if_splits)
  have vn: "vn_of s' f' = (if f' = f then None else vn_of s f')" for f' by (simp add: vn_of_def s')
  have ent: "entry s t' i' = Some f'" if "entry s' t' i' = Some f'" for t' i' f'
    using that by (simp add: s'(5) split: if_splits)
  have sl_v: "slots s' v = {}"
    using other vn by (auto simp: slots_def split: if_splits)
  have sl_w: "slots s' w = slots s w" if w: "w \<noteq> v" for w
  proof (intro set_eqI iffI; clarify)
    fix a b
    assume "(a, b) \<in> slots s' w"
    then show "(a, b) \<in> slots s w" using ent by (auto simp: slots_iff vn split: if_splits)
  next
    fix a b
    assume "(a, b) \<in> slots s w"
    then obtain f' where e: "entry s a b = Some f'" "vn_of s f' = Some w" by (auto simp: slots_iff)
    then have "f' \<noteq> f" "entry s' a b = Some f'" using w assms(3,4,6) by (auto simp: s'(5))
    then show "(a, b) \<in> slots s' w" using e by (simp add: slots_iff vn)
  qed
  have use': "in_use s' f'" if "entry s' t' i' = Some f'" for t' i' f'
  proof -
    have "entry s t' i' = Some f'" using that by (auto simp: s'(5) split: if_splits)
    then obtain x w m j' where o: "files s f' = Some x" "file_vnode x = Some w" "vnodes s w = Some m"
      "master_fd x = int j'" "entry s (kproc_ft s) j' = Some f'"
      using ft_coreD(3) [OF assms(1)] unfolding in_use_def by blast
    have "w \<noteq> v" "f' \<noteq> f" using other [OF that] o by (auto simp: vn_of_def)
    then have "files s' f' = Some x" "vnodes s' w = Some m" "entry s' (kproc_ft s') j' = Some f'"
      using o assms(3-5) by (auto simp: s')
    then show ?thesis using o unfolding in_use_def by blast
  qed
  have fin: "finite {(t', i'). entry s' t' i' \<noteq> None}"
    by (rule finite_subset [OF _ ft_coreD(1) [OF assms(1)]]) (auto simp: s'(5) split: if_splits)
  have mas: "master_fd x = int i'" if "entry s' (kproc_ft s') i' = Some f'" "files s' f' = Some x" for i' f' x
    using ent [OF that(1)] that(2) ft_coreD(4) [OF assms(1)] by (simp add: s' split: if_splits)
  have cnt: "int (card (slots s' w)) \<le> vn_refcount m" if "vnodes s' w = Some m" "slots s' w \<noteq> {}" for w m
    using that ft_coreD(5) [OF assms(1), of w m] s'(4) sl_v sl_w [of w] by (cases "w = v") (auto simp: s'(3))
  show ?thesis
  proof (rule ft_coreI)
    fix t' i' f'
    assume "entry s' t' i' = Some f'"
    then show "MIN_FD \<le> i' \<and> i' < OPEN_MAX" by (rule ft_coreD(2) [OF assms(1) ent])
  qed (fact fin use' mas cnt)+
qed

lemma core_link:
  assumes "ft_core s" "in_use s f" "vn_of s f = Some v" "vnodes s v = Some n" "entry s t i = None" "t \<noteq> kproc_ft s"
    "MIN_FD \<le> i" "i < OPEN_MAX"
    and s': "kproc_ft s' = kproc_ft s" "files s' = files s" "vnodes s' = (vnodes s)(v \<mapsto> n\<lparr>vn_refcount := vn_refcount n + 1\<rparr>)"
      "\<And>t' i'. entry s' t' i' = (if t' = t \<and> i' = i then Some f else entry s t' i')"
  shows "ft_core s'"
proof -
  have vn: "vn_of s' = vn_of s" by (simp add: vn_of_def s' fun_eq_iff)
  have sl: "slots s' w = (if w = v then insert (t, i) (slots s w) else slots s w)" for w
    using assms(3,5) by (auto simp: slots_def s'(4) vn split: if_splits)
  have use': "in_use s' f'" if u: "in_use s f'" for f'
  proof -
    obtain x w m j where "files s f' = Some x" "file_vnode x = Some w" "vnodes s w = Some m"
      "master_fd x = int j" "entry s (kproc_ft s) j = Some f'"
      using u unfolding in_use_def by blast
    then have "files s' f' = Some x" "file_vnode x = Some w"
      "vnodes s' w = Some (if w = v then n\<lparr>vn_refcount := vn_refcount n + 1\<rparr> else m)"
      "master_fd x = int j" "entry s' (kproc_ft s') j = Some f'"
      using assms(6) s' by auto
    then show ?thesis unfolding in_use_def by blast
  qed
  have ne: "slots s v \<noteq> {}"
    using assms(2,3) unfolding in_use_def slots_def by blast
  have cnt: "int (card (slots s' w)) \<le> vn_refcount m" if "vnodes s' w = Some m" "slots s' w \<noteq> {}" for w m
  proof (cases "w = v")
    case True
    then show ?thesis
      using that(1) ft_coreD(5) [OF assms(1,4) ne] finite_slots [OF assms(1), of v]
      by (auto simp: sl s' card_insert_if)
  next
    case False
    then show ?thesis using that ft_coreD(5) [OF assms(1)] s' by (simp add: sl)
  qed
  have fin: "finite {(t', i'). entry s' t' i' \<noteq> None}"
    by (rule finite_subset [of _ "insert (t, i) {(t, i). entry s t i \<noteq> None}"])
      (use ft_coreD(1) [OF assms(1)] in \<open>auto simp: s'(4) split: if_splits\<close>)
  show ?thesis
  proof (rule ft_coreI)
    fix t' i' f'
    assume e: "entry s' t' i' = Some f'"
    show "MIN_FD \<le> i' \<and> i' < OPEN_MAX"
      using e ft_coreD(2) [OF assms(1), of t' i' f'] assms(7,8) by (auto simp: s'(4) split: if_splits)
    show "in_use s' f'"
      using e use' [OF ft_coreD(3) [OF assms(1), of t' i' f']] use' [OF assms(2)] by (auto simp: s'(4) split: if_splits)
  next
    fix i' f' x
    assume "entry s' (kproc_ft s') i' = Some f'" "files s' f' = Some x"
    then show "master_fd x = int i'" using ft_coreD(4) [OF assms(1), of i' f' x] assms(6) by (simp add: s')
  qed (fact fin cnt)+
qed

lemma core_enter:
  assumes "ft_core s" "\<And>t i. entry s t i \<noteq> Some f" "files s f = Some x" "file_vnode x = Some v" "vnodes s v = Some n"
    "int (card (slots s v)) < vn_refcount n" "entry s (kproc_ft s) g = None" "MIN_FD \<le> g" "g < OPEN_MAX"
    and s': "kproc_ft s' = kproc_ft s" "files s' = (files s)(f \<mapsto> x\<lparr>master_fd := int g\<rparr>)" "vnodes s' = vnodes s"
      "\<And>t' i'. entry s' t' i' = (if t' = kproc_ft s \<and> i' = g then Some f else entry s t' i')"
  shows "ft_core s'"
proof -
  have vn: "vn_of s' = vn_of s" using assms(3) by (simp add: vn_of_def s' fun_eq_iff)
  have sl: "slots s' w = (if w = v then insert (kproc_ft s, g) (slots s w) else slots s w)" for w
    using assms(3,4,7) by (auto simp: slots_def s'(4) vn vn_of_def split: if_splits)
  have use': "in_use s' f'" if e: "entry s t' i' = Some f'" for t' i' f'
  proof -
    obtain y w m j where "files s f' = Some y" "file_vnode y = Some w" "vnodes s w = Some m"
      "master_fd y = int j" "entry s (kproc_ft s) j = Some f'" "f' \<noteq> f"
      using ft_coreD(3) [OF assms(1) e] assms(2) unfolding in_use_def by blast
    then have "files s' f' = Some y" "file_vnode y = Some w" "vnodes s' w = Some m"
      "master_fd y = int j" "entry s' (kproc_ft s') j = Some f'"
      using assms(7) s' by auto
    then show ?thesis unfolding in_use_def by blast
  qed
  have new: "in_use s' f" unfolding in_use_def using assms(3-5) by (auto simp: s')
  have fin: "finite {(t', i'). entry s' t' i' \<noteq> None}"
    by (rule finite_subset [of _ "insert (kproc_ft s, g) {(t, i). entry s t i \<noteq> None}"])
      (use ft_coreD(1) [OF assms(1)] in \<open>auto simp: s'(4) split: if_splits\<close>)
  show ?thesis
  proof (rule ft_coreI)
    fix t' i' f'
    assume e: "entry s' t' i' = Some f'"
    show "MIN_FD \<le> i' \<and> i' < OPEN_MAX"
      using e ft_coreD(2) [OF assms(1), of t' i' f'] assms(8,9) by (auto simp: s'(4) split: if_splits)
    show "in_use s' f'"
      using e use' [of t' i' f'] new by (auto simp: s'(4) split: if_splits)
  next
    fix i' f' y
    assume "entry s' (kproc_ft s') i' = Some f'" "files s' f' = Some y"
    then show "master_fd y = int i'"
      using ft_coreD(4) [OF assms(1), of i' f' y] assms(2) [of "kproc_ft s" i'] by (auto simp: s' split: if_splits)
  next
    fix w m
    assume "vnodes s' w = Some m" "slots s' w \<noteq> {}"
    then show "int (card (slots s' w)) \<le> vn_refcount m"
      using ft_coreD(5) [OF assms(1), of w m] assms(5,6) finite_slots [OF assms(1), of v]
      by (cases "w = v") (auto simp: sl s' card_insert_if simp del: ex_in_conv)
  qed (fact fin)
qed

section \<open>The operations keep it\<close>

lemma view_frees [ft_exec]:
  "(view s t T K f x v n)\<lparr>files := (files (view s t T K f x v n))(f := None)\<rparr> =
   (view s t T K f x v n)\<lparr>files := (files s)(f := None)\<rparr>"
  by (simp add: view_def)

lemma file_destroy_view:
  assumes "t \<noteq> kproc_ft s" "file_lock x = None" "file_table_lock K = None" "file_vnode x = Some v"
    "vn_refcount n > 1" "master_fd x = int j" "j < OPEN_MAX"
  shows "file_destroy vops me (Some f) (view s t T K f x v n) =
    Some (0, let n' = n\<lparr>vn_refcount := vn_refcount n - 1\<rparr> in
             if vn_refcount n = 2
             then (view s t T (K\<lparr>file_arr := (file_arr K)(j := None)\<rparr>) f x v n')\<lparr>files := (files s)(f := None)\<rparr>
             else view s t T K f x v n')"
  using assms by (auto simp: file_destroy_def ft_exec) (simp add: view_def)

lemma idle_view:
  assumes "ft_idle s" "t \<noteq> kproc_ft s" "file_lock x = None" "file_table_lock T = None" "num_files T = 0"
    "file_table_lock K = None" "num_files K = 0"
  shows "ft_idle (view s t T K f x v n)"
  using assms by (auto simp: ft_idle_def view_def)

lemma idle_free: "ft_idle s \<Longrightarrow> ft_idle s' \<Longrightarrow> ft_idle (s\<lparr>files := (files s')(f := None)\<rparr>)"
  by (simp add: ft_idle_def)

text \<open>\<open>opened s f v\<close>: what \<open>file_create\<close> and \<open>vfs_open\<close> leave: a file in no table, on a vnode with a
  reference for it.\<close>

definition opened :: "fstate \<Rightarrow> nat \<Rightarrow> nat \<Rightarrow> bool" where
  "opened s f v \<longleftrightarrow> (\<forall>t i. entry s t i \<noteq> Some f) \<and> (\<exists>x n. files s f = Some x \<and> file_vnode x = Some v \<and>
     master_fd x = FLOATING_FILE \<and> vnodes s v = Some n \<and> int (card (slots s v)) < vn_refcount n)"

lemma both_Some:
  "(case (a, b) of (Some g, Some l) \<Rightarrow> Some (P g l) | _ \<Rightarrow> Some d) = Some z \<Longrightarrow>
   z = d \<or> (\<exists>g l. a = Some g \<and> b = Some l \<and> z = P g l)"
  by (auto split: option.splits)

lemma file_table_add_inv:
  assumes "ft_inv s" "opened s f v" "t \<noteq> kproc_ft s" "ftables s t \<noteq> None" "file_table_add vops me t (Some f) s = Some (r, s')"
  shows "ft_inv s'" "r = - 1 \<Longrightarrow> s' = s" "r \<noteq> - 1 \<Longrightarrow> int MIN_FD \<le> r \<and> r < int OPEN_MAX \<and> entry s' t (nat r) = Some f"
proof -
  obtain x n where o: "files s f = Some x" "file_vnode x = Some v" "master_fd x = FLOATING_FILE" "vnodes s v = Some n"
    "int (card (slots s v)) < vn_refcount n" and fresh: "\<And>t i. entry s t i \<noteq> Some f"
    using assms(2) unfolding opened_def by blast
  have core: "ft_core s" and idle: "ft_idle s" using assms(1) by (auto simp: ft_inv_def)
  obtain T K where TK: "ftables s t = Some T" "ftables s (kproc_ft s) = Some K"
    using assms(4) idle unfolding ft_idle_def by blast
  have lk: "file_lock x = None" "file_table_lock T = None" "file_table_lock K = None" "num_files T = 0" "num_files K = 0"
    using idle o TK unfolding ft_idle_def by auto
  have add: "(case (first_free (file_arr K) [MIN_FD..<OPEN_MAX], first_free (file_arr T) [MIN_FD..<OPEN_MAX]) of
       (Some g, Some l) \<Rightarrow> Some (int l, placed s t T K f x v n (Some g) (Some l)) | _ \<Rightarrow> Some (- 1, s)) = Some (r, s')"
    using file_table_add_eq [OF assms(3) TK o(1,2,4) _ o(3) lk(1-3), of vops me] assms(5) o(5) lk(5)
    by (simp del: upt_rec_numeral)
  then consider "r = - 1" "s' = s" | g l where "first_free (file_arr K) [MIN_FD..<OPEN_MAX] = Some g"
      "first_free (file_arr T) [MIN_FD..<OPEN_MAX] = Some l" "r = int l" "s' = placed s t T K f x v n (Some g) (Some l)"
    using both_Some [OF add] by blast
  then have "ft_inv s' \<and> (r = - 1 \<longrightarrow> s' = s) \<and> (r \<noteq> - 1 \<longrightarrow> int MIN_FD \<le> r \<and> r < int OPEN_MAX \<and> entry s' t (nat r) = Some f)"
  proof cases
    case 1
    then show ?thesis using assms(1) by simp
  next
    case (2 g l)
    have gl: "MIN_FD \<le> g" "g < OPEN_MAX" "file_arr K g = None" "MIN_FD \<le> l" "l < OPEN_MAX" "file_arr T l = None"
      using first_free_SomeD [OF 2(1)] first_free_SomeD [OF 2(2)] by (simp_all del: upt_rec_numeral)
    let ?x = "x\<lparr>master_fd := int g\<rparr>" and ?K = "K\<lparr>file_arr := (file_arr K)(g \<mapsto> f)\<rparr>" and ?T = "T\<lparr>file_arr := (file_arr T)(l \<mapsto> f)\<rparr>"
    let ?s1 = "view s t T ?K f ?x v n"
    have K: "file_arr K i = entry s (kproc_ft s) i" and T: "file_arr T i = entry s t i" for i
      using TK by (simp_all add: entry_def)
    have e1: "entry ?s1 t' i' = (if t' = kproc_ft s \<and> i' = g then Some f else entry s t' i')" for t' i'
      using assms(3) by (simp add: entry_view K T)
    have vs: "vnodes ?s1 = vnodes s" "files ?s1 = (files s)(f \<mapsto> ?x)"
      using o(4) by (auto simp: view_def)
    have c1: "ft_core ?s1"
      by (rule core_enter [OF core fresh o(1,2,4,5) _ gl(1,2) _ vs(2,1) e1]) (use gl(3) K in \<open>auto simp: ft_exec\<close>)
    have e2: "entry s' t' i' = (if t' = t \<and> i' = l then Some f else entry ?s1 t' i')" for t' i'
      using assms(3) by (simp add: 2(4) placed_def entry_view)
    have v2: "vnodes s' = (vnodes ?s1)(v \<mapsto> n\<lparr>vn_refcount := vn_refcount n + 1\<rparr>)" "files s' = files ?s1" "kproc_ft s' = kproc_ft ?s1"
      by (simp_all add: 2(4) placed_def view_def)
    have u: "in_use ?s1 f" by (rule ft_coreD(3) [OF c1, of "kproc_ft s" g]) (simp add: e1)
    have c2: "ft_core s'"
      by (rule core_link [OF c1 u _ _ _ _ gl(4,5) v2(3,2,1) e2])
        (use assms(3) o(2) gl(6) T in \<open>auto simp: vn_of_view entry_view ft_exec\<close>)
    have "ft_idle s'"
      unfolding 2(4) placed_def by (rule idle_view [OF idle assms(3)]) (use lk in simp_all)
    then show ?thesis using c2 gl 2(3) e2 by (simp add: ft_inv_def)
  qed
  then show "ft_inv s'" "r = - 1 \<Longrightarrow> s' = s" "r \<noteq> - 1 \<Longrightarrow> int MIN_FD \<le> r \<and> r < int OPEN_MAX \<and> entry s' t (nat r) = Some f"
    by blast+
qed

text \<open>Clearing a slot and destroying the file it held, which is what \<open>close\<close> does.\<close>

lemma drop_slot:
  assumes "ft_inv s" "t \<noteq> kproc_ft s" "ftables s t = Some T" "file_arr T i = Some f"
  shows "\<exists>s' v n j. file_destroy vops me (Some f) (s\<lparr>ftables := (ftables s)(t \<mapsto> T\<lparr>file_arr := (file_arr T)(i := None)\<rparr>)\<rparr>) = Some (0, s') \<and>
    ft_inv s' \<and> vn_of s f = Some v \<and> vnodes s v = Some n \<and> vnodes s' v = Some (n\<lparr>vn_refcount := vn_refcount n - 1\<rparr>) \<and>
    entry s (kproc_ft s) j = Some f \<and> files s' = (if vn_refcount n = 2 then (files s)(f := None) else files s) \<and>
    (\<forall>t' i'. entry s' t' i' = (if t' = t \<and> i' = i \<or> vn_refcount n = 2 \<and> t' = kproc_ft s \<and> i' = j then None else entry s t' i'))"
proof -
  have core: "ft_core s" and idle: "ft_idle s" using assms(1) by (auto simp: ft_inv_def)
  have e: "entry s t i = Some f" using assms(3,4) by (simp add: entry_def)
  obtain x v n j where o: "files s f = Some x" "file_vnode x = Some v" "vnodes s v = Some n" "master_fd x = int j"
    "entry s (kproc_ft s) j = Some f" "j < OPEN_MAX" "(t, i) \<in> slots s v" "(kproc_ft s, j) \<in> slots s v"
    "int (card (slots s v)) \<le> vn_refcount n"
    by (rule slot_objects [OF core e])
  obtain K where K: "ftables s (kproc_ft s) = Some K" using idle unfolding ft_idle_def by blast
  have lk: "file_lock x = None" "file_table_lock T = None" "file_table_lock K = None" "num_files T = 0" "num_files K = 0"
    using idle o K assms(3) unfolding ft_idle_def by auto
  let ?T = "T\<lparr>file_arr := (file_arr T)(i := None)\<rparr>" and ?K = "K\<lparr>file_arr := (file_arr K)(j := None)\<rparr>"
    and ?n = "n\<lparr>vn_refcount := vn_refcount n - 1\<rparr>"
  have two: "2 \<le> card (slots s v)" "card (slots s v) = 2 \<Longrightarrow> slots s v = {(t, i), (kproc_ft s, j)}"
    using two_slots [OF finite_slots [OF core] o(7,8)] assms(2) by auto
  have start: "s\<lparr>ftables := (ftables s)(t \<mapsto> ?T)\<rparr> = view s t ?T K f x v n"
    using K o(1,3) assms(2) by (auto simp: view_def fun_eq_iff)
  have vnf: "vn_of s f = Some v" using o by (simp add: vn_of_def)
  have arr: "file_arr K i' = entry s (kproc_ft s) i'" "file_arr T i' = entry s t i'" for i'
    using K assms(3) by (simp_all add: entry_def)
  define s' where "s' = (if vn_refcount n = 2 then (view s t ?T ?K f x v ?n)\<lparr>files := (files s)(f := None)\<rparr> else view s t ?T K f x v ?n)"
  have res: "file_destroy vops me (Some f) (view s t ?T K f x v n) = Some (0, s')"
    using file_destroy_view [OF assms(2) lk(1,3) o(2) _ o(4,6)] two(1) o(9) by (simp add: s'_def Let_def)
  have sel: "kproc_ft s' = kproc_ft s" "vnodes s' = (vnodes s)(v \<mapsto> ?n)"
    "files s' = (if vn_refcount n = 2 then (files s)(f := None) else files s)"
    using o(1) by (auto simp: s'_def view_def)
  have ent: "entry s' t' i' = (if t' = t \<and> i' = i \<or> vn_refcount n = 2 \<and> t' = kproc_ft s \<and> i' = j then None else entry s t' i')" for t' i'
    using assms(2) by (simp add: s'_def entry_files entry_view arr)
  have "ft_core s'"
  proof (cases "vn_refcount n = 2")
    case True
    then have "slots s v = {(t, i), (kproc_ft s, j)}" using two o(9) by linarith
    then show ?thesis
      by (rule core_last [OF core _ e o(5) assms(2) vnf sel(1) _ sel(2)]) (use True sel ent in auto)
  next
    case False
    show ?thesis
      by (rule core_unlink [OF core e assms(2) vnf o(3) sel(1) _ sel(2)]) (use False sel ent in auto)
  qed
  moreover have "ft_idle s'"
  proof -
    have "ft_idle (view s t ?T K' f x v ?n)" if "file_table_lock K' = None" "num_files K' = 0" for K'
      by (rule idle_view [OF idle assms(2)]) (use lk that in simp_all)
    then have "ft_idle (view s t ?T K f x v ?n)" "ft_idle (view s t ?T ?K f x v ?n)" using lk by simp_all
    then show ?thesis using idle_free [OF _ idle] by (simp only: s'_def split: if_split) simp
  qed
  ultimately show ?thesis
    using res vnf o(3,5) sel ent by (intro exI [of _ s'] exI [of _ v] exI [of _ n] exI [of _ j]) (simp add: start ft_inv_def)
qed

text \<open>One round of the copying loop, and the loop.\<close>

lemma copy_round:
  assumes "ft_core s" "\<forall>f x. files s f = Some x \<longrightarrow> file_lock x = None" "ftables s tmp = Some X" "tmp \<noteq> kproc_ft s"
    "entry s t i = Some f" "file_arr X i = None"
  shows "\<exists>s'. do { s \<leftarrow> file_acquire me f s; s \<leftarrow> arr_set tmp (int i) (Some f) s; x \<leftarrow> files s f;
      s \<leftarrow> vnode_incref (file_vnode x) s; file_release me f s } = Some s' \<and>
    ft_core s' \<and> files s' = files s \<and> kproc_ft s' = kproc_ft s \<and>
    ftables s' = (ftables s)(tmp \<mapsto> X\<lparr>file_arr := (file_arr X)(i \<mapsto> f)\<rparr>) \<and>
    (\<forall>v. vnodes s' v = map_option (\<lambda>n. n\<lparr>vn_refcount := vn_refcount n + (if vn_of s f = Some v then 1 else 0)\<rparr>) (vnodes s v))"
proof -
  obtain x v n j where o: "files s f = Some x" "file_vnode x = Some v" "vnodes s v = Some n" "master_fd x = int j"
    "entry s (kproc_ft s) j = Some f" "j < OPEN_MAX" "(t, i) \<in> slots s v" "(kproc_ft s, j) \<in> slots s v"
    "int (card (slots s v)) \<le> vn_refcount n"
    by (rule slot_objects [OF assms(1,5)])
  obtain K where K: "ftables s (kproc_ft s) = Some K" using o(5) by (auto simp: entry_def split: bind_splits)
  note b = ft_coreD(2) [OF assms(1,5)]
  let ?X = "X\<lparr>file_arr := (file_arr X)(i \<mapsto> f)\<rparr>" and ?n = "n\<lparr>vn_refcount := vn_refcount n + 1\<rparr>"
  let ?s = "view s tmp ?X K f x v ?n"
  have s: "s = view s tmp X K f x v n" by (rule view_same [OF assms(3) K o(1,3), symmetric])
  have "do { s \<leftarrow> file_acquire me f (view s tmp X K f x v n); s \<leftarrow> arr_set tmp (int i) (Some f) s; x \<leftarrow> files s f;
      s \<leftarrow> vnode_incref (file_vnode x) s; file_release me f s } = Some ?s"
    using assms(2) [rule_format, OF o(1)] assms(4) b o(2) by (simp add: ft_exec)
  moreover have sel: "files ?s = files s" "kproc_ft ?s = kproc_ft s" "vnodes ?s = (vnodes s)(v \<mapsto> ?n)"
    "ftables ?s = (ftables s)(tmp \<mapsto> ?X)"
    using o(1) K assms(4) by (auto simp: view_def fun_eq_iff)
  moreover have "ft_core ?s"
    by (rule core_link [where i = i and t = tmp, OF assms(1) ft_coreD(3) [OF assms(1,5)] _ o(3) _ assms(4) _ _ sel(2,1,3)])
      (use assms(3,6) b o in \<open>auto simp: entry_def sel vn_of_def\<close>)
  moreover have "vnodes ?s w = map_option (\<lambda>n. n\<lparr>vn_refcount := vn_refcount n + (if vn_of s f = Some w then 1 else 0)\<rparr>) (vnodes s w)" for w
    using o(1,2,3) by (cases "vnodes s w") (auto simp: sel vn_of_def)
  ultimately show ?thesis unfolding s [symmetric] by blast
qed

lemma copy_loop_correct:
  assumes "distinct is" "\<forall>i\<in>set is. i < OPEN_MAX \<and> file_arr X i = None" "ft_core s" "\<forall>f x. files s f = Some x \<longrightarrow> file_lock x = None"
    "ftables s tmp = Some X" "tmp \<noteq> kproc_ft s" "ftables s t = Some T" "t \<noteq> tmp"
  shows "\<exists>s'. copy_loop me t tmp is s = Some s' \<and> ft_core s' \<and> files s' = files s \<and> kproc_ft s' = kproc_ft s \<and>
    ftables s' = (ftables s)(tmp \<mapsto> X\<lparr>file_arr := (\<lambda>i. if i \<in> set is then file_arr T i else file_arr X i)\<rparr>) \<and>
    (\<forall>v. vnodes s' v = map_option (\<lambda>n. n\<lparr>vn_refcount := vn_refcount n +
       int (length (filter (\<lambda>i. Option.bind (file_arr T i) (vn_of s) = Some v) is))\<rparr>) (vnodes s v))"
  using assms
proof (induction "is" arbitrary: s X)
  case Nil
  then show ?case by (auto simp: option.map_ident fun_upd_idem)
next
  case (Cons i js)
  have get: "arr_get t (int i) s = Some (file_arr T i)"
    using Cons.prems(2,7) by (simp add: arr_get_def)
  show ?case
  proof (cases "file_arr T i")
    case None
    have eq: "(\<lambda>j. if j \<in> set (i # js) then file_arr T j else file_arr X j) = (\<lambda>j. if j \<in> set js then file_arr T j else file_arr X j)"
      using None Cons.prems(1,2) by (auto simp: fun_eq_iff)
    show ?thesis
      unfolding eq using Cons.IH [OF _ _ Cons.prems(3-8)] Cons.prems(1,2) None get by simp
  next
    case (Some f)
    have e: "entry s t i = Some f" using Some Cons.prems(7) by (simp add: entry_def)
    have free: "file_arr X i = None" using Cons.prems(2) by simp
    obtain s1 where s1: "do { s \<leftarrow> file_acquire me f s; s \<leftarrow> arr_set tmp (int i) (Some f) s; x \<leftarrow> files s f;
        s \<leftarrow> vnode_incref (file_vnode x) s; file_release me f s } = Some s1" "ft_core s1" "files s1 = files s" "kproc_ft s1 = kproc_ft s"
      "ftables s1 = (ftables s)(tmp \<mapsto> X\<lparr>file_arr := (file_arr X)(i \<mapsto> f)\<rparr>)"
      "\<And>v. vnodes s1 v = map_option (\<lambda>n. n\<lparr>vn_refcount := vn_refcount n + (if vn_of s f = Some v then 1 else 0)\<rparr>) (vnodes s v)"
      using copy_round [where me = me, OF Cons.prems(3,4,5,6) e free] by blast
    have vn: "vn_of s1 = vn_of s" using s1(3) by (simp add: vn_of_def fun_eq_iff)
    have "\<exists>s'. copy_loop me t tmp js s1 = Some s' \<and> ft_core s' \<and> files s' = files s1 \<and> kproc_ft s' = kproc_ft s1 \<and>
      ftables s' = (ftables s1)(tmp \<mapsto> (X\<lparr>file_arr := (file_arr X)(i \<mapsto> f)\<rparr>)
         \<lparr>file_arr := (\<lambda>j. if j \<in> set js then file_arr T j else file_arr (X\<lparr>file_arr := (file_arr X)(i \<mapsto> f)\<rparr>) j)\<rparr>) \<and>
      (\<forall>v. vnodes s' v = map_option (\<lambda>n. n\<lparr>vn_refcount := vn_refcount n +
         int (length (filter (\<lambda>i. Option.bind (file_arr T i) (vn_of s1) = Some v) js))\<rparr>) (vnodes s1 v))"
      by (rule Cons.IH) (use Cons.prems s1 in auto)
    then obtain s' where s': "copy_loop me t tmp js s1 = Some s'" "ft_core s'" "files s' = files s1" "kproc_ft s' = kproc_ft s1"
      "ftables s' = (ftables s1)(tmp \<mapsto> X\<lparr>file_arr := (\<lambda>j. if j \<in> set js then file_arr T j else ((file_arr X)(i \<mapsto> f)) j)\<rparr>)"
      "\<And>v. vnodes s' v = map_option (\<lambda>n. n\<lparr>vn_refcount := vn_refcount n +
         int (length (filter (\<lambda>i. Option.bind (file_arr T i) (vn_of s1) = Some v) js))\<rparr>) (vnodes s1 v)"
      by (auto cong: if_cong)
    have eq: "(\<lambda>j. if j \<in> set (i # js) then file_arr T j else file_arr X j) = (\<lambda>j. if j \<in> set js then file_arr T j else ((file_arr X)(i \<mapsto> f)) j)"
      using Some Cons.prems(1) by (auto simp: fun_eq_iff)
    have run: "copy_loop me t tmp (i # js) s = Some s'" using get Some s1(1) s'(1) by simp
    have vs: "vnodes s' v = map_option (\<lambda>n. n\<lparr>vn_refcount := vn_refcount n +
         int (length (filter (\<lambda>i. Option.bind (file_arr T i) (vn_of s) = Some v) (i # js)))\<rparr>) (vnodes s v)" for v
      using Some by (cases "vnodes s v") (simp_all add: s'(6) s1(6) vn)
    show ?thesis
      unfolding eq using run s' s1(3-5) vs by (intro exI [of _ s']) simp
  qed
qed

lemma ft_core_cong:
  assumes "ft_core s" "kproc_ft s' = kproc_ft s" "files s' = files s" "vnodes s' = vnodes s" "\<And>t i. entry s' t i = entry s t i"
  shows "ft_core s'"
proof -
  have "entry s' = entry s" using assms(5) by (simp add: fun_eq_iff)
  moreover from this have "slots s' v = slots s v" for v
    by (simp add: slots_def vn_of_def assms(3))
  ultimately show ?thesis
    using assms(1) by (simp add: ft_core_def in_use_def assms(2-4))
qed

lemma file_table_copy_eq:
  assumes "ft_inv s" "ftables s t = Some T" "ftables s tmp = None"
  shows "\<exists>s'. file_table_copy me (Some t) (Some tmp) True s = Some (Some tmp, s') \<and> ft_inv s' \<and> files s' = files s \<and>
    kproc_ft s' = kproc_ft s \<and> ftables s' = (ftables s)(tmp \<mapsto> T) \<and>
    (\<forall>v. vnodes s' v = map_option (\<lambda>n. n\<lparr>vn_refcount := vn_refcount n +
       int (length (filter (\<lambda>i. Option.bind (file_arr T i) (vn_of s) = Some v) [MIN_FD..<OPEN_MAX]))\<rparr>) (vnodes s v))"
proof -
  have core: "ft_core s" and idle: "ft_idle s" using assms(1) by (auto simp: ft_inv_def)
  have lk: "file_table_lock T = None" "num_files T = 0" using idle assms(2) by (auto simp: ft_idle_def)
  have fl: "\<forall>f x. files s f = Some x \<longrightarrow> file_lock x = None" using idle by (auto simp: ft_idle_def)
  have neq: "t \<noteq> tmp" "tmp \<noteq> kproc_ft s" using assms(2,3) idle by (auto simp: ft_idle_def)
  let ?T = "T\<lparr>file_table_lock := Some me\<rparr>"
    and ?X = "\<lparr>file_arr = \<lambda>_. None, file_table_lock = None, num_files = 0\<rparr> :: file_table"
  let ?s = "s\<lparr>ftables := (ftables s)(t \<mapsto> ?T, tmp \<mapsto> ?X)\<rparr>"
  have sel: "kproc_ft ?s = kproc_ft s" "files ?s = files s" "vnodes ?s = vnodes s" by simp_all
  have ent: "entry ?s t' i = entry s t' i" for t' i using assms(2,3) neq by (simp add: entry_def)
  have core': "ft_core ?s" by (rule ft_core_cong [OF core sel ent])
  have vn: "vn_of ?s = vn_of s" by (simp add: vn_of_def fun_eq_iff)
  have "\<exists>s'. copy_loop me t tmp [MIN_FD..<OPEN_MAX] ?s = Some s' \<and> ft_core s' \<and> files s' = files ?s \<and> kproc_ft s' = kproc_ft ?s \<and>
    ftables s' = (ftables ?s)(tmp \<mapsto> ?X\<lparr>file_arr := (\<lambda>i. if i \<in> set [MIN_FD..<OPEN_MAX] then file_arr ?T i else file_arr ?X i)\<rparr>) \<and>
    (\<forall>v. vnodes s' v = map_option (\<lambda>n. n\<lparr>vn_refcount := vn_refcount n +
       int (length (filter (\<lambda>i. Option.bind (file_arr ?T i) (vn_of ?s) = Some v) [MIN_FD..<OPEN_MAX]))\<rparr>) (vnodes ?s v))"
    by (rule copy_loop_correct [OF _ _ core']) (use fl neq in \<open>simp_all del: upt_rec_numeral\<close>)
  then obtain s' where s': "copy_loop me t tmp [MIN_FD..<OPEN_MAX] ?s = Some s'" "ft_core s'" "files s' = files ?s"
    "kproc_ft s' = kproc_ft ?s"
    "ftables s' = (ftables ?s)(tmp \<mapsto> ?X\<lparr>file_arr := (\<lambda>i. if i \<in> set [MIN_FD..<OPEN_MAX] then file_arr ?T i else file_arr ?X i)\<rparr>)"
    "\<And>v. vnodes s' v = map_option (\<lambda>n. n\<lparr>vn_refcount := vn_refcount n +
       int (length (filter (\<lambda>i. Option.bind (file_arr ?T i) (vn_of ?s) = Some v) [MIN_FD..<OPEN_MAX]))\<rparr>) (vnodes ?s v)"
    by blast
  have none: "file_arr T i = None" if "\<not> (MIN_FD \<le> i \<and> i < OPEN_MAX)" for i
    using ft_coreD(2) [OF core, of t i] assms(2) that by (cases "file_arr T i") (auto simp: entry_def)
  have "(\<lambda>i. if i \<in> set [MIN_FD..<OPEN_MAX] then file_arr ?T i else file_arr ?X i) = file_arr T"
    using none by (auto simp: fun_eq_iff simp del: upt_rec_numeral)
  then have X: "?X\<lparr>file_arr := (\<lambda>i. if i \<in> set [MIN_FD..<OPEN_MAX] then file_arr ?T i else file_arr ?X i)\<rparr> = T"
    using lk by (cases T) simp
  have tb: "ftables s' = (ftables s)(t \<mapsto> ?T, tmp \<mapsto> T)" unfolding s'(5) X by simp
  let ?r = "s'\<lparr>ftables := (ftables s)(tmp \<mapsto> T)\<rparr>"
  have undo: "(ftables s)(tmp \<mapsto> T, t \<mapsto> T) = (ftables s)(tmp \<mapsto> T)"
    using assms(2) neq by (simp add: fun_upd_idem)
  have rel: "table_release me t s' = Some ?r"
    using neq lk by (simp add: table_release_def upd_table_def tb fun_upd_twist [of t tmp] ft_exec undo)
  have acq: "table_acquire me t s = Some (s\<lparr>ftables := (ftables s)(t \<mapsto> ?T)\<rparr>)"
    using assms(2) lk by (simp add: table_acquire_def upd_table_def)
  have run: "file_table_copy me (Some t) (Some tmp) True s = Some (Some tmp, ?r)"
    using acq s'(1) rel neq lk
    by (simp add: file_table_copy_def file_table_create_def upd_table_def del: upt_rec_numeral)
  have "ft_core ?r"
    by (rule ft_core_cong [OF s'(2)]) (use assms(2) tb in \<open>simp_all add: entry_def\<close>)
  moreover have "ft_idle ?r"
    using idle lk s'(3,4) neq by (auto simp: ft_idle_def)
  ultimately show ?thesis
    using run s'(3,4,6) by (intro exI [of _ ?r]) (simp add: ft_inv_def vn del: upt_rec_numeral)
qed

lemma file_table_create_inv:
  "ft_inv s \<Longrightarrow> ftables s tmp = None \<Longrightarrow> file_table_create (Some tmp) True s = Some (r, s') \<Longrightarrow> ft_inv s'"
  unfolding ft_inv_def file_table_create_def
  by (auto simp: ft_idle_def entry_def intro: ft_core_cong [of s] split: if_splits)

text \<open>Changes that the tables do not see: files in no table, and counts that stay large enough.\<close>

lemma ft_inv_frame:
  assumes "ft_inv s" "kproc_ft s' = kproc_ft s" "ftables s' = ftables s"
    "\<And>t i f. entry s t i = Some f \<Longrightarrow> files s' f = files s f"
    "\<And>f x. files s' f = Some x \<Longrightarrow> file_lock x = None"
    "\<And>v. slots s v \<noteq> {} \<Longrightarrow> int (card (slots s v)) \<le> refs s' v"
  shows "ft_inv s'"
proof -
  have core: "ft_core s" and idle: "ft_idle s" using assms(1) by (auto simp: ft_inv_def)
  have ent: "entry s' = entry s" by (simp add: entry_def assms(3) fun_eq_iff)
  have vn: "vn_of s' f = vn_of s f" if "entry s t i = Some f" for t i f
    using assms(4) [OF that] by (simp add: vn_of_def)
  have sl: "slots s' v = slots s v" for v
    unfolding slots_def ent using vn by auto
  have use': "in_use s' f" if e: "entry s t i = Some f" for t i f
  proof -
    obtain x v n j where o: "files s f = Some x" "file_vnode x = Some v" "vnodes s v = Some n" "master_fd x = int j"
      "entry s (kproc_ft s) j = Some f" "j < OPEN_MAX" "(t, i) \<in> slots s v" "(kproc_ft s, j) \<in> slots s v"
      "int (card (slots s v)) \<le> vn_refcount n"
      by (rule slot_objects [OF core e])
    have ne: "slots s v \<noteq> {}" using o(7) by blast
    have "card (slots s v) > 0" using finite_slots [OF core, of v] ne by (simp add: card_gt_0_iff)
    then have "vnodes s' v \<noteq> None" using assms(6) [OF ne] by (auto simp: refs_def split: option.splits)
    then show ?thesis
      unfolding in_use_def ent assms(2) using o assms(4) [OF e] by auto
  qed
  have "ft_core s'"
  proof (rule ft_coreI)
    show "finite {(t, i). entry s' t i \<noteq> None}" using ft_coreD(1) [OF core] by (simp add: ent)
  next
    fix t i f
    assume "entry s' t i = Some f"
    then have e: "entry s t i = Some f" by (simp add: ent)
    show "MIN_FD \<le> i \<and> i < OPEN_MAX" by (rule ft_coreD(2) [OF core e])
    show "in_use s' f" by (rule use' [OF e])
  next
    fix i f x
    assume "entry s' (kproc_ft s') i = Some f" "files s' f = Some x"
    then show "master_fd x = int i" using ft_coreD(4) [OF core, of i f x] assms(2) assms(4) [of "kproc_ft s" i f] by (simp add: ent)
  next
    fix v n
    assume "vnodes s' v = Some n" "slots s' v \<noteq> {}"
    then show "int (card (slots s' v)) \<le> vn_refcount n" using assms(6) [of v] by (simp add: sl refs_def)
  qed
  moreover have "ft_idle s'"
    using idle assms(2,3,5) by (auto simp: ft_idle_def)
  ultimately show ?thesis by (simp add: ft_inv_def)
qed

lemma ft_inv_counts: "ft_inv s \<Longrightarrow> slots s v \<noteq> {} \<Longrightarrow> int (card (slots s v)) \<le> refs s v \<and> 1 \<le> refs s v"
proof -
  assume inv: "ft_inv s" and ne: "slots s v \<noteq> {}"
  have core: "ft_core s" using inv by (simp add: ft_inv_def)
  obtain t i f where e: "entry s t i = Some f" "vn_of s f = Some v" using ne by (auto simp: slots_def)
  then obtain n where n: "vnodes s v = Some n" using ft_coreD(3) [OF core e(1)] by (auto simp: in_use_def vn_of_def)
  have "0 < card (slots s v)" using finite_slots [OF core, of v] ne by (simp add: card_gt_0_iff)
  then show ?thesis using ft_coreD(5) [OF core n ne] n by (simp add: refs_def)
qed

lemma ft_inv_quiet:
  assumes "ft_inv s" "same_env s s'" "\<And>u. 1 \<le> refs s u \<Longrightarrow> refs s u \<le> refs s' u"
  shows "ft_inv s'"
proof (rule ft_inv_frame [OF assms(1)])
  show "int (card (slots s v)) \<le> refs s' v" if "slots s v \<noteq> {}" for v
    using ft_inv_counts [OF assms(1) that] assms(3) [of v] by linarith
qed (use assms(1,2) in \<open>auto simp: same_env_def ft_inv_def ft_idle_def\<close>)

lemma first_free_upt:
  "first_free arr [MIN_FD..<OPEN_MAX] = None \<longleftrightarrow> \<not> (\<exists>i. MIN_FD \<le> i \<and> i < OPEN_MAX \<and> arr i = None)"
  "first_free arr [MIN_FD..<OPEN_MAX] = Some l \<Longrightarrow> MIN_FD \<le> l \<and> l < OPEN_MAX \<and> arr l = None \<and> (\<forall>i. MIN_FD \<le> i \<longrightarrow> i < l \<longrightarrow> arr i \<noteq> None)"
proof -
  show "first_free arr [MIN_FD..<OPEN_MAX] = None \<longleftrightarrow> \<not> (\<exists>i. MIN_FD \<le> i \<and> i < OPEN_MAX \<and> arr i = None)"
    unfolding first_free_None set_upt by auto
  assume l: "first_free arr [MIN_FD..<OPEN_MAX] = Some l"
  have "l \<in> {MIN_FD..<OPEN_MAX}" "arr l = None" using first_free_SomeD [OF l] unfolding set_upt by blast+
  moreover have "arr i \<noteq> None" if "MIN_FD \<le> i" "i < l" for i
    using first_free_least [OF l sorted_upt, of i] that calculation(1) unfolding set_upt by auto
  ultimately show "MIN_FD \<le> l \<and> l < OPEN_MAX \<and> arr l = None \<and> (\<forall>i. MIN_FD \<le> i \<longrightarrow> i < l \<longrightarrow> arr i \<noteq> None)" by auto
qed

lemma file_table_add_total:
  assumes "ft_inv s" "opened s f v" "t \<noteq> kproc_ft s" "ftables s t \<noteq> None"
  shows "\<exists>r s'. file_table_add vops me t (Some f) s = Some (r, s') \<and> ft_inv s' \<and>
    (if (\<exists>i. MIN_FD \<le> i \<and> i < OPEN_MAX \<and> entry s t i = None) \<and> (\<exists>i. MIN_FD \<le> i \<and> i < OPEN_MAX \<and> entry s (kproc_ft s) i = None)
     then \<exists>l. r = int l \<and> MIN_FD \<le> l \<and> l < OPEN_MAX \<and> entry s t l = None \<and> (\<forall>i. MIN_FD \<le> i \<longrightarrow> i < l \<longrightarrow> entry s t i \<noteq> None) \<and>
       entry s' t l = Some f \<and> refs s' v = refs s v + 1
     else r = - 1 \<and> s' = s)"
proof -
  obtain x n where o: "files s f = Some x" "file_vnode x = Some v" "master_fd x = FLOATING_FILE" "vnodes s v = Some n"
    "int (card (slots s v)) < vn_refcount n"
    using assms(2) unfolding opened_def by blast
  have idle: "ft_idle s" using assms(1) by (simp add: ft_inv_def)
  obtain T K where TK: "ftables s t = Some T" "ftables s (kproc_ft s) = Some K"
    using assms(4) idle unfolding ft_idle_def by blast
  have lk: "file_lock x = None" "file_table_lock T = None" "file_table_lock K = None" "num_files K = 0"
    using idle o TK unfolding ft_idle_def by auto
  have add: "file_table_add vops me t (Some f) s =
    (case (first_free (file_arr K) [MIN_FD..<OPEN_MAX], first_free (file_arr T) [MIN_FD..<OPEN_MAX]) of
       (Some g, Some l) \<Rightarrow> Some (int l, placed s t T K f x v n (Some g) (Some l)) | _ \<Rightarrow> Some (- 1, s))"
    by (rule file_table_add_eq [OF assms(3) TK o(1,2,4) _ o(3) lk(1-3)]) (use o(5) lk(4) in simp_all)
  have arr: "file_arr T i = entry s t i" "file_arr K i = entry s (kproc_ft s) i" for i using TK by (simp_all add: entry_def)
  show ?thesis
  proof (cases "first_free (file_arr K) [MIN_FD..<OPEN_MAX] = None \<or> first_free (file_arr T) [MIN_FD..<OPEN_MAX] = None")
    case True
    then have "file_table_add vops me t (Some f) s = Some (- 1, s)" unfolding add by (auto split: option.split simp del: upt_rec_numeral)
    then show ?thesis using True assms(1) unfolding first_free_upt(1) arr by auto
  next
    case False
    then obtain g l where gl: "first_free (file_arr K) [MIN_FD..<OPEN_MAX] = Some g" "first_free (file_arr T) [MIN_FD..<OPEN_MAX] = Some l"
      by (auto simp del: upt_rec_numeral)
    let ?s = "placed s t T K f x v n (Some g) (Some l)"
    have run: "file_table_add vops me t (Some f) s = Some (int l, ?s)" unfolding add gl by simp
    have "entry ?s t l = Some f" "refs ?s v = refs s v + 1"
      using assms(3) o(4) by (simp_all add: placed_def entry_view refs_def view_sel)
    moreover have "ft_inv ?s" by (rule file_table_add_inv(1) [OF assms run])
    ultimately show ?thesis
      using run first_free_upt(2) [OF gl(1)] first_free_upt(2) [OF gl(2)] unfolding arr
      by (intro exI [of _ "int l"] exI [of _ ?s]) auto
  qed
qed

end
