(* ===== verification/Vfs.thy ===== *)
theory Vfs
  imports Vnode
begin

text \<open>
  The file-system independent layer: the big lock and device names (\<open>kern/vfs/vfslist.c\<close>), the
  current directory (\<open>kern/vfs/vfscwd.c\<close>), pathname translation (\<open>kern/vfs/vfslookup.c\<close>) and the
  operations on pathnames (\<open>kern/vfs/vfspath.c\<close>). Paths are strings in memory, which \<open>getdevice\<close>
  edits in place. \<open>me\<close> is the calling thread.

  The locale \<open>vnode_layer\<close> is the contract of a file system, as the comments of
  \<open>kern/include/vnode.h\<close> and \<open>fs.h\<close> give it: what lookups do to the reference counts. Inside it, every
  operation is shown to leave the counts, the big lock and the current directory as it found them, up
  to the reference it hands out.
\<close>

section \<open>The big lock\<close>

definition vfs_biglock_acquire :: "nat \<Rightarrow> fstate \<Rightarrow> fstate option" where
  "vfs_biglock_acquire me s =
     do { s \<leftarrow> (if vfs_biglock s \<noteq> Some me then do { kassert (vfs_biglock s = None); Some (s\<lparr>vfs_biglock := Some me\<rparr>) }
                else do { kassert (vfs_biglock_depth s \<noteq> 0); Some s });
          Some (s\<lparr>vfs_biglock_depth := vfs_biglock_depth s + 1\<rparr>) }"

definition vfs_biglock_release :: "nat \<Rightarrow> fstate \<Rightarrow> fstate option" where
  "vfs_biglock_release me s =
     do { kassert (vfs_biglock s = Some me);
          kassert (vfs_biglock_depth s > 0);
          let s = s\<lparr>vfs_biglock_depth := vfs_biglock_depth s - 1\<rparr>;
          if vfs_biglock_depth s = 0 then Some (s\<lparr>vfs_biglock := None\<rparr>) else Some s }"

definition vfs_biglock_do_i_hold :: "nat \<Rightarrow> fstate \<Rightarrow> bool" where
  "vfs_biglock_do_i_hold me s \<longleftrightarrow> vfs_biglock s = Some me"

section \<open>Device names\<close>

text \<open>A string comparison that the code only makes when the pointer is not NULL.\<close>

definition names :: "nat option \<Rightarrow> nat \<Rightarrow> fstate \<Rightarrow> bool option" where
  "names p q s = (case p of None \<Rightarrow> Some False | Some a \<Rightarrow> do { c \<leftarrow> strcmp (uc_mem (fs_uc s)) a q; Some (c = 0) })"

definition take_device :: "knowndev \<Rightarrow> fstate \<Rightarrow> (errno \<times> nat option \<times> fstate) option" where
  "take_device kd s =
     do { kassert (kd_device kd \<noteq> None); s \<leftarrow> vnode_incref (kd_vnode kd) s; Some (0, kd_vnode kd, s) }"

fun getroot_loop :: "(nat \<Rightarrow> fs_ops) \<Rightarrow> nat \<Rightarrow> knowndev list \<Rightarrow> fstate \<Rightarrow> (errno \<times> nat option \<times> fstate) option" where
  "getroot_loop fops devname [] s = Some (ENODEV, None, s)"
| "getroot_loop fops devname (kd # kds) s =
     do {
       named \<leftarrow> names (Some (kd_name kd)) devname s;
       case kd_fs kd of
         Some f \<Rightarrow>
           if f \<noteq> SWAP_FS then
             do { vol \<leftarrow> (if named then Some True else names (fsop_getvolname (fops f) f s) devname s);
                  if vol then fsop_getroot (fops f) f s
                  else do { raw \<leftarrow> names (kd_rawname kd) devname s;
                            if raw then take_device kd s else getroot_loop fops devname kds s } }
           else if kd_rawname kd \<noteq> None \<and> named then Some (ENXIO, None, s)
           else if named then None
           else do { raw \<leftarrow> names (kd_rawname kd) devname s;
                     if raw then take_device kd s else getroot_loop fops devname kds s }
       | None \<Rightarrow>
           if kd_rawname kd \<noteq> None \<and> named then Some (ENXIO, None, s)
           else if named then do { kassert (kd_rawname kd = None); take_device kd s }
           else do { raw \<leftarrow> names (kd_rawname kd) devname s;
                     if raw then take_device kd s else getroot_loop fops devname kds s }
     }"

definition vfs_getroot :: "(nat \<Rightarrow> fs_ops) \<Rightarrow> nat \<Rightarrow> nat \<Rightarrow> fstate \<Rightarrow> (errno \<times> nat option \<times> fstate) option" where
  "vfs_getroot fops me devname s =
     do { kassert (vfs_biglock_do_i_hold me s); getroot_loop fops devname (knowndevs s) s }"

definition vfs_getdevname :: "nat \<Rightarrow> nat option \<Rightarrow> fstate \<Rightarrow> nat option option" where
  "vfs_getdevname me f s =
     do { kassert (f \<noteq> None);
          kassert (vfs_biglock_do_i_hold me s);
          Some (map_option kd_name (find (\<lambda>kd. kd_fs kd = f) (knowndevs s))) }"

section \<open>The current directory\<close>

abbreviation S_IFDIR :: u32 where "S_IFDIR \<equiv> 0x2000"

definition vfs_getcurdir :: "fstate \<Rightarrow> (errno \<times> nat option \<times> fstate) option" where
  "vfs_getcurdir s =
     (if p_cwd s \<noteq> None then do { s \<leftarrow> vnode_incref (p_cwd s) s; Some (0, p_cwd s, s) } else Some (ENOENT, None, s))"

definition vfs_setcurdir :: "(nat \<Rightarrow> vnode_ops) \<Rightarrow> nat option \<Rightarrow> fstate \<Rightarrow> (errno \<times> fstate) option" where
  "vfs_setcurdir vops dir s =
     do { (v, op) \<leftarrow> VOP vops dir s;
          (result, vtype) \<leftarrow> vop_gettype op v s;
          if result \<noteq> 0 then Some (result, s)
          else if vtype \<noteq> S_IFDIR then Some (ENOTDIR, s)
          else do { s \<leftarrow> vnode_incref dir s;
                    let old = p_cwd s;
                    let s = s\<lparr>p_cwd := dir\<rparr>;
                    s \<leftarrow> (if old \<noteq> None then vnode_decref vops old s else Some s);
                    Some (0, s) } }"

definition vfs_clearcurdir :: "(nat \<Rightarrow> vnode_ops) \<Rightarrow> fstate \<Rightarrow> (errno \<times> fstate) option" where
  "vfs_clearcurdir vops s =
     do { let old = p_cwd s;
          let s = s\<lparr>p_cwd := None\<rparr>;
          s \<leftarrow> (if old \<noteq> None then vnode_decref vops old s else Some s);
          Some (0, s) }"

section \<open>Pathname translation\<close>

definition mem_of :: "fstate \<Rightarrow> cmem" where
  "mem_of s = uc_mem (fs_uc s)"

text \<open>The loop that locates the first colon or slash: the pair is (slash, colon).\<close>

partial_function (option) find_sep :: "cmem \<Rightarrow> nat \<Rightarrow> nat \<Rightarrow> (int \<times> int) option" where
  "find_sep m path i =
     (if m (path + i) = 0 then Some (- 1, - 1)
      else if m (path + i) = 58 then Some (- 1, int i)
      else if m (path + i) = 47 then Some (int i, - 1)
      else find_sep m path (i + 1))"

partial_function (option) skip_slash :: "cmem \<Rightarrow> nat \<Rightarrow> nat option" where
  "skip_slash m p = (if m (p + 1) = 47 then skip_slash m (p + 1) else Some p)"

text \<open>The case of \<open>/path\<close> and \<open>:path\<close> in \<open>getdevice\<close>.\<close>

definition rootdir ::
  "(nat \<Rightarrow> vnode_ops) \<Rightarrow> (nat \<Rightarrow> fs_ops) \<Rightarrow> nat \<Rightarrow> fstate \<Rightarrow> (errno \<times> nat option \<times> fstate) option" where
  "rootdir vops fops path s =
     (if mem_of s path = 47 then
        (if bootfs_vnode s = None then Some (ENOENT, None, s)
         else do { s \<leftarrow> vnode_incref (bootfs_vnode s) s; Some (0, bootfs_vnode s, s) })
      else do {
        kassert (mem_of s path = 58);
        (e, vn, s) \<leftarrow> vfs_getcurdir s;
        if e \<noteq> 0 then Some (e, None, s)
        else do {
          v \<leftarrow> vn;
          x \<leftarrow> vnodes s v;
          f \<leftarrow> vn_fs x;
          (e, root, s) \<leftarrow> fsop_getroot (fops f) f s;
          s \<leftarrow> vnode_decref vops vn s;
          Some (e, root, s) } })"

definition getdevice ::
  "(nat \<Rightarrow> vnode_ops) \<Rightarrow> (nat \<Rightarrow> fs_ops) \<Rightarrow> nat \<Rightarrow> nat \<Rightarrow> fstate \<Rightarrow> (errno \<times> nat \<times> nat option \<times> fstate) option" where
  "getdevice vops fops me path s =
     do {
       kassert (vfs_biglock_do_i_hold me s);
       if mem_of s path = 0 then Some (EINVAL, path, None, s)
       else do {
         (slash, colon) \<leftarrow> find_sep (mem_of s) path 0;
         if colon < 0 \<and> slash \<noteq> 0 then
           do { (e, vn, s) \<leftarrow> vfs_getcurdir s; Some (e, path, vn, s) }
         else if colon > 0 then
           do { let s = s\<lparr>fs_uc := (fs_uc s)\<lparr>uc_mem := (mem_of s)(path + nat colon := 0)\<rparr>\<rparr>;
                c \<leftarrow> skip_slash (mem_of s) (path + nat colon);
                (e, vn, s) \<leftarrow> vfs_getroot fops me path s;
                Some (e, c + 1, vn, s) }
         else do {
           kassert (colon = 0 \<or> slash = 0);
           (e, vn, s) \<leftarrow> rootdir vops fops path s;
           if e \<noteq> 0 then Some (e, path, None, s)
           else do { p \<leftarrow> skip_slash (mem_of s) path; Some (0, p + 1, vn, s) }
         }
       }
     }"

definition vfs_lookparent ::
  "(nat \<Rightarrow> vnode_ops) \<Rightarrow> (nat \<Rightarrow> fs_ops) \<Rightarrow> nat \<Rightarrow> nat \<Rightarrow> u32 \<Rightarrow> fstate \<Rightarrow> (errno \<times> nat option \<times> u8 list \<times> fstate) option" where
  "vfs_lookparent vops fops me path buflen s =
     do {
       s \<leftarrow> vfs_biglock_acquire me s;
       (e, path, startvn, s) \<leftarrow> getdevice vops fops me path s;
       if e \<noteq> 0 then do { s \<leftarrow> vfs_biglock_release me s; Some (e, None, [], s) }
       else do {
         len \<leftarrow> strlen (mem_of s) path;
         (result, retval, buf, s) \<leftarrow>
           (if len = 0 then Some (EINVAL, None, [], s)
            else do { (v, op) \<leftarrow> VOP vops startvn s; vop_lookparent op v path buflen s });
         s \<leftarrow> vnode_decref vops startvn s;
         s \<leftarrow> vfs_biglock_release me s;
         Some (result, retval, buf, s)
       }
     }"

definition vfs_lookup ::
  "(nat \<Rightarrow> vnode_ops) \<Rightarrow> (nat \<Rightarrow> fs_ops) \<Rightarrow> nat \<Rightarrow> nat \<Rightarrow> fstate \<Rightarrow> (errno \<times> nat option \<times> fstate) option" where
  "vfs_lookup vops fops me path s =
     do {
       s \<leftarrow> vfs_biglock_acquire me s;
       (e, path, startvn, s) \<leftarrow> getdevice vops fops me path s;
       if e \<noteq> 0 then do { s \<leftarrow> vfs_biglock_release me s; Some (e, None, s) }
       else do {
         len \<leftarrow> strlen (mem_of s) path;
         if len = 0 then do { s \<leftarrow> vfs_biglock_release me s; Some (0, startvn, s) }
         else do {
           (v, op) \<leftarrow> VOP vops startvn s;
           (result, retval, s) \<leftarrow> vop_lookup op v path s;
           s \<leftarrow> vnode_decref vops startvn s;
           s \<leftarrow> vfs_biglock_release me s;
           Some (result, retval, s)
         }
       }
     }"

section \<open>Operations on pathnames\<close>

abbreviation NAME_BUF :: u32 where "NAME_BUF \<equiv> 256"

abbreviation O_ACCMODE :: u32 where "O_ACCMODE \<equiv> 3"
abbreviation O_CREAT :: u32 where "O_CREAT \<equiv> 4"
abbreviation O_EXCL :: u32 where "O_EXCL \<equiv> 8"
abbreviation O_TRUNC :: u32 where "O_TRUNC \<equiv> 16"
abbreviation O_APPEND :: u32 where "O_APPEND \<equiv> 32"

definition vfs_open ::
  "(nat \<Rightarrow> vnode_ops) \<Rightarrow> (nat \<Rightarrow> fs_ops) \<Rightarrow> nat \<Rightarrow> nat \<Rightarrow> u32 \<Rightarrow> u32 \<Rightarrow> fstate \<Rightarrow> (errno \<times> nat option \<times> fstate) option" where
  "vfs_open vops fops me path openflags mode s =
     (let how = openflags AND O_ACCMODE in
      if how \<noteq> 0 \<and> how \<noteq> 1 \<and> how \<noteq> 2 then Some (EINVAL, None, s)
      else do {
        let canwrite = (how \<noteq> 0);
        (early, result, vn, s) \<leftarrow>
          (if openflags AND O_CREAT \<noteq> 0 then
             do { (result, dir, name, s) \<leftarrow> vfs_lookparent vops fops me path NAME_BUF s;
                  if result \<noteq> 0 then Some (True, result, None, s)
                  else do { (v, op) \<leftarrow> VOP vops dir s;
                            (result, vn, s) \<leftarrow> vop_creat op v name (openflags AND O_EXCL \<noteq> 0) mode s;
                            s \<leftarrow> vnode_decref vops dir s;
                            Some (False, result, vn, s) } }
           else do { (result, vn, s) \<leftarrow> vfs_lookup vops fops me path s; Some (False, result, vn, s) });
        if early \<or> result \<noteq> 0 then Some (result, None, s)
        else do {
          kassert (vn \<noteq> None);
          (v, op) \<leftarrow> VOP vops vn s;
          (result, s) \<leftarrow> vop_eachopen op v openflags s;
          if result \<noteq> 0 then do { s \<leftarrow> vnode_decref vops vn s; Some (result, None, s) }
          else if openflags AND O_TRUNC \<noteq> 0 then
            do { (result, s) \<leftarrow> (if \<not> canwrite then Some (EINVAL, s)
                               else do { (v, op) \<leftarrow> VOP vops vn s; vop_truncate op v 0 s });
                 if result \<noteq> 0 then do { s \<leftarrow> vnode_decref vops vn s; Some (result, None, s) }
                 else Some (0, vn, s) }
          else Some (0, vn, s)
        }
      })"

definition vfs_close :: "(nat \<Rightarrow> vnode_ops) \<Rightarrow> nat option \<Rightarrow> fstate \<Rightarrow> fstate option" where
  "vfs_close vops vn s = vnode_decref vops vn s"

definition vfs_remove ::
  "(nat \<Rightarrow> vnode_ops) \<Rightarrow> (nat \<Rightarrow> fs_ops) \<Rightarrow> nat \<Rightarrow> nat \<Rightarrow> fstate \<Rightarrow> (errno \<times> fstate) option" where
  "vfs_remove vops fops me path s =
     do { (result, dir, name, s) \<leftarrow> vfs_lookparent vops fops me path NAME_BUF s;
          if result \<noteq> 0 then Some (result, s)
          else do { (v, op) \<leftarrow> VOP vops dir s;
                    (result, s) \<leftarrow> vop_remove op v name s;
                    s \<leftarrow> vnode_decref vops dir s;
                    Some (result, s) } }"

definition vn_fs_of :: "nat option \<Rightarrow> fstate \<Rightarrow> nat option option" where
  "vn_fs_of vn s = do { v \<leftarrow> vn; x \<leftarrow> vnodes s v; Some (vn_fs x) }"

definition vfs_rename ::
  "(nat \<Rightarrow> vnode_ops) \<Rightarrow> (nat \<Rightarrow> fs_ops) \<Rightarrow> nat \<Rightarrow> nat \<Rightarrow> nat \<Rightarrow> fstate \<Rightarrow> (errno \<times> fstate) option" where
  "vfs_rename vops fops me oldpath newpath s =
     do { (result, olddir, oldname, s) \<leftarrow> vfs_lookparent vops fops me oldpath NAME_BUF s;
          if result \<noteq> 0 then Some (result, s)
          else do {
            (result, newdir, newname, s) \<leftarrow> vfs_lookparent vops fops me newpath NAME_BUF s;
            if result \<noteq> 0 then do { s \<leftarrow> vnode_decref vops olddir s; Some (result, s) }
            else do {
              f1 \<leftarrow> vn_fs_of olddir s;
              f2 \<leftarrow> vn_fs_of newdir s;
              (result, s) \<leftarrow>
                (if f1 = None \<or> f2 = None \<or> f1 \<noteq> f2 then Some (EXDEV, s)
                 else do { (v, op) \<leftarrow> VOP vops olddir s; nd \<leftarrow> newdir; vop_rename op v oldname nd newname s });
              s \<leftarrow> vnode_decref vops newdir s;
              s \<leftarrow> vnode_decref vops olddir s;
              Some (result, s) } } }"

definition vfs_link ::
  "(nat \<Rightarrow> vnode_ops) \<Rightarrow> (nat \<Rightarrow> fs_ops) \<Rightarrow> nat \<Rightarrow> nat \<Rightarrow> nat \<Rightarrow> fstate \<Rightarrow> (errno \<times> fstate) option" where
  "vfs_link vops fops me oldpath newpath s =
     do { (result, oldfile, s) \<leftarrow> vfs_lookup vops fops me oldpath s;
          if result \<noteq> 0 then Some (result, s)
          else do {
            (result, newdir, newname, s) \<leftarrow> vfs_lookparent vops fops me newpath NAME_BUF s;
            if result \<noteq> 0 then do { s \<leftarrow> vnode_decref vops oldfile s; Some (result, s) }
            else do {
              f1 \<leftarrow> vn_fs_of oldfile s;
              f2 \<leftarrow> vn_fs_of newdir s;
              (result, s) \<leftarrow>
                (if f1 = None \<or> f2 = None \<or> f1 \<noteq> f2 then Some (EXDEV, s)
                 else do { (v, op) \<leftarrow> VOP vops newdir s; old \<leftarrow> oldfile; vop_link op v newname old s });
              s \<leftarrow> vnode_decref vops newdir s;
              s \<leftarrow> vnode_decref vops oldfile s;
              Some (result, s) } } }"

definition vfs_symlink ::
  "(nat \<Rightarrow> vnode_ops) \<Rightarrow> (nat \<Rightarrow> fs_ops) \<Rightarrow> nat \<Rightarrow> nat \<Rightarrow> nat \<Rightarrow> fstate \<Rightarrow> (errno \<times> fstate) option" where
  "vfs_symlink vops fops me contents path s =
     do { (result, newdir, newname, s) \<leftarrow> vfs_lookparent vops fops me path NAME_BUF s;
          if result \<noteq> 0 then Some (result, s)
          else do { (v, op) \<leftarrow> VOP vops newdir s;
                    (result, s) \<leftarrow> vop_symlink op v newname contents s;
                    s \<leftarrow> vnode_decref vops newdir s;
                    Some (result, s) } }"

definition vfs_readlink ::
  "(nat \<Rightarrow> vnode_ops) \<Rightarrow> (nat \<Rightarrow> fs_ops) \<Rightarrow> nat \<Rightarrow> nat \<Rightarrow> uio \<Rightarrow> fstate \<Rightarrow> (errno \<times> uio \<times> fstate) option" where
  "vfs_readlink vops fops me path u s =
     do { (result, vn, s) \<leftarrow> vfs_lookup vops fops me path s;
          if result \<noteq> 0 then Some (result, u, s)
          else do { (v, op) \<leftarrow> VOP vops vn s;
                    (result, u, s) \<leftarrow> vop_readlink op v u s;
                    s \<leftarrow> vnode_decref vops vn s;
                    Some (result, u, s) } }"

definition vfs_mkdir ::
  "(nat \<Rightarrow> vnode_ops) \<Rightarrow> (nat \<Rightarrow> fs_ops) \<Rightarrow> nat \<Rightarrow> nat \<Rightarrow> u32 \<Rightarrow> fstate \<Rightarrow> (errno \<times> fstate) option" where
  "vfs_mkdir vops fops me path mode s =
     do { (result, parent, name, s) \<leftarrow> vfs_lookparent vops fops me path NAME_BUF s;
          if result \<noteq> 0 then Some (result, s)
          else do { (v, op) \<leftarrow> VOP vops parent s;
                    (result, s) \<leftarrow> vop_mkdir op v name mode s;
                    s \<leftarrow> vnode_decref vops parent s;
                    Some (result, s) } }"

definition vfs_rmdir ::
  "(nat \<Rightarrow> vnode_ops) \<Rightarrow> (nat \<Rightarrow> fs_ops) \<Rightarrow> nat \<Rightarrow> nat \<Rightarrow> fstate \<Rightarrow> (errno \<times> fstate) option" where
  "vfs_rmdir vops fops me path s =
     do { (result, parent, name, s) \<leftarrow> vfs_lookparent vops fops me path NAME_BUF s;
          if result \<noteq> 0 then Some (result, s)
          else do { (v, op) \<leftarrow> VOP vops parent s;
                    (result, s) \<leftarrow> vop_rmdir op v name s;
                    s \<leftarrow> vnode_decref vops parent s;
                    Some (result, s) } }"

definition vfs_chdir ::
  "(nat \<Rightarrow> vnode_ops) \<Rightarrow> (nat \<Rightarrow> fs_ops) \<Rightarrow> nat \<Rightarrow> nat \<Rightarrow> fstate \<Rightarrow> (errno \<times> fstate) option" where
  "vfs_chdir vops fops me path s =
     do { (result, vn, s) \<leftarrow> vfs_lookup vops fops me path s;
          if result \<noteq> 0 then Some (result, s)
          else do { (result, s) \<leftarrow> vfs_setcurdir vops vn s;
                    s \<leftarrow> vnode_decref vops vn s;
                    Some (result, s) } }"

text \<open>\<open>sys_chdir\<close> translates the path twice: once to test it, once inside \<open>vfs_chdir\<close>.\<close>

definition sys_chdir ::
  "(nat \<Rightarrow> vnode_ops) \<Rightarrow> (nat \<Rightarrow> fs_ops) \<Rightarrow> nat \<Rightarrow> nat \<Rightarrow> fstate \<Rightarrow> (int \<times> fstate) option" where
  "sys_chdir vops fops me pathname s =
     do { (error, directory, s) \<leftarrow> vfs_lookup vops fops me pathname s;
          if error \<noteq> 0 then Some (- 1, s)
          else do { (error, s) \<leftarrow> vfs_chdir vops fops me pathname s;
                    if error \<noteq> 0 then Some (- 1, s) else Some (0, s) } }"

section \<open>The contract of a file system, and what the layer does under it\<close>

text \<open>A call that hands back a vnode: on success the result has one more reference, on failure no
  count has changed.\<close>

definition hands :: "errno \<Rightarrow> nat option \<Rightarrow> fstate \<Rightarrow> fstate \<Rightarrow> bool" where
  "hands e r s s' \<longleftrightarrow> same_env s s' \<and> (if e = 0 then \<exists>w. r = Some w \<and> gains w s s' else keeps s s')"

definition refs_quiet :: "fstate \<Rightarrow> fstate \<Rightarrow> bool" where
  "refs_quiet s s' \<longleftrightarrow> same_env s s' \<and> keeps s s'"

text \<open>The references that the layer itself relies on, and a consistent big lock.\<close>

definition env_ok :: "fstate \<Rightarrow> bool" where
  "env_ok s \<longleftrightarrow> (\<forall>w. p_cwd s = Some w \<longrightarrow> 1 \<le> refs s w) \<and> (\<forall>w. bootfs_vnode s = Some w \<longrightarrow> 1 \<le> refs s w) \<and>
     (\<forall>kd\<in>set (knowndevs s). \<forall>w. kd_vnode kd = Some w \<longrightarrow> 1 \<le> refs s w) \<and>
     (\<forall>f w. ef_root s f = Some w \<longrightarrow> 1 \<le> refs s w) \<and> (vfs_biglock s = None \<longleftrightarrow> vfs_biglock_depth s = 0)"

lemma refs_quiet_refl [simp]: "refs_quiet s s"
  by (simp add: refs_quiet_def)

lemma refs_quiet_trans: "refs_quiet s s1 \<Longrightarrow> refs_quiet s1 s2 \<Longrightarrow> refs_quiet s s2"
  unfolding refs_quiet_def by (blast intro: same_env_trans keeps_trans)

lemma hands_quiet: "hands e r s s1 \<Longrightarrow> refs_quiet s1 s2 \<Longrightarrow> hands e r s s2"
  unfolding hands_def refs_quiet_def by (auto intro: same_env_trans keeps_trans gains_keeps split: if_splits)

lemma refs_quiet_hands: "refs_quiet s s1 \<Longrightarrow> hands e r s1 s2 \<Longrightarrow> hands e r s s2"
  unfolding hands_def refs_quiet_def by (auto intro: same_env_trans keeps_trans keeps_gains split: if_splits)

lemma hands_err [simp]: "e \<noteq> 0 \<Longrightarrow> hands e r s s' \<longleftrightarrow> refs_quiet s s'"
  by (simp add: hands_def refs_quiet_def)

lemma refs_quiet_uc: "refs_quiet s (s\<lparr>fs_uc := u\<rparr>)"
  by (simp add: refs_quiet_def same_env_def keeps_same)

lemma env_ok_mono:
  assumes "env_ok s" "same_env s s'" "\<And>u. 1 \<le> refs s u \<Longrightarrow> 1 \<le> refs s' u"
  shows "env_ok s'"
  using assms(1,2) unfolding env_ok_def same_env_def by (simp add: assms(3))

lemma env_ok_quiet: "env_ok s \<Longrightarrow> refs_quiet s s' \<Longrightarrow> env_ok s'"
  by (erule env_ok_mono) (simp_all add: refs_quiet_def keeps_def)

lemma env_ok_hands: "env_ok s \<Longrightarrow> hands e r s s' \<Longrightarrow> env_ok s'"
  by (erule env_ok_mono) (auto simp: hands_def keeps_def gains_def split: if_splits)

lemma hands_live: "hands 0 (Some w) s s' \<Longrightarrow> 1 \<le> refs s' w"
  by (simp add: hands_def gains_def)

lemma VOP_SomeD: "VOP vops vn s = Some (v, op) \<Longrightarrow> vn = Some v \<and> (\<exists>p. op = vops p) \<and> 1 \<le> refs s v"
  by (auto simp: VOP_def vnode_check_def refs_def split: bind_splits)

text \<open>What the layer does on its own, without a file system.\<close>

lemma hands_incref:
  "vnode_incref (Some w) s = Some s' \<Longrightarrow> 1 \<le> refs s w \<Longrightarrow> hands 0 (Some w) s s'"
  using vnode_incref_gains [of "Some w" s s' w] by (simp add: hands_def)

lemma vfs_getcurdir_hands:
  assumes "env_ok s" "vfs_getcurdir s = Some (e, r, s')"
  shows "hands e r s s'"
  using assms hands_incref [of _ s]
  by (auto simp: vfs_getcurdir_def env_ok_def hands_def [of ENOENT] split: bind_splits if_splits)
    (metis hands_def same_env_def)+

lemma take_device_hands:
  assumes "env_ok s" "kd \<in> set (knowndevs s)" "take_device kd s = Some (e, r, s')"
  shows "hands e r s s'"
proof -
  obtain w where "kd_vnode kd = Some w" "vnode_incref (Some w) s = Some s'" "e = 0" "r = Some w"
    using assms(3) by (auto simp: take_device_def vnode_incref_def split: bind_splits)
  then show ?thesis using hands_incref assms(1,2) by (auto simp: env_ok_def)
qed

lemma biglock_env: "env_ok s \<Longrightarrow> vfs_biglock_acquire me s = Some s1 \<Longrightarrow> env_ok s1"
  by (auto simp: vfs_biglock_acquire_def env_ok_def refs_def split: if_splits)

lemma biglock_section:
  assumes "env_ok s" "vfs_biglock_acquire me s = Some s1" "vfs_biglock_release me s2 = Some s3"
  shows "refs_quiet s1 s2 \<Longrightarrow> refs_quiet s s3" "hands e r s1 s2 \<Longrightarrow> hands e r s s3"
proof -
  have s1: "s1 = s\<lparr>vfs_biglock := Some me, vfs_biglock_depth := vfs_biglock_depth s + 1\<rparr>"
    and own: "vfs_biglock s = Some me \<or> vfs_biglock s = None"
    using assms(2) by (auto simp: vfs_biglock_acquire_def split: if_splits)
  have d: "vfs_biglock s = None \<longleftrightarrow> vfs_biglock_depth s = 0" using assms(1) by (simp add: env_ok_def)
  have r1: "refs s1 = refs s" using s1 by (simp add: refs_def fun_eq_iff)
  have r3: "refs s3 = refs s2" using assms(3)
    by (auto simp: vfs_biglock_release_def refs_def fun_eq_iff Let_def split: if_splits)
  have env: "same_env s s3" if "same_env s1 s2"
    using that assms(3) own d unfolding s1 same_env_def
    by (auto simp: vfs_biglock_release_def Let_def split: if_splits)
  have k: "keeps s s3 = keeps s1 s2" "gains w s s3 = gains w s1 s2" for w
    by (simp_all add: keeps_def gains_def r1 r3)
  show "refs_quiet s1 s2 \<Longrightarrow> refs_quiet s s3" using env k by (simp add: refs_quiet_def)
  show "hands e r s1 s2 \<Longrightarrow> hands e r s s3" using env k by (simp add: hands_def)
qed

locale vnode_layer =
  fixes vops :: "nat \<Rightarrow> vnode_ops" and fops :: "nat \<Rightarrow> fs_ops"
  assumes reclaim: "reclaim_ok vops"
    and lookup: "1 \<le> refs s v \<Longrightarrow> vop_lookup (vops p) v path s = Some (e, r, s') \<Longrightarrow> hands e r s s'"
    and lookparent: "1 \<le> refs s v \<Longrightarrow> vop_lookparent (vops p) v path len s = Some (e, r, buf, s') \<Longrightarrow> hands e r s s'"
    and creat: "1 \<le> refs s v \<Longrightarrow> vop_creat (vops p) v name excl mode s = Some (e, r, s') \<Longrightarrow> hands e r s s'"
    and getroot: "env_ok s \<Longrightarrow> fsop_getroot (fops f) f s = Some (e, r, s') \<Longrightarrow> hands e r s s'"
    and eachopen: "vop_eachopen (vops p) v flags s = Some (e, s') \<Longrightarrow> refs_quiet s s'"
    and truncate: "vop_truncate (vops p) v len64 s = Some (e, s') \<Longrightarrow> refs_quiet s s'"
    and remove: "vop_remove (vops p) v name s = Some (e, s') \<Longrightarrow> refs_quiet s s'"
    and rmdir: "vop_rmdir (vops p) v name s = Some (e, s') \<Longrightarrow> refs_quiet s s'"
    and mkdir: "vop_mkdir (vops p) v name mode s = Some (e, s') \<Longrightarrow> refs_quiet s s'"
    and symlink: "vop_symlink (vops p) v name contents s = Some (e, s') \<Longrightarrow> refs_quiet s s'"
    and link: "vop_link (vops p) v name w s = Some (e, s') \<Longrightarrow> refs_quiet s s'"
    and rename: "vop_rename (vops p) v name w name2 s = Some (e, s') \<Longrightarrow> refs_quiet s s'"
    and readlink: "vop_readlink (vops p) v u s = Some (e, u', s') \<Longrightarrow> refs_quiet s s'"
begin

text \<open>A gained reference given back.\<close>

lemma give_back:
  assumes "hands 0 r s s1" "refs_quiet s1 s2" "vnode_decref vops r s2 = Some s3"
  shows "refs_quiet s s3"
proof -
  have h: "hands 0 r s s2" by (rule hands_quiet [OF assms(1,2)])
  then obtain w where w: "r = Some w" "gains w s s2" "same_env s s2" by (auto simp: hands_def)
  show ?thesis
    using vnode_decref_gained [OF reclaim w(2), of s3] vnode_decref_effect(1) [OF reclaim, of w s2 s3] assms(3) w(1,3)
    by (auto simp: refs_quiet_def intro: same_env_trans)
qed

text \<open>Two references, the later one given back first: used by \<open>:path\<close>, rename and link.\<close>

lemma give_back_inner:
  assumes "hands 0 a s s1" "hands e b s1 s2" "vnode_decref vops a s2 = Some s3"
  shows "hands e b s s3"
proof -
  obtain w where w: "a = Some w" "gains w s s1" "same_env s s1" using assms(1) by (auto simp: hands_def)
  show ?thesis
  proof (cases "e = 0")
    case False
    then show ?thesis using give_back [OF assms(1) _ assms(3)] assms(2) by simp
  next
    case True
    then obtain b' where b: "b = Some b'" "gains b' s1 s2" "same_env s1 s2" using assms(2) by (auto simp: hands_def)
    have d: "vnode_decref vops (Some w) s2 = Some s3" using assms(3) w(1) by simp
    show ?thesis
      using vnode_decref_inner [OF reclaim w(2) b(2) d] vnode_decref_effect(1) [OF reclaim d] True b(1,3) w(3)
      by (auto simp: hands_def intro: same_env_trans)
  qed
qed

lemma getroot_loop_hands:
  assumes "env_ok s" "set kds \<subseteq> set (knowndevs s)" "getroot_loop fops devname kds s = Some (e, r, s')"
  shows "hands e r s s'"
  using assms(2,3)
proof (induction kds)
  case Nil
  then show ?case by simp
next
  case (Cons kd kds)
  have "hands e r s s'" if "take_device kd s = Some (e, r, s')"
    by (rule take_device_hands [OF assms(1) _ that]) (use Cons.prems(1) in simp)
  moreover have "hands e r s s'" if "getroot_loop fops devname kds s = Some (e, r, s')"
    using Cons.IH Cons.prems(1) that by simp
  moreover have "hands e r s s'" if "fsop_getroot (fops f) f s = Some (e, r, s')" for f
    by (rule getroot [OF assms(1) that])
  moreover have "hands ENXIO None s s" by simp
  ultimately show ?case
    using Cons.prems(2) by (auto split: option.splits bind_splits if_splits)
qed

lemma rootdir_hands:
  assumes "env_ok s" "rootdir vops fops path s = Some (e, r, s')"
  shows "hands e r s s'"
proof -
  have cur: "hands e' r' s s1" if "vfs_getcurdir s = Some (e', r', s1)" for e' r' s1
    by (rule vfs_getcurdir_hands [OF assms(1) that])
  have cur': "refs_quiet s s1" if "vfs_getcurdir s = Some (e', r', s1)" "e' \<noteq> 0" for e' r' s1
    using cur [OF that(1)] that(2) by simp
  have boot: "hands 0 (bootfs_vnode s1) s s1" if inc: "vnode_incref (bootfs_vnode s) s = Some s1" for s1
  proof -
    obtain w where w: "bootfs_vnode s = Some w" using inc by (cases "bootfs_vnode s") (auto simp: vnode_incref_def)
    then have "hands 0 (Some w) s s1" using hands_incref [of w s s1] inc assms(1) by (simp add: env_ok_def)
    moreover from this have "bootfs_vnode s1 = Some w" using w by (simp add: hands_def same_env_def)
    ultimately show ?thesis by simp
  qed
  have root: "hands e' r' s s2"
    if "vfs_getcurdir s = Some (0, vn, s1)" "fsop_getroot (fops f) f s1 = Some (e', r', s3)" "vnode_decref vops vn s3 = Some s2"
    for e' r' s1 s2 s3 vn f
    by (rule give_back_inner [OF cur [OF that(1)] getroot [OF env_ok_hands [OF assms(1) cur [OF that(1)]] that(2)] that(3)])
  show ?thesis
    using assms(2) unfolding rootdir_def
    by (auto simp: Option.bind_eq_Some_conv boot split: if_splits intro: cur' root)
qed

lemma getdevice_hands:
  assumes "env_ok s" "getdevice vops fops me path s = Some (e, sub, r, s')"
  shows "hands e r s s'"
proof -
  have dev: "hands e' r' s s1" if "vfs_getroot fops me path (s\<lparr>fs_uc := u\<rparr>) = Some (e', r', s1)" for e' r' s1 u
  proof -
    have "env_ok (s\<lparr>fs_uc := u\<rparr>)" by (rule env_ok_quiet [OF assms(1) refs_quiet_uc])
    then have "hands e' r' (s\<lparr>fs_uc := u\<rparr>) s1"
      using that getroot_loop_hands [of "s\<lparr>fs_uc := u\<rparr>" "knowndevs s" path e' r' s1] by (simp add: vfs_getroot_def)
    then show ?thesis by (rule refs_quiet_hands [OF refs_quiet_uc])
  qed
  have root: "refs_quiet s s1" if "rootdir vops fops path s = Some (e', r', s1)" "e' \<noteq> 0" for e' r' s1
    using rootdir_hands [OF assms(1) that(1)] that(2) by simp
  note parts = vfs_getcurdir_hands [OF assms(1)] rootdir_hands [OF assms(1)] dev root
  show ?thesis
    using assms(2) unfolding getdevice_def Let_def
    by (auto simp: Option.bind_eq_Some_conv split: if_splits intro: parts)
qed

lemma vfs_lookup_hands:
  assumes "env_ok s" "vfs_lookup vops fops me path s = Some (e, r, s')"
  shows "hands e r s s'"
proof -
  obtain s1 e1 sub start s2 where s1: "vfs_biglock_acquire me s = Some s1"
    and g: "getdevice vops fops me path s1 = Some (e1, sub, start, s2)"
    and rest: "(if e1 \<noteq> 0 then do { s \<leftarrow> vfs_biglock_release me s2; Some (e1, None, s) }
       else do {
         len \<leftarrow> strlen (mem_of s2) sub;
         if len = 0 then do { s \<leftarrow> vfs_biglock_release me s2; Some (0, start, s) }
         else do {
           (v, op) \<leftarrow> VOP vops start s2;
           (result, retval, s) \<leftarrow> vop_lookup op v sub s2;
           s \<leftarrow> vnode_decref vops start s;
           s \<leftarrow> vfs_biglock_release me s;
           Some (result, retval, s) } }) = Some (e, r, s')"
    using assms(2) by (auto simp: vfs_lookup_def Option.bind_eq_Some_conv)
  note sec = biglock_section(2) [OF assms(1) s1]
  note start = getdevice_hands [OF biglock_env [OF assms(1) s1] g]
  show ?thesis
  proof (cases "e1 = 0")
    case False
    then show ?thesis using rest start sec [of s2 s' e1 None] by (auto simp: Option.bind_eq_Some_conv)
  next
    case True
    obtain len where len: "strlen (mem_of s2) sub = Some len" using rest True by (auto simp: Option.bind_eq_Some_conv)
    show ?thesis
    proof (cases "len = 0")
      case True
      then show ?thesis using rest \<open>e1 = 0\<close> len start sec [of s2 s' 0 start] by (auto simp: Option.bind_eq_Some_conv)
    next
      case False
      then obtain v p s3 s4 where o: "start = Some v" "1 \<le> refs s2 v" "vop_lookup (vops p) v sub s2 = Some (e, r, s3)"
        "vnode_decref vops start s3 = Some s4" "vfs_biglock_release me s4 = Some s'"
        using rest True len by (auto simp: Option.bind_eq_Some_conv dest!: VOP_SomeD)
      have "hands e r s1 s4"
        using give_back_inner [OF _ lookup [OF o(2,3)] o(4)] start True by simp
      then show ?thesis by (rule sec [OF o(5)])
    qed
  qed
qed

lemma vfs_lookparent_hands:
  assumes "env_ok s" "vfs_lookparent vops fops me path len s = Some (e, r, buf, s')"
  shows "hands e r s s'"
proof -
  obtain s1 e1 sub start s2 where s1: "vfs_biglock_acquire me s = Some s1"
    and g: "getdevice vops fops me path s1 = Some (e1, sub, start, s2)"
    and rest: "(if e1 \<noteq> 0 then do { s \<leftarrow> vfs_biglock_release me s2; Some (e1, None, [], s) }
       else do {
         n \<leftarrow> strlen (mem_of s2) sub;
         (result, retval, buf, s) \<leftarrow>
           (if n = 0 then Some (EINVAL, None, [], s2)
            else do { (v, op) \<leftarrow> VOP vops start s2; vop_lookparent op v sub len s2 });
         s \<leftarrow> vnode_decref vops start s;
         s \<leftarrow> vfs_biglock_release me s;
         Some (result, retval, buf, s) }) = Some (e, r, buf, s')"
    using assms(2) by (auto simp: vfs_lookparent_def Option.bind_eq_Some_conv)
  note sec = biglock_section(2) [OF assms(1) s1]
  note start = getdevice_hands [OF biglock_env [OF assms(1) s1] g]
  show ?thesis
  proof (cases "e1 = 0")
    case False
    then show ?thesis using rest start sec [of s2 s' e1 None] by (auto simp: Option.bind_eq_Some_conv)
  next
    case True
    then obtain n s3 s4 where n: "strlen (mem_of s2) sub = Some n"
      and look: "(if n = 0 then Some (EINVAL, None, [], s2)
            else do { (v, op) \<leftarrow> VOP vops start s2; vop_lookparent op v sub len s2 }) = Some (e, r, buf, s3)"
      and o: "vnode_decref vops start s3 = Some s4" "vfs_biglock_release me s4 = Some s'"
      using rest by (auto simp: Option.bind_eq_Some_conv simp del: if_split)
    have "hands e r s2 s3"
      using look by (cases "n = 0") (auto simp: Option.bind_eq_Some_conv dest!: VOP_SomeD intro: lookparent)
    note o = this o
    have "hands e r s1 s4"
      using give_back_inner [OF _ o(1,2)] start True by simp
    then show ?thesis by (rule sec [OF o(3)])
  qed
qed

text \<open>The common shape of remove, rmdir, mkdir and symlink.\<close>

lemma parent_op:
  assumes "env_ok s" "\<And>p v name s e s'. F (vops p) v name s = Some (e, s') \<Longrightarrow> refs_quiet s s'"
    "do { (result, dir, name, s) \<leftarrow> vfs_lookparent vops fops me path len s;
          if result \<noteq> 0 then Some (result, s)
          else do { (v, op) \<leftarrow> VOP vops dir s;
                    (result, s) \<leftarrow> F op v name s;
                    s \<leftarrow> vnode_decref vops dir s;
                    Some (result, s) } } = Some (e, s')"
  shows "refs_quiet s s'"
proof -
  obtain e1 dir name s1 where l: "vfs_lookparent vops fops me path len s = Some (e1, dir, name, s1)"
    and rest: "(if e1 \<noteq> 0 then Some (e1, s1)
          else do { (v, op) \<leftarrow> VOP vops dir s1;
                    (result, s) \<leftarrow> F op v name s1;
                    s \<leftarrow> vnode_decref vops dir s;
                    Some (result, s) }) = Some (e, s')"
    using assms(3) by (auto simp: Option.bind_eq_Some_conv)
  note h = vfs_lookparent_hands [OF assms(1) l]
  show ?thesis
  proof (cases "e1 = 0")
    case True
    then obtain v p s2 where "F (vops p) v name s1 = Some (e, s2)" "vnode_decref vops dir s2 = Some s'"
      using rest by (auto simp: Option.bind_eq_Some_conv dest!: VOP_SomeD)
    then show ?thesis using give_back [OF _ assms(2)] h True by blast
  qed (use h rest in auto)
qed

lemma vfs_remove_quiet: "env_ok s \<Longrightarrow> vfs_remove vops fops me path s = Some (e, s') \<Longrightarrow> refs_quiet s s'"
  unfolding vfs_remove_def by (rule parent_op [OF _ remove])

lemma vfs_rmdir_quiet: "env_ok s \<Longrightarrow> vfs_rmdir vops fops me path s = Some (e, s') \<Longrightarrow> refs_quiet s s'"
  unfolding vfs_rmdir_def by (rule parent_op [OF _ rmdir])

lemma vfs_mkdir_quiet: "env_ok s \<Longrightarrow> vfs_mkdir vops fops me path mode s = Some (e, s') \<Longrightarrow> refs_quiet s s'"
  unfolding vfs_mkdir_def
  by (rule parent_op [where F = "\<lambda>op v name. vop_mkdir op v name mode", OF _ mkdir])

lemma vfs_symlink_quiet: "env_ok s \<Longrightarrow> vfs_symlink vops fops me contents path s = Some (e, s') \<Longrightarrow> refs_quiet s s'"
  unfolding vfs_symlink_def
  by (rule parent_op [where F = "\<lambda>op v name. vop_symlink op v name contents", OF _ symlink])

lemma vfs_readlink_quiet:
  assumes "env_ok s" "vfs_readlink vops fops me path u s = Some (e, u', s')"
  shows "refs_quiet s s'"
proof -
  obtain e1 vn s1 where l: "vfs_lookup vops fops me path s = Some (e1, vn, s1)"
    and rest: "(if e1 \<noteq> 0 then Some (e1, u, s1)
          else do { (v, op) \<leftarrow> VOP vops vn s1;
                    (result, u, s) \<leftarrow> vop_readlink op v u s1;
                    s \<leftarrow> vnode_decref vops vn s;
                    Some (result, u, s) }) = Some (e, u', s')"
    using assms(2) by (auto simp: vfs_readlink_def Option.bind_eq_Some_conv)
  note h = vfs_lookup_hands [OF assms(1) l]
  show ?thesis
  proof (cases "e1 = 0")
    case True
    then obtain v p s2 where "vop_readlink (vops p) v u s1 = Some (e, u', s2)" "vnode_decref vops vn s2 = Some s'"
      using rest by (auto simp: Option.bind_eq_Some_conv dest!: VOP_SomeD)
    then show ?thesis using give_back [OF _ readlink] h True by blast
  qed (use h rest in auto)
qed

text \<open>Rename and link: two vnodes are held while the operation runs.\<close>

lemma two_vnodes:
  assumes "hands 0 a s s1" "hands 0 b s1 s2" "refs_quiet s2 s3" "vnode_decref vops b s3 = Some s4" "vnode_decref vops a s4 = Some s5"
  shows "refs_quiet s s5"
  by (rule give_back [OF assms(1) give_back [OF assms(2,3,4)] assms(5)])

lemma vfs_rename_quiet:
  assumes "env_ok s" "vfs_rename vops fops me oldpath newpath s = Some (e, s')"
  shows "refs_quiet s s'"
proof -
  obtain e1 olddir oldname s1 where l1: "vfs_lookparent vops fops me oldpath NAME_BUF s = Some (e1, olddir, oldname, s1)"
    using assms(2) by (auto simp: vfs_rename_def Option.bind_eq_Some_conv)
  note h1 = vfs_lookparent_hands [OF assms(1) l1]
  show ?thesis
  proof (cases "e1 = 0")
    case False
    then show ?thesis using assms(2) l1 h1 by (simp add: vfs_rename_def)
  next
    case True
    obtain e2 newdir newname s2 where l2: "vfs_lookparent vops fops me newpath NAME_BUF s1 = Some (e2, newdir, newname, s2)"
      using assms(2) l1 True by (auto simp: vfs_rename_def Option.bind_eq_Some_conv)
    note h2 = vfs_lookparent_hands [OF env_ok_hands [OF assms(1) h1] l2]
    show ?thesis
    proof (cases "e2 = 0")
      case False
      then show ?thesis
        using assms(2) l1 l2 True h2 give_back [OF h1 [unfolded True], of s2 s']
        by (auto simp: vfs_rename_def Option.bind_eq_Some_conv)
    next
      case e2: True
      obtain f1 f2 :: "nat option" and s3 s4 where op: "(if f1 = None \<or> f2 = None \<or> f1 \<noteq> f2 then Some (EXDEV, s2)
           else do { (v, op) \<leftarrow> VOP vops olddir s2; nd \<leftarrow> newdir; vop_rename op v oldname nd newname s2 }) = Some (e, s3)"
        and d: "vnode_decref vops newdir s3 = Some s4" "vnode_decref vops olddir s4 = Some s'"
        using assms(2) l1 l2 True e2 by (auto simp: vfs_rename_def Option.bind_eq_Some_conv simp del: if_split de_Morgan_disj)
      have q: "refs_quiet s2 s3"
        using op by (cases "f1 = None \<or> f2 = None \<or> f1 \<noteq> f2") (auto simp: Option.bind_eq_Some_conv dest!: VOP_SomeD intro: rename)
      show ?thesis by (rule two_vnodes [OF h1 [unfolded True] h2 [unfolded e2] q d])
    qed
  qed
qed

lemma vfs_link_quiet:
  assumes "env_ok s" "vfs_link vops fops me oldpath newpath s = Some (e, s')"
  shows "refs_quiet s s'"
proof -
  obtain e1 oldfile s1 where l1: "vfs_lookup vops fops me oldpath s = Some (e1, oldfile, s1)"
    using assms(2) by (auto simp: vfs_link_def Option.bind_eq_Some_conv)
  note h1 = vfs_lookup_hands [OF assms(1) l1]
  show ?thesis
  proof (cases "e1 = 0")
    case False
    then show ?thesis using assms(2) l1 h1 by (simp add: vfs_link_def)
  next
    case True
    obtain e2 newdir newname s2 where l2: "vfs_lookparent vops fops me newpath NAME_BUF s1 = Some (e2, newdir, newname, s2)"
      using assms(2) l1 True by (auto simp: vfs_link_def Option.bind_eq_Some_conv)
    note h2 = vfs_lookparent_hands [OF env_ok_hands [OF assms(1) h1] l2]
    show ?thesis
    proof (cases "e2 = 0")
      case False
      then show ?thesis
        using assms(2) l1 l2 True h2 give_back [OF h1 [unfolded True], of s2 s']
        by (auto simp: vfs_link_def Option.bind_eq_Some_conv)
    next
      case e2: True
      obtain f1 f2 :: "nat option" and s3 s4 where op: "(if f1 = None \<or> f2 = None \<or> f1 \<noteq> f2 then Some (EXDEV, s2)
           else do { (v, op) \<leftarrow> VOP vops newdir s2; old \<leftarrow> oldfile; vop_link op v newname old s2 }) = Some (e, s3)"
        and d: "vnode_decref vops newdir s3 = Some s4" "vnode_decref vops oldfile s4 = Some s'"
        using assms(2) l1 l2 True e2 by (auto simp: vfs_link_def Option.bind_eq_Some_conv simp del: if_split de_Morgan_disj)
      have q: "refs_quiet s2 s3"
        using op by (cases "f1 = None \<or> f2 = None \<or> f1 \<noteq> f2") (auto simp: Option.bind_eq_Some_conv dest!: VOP_SomeD intro: link)
      show ?thesis by (rule two_vnodes [OF h1 [unfolded True] h2 [unfolded e2] q d])
    qed
  qed
qed

text \<open>Opening: the part before \<open>VOP_EACHOPEN\<close>, then the rest.\<close>

lemma open_find:
  assumes "env_ok s"
    "(if openflags AND O_CREAT \<noteq> 0 then
        do { (result, dir, name, s) \<leftarrow> vfs_lookparent vops fops me path NAME_BUF s;
             if result \<noteq> 0 then Some (True, result, None, s)
             else do { (v, op) \<leftarrow> VOP vops dir s;
                       (result, vn, s) \<leftarrow> vop_creat op v name (openflags AND O_EXCL \<noteq> 0) mode s;
                       s \<leftarrow> vnode_decref vops dir s;
                       Some (False, result, vn, s) } }
      else do { (result, vn, s) \<leftarrow> vfs_lookup vops fops me path s; Some (False, result, vn, s) }) = Some (early, e, r, s')"
  shows "hands e r s s'" "early \<Longrightarrow> e \<noteq> 0"
proof -
  have "hands e r s s' \<and> (early \<longrightarrow> e \<noteq> 0)"
  proof (cases "openflags AND O_CREAT \<noteq> 0")
    case False
    then show ?thesis using assms vfs_lookup_hands [OF assms(1), of me path e r s'] by (auto simp: Option.bind_eq_Some_conv)
  next
    case True
    then obtain e1 dir name s1 where l: "vfs_lookparent vops fops me path NAME_BUF s = Some (e1, dir, name, s1)"
      using assms(2) by (auto simp: Option.bind_eq_Some_conv)
    note h = vfs_lookparent_hands [OF assms(1) l]
    show ?thesis
    proof (cases "e1 = 0")
      case e1: True
      then obtain v p s2 where c: "1 \<le> refs s1 v" "vop_creat (vops p) v name (openflags AND O_EXCL \<noteq> 0) mode s1 = Some (e, r, s2)"
        "vnode_decref vops dir s2 = Some s'" "\<not> early"
        using assms(2) True l by (auto simp: Option.bind_eq_Some_conv dest!: VOP_SomeD)
      then show ?thesis using give_back_inner [OF h [unfolded e1] creat [OF c(1,2)] c(3)] by simp
    qed (use assms(2) True l h in \<open>auto\<close>)
  qed
  then show "hands e r s s'" "early \<Longrightarrow> e \<noteq> 0" by blast+
qed

lemma open_finish:
  assumes "hands 0 vn s s1"
    "do { (v, op) \<leftarrow> VOP vops vn s1;
          (result, s) \<leftarrow> vop_eachopen op v openflags s1;
          if result \<noteq> 0 then do { s \<leftarrow> vnode_decref vops vn s; Some (result, None, s) }
          else if openflags AND O_TRUNC \<noteq> 0 then
            do { (result, s) \<leftarrow> (if \<not> canwrite then Some (EINVAL, s)
                               else do { (v, op) \<leftarrow> VOP vops vn s; vop_truncate op v 0 s });
                 if result \<noteq> 0 then do { s \<leftarrow> vnode_decref vops vn s; Some (result, None, s) }
                 else Some (0, vn, s) }
          else Some (0, vn, s) } = Some (e, r, s')"
  shows "hands e r s s'"
proof -
  obtain v p e2 s2 where eo: "vop_eachopen (vops p) v openflags s1 = Some (e2, s2)"
    and rest: "(if e2 \<noteq> 0 then do { s \<leftarrow> vnode_decref vops vn s2; Some (e2, None, s) }
          else if openflags AND O_TRUNC \<noteq> 0 then
            do { (result, s) \<leftarrow> (if \<not> canwrite then Some (EINVAL, s2)
                               else do { (v, op) \<leftarrow> VOP vops vn s2; vop_truncate op v 0 s2 });
                 if result \<noteq> 0 then do { s \<leftarrow> vnode_decref vops vn s; Some (result, None, s) }
                 else Some (0, vn, s) }
          else Some (0, vn, s2)) = Some (e, r, s')"
    using assms(2) by (auto simp: Option.bind_eq_Some_conv dest!: VOP_SomeD simp del: if_split)
  note q = eachopen [OF eo]
  show ?thesis
  proof (cases "e2 \<noteq> 0 \<or> openflags AND O_TRUNC = 0")
    case True
    then show ?thesis
      using rest give_back [OF assms(1) q, of s'] hands_quiet [OF assms(1) q]
      by (auto simp: Option.bind_eq_Some_conv split: if_splits)
  next
    case False
    then obtain e3 s3 where tr: "(if \<not> canwrite then Some (EINVAL, s2)
        else do { (v, op) \<leftarrow> VOP vops vn s2; vop_truncate op v 0 s2 }) = Some (e3, s3)"
      and fin: "(if e3 \<noteq> 0 then do { s \<leftarrow> vnode_decref vops vn s3; Some (e3, None, s) } else Some (0, vn, s3)) = Some (e, r, s')"
      using rest by (auto simp: Option.bind_eq_Some_conv simp del: if_split)
    have "refs_quiet s2 s3"
      using tr by (cases canwrite) (auto simp: Option.bind_eq_Some_conv dest!: VOP_SomeD intro: truncate)
    then have q3: "refs_quiet s1 s3" by (rule refs_quiet_trans [OF q])
    show ?thesis
      using fin give_back [OF assms(1) q3, of s'] hands_quiet [OF assms(1) q3]
      by (cases "e3 = 0") (auto simp: Option.bind_eq_Some_conv)
  qed
qed

lemma vfs_open_hands:
  assumes "env_ok s" "vfs_open vops fops me path openflags mode s = Some (e, r, s')"
  shows "hands e r s s'"
proof -
  let ?how = "openflags AND O_ACCMODE"
  show ?thesis
  proof (cases "?how \<noteq> 0 \<and> ?how \<noteq> 1 \<and> ?how \<noteq> 2")
    case True
    then show ?thesis using assms(2) by (auto simp: vfs_open_def Let_def)
  next
    case False
    note run = assms(2) [unfolded vfs_open_def Let_def if_not_P [OF False], unfolded Option.bind_eq_Some_conv]
    obtain early e1 vn s1 where f: "(if openflags AND O_CREAT \<noteq> 0 then
        do { (result, dir, name, s) \<leftarrow> vfs_lookparent vops fops me path NAME_BUF s;
             if result \<noteq> 0 then Some (True, result, None, s)
             else do { (v, op) \<leftarrow> VOP vops dir s;
                       (result, vn, s) \<leftarrow> vop_creat op v name (openflags AND O_EXCL \<noteq> 0) mode s;
                       s \<leftarrow> vnode_decref vops dir s;
                       Some (False, result, vn, s) } }
      else do { (result, vn, s) \<leftarrow> vfs_lookup vops fops me path s; Some (False, result, vn, s) }) = Some (early, e1, vn, s1)"
      using run by (elim exE conjE) (auto split: prod.splits simp del: if_split)
    note h = open_find [OF assms(1) f]
    show ?thesis
    proof (cases "e1 = 0")
      case True
      then have "\<not> (early \<or> e1 \<noteq> 0)" using h(2) by blast
      then show ?thesis
        using run f open_finish [OF h(1) [unfolded True], of openflags "?how \<noteq> 0" e r s'] by (auto simp del: if_split)
    next
      case False
      then show ?thesis using run f h(1) by (auto simp del: if_split)
    qed
  qed
qed

lemma vfs_setcurdir_0:
  assumes "vfs_setcurdir vops (Some w) s = Some (0, s3)"
  shows "\<exists>s2. vnode_incref (Some w) s = Some s2 \<and> (case p_cwd s2 of None \<Rightarrow> s3 = s2\<lparr>p_cwd := Some w\<rparr>
    | Some old \<Rightarrow> vnode_decref vops (Some old) (s2\<lparr>p_cwd := Some w\<rparr>) = Some s3)"
  using assms by (auto simp: vfs_setcurdir_def Let_def Option.bind_eq_Some_conv split: if_split_asm option.splits)

text \<open>Changing the current directory: the new directory gains the reference that \<open>p_cwd\<close> holds.\<close>

lemma vfs_chdir_moves:
  assumes "env_ok s" "vfs_chdir vops fops me path s = Some (0, s')" "1 \<le> refs s u" "p_cwd s \<noteq> Some u"
  shows "refs s' u = refs s u + (if p_cwd s' = Some u then 1 else 0)"
proof -
  obtain e1 vn s1 where l: "vfs_lookup vops fops me path s = Some (e1, vn, s1)"
    using assms(2) by (auto simp: vfs_chdir_def Option.bind_eq_Some_conv)
  then have "e1 = 0" using assms(2) by (auto simp: vfs_chdir_def split: if_splits)
  then obtain w where w: "vn = Some w" "gains w s s1" "same_env s s1"
    using vfs_lookup_hands [OF assms(1) l] by (auto simp: hands_def)
  obtain s3 where set: "vfs_setcurdir vops (Some w) s1 = Some (0, s3)" and s': "vnode_decref vops (Some w) s3 = Some s'"
    using assms(2) l \<open>e1 = 0\<close> w(1) by (auto simp: vfs_chdir_def Option.bind_eq_Some_conv)
  obtain s2 where s2: "vnode_incref (Some w) s1 = Some s2" and s3: "case p_cwd s2 of None \<Rightarrow> s3 = s2\<lparr>p_cwd := Some w\<rparr>
    | Some old \<Rightarrow> vnode_decref vops (Some old) (s2\<lparr>p_cwd := Some w\<rparr>) = Some s3"
    using vfs_setcurdir_0 [OF set] by blast
  have cnt: "refs s1 u = refs s u + (if u = w then 1 else 0)" using w(2) assms(3) by (simp add: gains_def)
  have "1 \<le> refs s1 w" using w(2) by (simp add: gains_def)
  then have g2: "gains w s1 s2" "same_env s1 s2" using vnode_incref_gains [OF s2 refl] by blast+
  have r2: "refs s2 u = refs s1 u + (if u = w then 1 else 0)"
    using g2(1) cnt assms(3) unfolding gains_def by auto
  have cwd2: "p_cwd s2 = p_cwd s" using g2(2) w(3) by (simp add: same_env_def)
  let ?t = "s2\<lparr>p_cwd := Some w\<rparr>"
  have rt: "refs ?t v = refs s2 v" for v by (simp add: refs_def)
  have r3: "refs s3 u = refs s2 u \<and> p_cwd s3 = Some w"
  proof (cases "p_cwd s")
    case None
    then show ?thesis using s3 cwd2 rt by auto
  next
    case (Some old)
    then have d: "vnode_decref vops (Some old) ?t = Some s3" using s3 cwd2 by simp
    have "u \<noteq> old" "1 \<le> refs ?t u" using Some assms(3,4) rt r2 cnt by auto
    then show ?thesis
      using vnode_decref_effect(1) [OF reclaim d] vnode_decref_effect(3) [OF reclaim d, of u] rt by (simp add: same_env_def)
  qed
  then have "p_cwd s' = Some w" using vnode_decref_effect(1) [OF reclaim s'] by (simp add: same_env_def)
  then show ?thesis
    using vnode_decref_effect(2,3) [OF reclaim s', of u] r3 r2 cnt assms(3) by (cases "u = w") auto
qed

lemma sys_chdir_counts:
  assumes "env_ok s" "sys_chdir vops fops me path s = Some (0, s')"
  shows "\<exists>w s1. vfs_lookup vops fops me path s = Some (0, Some w, s1) \<and> (\<forall>u. 1 \<le> refs s u \<longrightarrow> p_cwd s \<noteq> Some u \<longrightarrow>
    refs s' u = refs s u + (if u = w then 1 else 0) + (if p_cwd s' = Some u then 1 else 0))"
proof -
  obtain e1 vn s1 where l: "vfs_lookup vops fops me path s = Some (e1, vn, s1)"
    using assms(2) by (auto simp: sys_chdir_def Option.bind_eq_Some_conv)
  then have e: "e1 = 0" and c: "vfs_chdir vops fops me path s1 = Some (0, s')"
    using assms(2) by (auto simp: sys_chdir_def Option.bind_eq_Some_conv split: if_splits)
  note h = vfs_lookup_hands [OF assms(1) l]
  obtain w where w: "gains w s s1" "same_env s s1" "vn = Some w" using h e by (auto simp: hands_def)
  have "refs s' u = refs s u + (if u = w then 1 else 0) + (if p_cwd s' = Some u then 1 else 0)"
    if "1 \<le> refs s u" "p_cwd s \<noteq> Some u" for u
  proof -
    have 1: "refs s1 u = refs s u + (if u = w then 1 else 0)" using w(1) that(1) by (simp add: gains_def)
    then have "1 \<le> refs s1 u" "p_cwd s1 \<noteq> Some u" using that w(2) by (auto simp: same_env_def)
    then show ?thesis using vfs_chdir_moves [OF env_ok_hands [OF assms(1) h] c, of u] 1 by simp
  qed
  then show ?thesis using l e w(3) by blast
qed

end

end
