(* ===== verification/Device.thy ===== *)
theory Device
  imports Vfs "HOL-Library.Signed_Division"
begin

text \<open>
  Device vnodes (\<open>kern/vfs/device.c\<close>), the null device (\<open>kern/vfs/devnull.c\<close>) and the
  whole-file-system functions of the emulator file system (\<open>kern/dev/lamebus/emu.c\<close>). The functions
  behind a device's \<open>d_ops\<close> pointer are the table \<open>dops\<close>; they see the device, the uio and memory.

  The last section instantiates the contract \<open>vnode_layer\<close> of \<open>Vfs\<close> with these operation tables and
  states what the pathname operations do to reference counts.
\<close>

section \<open>Device vnodes\<close>

record device_ops =
  devop_eachopen :: "device \<Rightarrow> u32 \<Rightarrow> errno"
  devop_io :: "device \<Rightarrow> uio \<Rightarrow> ucopy \<Rightarrow> errno \<times> uio \<times> ucopy"
  devop_ioctl :: "device \<Rightarrow> u32 \<Rightarrow> u32 \<Rightarrow> errno"

definition vn_device :: "nat \<Rightarrow> fstate \<Rightarrow> device option" where
  "vn_device v s = do { x \<leftarrow> vnodes s v; d \<leftarrow> vn_data x; devices s d }"

definition dev_eachopen :: "(nat \<Rightarrow> device_ops) \<Rightarrow> nat \<Rightarrow> u32 \<Rightarrow> fstate \<Rightarrow> (errno \<times> fstate) option" where
  "dev_eachopen dops v flags s =
     do { d \<leftarrow> vn_device v s;
          if flags AND (O_CREAT OR O_TRUNC OR O_EXCL OR O_APPEND) \<noteq> 0 then Some (EINVAL, s)
          else Some (devop_eachopen (dops (d_ops d)) d flags, s) }"

definition dev_reclaim :: "nat \<Rightarrow> fstate \<Rightarrow> (errno \<times> fstate) option" where
  "dev_reclaim v s = Some (0, s)"

text \<open>\<open>pos\<close> is signed; its remainder and quotient round towards zero, and a block size of 0 traps.\<close>

definition dev_tryseek :: "device \<Rightarrow> u64 \<Rightarrow> errno option" where
  "dev_tryseek d pos =
     (if d_blocks d > 0 then
        do { kassert (d_blocksize d \<noteq> 0);
             if sint pos smod uint (d_blocksize d) \<noteq> 0 then Some EINVAL
             else if sint pos sdiv uint (d_blocksize d) \<ge> uint (d_blocks d) then Some EINVAL
             else Some 0 }
      else Some 0)"

definition dev_io :: "(nat \<Rightarrow> device_ops) \<Rightarrow> device \<Rightarrow> uio \<Rightarrow> fstate \<Rightarrow> errno \<times> uio \<times> fstate" where
  "dev_io dops d u s = (case devop_io (dops (d_ops d)) d u (fs_uc s) of (e, u, m) \<Rightarrow> (e, u, s\<lparr>fs_uc := m\<rparr>))"

definition dev_read :: "(nat \<Rightarrow> device_ops) \<Rightarrow> nat \<Rightarrow> uio \<Rightarrow> fstate \<Rightarrow> (errno \<times> uio \<times> fstate) option" where
  "dev_read dops v u s =
     do { d \<leftarrow> vn_device v s;
          result \<leftarrow> dev_tryseek d (uio_offset u);
          if result \<noteq> 0 then Some (result, u, s)
          else do { kassert (uio_rw u = UIO_READ); Some (dev_io dops d u s) } }"

definition dev_write :: "(nat \<Rightarrow> device_ops) \<Rightarrow> nat \<Rightarrow> uio \<Rightarrow> fstate \<Rightarrow> (errno \<times> uio \<times> fstate) option" where
  "dev_write dops v u s =
     do { d \<leftarrow> vn_device v s;
          result \<leftarrow> dev_tryseek d (uio_offset u);
          if result \<noteq> 0 then Some (result, u, s)
          else do { kassert (uio_rw u = UIO_WRITE); Some (dev_io dops d u s) } }"

definition dev_ioctl :: "(nat \<Rightarrow> device_ops) \<Rightarrow> nat \<Rightarrow> u32 \<Rightarrow> u32 \<Rightarrow> fstate \<Rightarrow> (errno \<times> fstate) option" where
  "dev_ioctl dops v opr data s = do { d \<leftarrow> vn_device v s; Some (devop_ioctl (dops (d_ops d)) d opr data, s) }"

abbreviation S_IFCHR :: u32 where "S_IFCHR \<equiv> 0x6000"
abbreviation S_IFBLK :: u32 where "S_IFBLK \<equiv> 0x7000"

definition dev_gettype :: "nat \<Rightarrow> fstate \<Rightarrow> (errno \<times> u32) option" where
  "dev_gettype v s = do { d \<leftarrow> vn_device v s; if d_blocks d > 0 then Some (0, S_IFBLK) else Some (0, S_IFCHR) }"

text \<open>\<open>VOP_GETTYPE\<close> on a device vnode leads back to \<open>dev_gettype\<close>.\<close>

definition dev_stat :: "nat \<Rightarrow> fstate \<Rightarrow> (errno \<times> kstat \<times> fstate) option" where
  "dev_stat v s =
     do { d \<leftarrow> vn_device v s;
          let st = \<lparr>st_size = 0, st_mode = 0, st_nlink = 0, st_blocks = 0, st_dev = 0, st_rdev = 0, st_blksize = 0\<rparr>;
          let st = (if d_blocks d > 0 then st\<lparr>st_size := ucast (d_blocks d * d_blocksize d), st_blksize := d_blocksize d\<rparr>
                    else st\<lparr>st_size := 0\<rparr>);
          vnode_check (Some v) s;
          (result, mode) \<leftarrow> dev_gettype v s;
          if result \<noteq> 0 then Some (result, st\<lparr>st_mode := mode\<rparr>, s)
          else Some (0, st\<lparr>st_mode := mode OR 0x180, st_nlink := 1, st_blocks := d_blocks d, st_dev := 0,
                           st_rdev := d_devnumber d\<rparr>, s) }"

definition dev_isseekable :: "nat \<Rightarrow> fstate \<Rightarrow> bool option" where
  "dev_isseekable v s = do { d \<leftarrow> vn_device v s; if d_blocks d = 0 then Some False else Some True }"

definition null_fsync :: "nat \<Rightarrow> fstate \<Rightarrow> (errno \<times> fstate) option" where
  "null_fsync v s = Some (0, s)"

definition dev_mmap :: "nat \<Rightarrow> fstate \<Rightarrow> (errno \<times> fstate) option" where
  "dev_mmap v s = Some (ENOSYS, s)"

definition dev_truncate :: "nat \<Rightarrow> u64 \<Rightarrow> fstate \<Rightarrow> (errno \<times> fstate) option" where
  "dev_truncate v len s =
     do { d \<leftarrow> vn_device v s;
          if d_blocks d > 0 \<and> ucast (d_blocks d * d_blocksize d) = len then Some (0, s) else Some (EINVAL, s) }"

definition dev_namefile :: "nat \<Rightarrow> uio \<Rightarrow> fstate \<Rightarrow> (errno \<times> uio \<times> fstate) option" where
  "dev_namefile v u s = Some (0, u, s)"

definition dev_lookup :: "nat \<Rightarrow> nat \<Rightarrow> fstate \<Rightarrow> (errno \<times> nat option \<times> fstate) option" where
  "dev_lookup dir pathname s =
     do { n \<leftarrow> strlen (mem_of s) pathname;
          if n > 0 then Some (ENOENT, None, s)
          else do { s \<leftarrow> vnode_incref (Some dir) s; Some (0, Some dir, s) } }"

definition dev_vnode_ops :: "(nat \<Rightarrow> device_ops) \<Rightarrow> vnode_ops" where
  "dev_vnode_ops dops =
     \<lparr>vop_eachopen = dev_eachopen dops, vop_reclaim = dev_reclaim, vop_read = dev_read dops,
      vop_readlink = vopfail_uio_inval, vop_getdirentry = vopfail_uio_notdir, vop_write = dev_write dops,
      vop_ioctl = dev_ioctl dops, vop_stat = dev_stat, vop_gettype = dev_gettype, vop_isseekable = dev_isseekable,
      vop_fsync = null_fsync, vop_mmap = dev_mmap, vop_truncate = dev_truncate, vop_namefile = dev_namefile,
      vop_creat = vopfail_creat_notdir, vop_symlink = vopfail_symlink_notdir, vop_mkdir = vopfail_mkdir_notdir,
      vop_link = vopfail_link_notdir, vop_remove = vopfail_string_notdir, vop_rmdir = vopfail_string_notdir,
      vop_rename = vopfail_rename_notdir, vop_lookup = dev_lookup, vop_lookparent = vopfail_lookparent_notdir\<rparr>"

text \<open>\<open>ops\<close> is the address of \<open>dev_vnode_ops\<close>.\<close>

definition dev_create_vnode :: "nat \<Rightarrow> nat option \<Rightarrow> nat option \<Rightarrow> fstate \<Rightarrow> (nat option \<times> fstate) option" where
  "dev_create_vnode ops dev addr s =
     (case addr of None \<Rightarrow> Some (None, s)
      | Some v \<Rightarrow> do { (result, s) \<leftarrow> vnode_init (Some v) (Some ops) None dev s;
                      kassert (result = 0);
                      Some (Some v, s) })"

definition dev_uncreate_vnode :: "nat \<Rightarrow> nat option \<Rightarrow> fstate \<Rightarrow> fstate option" where
  "dev_uncreate_vnode ops vn s =
     do { v \<leftarrow> vn;
          x \<leftarrow> vnodes s v;
          kassert (vn_ops x = Some ops);
          s \<leftarrow> vnode_cleanup vn s;
          Some (s\<lparr>vnodes := (vnodes s)(v := None)\<rparr>) }"

section \<open>The null device\<close>

definition nullopen :: "device \<Rightarrow> u32 \<Rightarrow> errno" where
  "nullopen d flags = 0"

definition nullio :: "device \<Rightarrow> uio \<Rightarrow> ucopy \<Rightarrow> errno \<times> uio \<times> ucopy" where
  "nullio d u m = (if uio_rw u = UIO_WRITE then (0, u\<lparr>uio_resid := 0\<rparr>, m) else (0, u, m))"

definition nullioctl :: "device \<Rightarrow> u32 \<Rightarrow> u32 \<Rightarrow> errno" where
  "nullioctl d opr data = EINVAL"

definition null_devops :: device_ops where
  "null_devops = \<lparr>devop_eachopen = nullopen, devop_io = nullio, devop_ioctl = nullioctl\<rparr>"

section \<open>The emulator file system's operations\<close>

abbreviation EBUSY :: errno where "EBUSY \<equiv> 27"

definition emufs_sync :: "nat \<Rightarrow> fstate \<Rightarrow> (errno \<times> fstate) option" where
  "emufs_sync f s = Some (0, s)"

definition emufs_getvolname :: "nat \<Rightarrow> fstate \<Rightarrow> nat option" where
  "emufs_getvolname f s = None"

definition emufs_getroot :: "nat \<Rightarrow> fstate \<Rightarrow> (errno \<times> nat option \<times> fstate) option" where
  "emufs_getroot f s =
     do { kassert (ef_root s f \<noteq> None); s \<leftarrow> vnode_incref (ef_root s f) s; Some (0, ef_root s f, s) }"

definition emufs_unmount :: "nat \<Rightarrow> fstate \<Rightarrow> (errno \<times> fstate) option" where
  "emufs_unmount f s = Some (EBUSY, s)"

definition emufs_fsops :: fs_ops where
  "emufs_fsops = \<lparr>fsop_sync = emufs_sync, fsop_getvolname = emufs_getvolname, fsop_getroot = emufs_getroot,
     fsop_unmount = emufs_unmount\<rparr>"

section \<open>Devices and the emulator file system meet the contract\<close>

lemma dev_lookup_hands:
  "1 \<le> refs s v \<Longrightarrow> dev_lookup v path s = Some (e, r, s') \<Longrightarrow> hands e r s s'"
  using hands_incref [of v s s'] by (auto simp: dev_lookup_def Option.bind_eq_Some_conv split: if_splits)

lemma emufs_getroot_hands:
  assumes "env_ok s" "emufs_getroot f s = Some (e, r, s')"
  shows "hands e r s s'"
proof -
  obtain w where w: "ef_root s f = Some w" "vnode_incref (Some w) s = Some s'" "e = 0" "r = ef_root s' f"
    using assms(2) by (cases "ef_root s f") (auto simp: emufs_getroot_def Option.bind_eq_Some_conv)
  then have h: "hands 0 (Some w) s s'" using hands_incref assms(1) by (simp add: env_ok_def)
  then have "ef_root s' f = Some w" using w(1) by (simp add: hands_def same_env_def)
  then show ?thesis using h w by simp
qed

lemma dev_quiet:
  "dev_eachopen dops v flags s = Some (e, s') \<Longrightarrow> refs_quiet s s'"
  "dev_truncate v len s = Some (e, s') \<Longrightarrow> refs_quiet s s'"
  by (auto simp: dev_eachopen_def dev_truncate_def Option.bind_eq_Some_conv split: if_splits)

lemmas vopfail_defs = vopfail_uio_inval_def vopfail_creat_notdir_def vopfail_symlink_notdir_def
  vopfail_mkdir_notdir_def vopfail_link_notdir_def vopfail_string_notdir_def vopfail_rename_notdir_def
  vopfail_lookparent_notdir_def

lemma dir_layer: "vnode_layer (\<lambda>_. (dev_vnode_ops dops)\<lparr>vop_gettype := g\<rparr>) (\<lambda>_. emufs_fsops)"
  by unfold_locales
    (auto simp: dev_vnode_ops_def emufs_fsops_def reclaim_ok_def dev_reclaim_def vopfail_defs
      dest: dev_lookup_hands emufs_getroot_hands dev_quiet)

lemma dev_layer: "vnode_layer (\<lambda>_. dev_vnode_ops dops) (\<lambda>_. emufs_fsops)"
  using dir_layer [where dops = dops and g = dev_gettype] by (simp add: dev_vnode_ops_def)

interpretation nulldev: vnode_layer "\<lambda>_. dev_vnode_ops (\<lambda>_. null_devops)" "\<lambda>_. emufs_fsops"
  by (rule dev_layer)

section \<open>What pathname operations do to reference counts\<close>

text \<open>
  An example state: the device vnode 7 under the name \<open>null\<close>, which is also the boot file system's
  root; the paths \<open>null:\<close> and \<open>/\<close> are at 100 and 120, a path without a device at 130.
\<close>

declare find_sep.simps [code] skip_slash.simps [code] strlen_loop.simps [code] strcmp_loop.simps [code]

definition ex_vfs :: fstate where
  "ex_vfs = \<lparr>vnodes = [7 \<mapsto> \<lparr>vn_refcount = 2, vn_fs = None, vn_data = Some 3, vn_ops = Some 0\<rparr>],
     files = Map.empty, ftables = Map.empty, kproc_ft = 0,
     fs_uc = \<lparr>uc_mem = put_bytes 100 [110, 117, 108, 108, 58, 0] (put_bytes 120 [47, 0] (put_bytes 130 [97, 0]
       (put_bytes 200 [110, 117, 108, 108, 0] (\<lambda>_. 0)))), tm_badfaultfunc = False\<rparr>,
     fs_console = [], fs_input = [], p_cwd = None, bootfs_vnode = Some 7, vfs_biglock = None, vfs_biglock_depth = 0,
     knowndevs = [\<lparr>kd_name = 200, kd_rawname = None, kd_device = Some 3, kd_vnode = Some 7, kd_fs = None\<rparr>],
     devices = [3 \<mapsto> \<lparr>d_ops = 0, d_blocks = 0, d_blocksize = 1, d_devnumber = 1\<rparr>], ef_root = Map.empty\<rparr>"

abbreviation "ex_vops \<equiv> \<lambda>_::nat. dev_vnode_ops (\<lambda>_. null_devops)"
abbreviation "ex_fops \<equiv> \<lambda>_::nat. emufs_fsops"

lemma ex_vfs_ok: "env_ok ex_vfs"
  by (simp add: ex_vfs_def env_ok_def refs_def)

text \<open>
  C17. Opening a path is balanced for every file system that keeps the contract: on success exactly
  the vnode handed back has one more reference than before the call; on every error path (bad access
  mode, failed lookup, failed creation, refused open, failed truncation) no vnode that was in use
  before the call has gained or lost one. The big lock and its depth and the current directory are as
  before.\<close>

theorem vfs_open_balanced:
  assumes "vnode_layer vops fops" "env_ok s" "vfs_open vops fops me path openflags mode s = Some (e, r, s')"
  shows "(if e = 0 then \<exists>w. r = Some w \<and> (\<forall>u. 1 \<le> refs s u \<longrightarrow> refs s' u = refs s u + (if u = w then 1 else 0))
          else \<forall>u. 1 \<le> refs s u \<longrightarrow> refs s' u = refs s u) \<and>
    vfs_biglock s' = vfs_biglock s \<and> vfs_biglock_depth s' = vfs_biglock_depth s \<and> p_cwd s' = p_cwd s"
  using vnode_layer.vfs_open_hands [OF assms]
  by (auto simp: hands_def gains_def keeps_def same_env_def)

lemma ex_open:
  "map_option (\<lambda>(e, r, s). (e, r)) (vfs_open ex_vops ex_fops 1 100 1 0 ex_vfs) = Some (0, Some 7)"
  by code_simp

theorem vfs_open_balanced_witness:
  "\<exists>s'. vfs_open ex_vops ex_fops 1 100 1 0 ex_vfs = Some (0, Some 7, s') \<and> refs ex_vfs 7 = 2 \<and> refs s' 7 = 3 \<and> vfs_biglock s' = None"
proof -
  obtain s' where s': "vfs_open ex_vops ex_fops 1 100 1 0 ex_vfs = Some (0, Some 7, s')"
    using ex_open by (auto simp: map_option_eq_Some)
  show ?thesis
    using vfs_open_balanced [OF dev_layer ex_vfs_ok s'] s' by (simp add: ex_vfs_def refs_def)
qed

text \<open>
  C32. The other pathname operations hold a reference on the directories they work in only while
  they run: whatever \<open>remove\<close>, \<open>rmdir\<close>, \<open>mkdir\<close>, \<open>symlink\<close>, \<open>rename\<close> or \<open>link\<close> returns, no vnode that
  was in use has gained or lost a reference, and the big lock and the current directory are as
  before.\<close>

theorem vfs_path_ops_balanced:
  assumes "vnode_layer vops fops" "env_ok s"
    "vfs_remove vops fops me path s = Some (e, s') \<or> vfs_rmdir vops fops me path s = Some (e, s') \<or>
     vfs_mkdir vops fops me path mode s = Some (e, s') \<or> vfs_symlink vops fops me contents path s = Some (e, s') \<or>
     vfs_rename vops fops me path path2 s = Some (e, s') \<or> vfs_link vops fops me path path2 s = Some (e, s')"
  shows "(\<forall>u. 1 \<le> refs s u \<longrightarrow> refs s' u = refs s u) \<and>
    vfs_biglock s' = vfs_biglock s \<and> vfs_biglock_depth s' = vfs_biglock_depth s \<and> p_cwd s' = p_cwd s"
proof -
  note [intro] = vnode_layer.vfs_remove_quiet [OF assms(1,2)] vnode_layer.vfs_rmdir_quiet [OF assms(1,2)]
    vnode_layer.vfs_mkdir_quiet [OF assms(1,2)] vnode_layer.vfs_symlink_quiet [OF assms(1,2)]
    vnode_layer.vfs_rename_quiet [OF assms(1,2)] vnode_layer.vfs_link_quiet [OF assms(1,2)]
  have "refs_quiet s s'" using assms(3) by blast
  then show ?thesis by (auto simp: refs_quiet_def keeps_def same_env_def)
qed

theorem vfs_path_ops_balanced_witness:
  "\<exists>s'. vfs_remove ex_vops ex_fops 1 130 (ex_vfs\<lparr>p_cwd := Some 7\<rparr>) = Some (ENOTDIR, s') \<and> refs s' 7 = refs ex_vfs 7"
proof -
  let ?s = "ex_vfs\<lparr>p_cwd := Some 7\<rparr>"
  have "map_option fst (vfs_remove ex_vops ex_fops 1 130 ?s) = Some ENOTDIR" by code_simp
  then obtain s' where s': "vfs_remove ex_vops ex_fops 1 130 ?s = Some (ENOTDIR, s')" by (auto simp: map_option_eq_Some)
  have "env_ok ?s" by (simp add: ex_vfs_def env_ok_def refs_def)
  then show ?thesis
    using vfs_path_ops_balanced [OF dev_layer _ disjI1 [OF s']] s' by (simp add: ex_vfs_def refs_def)
qed

text \<open>
  \<open>sys_chdir\<close> leaks a reference: it looks the path up once to test it and never gives that
  vnode back. After every successful call, each vnode that was in use (other than the directory that
  was left) has gained the one reference \<open>p_cwd\<close> needs if it is the new directory, plus one more,
  held by nobody, if it is the vnode of the first lookup.\<close>

theorem sys_chdir_leaks:
  assumes "vnode_layer vops fops" "env_ok s" "sys_chdir vops fops me path s = Some (0, s')"
  shows "\<exists>w s1. vfs_lookup vops fops me path s = Some (0, Some w, s1) \<and> (\<forall>u. 1 \<le> refs s u \<longrightarrow> p_cwd s \<noteq> Some u \<longrightarrow>
    refs s' u = refs s u + (if u = w then 1 else 0) + (if p_cwd s' = Some u then 1 else 0))"
  by (rule vnode_layer.sys_chdir_counts [OF assms])

abbreviation "ex_dir \<equiv> \<lambda>_::nat. (dev_vnode_ops (\<lambda>_. null_devops))\<lparr>vop_gettype := \<lambda>_ _. Some (0, S_IFDIR)\<rparr>"

theorem sys_chdir_leaks_witness:
  "\<exists>s'. sys_chdir ex_dir ex_fops 1 120 ex_vfs = Some (0, s') \<and> p_cwd s' = Some 7 \<and> refs ex_vfs 7 = 2 \<and> refs s' 7 = 4"
proof -
  have "map_option (\<lambda>(e, s). (e, p_cwd s)) (sys_chdir ex_dir ex_fops 1 120 ex_vfs) = Some (0, Some 7)" by code_simp
  then obtain s' where s': "sys_chdir ex_dir ex_fops 1 120 ex_vfs = Some (0, s')" "p_cwd s' = Some 7"
    by (auto simp: map_option_eq_Some)
  have look: "map_option (\<lambda>(e, r, s). (e, r)) (vfs_lookup ex_dir ex_fops 1 120 ex_vfs) = Some (0, Some 7)" by code_simp
  have "1 \<le> refs ex_vfs 7" "p_cwd ex_vfs \<noteq> Some 7" "refs ex_vfs 7 = 2" by (simp_all add: ex_vfs_def refs_def)
  then have "refs s' 7 = 4"
    using sys_chdir_leaks [OF dir_layer ex_vfs_ok s'(1)] s'(2) look by (auto simp: map_option_eq_Some)
  then show ?thesis using s' \<open>refs ex_vfs 7 = 2\<close> by blast
qed

section \<open>Positions on a device\<close>

lemma smod_zero: "(a :: int) smod b = 0 \<longleftrightarrow> b dvd a"
proof -
  have "a smod b = sgn a * (\<bar>a\<bar> mod \<bar>b\<bar>)" by (simp add: signed_modulo_int_def)
  moreover have "\<bar>a\<bar> mod \<bar>b\<bar> = 0 \<longleftrightarrow> b dvd a" by (simp add: mod_eq_0_iff_dvd)
  ultimately show ?thesis by (auto simp: sgn_if)
qed

lemma sdiv_multiple: "0 < b \<Longrightarrow> (b * k :: int) sdiv b = k"
  by (auto simp: signed_divide_int_def sgn_mult abs_mult sgn_mult_abs)

text \<open>
  C35. The test in front of every read and write of a block device accepts a position exactly when it is
  a multiple of the block size and below the size of the device, computed without overflow. It has no
  lower bound: a negative multiple of the block size is passed on to the driver.\<close>

theorem dev_tryseek_bounds:
  assumes "d_blocks d > 0" "d_blocksize d \<noteq> 0"
  shows "dev_tryseek d pos =
    Some (if uint (d_blocksize d) dvd sint pos \<and> sint pos < uint (d_blocks d) * uint (d_blocksize d) then 0 else EINVAL)"
proof -
  have b: "0 < uint (d_blocksize d)" using assms(2) by (simp add: word_neq_0_conv word_less_def)
  have "sint pos sdiv uint (d_blocksize d) \<ge> uint (d_blocks d) \<longleftrightarrow> \<not> sint pos < uint (d_blocks d) * uint (d_blocksize d)"
    if "uint (d_blocksize d) dvd sint pos"
  proof -
    obtain k where k: "sint pos = uint (d_blocksize d) * k" using \<open>uint (d_blocksize d) dvd sint pos\<close> by (elim dvdE)
    show ?thesis unfolding k sdiv_multiple [OF b] using b by (simp add: mult.commute [of "uint (d_blocks d)"] not_less)
  qed
  then show ?thesis using assms by (auto simp: dev_tryseek_def smod_zero)
qed

theorem dev_tryseek_bounds_witness:
  "dev_tryseek \<lparr>d_ops = 0, d_blocks = 10, d_blocksize = 512, d_devnumber = 1\<rparr> 4608 = Some 0 \<and>
   dev_tryseek \<lparr>d_ops = 0, d_blocks = 10, d_blocksize = 512, d_devnumber = 1\<rparr> 5120 = Some EINVAL \<and>
   dev_tryseek \<lparr>d_ops = 0, d_blocks = 10, d_blocksize = 512, d_devnumber = 1\<rparr> (- 512) = Some 0"
  using dev_tryseek_bounds [of "\<lparr>d_ops = 0, d_blocks = 10, d_blocksize = 512, d_devnumber = 1\<rparr>"] by simp

end
