(* ===== verification/File_Syscalls.thy ===== *)
theory File_Syscalls
  imports File_Table_Inv Device Endian
begin

text \<open>
  The file system calls: \<open>kern/syscall/open.c\<close>, \<open>close.c\<close>, \<open>read.c\<close>, \<open>write.c\<close>, \<open>lseek.c\<close>, \<open>dup2.c\<close>.
  \<open>t\<close> is the calling process's file table (\<open>curproc->proc_ft\<close>), \<open>me\<close> the calling thread, \<open>ok\<close> says which
  user addresses can be accessed. A user pointer is a 32-bit word, NULL is 0. Allocation results are
  arguments, as is \<open>junk\<close>, the value of the uninitialised local \<open>v\<close> of \<open>sys_open\<close>. C \<open>int\<close> results are
  integers, negated error numbers included.

  The step relation \<open>file_step\<close> has the calls of all processes; every state it reaches keeps the
  invariant of \<open>File_Table_Inv\<close>.
\<close>

section \<open>The calls\<close>

abbreviation PATH_MAX :: u32 where "PATH_MAX \<equiv> 1024"

definition sys_open ::
  "(nat \<Rightarrow> vnode_ops) \<Rightarrow> (nat \<Rightarrow> fs_ops) \<Rightarrow> nat \<Rightarrow> nat \<Rightarrow> (nat \<Rightarrow> bool) \<Rightarrow> u32 \<Rightarrow> u32 \<Rightarrow> nat option \<Rightarrow> nat option \<Rightarrow>
   nat option \<Rightarrow> nat option \<Rightarrow> bool \<Rightarrow> fstate \<Rightarrow> (int \<times> fstate) option" where
  "sys_open vops fops me t ok filename flags buf junk addr dup ok_lock s =
     (if filename = 0 then Some (- EFAULT, s)
      else (case buf of None \<Rightarrow> Some (- EIO, s)
      | Some my_buf \<Rightarrow>
        (case copyin ok filename my_buf PATH_MAX (fs_uc s) of (result, u) \<Rightarrow>
         let s = s\<lparr>fs_uc := u\<rparr> in
         if result \<noteq> 0 then Some (- result, s)
         else do {
           (result, v, s) \<leftarrow> vfs_open vops fops me my_buf flags 0 s;
           if result \<noteq> 0 then do { s \<leftarrow> vnode_cleanup junk s; Some (- result, s) }
           else if v = None then Some (- ENODEV, s)
           else do {
             (fp, s) \<leftarrow> file_create (Some my_buf) addr dup ok_lock s;
             case fp of None \<Rightarrow> do { s \<leftarrow> vnode_cleanup v s; Some (- ENOSPC, s) }
             | Some f \<Rightarrow>
               do {
                 s \<leftarrow> upd_file f (file_vnode_update (\<lambda>_. v)) s;
                 (result, s) \<leftarrow> file_table_add vops me t (Some f) s;
                 if result < int MIN_FD then do { (_, s) \<leftarrow> file_destroy vops me (Some f) s; Some (- ENFILE, s) }
                 else Some (result, s)
               }
           }
         })))"

definition sys_close :: "(nat \<Rightarrow> vnode_ops) \<Rightarrow> nat \<Rightarrow> nat \<Rightarrow> int \<Rightarrow> fstate \<Rightarrow> (int \<times> fstate) option" where
  "sys_close vops me t fd s =
     (if fd < int MIN_FD \<or> fd \<ge> int OPEN_MAX then Some (- EBADF, s)
      else do {
        (f, s) \<leftarrow> file_table_lookup me (Some t) fd s;
        if f = None then Some (- EBADF, s)
        else do {
          s \<leftarrow> table_acquire me t s;
          s \<leftarrow> arr_set t fd None s;
          s \<leftarrow> table_release me t s;
          (result, s) \<leftarrow> file_destroy vops me f s;
          Some (- result, s)
        }
      })"

text \<open>The console loop of \<open>sys_read\<close>: \<open>Inl\<close> is the early return. \<open>getch\<close> waits while there is no input.\<close>

fun getch :: "fstate \<Rightarrow> (int \<times> fstate) option" where
  "getch s = (case fs_input s of [] \<Rightarrow> None | c # cs \<Rightarrow> Some (c, s\<lparr>fs_input := cs\<rparr>))"

definition store_byte :: "nat option \<Rightarrow> nat \<Rightarrow> u8 \<Rightarrow> fstate \<Rightarrow> fstate option" where
  "store_byte p i b s =
     do { a \<leftarrow> p; Some (s\<lparr>fs_uc := (fs_uc s)\<lparr>uc_mem := (uc_mem (fs_uc s))(a + i := b)\<rparr>\<rparr>) }"

function read_loop :: "nat option \<Rightarrow> nat \<Rightarrow> nat \<Rightarrow> fstate \<Rightarrow> ((int + nat) \<times> fstate) option" where
  "read_loop my_buf buflen i s =
     (if i < buflen then
        do { (ch, s) \<leftarrow> getch s;
             if ch < 0 then Some (Inl ch, s)
             else do { s \<leftarrow> store_byte my_buf i (word_of_int ch) s;
                       if ch = 10 \<or> ch = 13 then Some (Inr i, s) else read_loop my_buf buflen (i + 1) s } }
      else Some (Inr i, s))"
  by pat_completeness auto
termination by (relation "measure (\<lambda>(p, n, i, s). n - i)") auto

definition sys_read ::
  "(nat \<Rightarrow> vnode_ops) \<Rightarrow> nat \<Rightarrow> nat \<Rightarrow> (nat \<Rightarrow> bool) \<Rightarrow> int \<Rightarrow> u32 \<Rightarrow> u32 \<Rightarrow> nat option \<Rightarrow> fstate \<Rightarrow> (int \<times> fstate) option" where
  "sys_read vops me t ok fd buf buflen my_buf s =
     (if fd < 0 \<or> fd \<ge> int OPEN_MAX then Some (- EBADF, s)
      else if buf = 0 then Some (- EFAULT, s)
      else if fd = 0 then
        do { (r, s) \<leftarrow> read_loop my_buf (unat buflen) 0 s;
             case r of Inl ch \<Rightarrow> Some (ch, s)
             | Inr i \<Rightarrow>
                (case copyout ok (case my_buf of None \<Rightarrow> 0 | Some a \<Rightarrow> a) buf (of_nat i) (fs_uc s) of (result, u) \<Rightarrow>
                 let s = s\<lparr>fs_uc := u\<rparr> in if result \<noteq> 0 then Some (- EFAULT, s) else Some (int i, s)) }
      else if fd = 1 then Some (- EBADF, s)
      else if fd = 2 then Some (- EBADF, s)
      else do {
        (fp, s) \<leftarrow> file_table_lookup me (Some t) fd s;
        case fp of None \<Rightarrow> Some (- EBADF, s)
        | Some f \<Rightarrow>
          do {
            s \<leftarrow> file_acquire me f s;
            x \<leftarrow> files s f;
            let u = uio_kinit buf buflen (scast (seek_pos x)) UIO_READ;
            (v, op) \<leftarrow> VOP vops (file_vnode x) s;
            (result, u, s) \<leftarrow> vop_read op v u s;
            if result \<noteq> 0 then Some (- result, s)
            else do {
              s \<leftarrow> upd_file f (\<lambda>x. x\<lparr>seek_pos := seek_pos x + (buflen - uio_resid u)\<rparr>) s;
              s \<leftarrow> file_release me f s;
              Some (sint (buflen - uio_resid u), s)
            }
          }
      })"

text \<open>The \<open>putch\<close> loop; \<open>buflen\<close> is signed there.\<close>

definition put_all :: "nat \<Rightarrow> u32 \<Rightarrow> fstate \<Rightarrow> int \<times> fstate" where
  "put_all my_buf buflen s =
     (max 0 (sint buflen),
      s\<lparr>fs_console := fs_console s @ map (uc_mem (fs_uc s)) [my_buf..<my_buf + nat (sint buflen)]\<rparr>)"

definition sys_write ::
  "(nat \<Rightarrow> vnode_ops) \<Rightarrow> nat \<Rightarrow> nat \<Rightarrow> (nat \<Rightarrow> bool) \<Rightarrow> int \<Rightarrow> u32 \<Rightarrow> u32 \<Rightarrow> nat option \<Rightarrow> fstate \<Rightarrow> (int \<times> fstate) option" where
  "sys_write vops me t ok fd buf buflen kbuf s =
     (if fd < 0 \<or> fd \<ge> int OPEN_MAX then Some (- EBADF, s)
      else if buf = 0 then Some (- EFAULT, s)
      else (case kbuf of None \<Rightarrow> Some (- EIO, s)
      | Some my_buf \<Rightarrow>
        (case copyin ok buf my_buf buflen (fs_uc s) of (result, u) \<Rightarrow>
         let s = s\<lparr>fs_uc := u\<rparr> in
         if result \<noteq> 0 then Some (- result, s)
         else if fd = 0 then Some (- EBADF, s)
         else if fd = 1 then Some (put_all my_buf buflen s)
         else if fd = 2 then Some (put_all my_buf buflen s)
         else do {
           (fp, s) \<leftarrow> file_table_lookup me (Some t) fd s;
           case fp of None \<Rightarrow> Some (- EBADF, s)
           | Some f \<Rightarrow>
             do {
               s \<leftarrow> file_acquire me f s;
               x \<leftarrow> files s f;
               let u = uio_kinit (of_nat my_buf) buflen (scast (seek_pos x)) UIO_WRITE;
               (v, op) \<leftarrow> VOP vops (file_vnode x) s;
               (result, u, s) \<leftarrow> vop_write op v u s;
               s \<leftarrow> file_release me f s;
               if result \<noteq> 0 then Some (- result, s)
               else Some (sint (buflen - uio_resid u), s)
             }
         })))"

definition sys_lseek :: "(nat \<Rightarrow> vnode_ops) \<Rightarrow> nat \<Rightarrow> nat \<Rightarrow> int \<Rightarrow> u64 \<Rightarrow> u32 \<Rightarrow> fstate \<Rightarrow> (int \<times> fstate) option" where
  "sys_lseek vops me t fd offset whence s =
     (let cur_pos = join32to64 (word_of_int fd) (ucast offset) in
      if fd < 0 \<or> fd \<ge> int OPEN_MAX then Some (- EBADF, s)
      else if fd = 0 then Some (- EINVAL, s)
      else if fd = 1 then Some (- EINVAL, s)
      else if fd = 2 then Some (- EINVAL, s)
      else do {
        (fp, s) \<leftarrow> file_table_lookup me (Some t) fd s;
        case fp of None \<Rightarrow> Some (- EBADF, s)
        | Some f \<Rightarrow>
          do {
            x \<leftarrow> files s f;
            (v, op) \<leftarrow> VOP vops (file_vnode x) s;
            seekable \<leftarrow> vop_isseekable op v s;
            if \<not> seekable then Some (- ESPIPE, s)
            else do {
              (v, op) \<leftarrow> VOP vops (file_vnode x) s;
              (result, sbuf, s) \<leftarrow> vop_stat op v s;
              if result \<noteq> 0 then do { s \<leftarrow> file_release me f s; Some (- result, s) }
              else if sint whence < 0 then Some (- EINVAL, s)
              else if sint (offset + scast whence) < 0 then Some (- EINVAL, s)
              else do {
                s \<leftarrow> file_acquire me f s;
                x \<leftarrow> files s f;
                (result, new_pos, s) \<leftarrow>
                  (if whence = 0 then Some (0, cur_pos, s)
                   else if whence = 1 then Some (0, scast (seek_pos x) + cur_pos, s)
                   else if whence = 2 then
                     do { (v, op) \<leftarrow> VOP vops (file_vnode x) s;
                          (result, st, s) \<leftarrow> vop_stat op v s;
                          Some (result, cur_pos + st_size st, s) }
                   else Some (EINVAL, 0, s));
                if result \<noteq> 0 then do { s \<leftarrow> file_release me f s; Some (- result, s) }
                else do {
                  s \<leftarrow> upd_file f (seek_pos_update (\<lambda>_. ucast new_pos)) s;
                  x \<leftarrow> files s f;
                  let ret = seek_pos x;
                  s \<leftarrow> file_release me f s;
                  Some (sint ret, s)
                }
              }
            }
          }
      })"

definition sys_dup2 :: "(nat \<Rightarrow> vnode_ops) \<Rightarrow> nat \<Rightarrow> nat \<Rightarrow> int \<Rightarrow> int \<Rightarrow> fstate \<Rightarrow> (int \<times> fstate) option" where
  "sys_dup2 vops me t oldfd newfd s =
     do { (newfd, s) \<leftarrow> file_copy vops me (Some t) oldfd newfd s;
          if newfd < int MIN_FD then Some (- EBADF, s) else Some (newfd, s) }"

section \<open>They keep the tables sound\<close>

lemma lookup_idle:
  assumes "ft_idle s" "ftables s t = Some T" "int MIN_FD \<le> fd" "fd < int OPEN_MAX"
  shows "file_table_lookup me (Some t) fd s = Some (file_arr T (nat fd), s)"
proof -
  have "file_table_lock T = None" using assms(1,2) by (simp add: ft_idle_def)
  then show ?thesis
    using assms by (simp add: file_table_lookup_def table_acquire_def table_release_def upd_table_def arr_get_def
      record_idem fun_upd_idem)
qed

lemma clear_idle:
  assumes "ft_idle s" "ftables s t = Some T" "int MIN_FD \<le> fd" "fd < int OPEN_MAX"
  shows "do { s \<leftarrow> table_acquire me t s; s \<leftarrow> arr_set t fd None s; table_release me t s } =
    Some (s\<lparr>ftables := (ftables s)(t \<mapsto> T\<lparr>file_arr := (file_arr T)(nat fd := None)\<rparr>)\<rparr>)"
proof -
  have "file_table_lock T = None" using assms(1,2) by (simp add: ft_idle_def)
  then show ?thesis
    using assms by (simp add: table_acquire_def table_release_def upd_table_def arr_set_def record_order record_idem)
qed

text \<open>\<open>close\<close>: the slot is cleared, the count goes down by one, and the file goes with its last reference.\<close>

lemma sys_close_effect:
  assumes "ft_inv s" "t \<noteq> kproc_ft s" "ftables s t = Some T" "int MIN_FD \<le> fd" "fd < int OPEN_MAX" "file_arr T (nat fd) = Some f"
  shows "\<exists>s' v n j. sys_close vops me t fd s = Some (0, s') \<and> ft_inv s' \<and> vn_of s f = Some v \<and> vnodes s v = Some n \<and>
    vnodes s' v = Some (n\<lparr>vn_refcount := vn_refcount n - 1\<rparr>) \<and> entry s (kproc_ft s) j = Some f \<and>
    files s' = (if vn_refcount n = 2 then (files s)(f := None) else files s) \<and>
    (\<forall>t' i'. entry s' t' i' = (if t' = t \<and> i' = nat fd \<or> vn_refcount n = 2 \<and> t' = kproc_ft s \<and> i' = j then None else entry s t' i'))"
proof -
  have idle: "ft_idle s" using assms(1) by (simp add: ft_inv_def)
  let ?s = "s\<lparr>ftables := (ftables s)(t \<mapsto> T\<lparr>file_arr := (file_arr T)(nat fd := None)\<rparr>)\<rparr>"
  have run: "sys_close vops me t fd s = map_option (\<lambda>(r, s). (- r, s)) (file_destroy vops me (Some f) ?s)"
    using clear_idle [OF idle assms(3-5), of me] lookup_idle [OF idle assms(3-5), of me] assms(4-6)
    by (cases "table_acquire me t s") (auto simp: sys_close_def Option.bind_eq_Some_conv map_option_case split: option.split)
  show ?thesis
    using drop_slot [OF assms(1-3,6), of vops me] unfolding run by fastforce
qed

lemma sys_close_bad:
  assumes "ft_inv s" "ftables s t = Some T" "fd < int MIN_FD \<or> fd \<ge> int OPEN_MAX \<or> file_arr T (nat fd) = None"
  shows "sys_close vops me t fd s = Some (- EBADF, s)"
  using assms lookup_idle [of s t T fd me] by (auto simp: sys_close_def ft_inv_def)

lemma sys_close_inv:
  assumes "ft_inv s" "t \<noteq> kproc_ft s" "ftables s t \<noteq> None"
  shows "\<exists>r s'. sys_close vops me t fd s = Some (r, s') \<and> ft_inv s' \<and> (r = 0 \<or> r = - EBADF)"
proof -
  obtain T where T: "ftables s t = Some T" using assms(3) by blast
  show ?thesis
  proof (cases "fd < int MIN_FD \<or> fd \<ge> int OPEN_MAX \<or> file_arr T (nat fd) = None")
    case True
    then show ?thesis using sys_close_bad [OF assms(1) T] assms(1) by blast
  next
    case False
    then obtain f where "file_arr T (nat fd) = Some f" by blast
    then show ?thesis using sys_close_effect [OF assms(1,2) T, of fd f vops me] False by auto
  qed
qed

text \<open>\<open>open\<close>, in the parts of the code: what follows \<open>vfs_open\<close>, and then the whole call.\<close>

lemma kstrdup_same: "kstrdup p a s = Some (z, s') \<Longrightarrow> \<exists>m. s' = s\<lparr>fs_uc := m\<rparr>"
  by (auto simp: kstrdup_def Option.bind_eq_Some_conv split: option.splits) (metis fstate.surjective fstate.update_convs(5))+

lemma slots_uc [simp]: "slots (s\<lparr>fs_uc := m\<rparr>) = slots s" "refs (s\<lparr>fs_uc := m\<rparr>) = refs s" "entry (s\<lparr>fs_uc := m\<rparr>) = entry s"
  by (simp_all add: slots_def entry_def vn_of_def refs_def fun_eq_iff)

lemma inv_uc: "ft_inv s \<Longrightarrow> ft_inv (s\<lparr>fs_uc := m\<rparr>)"
  by (erule ft_inv_quiet) (simp_all add: same_env_def)

lemma fresh_file:
  assumes "ft_inv s" "files s f = None"
  shows "entry s t i \<noteq> Some f"
  using assms ft_coreD(3) [of s t i f] by (auto simp: ft_inv_def in_use_def)

lemma cleanup_inv:
  assumes "ft_inv s" "int (card (slots s v)) < refs s v" "vnode_cleanup (Some v) s = Some s'"
  shows "ft_inv s'"
proof -
  obtain x where x: "vnodes s v = Some x" "vn_refcount x = 1"
    and s': "s' = s\<lparr>vnodes := (vnodes s)(v \<mapsto> x\<lparr>vn_ops := None, vn_refcount := 0, vn_fs := None, vn_data := None\<rparr>)\<rparr>"
    using assms(3) by (auto simp: vnode_cleanup_def upd_vnode_def Option.bind_eq_Some_conv kassert_def split: if_splits)
  have none: "slots s v = {}"
  proof (rule ccontr)
    assume ne: "slots s v \<noteq> {}"
    then have "0 < card (slots s v)" using finite_slots assms(1) by (simp add: card_gt_0_iff ft_inv_def)
    then show False using assms(2) x by (simp add: refs_def)
  qed
  show ?thesis
  proof (rule ft_inv_frame [OF assms(1)])
    show "int (card (slots s w)) \<le> refs s' w" if "slots s w \<noteq> {}" for w
      using ft_inv_counts [OF assms(1) that] that none by (auto simp: s' refs_def)
  qed (use assms(1) in \<open>auto simp: s' ft_inv_def ft_idle_def\<close>)
qed

text \<open>The file that found no room: it is in no table, and its vnode loses the reference.\<close>

lemma destroy_floating:
  assumes "reclaim_ok vops" "ft_inv s" "opened s f v" "file_destroy vops me (Some f) s = Some (r, s')"
  shows "ft_inv s'"
proof -
  obtain x n where o: "files s f = Some x" "file_vnode x = Some v" "master_fd x = FLOATING_FILE" "vnodes s v = Some n"
    "int (card (slots s v)) < vn_refcount n" and fresh: "\<And>t i. entry s t i \<noteq> Some f"
    using assms(3) unfolding opened_def by blast
  have lk: "file_lock x = None" using assms(2) o(1) by (simp add: ft_inv_def ft_idle_def)
  have big: "int (card (slots s w)) \<le> refs s w - (if w = v then 1 else 0) \<and> 1 \<le> refs s w" if "slots s w \<noteq> {}" for w
    using ft_inv_counts [OF assms(2) that] o(4,5) by (auto simp: refs_def)
  let ?s1 = "s\<lparr>files := (files s)(f \<mapsto> x\<lparr>file_lock := Some me\<rparr>)\<rparr>"
  have acq: "file_acquire me f s = Some ?s1" using o(1) lk by (simp add: file_acquire_def upd_file_def)
  have r1: "refs ?s1 = refs s" by (simp add: refs_def fun_eq_iff)
  show ?thesis
  proof (cases "vn_refcount n = 2")
    case True
    then have s': "s' = s\<lparr>vnodes := (vnodes s)(v \<mapsto> n\<lparr>vn_refcount := 1\<rparr>), files := (files s)(f := None)\<rparr>"
      using assms(4) o acq
      by (simp add: file_destroy_def vnode_decref_def upd_vnode_def upd_file_def file_release_def)
    show ?thesis
    proof (rule ft_inv_frame [OF assms(2)])
      show "int (card (slots s w)) \<le> refs s' w" if "slots s w \<noteq> {}" for w
        using big [OF that] True o(4) by (auto simp: s' refs_def)
      show "files s' g = files s g" if "entry s t i = Some g" for t i g
        using that fresh by (auto simp: s')
    qed (use assms(2) in \<open>auto simp: s' ft_inv_def ft_idle_def split: if_splits\<close>)
  next
    case False
    then obtain s2 where d: "vnode_decref vops (Some v) ?s1 = Some s2" and rel: "file_release me f s2 = Some s'"
      using assms(4) o acq by (auto simp: file_destroy_def Option.bind_eq_Some_conv)
    note eff = vnode_decref_effect [OF assms(1) d]
    have s2: "files s2 = files ?s1" "ftables s2 = ftables s" "kproc_ft s2 = kproc_ft s"
      using eff(1) by (simp_all add: same_env_def)
    have s': "s' = s2\<lparr>files := files s\<rparr>"
      using rel s2(1) o(1) lk by (simp add: file_release_def upd_file_def record_idem fun_upd_idem)
    show ?thesis
    proof (rule ft_inv_frame [OF assms(2)])
      show "int (card (slots s w)) \<le> refs s' w" if "slots s w \<noteq> {}" for w
      proof -
        have "refs s' w = refs s2 w" by (simp add: s' refs_def)
        moreover have "0 < card (slots s w)" using that finite_slots assms(2) by (simp add: card_gt_0_iff ft_inv_def)
        ultimately show ?thesis
          using big [OF that] eff(2,3) [of w] r1 by (cases "w = v") auto
      qed
    qed (use assms(2) s2 in \<open>auto simp: s' ft_inv_def ft_idle_def\<close>)
  qed
qed

lemma open_tail_inv:
  assumes "reclaim_ok vops" "ft_inv s" "t \<noteq> kproc_ft s" "ftables s t \<noteq> None" "int (card (slots s v)) < refs s v"
    "\<And>a. addr = Some a \<Longrightarrow> files s a = None"
    "do { (fp, s) \<leftarrow> file_create (Some b) addr dup ok_lock s;
          case fp of None \<Rightarrow> do { s \<leftarrow> vnode_cleanup (Some v) s; Some (- ENOSPC, s) }
          | Some f \<Rightarrow>
            do { s \<leftarrow> upd_file f (file_vnode_update (\<lambda>_. Some v)) s;
                 (result, s) \<leftarrow> file_table_add vops me t (Some f) s;
                 if result < int MIN_FD then do { (_, s) \<leftarrow> file_destroy vops me (Some f) s; Some (- ENFILE, s) }
                 else Some (result, s) } } = Some (r, s')"
  shows "ft_inv s'" "r < 0 \<or> int MIN_FD \<le> r \<and> r < int OPEN_MAX \<and> entry s' t (nat r) = addr"
proof -
  obtain fp s1 where c: "file_create (Some b) addr dup ok_lock s = Some (fp, s1)"
    using assms(7) by (auto simp: Option.bind_eq_Some_conv)
  show "ft_inv s'" and "r < 0 \<or> int MIN_FD \<le> r \<and> r < int OPEN_MAX \<and> entry s' t (nat r) = addr"
  proof (atomize (full), cases fp)
    case None
    then obtain m where m: "s1 = s\<lparr>fs_uc := m\<rparr>"
      using c by (auto simp: file_create_def Option.bind_eq_Some_conv split: option.splits if_splits dest!: kstrdup_same)
        (metis fstate.surjective fstate.update_convs(5))
    have "vnode_cleanup (Some v) s1 = Some s'" "r = - ENOSPC"
      using assms(7) c None by (auto simp: Option.bind_eq_Some_conv)
    then show "ft_inv s' \<and> (r < 0 \<or> int MIN_FD \<le> r \<and> r < int OPEN_MAX \<and> entry s' t (nat r) = addr)"
      using cleanup_inv [OF inv_uc [OF assms(2), of m], of v s'] assms(5) m by simp
  next
    case (Some f)
    then obtain m z where f: "addr = Some f" and s1: "s1 = s\<lparr>fs_uc := m, files := (files s)(f \<mapsto>
        \<lparr>file_vnode = None, file_lock = None, seek_pos = 0, file_path = z, master_fd = FLOATING_FILE\<rparr>)\<rparr>"
      using c by (auto simp: file_create_def Option.bind_eq_Some_conv split: option.splits if_splits dest!: kstrdup_same)
    let ?x = "\<lparr>file_vnode = Some v, file_lock = None, seek_pos = 0, file_path = z, master_fd = FLOATING_FILE\<rparr> :: kfile"
    let ?s2 = "s\<lparr>fs_uc := m, files := (files s)(f \<mapsto> ?x)\<rparr>"
    have up: "upd_file f (file_vnode_update (\<lambda>_. Some v)) s1 = Some ?s2" by (simp add: upd_file_def s1)
    have fr: "entry s t i \<noteq> Some f" for t i by (rule fresh_file [OF assms(2) assms(6) [OF f]])
    have inv2: "ft_inv ?s2"
    proof (rule ft_inv_frame [OF assms(2)])
      show "int (card (slots s w)) \<le> refs ?s2 w" if "slots s w \<noteq> {}" for w
        using ft_inv_counts [OF assms(2) that] by (simp add: refs_def)
      show "files ?s2 g = files s g" if "entry s t i = Some g" for t i g using that fr by auto
    qed (use assms(2) in \<open>auto simp: ft_inv_def ft_idle_def split: if_splits\<close>)
    have ent2: "entry ?s2 = entry s" by (simp add: entry_def fun_eq_iff)
    have "(\<exists>g. entry s a b = Some g \<and> vn_of ?s2 g = Some v) \<longleftrightarrow> (\<exists>g. entry s a b = Some g \<and> vn_of s g = Some v)" for a b
      using fr [of a b] by (cases "entry s a b") (auto simp: vn_of_def)
    then have "slots ?s2 v = slots s v" unfolding slots_def ent2 by simp
    moreover obtain n where n: "vnodes s v = Some n" using assms(5) by (cases "vnodes s v") (auto simp: refs_def)
    ultimately have op: "opened ?s2 f v" using fr assms(5) by (simp add: opened_def ent2 refs_def)
    obtain r1 s3 where add: "file_table_add vops me t (Some f) ?s2 = Some (r1, s3)"
      and fin: "(if r1 < int MIN_FD then do { (_, s) \<leftarrow> file_destroy vops me (Some f) s3; Some (- ENFILE, s) }
                 else Some (r1, s3)) = Some (r, s')"
      using assms(7) c Some up by (auto simp: Option.bind_eq_Some_conv)
    note added = file_table_add_inv [OF inv2 op _ _ add]
    show "ft_inv s' \<and> (r < 0 \<or> int MIN_FD \<le> r \<and> r < int OPEN_MAX \<and> entry s' t (nat r) = addr)"
    proof (cases "r1 = - 1")
      case True
      then have "s3 = ?s2" using added(2) assms(3,4) by simp
      then obtain r2 where "file_destroy vops me (Some f) ?s2 = Some (r2, s')" "r = - ENFILE"
        using fin True by (auto simp: Option.bind_eq_Some_conv)
      then show ?thesis using destroy_floating [OF assms(1) inv2 op] by simp
    next
      case False
      then have "int MIN_FD \<le> r1 \<and> r1 < int OPEN_MAX \<and> entry s3 t (nat r1) = Some f" "ft_inv s3"
        using added assms(3,4) by simp_all
      then show ?thesis using fin f by simp
    qed
  qed
qed

lemma copyin_errno: "copyin ok p b n u = (e, u') \<Longrightarrow> e \<noteq> 0 \<Longrightarrow> e = EFAULT"
  by (auto simp: copyin_def copycheck_def Let_def split: if_splits prod.splits)

lemma sys_open_inv:
  assumes "vnode_layer vops fops" "ft_inv s" "env_ok s" "t \<noteq> kproc_ft s" "ftables s t \<noteq> None"
    "\<And>a. addr = Some a \<Longrightarrow> files s a = None"
    "sys_open vops fops me t ok filename flags buf None addr dup ok_lock s = Some (r, s')"
  shows "ft_inv s' \<and> (r < 0 \<or> int MIN_FD \<le> r \<and> r < int OPEN_MAX \<and> entry s' t (nat r) = addr)"
proof (cases "filename = 0 \<or> buf = None")
  case True
  then show ?thesis using assms(2,7) by (auto simp: sys_open_def split: if_splits)
next
  case False
  then obtain b where b: "buf = Some b" and nz: "filename \<noteq> 0" by blast
  obtain e u where cp: "copyin ok filename b PATH_MAX (fs_uc s) = (e, u)" by fastforce
  let ?s = "s\<lparr>fs_uc := u\<rparr>"
  show ?thesis
  proof (cases "e = 0")
    case False
    then show ?thesis
      using assms(7) b nz cp inv_uc [OF assms(2)] copyin_errno [OF cp] by (auto simp: sys_open_def)
  next
    case True
    obtain e1 v s1 where o: "vfs_open vops fops me b flags 0 ?s = Some (e1, v, s1)"
      using assms(7) b nz cp True by (auto simp: sys_open_def Option.bind_eq_Some_conv)
    have ok': "env_ok ?s" by (rule env_ok_quiet [OF assms(3) refs_quiet_uc])
    note h = vnode_layer.vfs_open_hands [OF assms(1) ok' o]
    have e1: "e1 = 0"
      using assms(7) b nz cp True o by (auto simp: sys_open_def vnode_cleanup_def Option.bind_eq_Some_conv split: if_splits)
    then obtain w where w: "v = Some w" "gains w ?s s1" "same_env ?s s1" using h by (auto simp: hands_def)
    have inv1: "ft_inv s1"
      by (rule ft_inv_quiet [OF inv_uc [OF assms(2)] w(3)]) (use w(2) in \<open>auto simp: gains_def\<close>)
    have fl: "files s1 = files s" "ftables s1 = ftables s" "kproc_ft s1 = kproc_ft s" using w(3) by (simp_all add: same_env_def)
    have sl: "slots s1 w = slots s w" using fl by (simp add: slots_def entry_def vn_of_def)
    have cnt: "int (card (slots s1 w)) < refs s1 w"
    proof (cases "slots s w = {}")
      case True
      then show ?thesis using w(2) sl by (simp add: gains_def)
    next
      case False
      then show ?thesis using ft_inv_counts [OF assms(2) False] w(2) sl by (auto simp: gains_def)
    qed
    have fr: "files s1 a = None" if "addr = Some a" for a using assms(6) [OF that] fl by simp
    have reclaim: "reclaim_ok vops" using assms(1) by (simp add: vnode_layer_def)
    have run: "do { (fp, s) \<leftarrow> file_create (Some b) addr dup ok_lock s1;
          case fp of None \<Rightarrow> do { s \<leftarrow> vnode_cleanup (Some w) s; Some (- ENOSPC, s) }
          | Some f \<Rightarrow>
            do { s \<leftarrow> upd_file f (file_vnode_update (\<lambda>_. Some w)) s;
                 (result, s) \<leftarrow> file_table_add vops me t (Some f) s;
                 if result < int MIN_FD then do { (_, s) \<leftarrow> file_destroy vops me (Some f) s; Some (- ENFILE, s) }
                 else Some (result, s) } } = Some (r, s')"
      using assms(7) b nz cp True o e1 w(1) by (simp add: sys_open_def)
    show ?thesis
      using open_tail_inv [OF reclaim inv1 _ _ cnt fr run] assms(4,5) fl by simp
  qed
qed

text \<open>
  An example: the master table at 50 and a process's table at 60 both hold the file 80 in slot 3; it is
  open on the vnode 7 of a block device with ten blocks.
\<close>

definition ex_file :: kfile where
  "ex_file = \<lparr>file_vnode = Some 7, file_lock = None, seek_pos = 5, file_path = Some 300, master_fd = 3\<rparr>"

definition ex_table :: "nat option \<Rightarrow> file_table" where
  "ex_table p = \<lparr>file_arr = (\<lambda>_. None)(3 := p), file_table_lock = None, num_files = 0\<rparr>"

definition ex_files :: fstate where
  "ex_files = ex_vfs\<lparr>files := [80 \<mapsto> ex_file], ftables := [50 \<mapsto> ex_table (Some 80), 60 \<mapsto> ex_table (Some 80)], kproc_ft := 50,
     devices := [3 \<mapsto> \<lparr>d_ops = 0, d_blocks = 10, d_blocksize = 512, d_devnumber = 1\<rparr>]\<rparr>"

lemma ex_sel: "files ex_files = [80 \<mapsto> ex_file]" "kproc_ft ex_files = 50"
  "ftables ex_files = [50 \<mapsto> ex_table (Some 80), 60 \<mapsto> ex_table (Some 80)]"
  "vnodes ex_files = [7 \<mapsto> \<lparr>vn_refcount = 2, vn_fs = None, vn_data = Some 3, vn_ops = Some 0\<rparr>]"
  "devices ex_files = [3 \<mapsto> \<lparr>d_ops = 0, d_blocks = 10, d_blocksize = 512, d_devnumber = 1\<rparr>]"
  by (simp_all add: ex_files_def ex_vfs_def)

lemma ex_entry: "entry ex_files t i = (if (t = 50 \<or> t = 60) \<and> i = 3 then Some 80 else None)"
  by (simp add: entry_def ex_sel ex_table_def)

lemma ex_slots: "slots ex_files v = (if v = 7 then {(50, 3), (60, 3)} else {})"
  by (auto simp: slots_def ex_entry vn_of_def ex_sel ex_file_def split: if_splits)

lemma ex_files_inv: "ft_inv ex_files"
proof -
  have "{(t, i). entry ex_files t i \<noteq> None} \<subseteq> {(50, 3), (60, 3)}" by (auto simp: ex_entry split: if_splits)
  then have "finite {(t, i). entry ex_files t i \<noteq> None}" by (rule finite_subset) simp
  then show ?thesis
    unfolding ft_inv_def ft_core_def ft_idle_def in_use_def
    by (auto simp: ex_entry ex_slots ex_sel ex_file_def ex_table_def split: if_splits)
qed

section \<open>All processes together\<close>

text \<open>
  The calls of any number of processes in any order: opening, closing, the table copy that \<open>fork\<close>
  makes, the creation of a table, and vnode activity of the rest of the kernel, which may take
  references and drop the ones it took. \<open>junk\<close> is \<open>None\<close> in the open step: the uninitialised pointer
  does not happen to be a vnode.
\<close>

inductive file_step :: "(nat \<Rightarrow> vnode_ops) \<Rightarrow> (nat \<Rightarrow> fs_ops) \<Rightarrow> fstate \<Rightarrow> fstate \<Rightarrow> bool" for vops fops where
  step_open: "env_ok s \<Longrightarrow> t \<noteq> kproc_ft s \<Longrightarrow> ftables s t \<noteq> None \<Longrightarrow> \<forall>a. addr = Some a \<longrightarrow> files s a = None \<Longrightarrow>
    sys_open vops fops me t ok filename flags buf None addr dup ok_lock s = Some (r, s') \<Longrightarrow> file_step vops fops s s'"
| step_close: "t \<noteq> kproc_ft s \<Longrightarrow> ftables s t \<noteq> None \<Longrightarrow> sys_close vops me t fd s = Some (r, s') \<Longrightarrow> file_step vops fops s s'"
| step_fork: "ftables s t \<noteq> None \<Longrightarrow> ftables s tmp = None \<Longrightarrow>
    file_table_copy me (Some t) (Some tmp) True s = Some (r, s') \<Longrightarrow> file_step vops fops s s'"
| step_create: "ftables s tmp = None \<Longrightarrow> file_table_create (Some tmp) True s = Some (r, s') \<Longrightarrow> file_step vops fops s s'"
| step_other: "same_env s s' \<Longrightarrow> \<forall>u. 1 \<le> refs s u \<longrightarrow> refs s u \<le> refs s' u \<Longrightarrow> file_step vops fops s s'"

text \<open>After boot: the master table, empty.\<close>

definition file_start :: "fstate \<Rightarrow> bool" where
  "file_start s \<longleftrightarrow> files s = Map.empty \<and>
     ftables s = [kproc_ft s \<mapsto> \<lparr>file_arr = \<lambda>_. None, file_table_lock = None, num_files = 0\<rparr>]"

lemma file_start_inv: "file_start s \<Longrightarrow> ft_inv s"
proof -
  assume s: "file_start s"
  then have "entry s t i = None" for t i by (simp add: file_start_def entry_def)
  then show ?thesis using s by (auto simp: ft_inv_def ft_core_def ft_idle_def slots_def file_start_def split: if_splits)
qed

lemma file_step_inv:
  assumes "vnode_layer vops fops" "file_step vops fops s s'" "ft_inv s"
  shows "ft_inv s'"
  using assms(2)
proof cases
  case (step_open t addr me ok filename flags buf dup ok_lock r)
  then show ?thesis using sys_open_inv [OF assms(1,3) step_open(1-3) _ step_open(5)] by blast
next
  case (step_close t me fd r)
  then show ?thesis using sys_close_inv [OF assms(3) step_close(1,2), of vops me fd] by auto
next
  case (step_fork t tmp me r)
  then obtain T where "ftables s t = Some T" by blast
  then show ?thesis using file_table_copy_eq [OF assms(3) _ step_fork(2), of t T me] step_fork(3) by auto
next
  case (step_create tmp r)
  then show ?thesis using file_table_create_inv [OF assms(3)] by blast
next
  case step_other
  then show ?thesis using ft_inv_quiet [OF assms(3)] by blast
qed

interpretation null_files: step_system file_start "file_step (\<lambda>_. dev_vnode_ops (\<lambda>_. null_devops)) (\<lambda>_. emufs_fsops)" ft_inv
  by unfold_locales (auto intro: file_start_inv file_step_inv [OF dev_layer])

lemma file_reach_inv:
  assumes "vnode_layer vops fops" "(file_step vops fops)\<^sup>*\<^sup>* s s'" "file_start s"
  shows "ft_inv s'"
proof -
  have "step_system file_start (file_step vops fops) ft_inv"
    by unfold_locales (auto intro: file_start_inv file_step_inv [OF assms(1)])
  then show ?thesis using assms(2,3) by (rule step_system.reach_inv)
qed





text \<open>
  C31. The table a forked child gets has the parent's entry in every slot, and every vnode's count
  grows by the number of the parent's slots that lead to it; files and all other tables are
  unchanged and the invariant is kept.\<close>

theorem file_table_copy_correct:
  assumes "ft_inv s" "ftables s t = Some T" "ftables s tmp = None"
  shows "\<exists>s'. file_table_copy me (Some t) (Some tmp) True s = Some (Some tmp, s') \<and> ft_inv s' \<and> files s' = files s \<and>
    kproc_ft s' = kproc_ft s \<and> ftables s' = (ftables s)(tmp \<mapsto> T) \<and>
    (\<forall>v. vnodes s' v = map_option (\<lambda>n. n\<lparr>vn_refcount := vn_refcount n +
       int (length (filter (\<lambda>i. Option.bind (file_arr T i) (vn_of s) = Some v) [3..<128]))\<rparr>) (vnodes s v))"
  by (rule file_table_copy_eq [OF assms])

theorem file_table_copy_correct_witness:
  "\<exists>s'. file_table_copy 1 (Some 60) (Some 70) True ex_files = Some (Some 70, s') \<and> ft_inv s' \<and> ftables s' 70 = Some (ex_table (Some 80))"
  using file_table_copy_correct [OF ex_files_inv, of 60 "ex_table (Some 80)" 70 1] by (fastforce simp: ex_sel simp del: upt_rec_numeral)


definition ex_opened :: fstate where
  "ex_opened = ex_files\<lparr>files := (files ex_files)(90 \<mapsto> ex_file\<lparr>file_vnode := Some 8, master_fd := - 1\<rparr>),
     vnodes := (vnodes ex_files)(8 \<mapsto> \<lparr>vn_refcount = 1, vn_fs = None, vn_data = Some 3, vn_ops = Some 0\<rparr>)\<rparr>"

lemma ex_opened_inv: "ft_inv ex_opened" "opened ex_opened 90 8"
proof -
  have e: "entry ex_opened = entry ex_files" by (simp add: ex_opened_def entry_def fun_eq_iff)
  have vn: "vn_of ex_opened f = (if f = 80 then Some 7 else if f = 90 then Some 8 else None)" for f
    by (simp add: vn_of_def ex_opened_def ex_sel ex_file_def)
  have sl: "slots ex_opened v = (if v = 7 then {(50, 3), (60, 3)} else {})" for v
    using vn by (auto simp: slots_def e ex_entry split: if_splits)
  show "ft_inv ex_opened"
    by (rule ft_inv_frame [OF ex_files_inv])
      (auto simp: ex_opened_def ex_entry ex_slots ex_sel ex_file_def refs_def split: if_splits)
  show "opened ex_opened 90 8"
    by (auto simp: opened_def e ex_entry sl) (simp add: ex_opened_def ex_sel ex_file_def)
qed


section \<open>Positions\<close>

lemma ucast_join: "ucast (join32to64 hi lo) = lo"
  by (rule bit_word_eqI) (simp add: bit_ucast_iff bit_join32to64)

lemma ucast_add_down: "(ucast (a + b :: u64) :: u32) = ucast a + ucast b"
proof transfer
  fix a b :: int
  have "take_bit 32 (take_bit 64 a + take_bit 64 b) = take_bit 32 (take_bit 32 (take_bit 64 a) + take_bit 32 (take_bit 64 b))"
    by (simp only: take_bit_add)
  also have "\<dots> = take_bit 32 (a + b)" by (simp add: take_bit_take_bit take_bit_add)
  finally show "take_bit LENGTH(32) (take_bit LENGTH(64) (a + b)) = take_bit LENGTH(32) (take_bit LENGTH(64) a + take_bit LENGTH(64) b)"
    by (simp add: take_bit_take_bit)
qed

lemma ucast_scast_same: "(ucast (scast (p :: u32) :: u64) :: u32) = p"
  by (rule bit_word_eqI) (simp add: bit_simps)

lemma VOP_files [simp]: "VOP vops vn (s\<lparr>files := q\<rparr>) = VOP vops vn s"
  by (simp add: VOP_def vnode_check_def)

lemma file_lock_free: "ft_idle s \<Longrightarrow> files s f = Some x \<Longrightarrow> file_lock x = None"
  by (simp add: ft_idle_def)



text \<open>
  C34. \<open>read\<close> on an open file passes the vnode a request of the given length at the file's position. If
  the vnode layer succeeds, the position advances by exactly the number of bytes transferred, which is
  the result, and the file's lock is free again. If it fails, its error is returned but the file's lock
  is still held by the caller, and the next \<open>read\<close> or \<open>close\<close> of that file by the same thread never
  returns.\<close>

theorem sys_read_correct:
  assumes "ft_idle s" "ftables s t = Some T" "3 \<le> fd" "fd < 128" "file_arr T (nat fd) = Some f" "files s f = Some x"
    "VOP vops (file_vnode x) s = Some (v, op)" "buf \<noteq> 0"
    "vop_read op v (uio_kinit buf buflen (scast (seek_pos x)) UIO_READ) (s\<lparr>files := (files s)(f \<mapsto> x\<lparr>file_lock := Some me\<rparr>)\<rparr>) =
       Some (e, u, s2)"
    "files s2 = (files s)(f \<mapsto> x\<lparr>file_lock := Some me\<rparr>)" "ftables s2 = ftables s"
  shows "if e = 0 then sys_read vops me t ok fd buf buflen my_buf s =
      Some (sint (buflen - uio_resid u), s2\<lparr>files := (files s)(f \<mapsto> x\<lparr>seek_pos := seek_pos x + (buflen - uio_resid u)\<rparr>)\<rparr>)
    else sys_read vops me t ok fd buf buflen my_buf s = Some (- e, s2) \<and>
      sys_read vops me t ok fd buf buflen my_buf s2 = None \<and> sys_close vops me t fd s2 = None"
proof -
  note lk = file_lock_free [OF assms(1,6)]
  have idle2: "ft_idle (s2\<lparr>files := files s, kproc_ft := kproc_ft s\<rparr>)" using assms(1,11) by (simp add: ft_idle_def)
  have tl: "file_table_lock T = None" using assms(1,2) by (simp add: ft_idle_def)
  have fd: "fd \<noteq> 0" "fd \<noteq> 1" "fd \<noteq> 2" "\<not> fd < 0" "\<not> fd \<ge> 128" using assms(3,4) by auto
  have look: "file_table_lookup me (Some t) fd s = Some (Some f, s)"
    using lookup_idle [OF assms(1,2), of fd me] assms(3-5) by simp
  have look2: "file_table_lookup me (Some t) fd s2 = Some (Some f, s2)"
    using assms(2-5,11) tl by (simp add: file_table_lookup_def table_acquire_def table_release_def upd_table_def arr_get_def
      record_idem fun_upd_idem)
  have acq: "file_acquire me f s = Some (s\<lparr>files := (files s)(f \<mapsto> x\<lparr>file_lock := Some me\<rparr>)\<rparr>)"
    using lk assms(6) by (simp add: file_acquire_def upd_file_def)
  have stuck: "file_acquire me f s2 = None" using assms(10) by (simp add: file_acquire_def)
  have x2: "x\<lparr>file_lock := Some me, seek_pos := q, file_lock := None\<rparr> = x\<lparr>seek_pos := q\<rparr>" for q using lk by simp
  have rd: "sys_read vops me t ok fd buf buflen my_buf s =
      (if e \<noteq> 0 then Some (- e, s2)
       else Some (sint (buflen - uio_resid u), s2\<lparr>files := (files s)(f \<mapsto> x\<lparr>seek_pos := seek_pos x + (buflen - uio_resid u)\<rparr>)\<rparr>))"
    using fd assms(7-10) look acq by (simp add: sys_read_def upd_file_def file_release_def x2)
  have rd2: "sys_read vops me t ok fd buf buflen my_buf s2 = None"
    using fd assms(8) look2 stuck by (simp add: sys_read_def)
  let ?s3 = "s2\<lparr>ftables := (ftables s2)(t \<mapsto> T\<lparr>file_arr := (file_arr T)(nat fd := None)\<rparr>)\<rparr>"
  have clear: "do { s \<leftarrow> table_acquire me t s2; s \<leftarrow> arr_set t fd None s; table_release me t s } = Some ?s3"
    using assms(2-4,11) tl by (simp add: table_acquire_def table_release_def upd_table_def arr_set_def record_order record_idem)
  have stuck3: "file_acquire me f ?s3 = None" using assms(10) by (simp add: file_acquire_def)
  have "sys_close vops me t fd s2 = map_option (\<lambda>(r, s). (- r, s)) (file_destroy vops me (Some f) ?s3)"
    using clear look2 assms(3,4)
    by (cases "table_acquire me t s2") (auto simp: sys_close_def Option.bind_eq_Some_conv map_option_case split: option.split)
  then have "sys_close vops me t fd s2 = None" using stuck3 by (simp add: file_destroy_def)
  then show ?thesis using rd rd2 by simp
qed

theorem sys_read_correct_witness:
  "sys_read ex_vops 1 60 (\<lambda>_. True) 3 4096 100 None ex_files = Some (- EINVAL, ex_files\<lparr>files := [80 \<mapsto> ex_file\<lparr>file_lock := Some 1\<rparr>]\<rparr>) \<and>
   sys_close ex_vops 1 60 3 (ex_files\<lparr>files := [80 \<mapsto> ex_file\<lparr>file_lock := Some 1\<rparr>]\<rparr>) = None"
proof -
  let ?s = "ex_files\<lparr>files := [80 \<mapsto> ex_file\<lparr>file_lock := Some 1\<rparr>]\<rparr>"
  have idle: "ft_idle ex_files" using ex_files_inv by (simp add: ft_inv_def)
  have vop: "VOP ex_vops (file_vnode ex_file) ex_files = Some (7, dev_vnode_ops (\<lambda>_. null_devops))"
    by (simp add: VOP_def vnode_check_def ex_sel ex_file_def)
  let ?u = "uio_kinit 4096 100 (scast (seek_pos ex_file)) UIO_READ"
  have "vop_read (dev_vnode_ops (\<lambda>_. null_devops)) 7 ?u ?s = Some (EINVAL, ?u, ?s)"
    by (simp add: dev_vnode_ops_def dev_read_def vn_device_def ex_sel dev_tryseek_def uio_kinit_def ex_file_def)
  then show ?thesis
    using sys_read_correct [OF idle, of 60 "ex_table (Some 80)" 3 80 ex_file ex_vops 7 "dev_vnode_ops (\<lambda>_. null_devops)" 4096 100 1 EINVAL ?u ?s] vop
    by (simp add: ex_sel ex_table_def ex_file_def)
qed

text \<open>
  \<open>write\<close> never moves the file position: whatever a \<open>write\<close> on an open file returns, the open files
  are exactly as before it, so the next \<open>write\<close> starts at the same position and overwrites what this
  one wrote.\<close>

theorem sys_write_keeps_position:
  assumes "ft_idle s" "\<forall>op v u s1 e u' s2. vop_write (vops op) v u s1 = Some (e, u', s2) \<longrightarrow> files s2 = files s1"
    "sys_write vops me t ok fd buf buflen kbuf s = Some (r, s')"
  shows "files s' = files s"
proof -
  have look: "files s2 = files s1" if "file_table_lookup me (Some t) fd s1 = Some (g, s2)" for g s1 s2
    using that by (auto simp: file_table_lookup_def table_acquire_def table_release_def upd_table_def Option.bind_eq_Some_conv split: if_splits)
  have acq: "files s2 = (files s1)(f \<mapsto> x\<lparr>file_lock := Some me\<rparr>) \<and> file_lock x = None"
    if "file_acquire me f s1 = Some s2" "files s1 f = Some x" for s1 s2 f x
    using that by (auto simp: file_acquire_def upd_file_def Option.bind_eq_Some_conv kassert_def split: if_splits)
  have wr: "files s3 = files s1"
    if h: "file_acquire me f s1 = Some s2" "vop_write (vops p) v u s2 = Some (e, u', s4)" "file_release me f s4 = Some s3"
    for s1 s2 s3 s4 f p v u e u'
  proof -
    obtain x where x: "files s1 f = Some x" using h(1) by (auto simp: file_acquire_def Option.bind_eq_Some_conv)
    have f4: "files s4 = (files s1)(f \<mapsto> x\<lparr>file_lock := Some me\<rparr>)" "file_lock x = None"
      using acq [OF h(1) x] assms(2) [rule_format, OF h(2)] by auto
    then show ?thesis using h(3) x
      by (auto simp: file_release_def upd_file_def Option.bind_eq_Some_conv record_idem fun_upd_idem)
  qed
  have tail: "files s3 = files s"
    if "file_table_lookup me (Some t) fd (s\<lparr>fs_uc := m\<rparr>) = Some (Some f, s4)" "file_acquire me f s4 = Some s5"
      "VOP vops vn s5 = Some (v, op)" "vop_write op v u s5 = Some (e, u', s6)" "file_release me f s6 = Some s3"
    for m s3 s4 s5 s6 f vn v op u e u'
    using that look [OF that(1)] wr [OF that(2) _ that(5)] by (auto dest!: VOP_SomeD)
  have none: "files s3 = files s" if "file_table_lookup me (Some t) fd (s\<lparr>fs_uc := m\<rparr>) = Some (g, s3)" for m g s3
    using look [OF that] by simp
  show ?thesis
    using assms(3) unfolding sys_write_def
    by (auto simp: Option.bind_eq_Some_conv put_all_def Let_def split: if_splits option.splits prod.splits intro: none tail)
qed

theorem sys_write_keeps_position_witness:
  "\<exists>r s'. sys_write ex_vops 1 60 (\<lambda>_. True) 3 4096 4 (Some 100) ex_files = Some (r, s') \<and> files s' = files ex_files"
proof -
  have idle: "ft_idle ex_files" using ex_files_inv by (simp add: ft_inv_def)
  have dev: "\<forall>op v u s1 e u' s2. vop_write (ex_vops op) v u s1 = Some (e, u', s2) \<longrightarrow> files s2 = files s1"
    by (auto simp: dev_vnode_ops_def dev_write_def dev_io_def null_devops_def nullio_def Option.bind_eq_Some_conv split: if_splits)
  have "\<exists>r s'. sys_write ex_vops 1 60 (\<lambda>_. True) 3 4096 4 (Some 100) ex_files = Some (r, s')"
    by (simp add: sys_write_def Let_def file_table_lookup_def table_acquire_def table_release_def upd_table_def arr_get_def
      file_acquire_def file_release_def upd_file_def VOP_def vnode_check_def dev_vnode_ops_def dev_write_def vn_device_def
      dev_tryseek_def uio_kinit_def ex_sel ex_table_def ex_file_def split: prod.split)
  then obtain r s' where w: "sys_write ex_vops 1 60 (\<lambda>_. True) 3 4096 4 (Some 100) ex_files = Some (r, s')" by blast
  show ?thesis using sys_write_keeps_position [OF idle dev w] w by blast
qed

text \<open>
  C40. \<open>dup2\<close> always answers EBADF, even when it has stored the file in the new slot, and it stores it
  without counting the reference. So after \<open>dup2\<close> on a file with one descriptor, closing the old
  descriptor frees the file while the new descriptor still refers to it: a dangling pointer.\<close>

theorem sys_dup2_dangling:
  assumes "ft_inv s" "t \<noteq> kproc_ft s" "ftables s t = Some T" "file_arr T i = Some f" "entry s (kproc_ft s) i = Some f"
    "j \<noteq> i" "3 \<le> j" "j < 128" "file_arr T j = None" "vn_of s f = Some v" "refs s v = 2"
  shows "\<exists>s1 s2. sys_dup2 vops me t (int i) (int j) s = Some (- EBADF, s1) \<and> entry s1 t j = Some f \<and>
    sys_close vops me t (int i) s1 = Some (0, s2) \<and> entry s2 t j = Some f \<and> files s2 f = None"
proof -
  have core: "ft_core s" and idle: "ft_idle s" using assms(1) by (auto simp: ft_inv_def)
  obtain x n where o: "files s f = Some x" "file_vnode x = Some v" "vnodes s v = Some n" "master_fd x = int i" "vn_refcount n = 2"
    using ft_coreD(3,4) [OF core assms(5)] assms(10,11) by (auto simp: in_use_def vn_of_def refs_def)
  have b: "3 \<le> i" "i < 128" using ft_coreD(2) [OF core assms(5)] by auto
  obtain K where K: "ftables s (kproc_ft s) = Some K" using idle unfolding ft_idle_def by blast
  have arr: "file_arr K i = Some f" using assms(5) K by (simp add: entry_def)
  have lk: "file_lock x = None" "file_table_lock T = None" "file_table_lock K = None"
    using idle o K assms(3) unfolding ft_idle_def by auto
  have s: "s = view s t T K f x v n" by (rule view_same [OF assms(3) K o(1,3), symmetric])
  let ?T1 = "T\<lparr>file_arr := (file_arr T)(j \<mapsto> f)\<rparr>" and ?T2 = "T\<lparr>file_arr := (file_arr T)(j \<mapsto> f, i := None)\<rparr>"
  let ?s1 = "view s t ?T1 K f x v n"
  have dup: "sys_dup2 vops me t (int i) (int j) (view s t T K f x v n) = Some (- EBADF, ?s1)"
    using assms(2,4,6-9) b arr lk by (simp add: sys_dup2_def file_copy_def ft_exec)
  define s2 where "s2 = (view s t ?T2 (K\<lparr>file_arr := (file_arr K)(i := None)\<rparr>) f x v (n\<lparr>vn_refcount := 1\<rparr>))\<lparr>files := (files s)(f := None)\<rparr>"
  have "sys_close vops me t (int i) ?s1 = Some (0, s2)"
    using assms(2,4,6-9) b arr lk o file_destroy_view [OF assms(2) lk(1,3) o(2) _ o(4), of n vops me f ?T2]
    by (simp add: sys_close_def file_table_lookup_def ft_exec s2_def)
  moreover have "entry ?s1 t j = Some f" "entry s2 t j = Some f" "files s2 f = None"
    using assms(2,6) by (simp_all add: entry_view s2_def entry_files)
  ultimately show ?thesis using dup unfolding s [symmetric] by blast
qed

theorem sys_dup2_dangling_witness:
  "\<exists>s1 s2. sys_dup2 ex_vops 1 60 3 4 ex_files = Some (- EBADF, s1) \<and> sys_close ex_vops 1 60 3 s1 = Some (0, s2) \<and>
    entry s2 60 4 = Some 80 \<and> files s2 80 = None"
proof -
  have "file_arr (ex_table (Some 80)) 3 = Some 80" "file_arr (ex_table (Some 80)) 4 = None" by (simp_all add: ex_table_def)
  then show ?thesis
    using sys_dup2_dangling [OF ex_files_inv, of 60 "ex_table (Some 80)" 3 80 4 7 ex_vops 1]
    by (auto simp: ex_sel ex_entry vn_of_def ex_file_def refs_def)
qed

text \<open>\<open>execv\<close> calls \<open>file_table_destroy\<close>, which frees the table before it uses its lock.\<close>

lemma file_table_destroy_never_returns: "file_table_destroy vops me file_t s = None"
  by (auto simp: file_table_destroy_def table_release_def Let_def split: bind_splits)

end
