(* ===== verification/Ram.thy ===== *)
theory Ram
  imports Spinlock Cmem
begin

text \<open>
  Physical memory and kernel pages: \<open>kern/arch/mips/vm/ram.c\<close> and the page functions of
  \<open>kern/arch/mips/vm/dumbvm.c\<close>, with the state that the kernel heap shares with them.

  An address is a \<open>nat\<close> below \<open>2 ^ 32\<close>, the wrap-around of 32-bit sums is written out. Kernel memory
  is the byte memory of \<open>Cmem\<close>; a pointer in it is a big-endian word. \<open>struct pageref\<close> objects live in
  their own store \<open>prefs\<close>, indexed by address: the heap is the only code that touches them. The
  functions run on one CPU (\<open>hp_me\<close>) and take the two spinlocks as \<open>Spinlock\<close> describes; the result
  \<open>None\<close> is a failed assertion, a panic or a spinlock that is never released.
\<close>

section \<open>State\<close>

abbreviation (input) PAGE_SIZE :: nat where "PAGE_SIZE \<equiv> 4096"
abbreviation (input) MIPS_KSEG0 :: nat where "MIPS_KSEG0 \<equiv> 0x80000000"

record pageref =
  next_samesize :: nat
  next_all :: nat
  pageaddr_and_blocktype :: nat
  freelist_offset :: nat
  nfree :: nat

record kheap_root =
  kr_page :: nat
  pagerefs_inuse :: "u32 list"
  numinuse :: nat

record kheap =
  firstpaddr :: nat
  lastpaddr :: nat
  hp_me :: nat
  hp_cpu :: cpustate
  hp_in_interrupt :: bool
  stealmem_lock :: spinlock
  kmalloc_spinlock :: spinlock
  kheaproots :: "kheap_root list"
  prefs :: "nat \<Rightarrow> pageref"
  sizebases :: "nat list"
  allbase :: nat
  kmem :: cmem

section \<open>Physical memory (ram.c)\<close>

text \<open>\<open>mainbus_ramsize()\<close> and the \<open>firstfree\<close> that \<open>start.S\<close> leaves are the arguments.\<close>

definition ram_bootstrap :: "nat \<Rightarrow> nat \<Rightarrow> kheap \<Rightarrow> kheap" where
  "ram_bootstrap ramsize firstfree s =
     (let ramsize = (if ramsize > 512 * 1024 * 1024 then 512 * 1024 * 1024 else ramsize)
      in s\<lparr>lastpaddr := ramsize, firstpaddr := (firstfree + 2 ^ 32 - MIPS_KSEG0) mod 2 ^ 32\<rparr>)"

definition ram_stealmem :: "nat \<Rightarrow> kheap \<Rightarrow> nat \<times> kheap" where
  "ram_stealmem npages s =
     (let size = npages * PAGE_SIZE mod 2 ^ 32
      in if (firstpaddr s + size) mod 2 ^ 32 > lastpaddr s then (0, s)
         else (firstpaddr s, s\<lparr>firstpaddr := (firstpaddr s + size) mod 2 ^ 32\<rparr>))"

definition ram_getsize :: "kheap \<Rightarrow> nat" where
  "ram_getsize s = lastpaddr s"

definition ram_getfirstfree :: "kheap \<Rightarrow> nat \<times> kheap" where
  "ram_getfirstfree s = (firstpaddr s, s\<lparr>firstpaddr := 0, lastpaddr := 0\<rparr>)"

section \<open>Kernel pages (dumbvm.c)\<close>

definition PADDR_TO_KVADDR :: "nat \<Rightarrow> nat" where
  "PADDR_TO_KVADDR paddr = (paddr + MIPS_KSEG0) mod 2 ^ 32"

definition dumbvm_can_sleep :: "kheap \<Rightarrow> unit option" where
  "dumbvm_can_sleep s =
     (if curcpu_exists (hp_cpu s)
      then do { kassert (c_spinlocks (hp_cpu s) = 0); kassert (\<not> hp_in_interrupt s) }
      else Some ())"

definition getppages :: "nat \<Rightarrow> kheap \<Rightarrow> (nat \<times> kheap) option" where
  "getppages npages s =
     do {
       (c, l) \<leftarrow> spinlock_acquire (hp_me s) (hp_cpu s, stealmem_lock s);
       let (addr, s) = ram_stealmem npages (s\<lparr>hp_cpu := c, stealmem_lock := l\<rparr>);
       (c, l) \<leftarrow> spinlock_release (hp_me s) (hp_cpu s, stealmem_lock s);
       Some (addr, s\<lparr>hp_cpu := c, stealmem_lock := l\<rparr>)
     }"

definition alloc_kpages :: "nat \<Rightarrow> kheap \<Rightarrow> (nat \<times> kheap) option" where
  "alloc_kpages npages s =
     do {
       dumbvm_can_sleep s;
       (pa, s) \<leftarrow> getppages npages s;
       if pa = 0 then Some (0, s) else Some (PADDR_TO_KVADDR pa, s)
     }"

definition free_kpages :: "nat \<Rightarrow> kheap \<Rightarrow> kheap" where
  "free_kpages addr s = s"

definition coremap_used_bytes :: "nat" where
  "coremap_used_bytes = 0"

section \<open>What they do\<close>

text \<open>Taking a free spinlock and giving it back restores the CPU exactly.\<close>

definition splk_free :: spinlock where
  "splk_free = \<lparr>splk_lock = 0, splk_holder = None\<rparr>"

definition splk_taken :: "nat \<Rightarrow> spinlock" where
  "splk_taken me = \<lparr>splk_lock = 1, splk_holder = Some me\<rparr>"

definition cpu_holding :: "cpustate \<Rightarrow> cpustate" where
  "cpu_holding c = c\<lparr>irq_on := False, t_iplhigh_count := t_iplhigh_count c + 1, c_spinlocks := c_spinlocks c + 1\<rparr>"

lemma acquire_free: "spl_inv c \<Longrightarrow> spinlock_acquire me (c, splk_free) = Some (cpu_holding c, splk_taken me)"
  by (cases c) (auto simp: spinlock_acquire_def splraise_def spl_inv_def splk_free_def splk_taken_def
      cpu_holding_def Let_def)

lemma release_taken: "spl_inv c \<Longrightarrow> spinlock_release me (cpu_holding c, splk_taken me) = Some (c, splk_free)"
  by (cases c) (auto simp: spinlock_release_def spllower_def spl_inv_def splk_free_def splk_taken_def
      cpu_holding_def Let_def)

lemma cpu_holding_inv: "spl_inv c \<Longrightarrow> spl_inv (cpu_holding c)"
  by (auto simp: cpu_holding_def spl_inv_def)

text \<open>
  The memory that has not been handed out starts at a page boundary and is not the exception
  page; a kernel that is about to allocate holds no spinlock.
\<close>

definition ram_ok :: "kheap \<Rightarrow> bool" where
  "ram_ok s \<longleftrightarrow> firstpaddr s mod PAGE_SIZE = 0 \<and> 0 < firstpaddr s \<and> firstpaddr s \<le> lastpaddr s \<and>
     lastpaddr s \<le> 2 ^ 29"

definition can_sleep :: "kheap \<Rightarrow> bool" where
  "can_sleep s \<longleftrightarrow> spl_inv (hp_cpu s) \<and> c_spinlocks (hp_cpu s) = 0 \<and> \<not> hp_in_interrupt s \<and>
     stealmem_lock s = splk_free \<and> kmalloc_spinlock s = splk_free"

definition heap_top :: "kheap \<Rightarrow> nat" where
  "heap_top s = MIPS_KSEG0 + firstpaddr s"

lemma getppages_run:
  assumes "spl_inv (hp_cpu s)" "stealmem_lock s = splk_free"
  shows "getppages n s = Some (ram_stealmem n s)"
  using assms by (cases s) (auto simp: getppages_def acquire_free release_taken ram_stealmem_def Let_def)

text \<open>The page allocator, when the request does not overflow.\<close>

lemma alloc_kpages_run:
  assumes "can_sleep s" "ram_ok s" "n * PAGE_SIZE \<le> 0xDFFFF000"
  shows "alloc_kpages n s =
    (if firstpaddr s + n * PAGE_SIZE > lastpaddr s then Some (0, s)
     else Some (heap_top s, s\<lparr>firstpaddr := firstpaddr s + n * PAGE_SIZE\<rparr>))"
proof -
  have "getppages n s = Some (ram_stealmem n s)"
    using assms(1) by (intro getppages_run) (auto simp: can_sleep_def)
  moreover have "dumbvm_can_sleep s = Some ()"
    using assms(1) by (auto simp: can_sleep_def dumbvm_can_sleep_def)
  ultimately show ?thesis
    using assms(2,3) by (auto simp: alloc_kpages_def ram_stealmem_def ram_ok_def heap_top_def PADDR_TO_KVADDR_def)
qed

text \<open>A caller that holds a spinlock cannot allocate a page.\<close>

lemma alloc_kpages_spinlock:
  "curcpu_exists (hp_cpu s) \<Longrightarrow> c_spinlocks (hp_cpu s) \<noteq> 0 \<Longrightarrow> alloc_kpages n s = None"
  by (simp add: alloc_kpages_def dumbvm_can_sleep_def)

end
