(* ===== verification/Kmalloc.thy ===== *)
theory Kmalloc
  imports Ram
begin

text \<open>
  The kernel heap, \<open>kern/vm/kmalloc.c\<close>, as configured: the debugging modes (\<open>SLOW\<close>, \<open>SLOWER\<close>,
  \<open>GUARDS\<close>, \<open>LABELS\<close>, \<open>CHECKBEEF\<close>, \<open>CHECKGUARDS\<close>) are all undefined, so \<open>checksubpage\<close> and
  \<open>checksubpages\<close> are empty and there are no guard bands.

  A pointer is its address, 0 is NULL. The loops over the two linked lists of pagerefs are
  partial functions, because nothing in the code bounds them; \<open>Kmalloc_Inv\<close> shows that they end.
\<close>

section \<open>Constants and pagerefs\<close>

definition sizes :: "nat list" where
  "sizes = [16, 32, 64, 128, 256, 512, 1024, 2048]"

abbreviation (input) NSIZES :: nat where "NSIZES \<equiv> 8"
abbreviation (input) LARGEST_SUBPAGE_SIZE :: nat where "LARGEST_SUBPAGE_SIZE \<equiv> 2048"
abbreviation (input) INVALID_OFFSET :: nat where "INVALID_OFFSET \<equiv> 0xffff"
abbreviation (input) PAGE_FRAME :: nat where "PAGE_FRAME \<equiv> 0xfffff000"
abbreviation (input) NPAGEREFS_PER_PAGE :: nat where "NPAGEREFS_PER_PAGE \<equiv> 256"
abbreviation (input) INUSE_WORDS :: nat where "INUSE_WORDS \<equiv> 8"
abbreviation (input) NUM_PAGEREFPAGES :: nat where "NUM_PAGEREFPAGES \<equiv> 16"

definition PR_PAGEADDR :: "pageref \<Rightarrow> nat" where
  "PR_PAGEADDR pr = pageaddr_and_blocktype pr AND PAGE_FRAME"

definition PR_BLOCKTYPE :: "pageref \<Rightarrow> nat" where
  "PR_BLOCKTYPE pr = pageaddr_and_blocktype pr AND 0xfff"

definition MKPAB :: "nat \<Rightarrow> nat \<Rightarrow> nat" where
  "MKPAB pa blk = (pa AND PAGE_FRAME) OR (blk AND 0xfff)"

definition fill_deadbeef :: "nat \<Rightarrow> nat \<Rightarrow> cmem \<Rightarrow> cmem" where
  "fill_deadbeef ptr len m = fold (\<lambda>i m. store_long (ptr + 4 * i) 0xdeadbeef m) [0..<len div 4] m"

definition km_acquire :: "kheap \<Rightarrow> kheap option" where
  "km_acquire s =
     do {
       (c, l) \<leftarrow> spinlock_acquire (hp_me s) (hp_cpu s, kmalloc_spinlock s);
       Some (s\<lparr>hp_cpu := c, kmalloc_spinlock := l\<rparr>)
     }"

definition km_release :: "kheap \<Rightarrow> kheap option" where
  "km_release s =
     do {
       (c, l) \<leftarrow> spinlock_release (hp_me s) (hp_cpu s, kmalloc_spinlock s);
       Some (s\<lparr>hp_cpu := c, kmalloc_spinlock := l\<rparr>)
     }"

definition set_root :: "nat \<Rightarrow> (kheap_root \<Rightarrow> kheap_root) \<Rightarrow> kheap \<Rightarrow> kheap" where
  "set_root r f s = s\<lparr>kheaproots := (kheaproots s)[r := f (kheaproots s ! r)]\<rparr>"

definition set_pref :: "nat \<Rightarrow> (pageref \<Rightarrow> pageref) \<Rightarrow> kheap \<Rightarrow> kheap" where
  "set_pref p f s = s\<lparr>prefs := (prefs s)(p := f (prefs s p))\<rparr>"

definition allocpagerefpage :: "nat \<Rightarrow> kheap \<Rightarrow> kheap option" where
  "allocpagerefpage root s =
     do {
       kassert (kr_page (kheaproots s ! root) = 0);
       s \<leftarrow> km_release s;
       (va, s) \<leftarrow> alloc_kpages 1 s;
       s \<leftarrow> km_acquire s;
       if va = 0 then Some s
       else do {
         kassert (va mod PAGE_SIZE = 0);
         if kr_page (kheaproots s ! root) \<noteq> 0
         then do {
           s \<leftarrow> km_release s;
           let s = free_kpages va s;
           s \<leftarrow> km_acquire s;
           kassert (kr_page (kheaproots s ! root) \<noteq> 0);
           Some s
         }
         else Some (set_root root (\<lambda>k. k\<lparr>kr_page := va\<rparr>) s)
       }
     }"

definition free_word :: "u32 list \<Rightarrow> nat option" where
  "free_word inuse = find (\<lambda>i. inuse ! i \<noteq> 0xffffffff) [0..<INUSE_WORDS]"

definition free_bit :: "u32 \<Rightarrow> nat option" where
  "free_bit w = find (\<lambda>j. w AND push_bit j 1 = 0) [0..<32]"

definition take_pageref :: "nat \<Rightarrow> nat \<Rightarrow> nat \<Rightarrow> kheap \<Rightarrow> (nat \<times> kheap) option" where
  "take_pageref root i j s =
     do {
       let s = set_root root (\<lambda>k. k\<lparr>pagerefs_inuse := (pagerefs_inuse k)[i := pagerefs_inuse k ! i OR push_bit j 1],
                                   numinuse := numinuse k + 1\<rparr>) s;
       s \<leftarrow> (if kr_page (kheaproots s ! root) = 0 then allocpagerefpage root s else Some s);
       if kr_page (kheaproots s ! root) = 0 then Some (0, s)
       else Some (kr_page (kheaproots s ! root) + 16 * (i * 32 + j), s)
     }"

fun allocpageref_loop :: "nat list \<Rightarrow> kheap \<Rightarrow> (nat \<times> kheap) option" where
  "allocpageref_loop [] s = Some (0, s)"
| "allocpageref_loop (root # rs) s =
     (if numinuse (kheaproots s ! root) \<ge> NPAGEREFS_PER_PAGE then allocpageref_loop rs s
      else case free_word (pagerefs_inuse (kheaproots s ! root)) of
        None \<Rightarrow> allocpageref_loop rs s
      | Some i \<Rightarrow> (case free_bit (pagerefs_inuse (kheaproots s ! root) ! i) of
          None \<Rightarrow> None
        | Some j \<Rightarrow> take_pageref root i j s))"

definition allocpageref :: "kheap \<Rightarrow> (nat \<times> kheap) option" where
  "allocpageref = allocpageref_loop [0..<NUM_PAGEREFPAGES]"

text \<open>The pointer difference \<open>p - page->refs\<close>, stored in a \<open>size_t\<close>.\<close>

definition ref_index :: "nat \<Rightarrow> nat \<Rightarrow> nat" where
  "ref_index p page = nat ((int p - int page) div 16 mod 2 ^ 32)"

fun freepageref_loop :: "nat \<Rightarrow> nat list \<Rightarrow> kheap \<Rightarrow> kheap option" where
  "freepageref_loop p [] s = None"
| "freepageref_loop p (root # rs) s =
     (let k = kheaproots s ! root
      in if kr_page k = 0 then do { kassert (numinuse k = 0); freepageref_loop p rs s }
         else let j = ref_index p (kr_page k)
           in if j < NPAGEREFS_PER_PAGE then
                do {
                  let i = j div 32;
                  let b = push_bit (j mod 32) 1;
                  kassert (pagerefs_inuse k ! i AND b \<noteq> 0);
                  kassert (numinuse k > 0);
                  Some (set_root root (\<lambda>k. k\<lparr>pagerefs_inuse := (pagerefs_inuse k)[i := pagerefs_inuse k ! i AND NOT b],
                                             numinuse := numinuse k - 1\<rparr>) s)
                }
              else freepageref_loop p rs s)"

definition freepageref :: "nat \<Rightarrow> kheap \<Rightarrow> kheap option" where
  "freepageref p = freepageref_loop p [0..<NUM_PAGEREFPAGES]"

section \<open>The lists of pagerefs\<close>

text \<open>\<open>struct pageref **guy\<close> points at a list head or at a link inside a pageref.\<close>

datatype guy = SizeBase nat | NextSame nat | AllBase | NextAll nat

fun guy_get :: "kheap \<Rightarrow> guy \<Rightarrow> nat" where
  "guy_get s (SizeBase t) = sizebases s ! t"
| "guy_get s (NextSame p) = next_samesize (prefs s p)"
| "guy_get s AllBase = allbase s"
| "guy_get s (NextAll p) = next_all (prefs s p)"

fun guy_set :: "guy \<Rightarrow> nat \<Rightarrow> kheap \<Rightarrow> kheap" where
  "guy_set (SizeBase t) v s = s\<lparr>sizebases := (sizebases s)[t := v]\<rparr>"
| "guy_set (NextSame p) v s = set_pref p (\<lambda>r. r\<lparr>next_samesize := v\<rparr>) s"
| "guy_set AllBase v s = s\<lparr>allbase := v\<rparr>"
| "guy_set (NextAll p) v s = set_pref p (\<lambda>r. r\<lparr>next_all := v\<rparr>) s"

partial_function (option) remove_same :: "nat \<Rightarrow> guy \<Rightarrow> kheap \<Rightarrow> kheap option" where
  "remove_same pr guy s =
     (if guy_get s guy = 0 then Some s
      else if guy_get s guy = pr then Some (guy_set guy (next_samesize (prefs s pr)) s)
      else remove_same pr (NextSame (guy_get s guy)) s)"

partial_function (option) remove_all :: "nat \<Rightarrow> guy \<Rightarrow> kheap \<Rightarrow> kheap option" where
  "remove_all pr guy s =
     (if guy_get s guy = 0 then Some s
      else if guy_get s guy = pr then Some (guy_set guy (next_all (prefs s pr)) s)
      else remove_all pr (NextAll (guy_get s guy)) s)"

definition remove_lists :: "nat \<Rightarrow> nat \<Rightarrow> kheap \<Rightarrow> kheap option" where
  "remove_lists pr blktype s =
     do {
       kassert (blktype < NSIZES);
       s \<leftarrow> remove_same pr (SizeBase blktype) s;
       remove_all pr AllBase s
     }"

section \<open>Blocks smaller than a page\<close>

definition blocktype :: "nat \<Rightarrow> nat option" where
  "blocktype clientsz = find (\<lambda>i. clientsz \<le> sizes ! i) [0..<NSIZES]"

definition doalloc :: "nat \<Rightarrow> kheap \<Rightarrow> (nat \<times> kheap) option" where
  "doalloc pr s =
     do {
       kassert (freelist_offset (prefs s pr) < PAGE_SIZE);
       let prpage = PR_PAGEADDR (prefs s pr);
       let retptr = prpage + freelist_offset (prefs s pr);
       let fl = unat (load_long (kmem s) retptr);
       let s = set_pref pr (\<lambda>r. r\<lparr>nfree := (nfree r + 2 ^ 16 - 1) mod 2 ^ 16\<rparr>) s;
       s \<leftarrow> (if fl \<noteq> 0 then
               do {
                 kassert (nfree (prefs s pr) > 0);
                 kassert ((fl + 2 ^ 32 - prpage) mod 2 ^ 32 < PAGE_SIZE);
                 Some (set_pref pr (\<lambda>r. r\<lparr>freelist_offset := (fl + 2 ^ 32 - prpage) mod 2 ^ 32\<rparr>) s)
               }
             else
               do {
                 kassert (nfree (prefs s pr) = 0);
                 Some (set_pref pr (\<lambda>r. r\<lparr>freelist_offset := INVALID_OFFSET\<rparr>) s)
               });
       s \<leftarrow> km_release s;
       Some (retptr, s)
     }"

partial_function (option) find_page :: "nat \<Rightarrow> nat \<Rightarrow> kheap \<Rightarrow> nat option" where
  "find_page blktype pr s =
     (if pr = 0 then Some 0
      else do {
        kassert (PR_BLOCKTYPE (prefs s pr) = blktype);
        if nfree (prefs s pr) > 0 then Some pr
        else find_page blktype (next_samesize (prefs s pr)) s
      })"

fun init_freelist :: "nat \<Rightarrow> nat \<Rightarrow> nat list \<Rightarrow> cmem \<Rightarrow> cmem option" where
  "init_freelist fla sz [] m = Some m"
| "init_freelist fla sz (i # is) m =
     do {
       let m = store_long (fla + i * sz) (word_of_nat (fla + (i - 1) * sz)) m;
       kassert (fla + i * sz \<noteq> unat (load_long m (fla + i * sz)));
       init_freelist fla sz is m
     }"

definition setup_page :: "nat \<Rightarrow> nat \<Rightarrow> nat \<Rightarrow> kheap \<Rightarrow> kheap option" where
  "setup_page pr prpage blktype s =
     do {
       let sz = sizes ! blktype;
       let s = set_pref pr (\<lambda>r. r\<lparr>pageaddr_and_blocktype := MKPAB prpage blktype, nfree := PAGE_SIZE div sz\<rparr>) s;
       m \<leftarrow> init_freelist prpage sz [1..<nfree (prefs s pr)] (store_long prpage 0 (kmem s));
       let fla = prpage + (nfree (prefs s pr) - 1) * sz;
       let s = set_pref pr (\<lambda>r. r\<lparr>freelist_offset := fla - prpage\<rparr>) (s\<lparr>kmem := m\<rparr>);
       kassert (freelist_offset (prefs s pr) = (nfree (prefs s pr) - 1) * sz);
       let s = set_pref pr (\<lambda>r. r\<lparr>next_samesize := sizebases s ! blktype\<rparr>) s;
       let s = s\<lparr>sizebases := (sizebases s)[blktype := pr]\<rparr>;
       let s = set_pref pr (\<lambda>r. r\<lparr>next_all := allbase s\<rparr>) s;
       Some (s\<lparr>allbase := pr\<rparr>)
     }"

definition subpage_kmalloc :: "nat \<Rightarrow> kheap \<Rightarrow> (nat \<times> kheap) option" where
  "subpage_kmalloc sz s =
     do {
       blktype \<leftarrow> blocktype sz;
       s \<leftarrow> km_acquire s;
       pr \<leftarrow> find_page blktype (sizebases s ! blktype) s;
       if pr \<noteq> 0 then doalloc pr s
       else do {
         s \<leftarrow> km_release s;
         (prpage, s) \<leftarrow> alloc_kpages 1 s;
         if prpage = 0 then Some (0, s)
         else do {
           kassert (prpage mod PAGE_SIZE = 0);
           s \<leftarrow> km_acquire s;
           (pr, s) \<leftarrow> allocpageref s;
           if pr = 0 then do { s \<leftarrow> km_release s; Some (0, free_kpages prpage s) }
           else do { s \<leftarrow> setup_page pr prpage blktype s; doalloc pr s }
         }
       }
     }"

partial_function (option) find_owner :: "nat \<Rightarrow> nat \<Rightarrow> kheap \<Rightarrow> nat option" where
  "find_owner ptraddr pr s =
     (if pr = 0 then Some 0
      else do {
        kassert (PR_BLOCKTYPE (prefs s pr) < NSIZES);
        if ptraddr \<ge> PR_PAGEADDR (prefs s pr) \<and> ptraddr < (PR_PAGEADDR (prefs s pr) + PAGE_SIZE) mod 2 ^ 32
        then Some pr
        else find_owner ptraddr (next_all (prefs s pr)) s
      })"

text \<open>The part of \<open>subpage_kfree\<close> after the page has been found.\<close>

definition free_block :: "nat \<Rightarrow> nat \<Rightarrow> kheap \<Rightarrow> kheap option" where
  "free_block ptraddr pr s =
     (let prpage = PR_PAGEADDR (prefs s pr);
          blktype = PR_BLOCKTYPE (prefs s pr);
          offset = (ptraddr + 2 ^ 32 - prpage) mod 2 ^ 32
      in if offset \<ge> PAGE_SIZE \<or> offset mod (sizes ! blktype) \<noteq> 0 then None
         else do {
           let s = s\<lparr>kmem := fill_deadbeef ptraddr (sizes ! blktype) (kmem s)\<rparr>;
           let fl = prpage + offset;
           s \<leftarrow> (if freelist_offset (prefs s pr) = INVALID_OFFSET
                 then Some (s\<lparr>kmem := store_long fl 0 (kmem s)\<rparr>)
                 else do {
                   let s = s\<lparr>kmem := store_long fl (word_of_nat (prpage + freelist_offset (prefs s pr))) (kmem s)\<rparr>;
                   kassert (fl \<noteq> unat (load_long (kmem s) fl));
                   Some s
                 });
           let s = set_pref pr (\<lambda>r. r\<lparr>freelist_offset := offset, nfree := (nfree r + 1) mod 2 ^ 16\<rparr>) s;
           kassert (nfree (prefs s pr) \<le> PAGE_SIZE div sizes ! blktype);
           if nfree (prefs s pr) = PAGE_SIZE div sizes ! blktype
           then do {
             s \<leftarrow> remove_lists pr blktype s;
             s \<leftarrow> freepageref pr s;
             s \<leftarrow> km_release s;
             Some (free_kpages prpage s)
           }
           else km_release s
         })"

definition subpage_kfree :: "nat \<Rightarrow> kheap \<Rightarrow> (int \<times> kheap) option" where
  "subpage_kfree ptr s =
     do {
       s \<leftarrow> km_acquire s;
       pr \<leftarrow> find_owner ptr (allbase s) s;
       if pr = 0 then do { s \<leftarrow> km_release s; Some (- 1, s) }
       else do { s \<leftarrow> free_block ptr pr s; Some (0, s) }
     }"

section \<open>The interface\<close>

definition kmalloc :: "nat \<Rightarrow> kheap \<Rightarrow> (nat \<times> kheap) option" where
  "kmalloc sz s =
     (if sz \<ge> LARGEST_SUBPAGE_SIZE then
        do {
          let npages = (sz + PAGE_SIZE - 1) mod 2 ^ 32 div PAGE_SIZE;
          (address, s) \<leftarrow> alloc_kpages npages s;
          if address = 0 then Some (0, s)
          else do { kassert (address mod PAGE_SIZE = 0); Some (address, s) }
        }
      else subpage_kmalloc sz s)"

definition kfree :: "nat \<Rightarrow> kheap \<Rightarrow> kheap option" where
  "kfree ptr s =
     (if ptr = 0 then Some s
      else do {
        (r, s) \<leftarrow> subpage_kfree ptr s;
        if r \<noteq> 0 then do { kassert (ptr mod PAGE_SIZE = 0); Some (free_kpages ptr s) }
        else Some s
      })"

declare remove_same.simps [code] remove_all.simps [code] find_page.simps [code] find_owner.simps [code]

text \<open>
  \<open>kheap_getused\<close>: the bytes in use, as \<open>subpage_stats\<close> counts them page by page (without the
  printing), plus the coremap's count, which \<open>dumbvm\<close> does not keep. \<open>subpage_stats\<close> also builds
  the free map of the page, with an assertion on every free block.
\<close>

partial_function (option) stats_freemap :: "nat \<Rightarrow> nat \<Rightarrow> nat \<Rightarrow> cmem \<Rightarrow> u32 list \<Rightarrow> u32 list option" where
  "stats_freemap fl prpage blktype m freemap =
     (if fl = 0 then Some freemap
      else do {
        let index = (fl + 2 ^ 32 - prpage) mod 2 ^ 32 div sizes ! blktype;
        kassert (index < PAGE_SIZE div sizes ! blktype);
        stats_freemap (unat (load_long m fl)) prpage blktype m
          (freemap[index div 32 := freemap ! (index div 32) OR push_bit (index mod 32) 1])
      })"

definition subpage_stats :: "nat \<Rightarrow> kheap \<Rightarrow> nat option" where
  "subpage_stats pr s =
     do {
       kassert (spinlock_do_i_hold (hp_me s) (hp_cpu s) (kmalloc_spinlock s));
       let prpage = PR_PAGEADDR (prefs s pr);
       let blktype = PR_BLOCKTYPE (prefs s pr);
       kassert (blktype < NSIZES);
       let n = PAGE_SIZE div sizes ! blktype;
       kassert (n \<le> 32 * 8);
       (if freelist_offset (prefs s pr) \<noteq> INVALID_OFFSET
        then stats_freemap (prpage + freelist_offset (prefs s pr)) prpage blktype (kmem s) (replicate 8 0)
        else Some (replicate 8 0));
       Some ((sizes ! blktype * ((n + 2 ^ 32 - nfree (prefs s pr)) mod 2 ^ 32)) mod 2 ^ 32)
     }"

partial_function (option) getused_loop :: "nat \<Rightarrow> nat \<Rightarrow> nat \<Rightarrow> kheap \<Rightarrow> (nat \<times> nat) option" where
  "getused_loop pr tot num_pages s =
     (if pr = 0 then Some (tot, num_pages)
      else do {
        b \<leftarrow> subpage_stats pr s;
        getused_loop (next_all (prefs s pr)) ((tot + b) mod 2 ^ 32) (num_pages + 1) s
      })"

definition kheap_getused :: "kheap \<Rightarrow> (nat \<times> kheap) option" where
  "kheap_getused s =
     do {
       s \<leftarrow> km_acquire s;
       (tot, num_pages) \<leftarrow> getused_loop (allbase s) 0 0 s;
       let coremap_bytes = coremap_used_bytes;
       let tot = (if coremap_bytes > 0 then (tot + coremap_bytes + 2 ^ 32 - num_pages * PAGE_SIZE) mod 2 ^ 32
                    else tot);
       s \<leftarrow> km_release s;
       Some (tot, s)
     }"

declare stats_freemap.simps [code] getused_loop.simps [code]

end
