(* ===== verification/Kmalloc_Inv.thy ===== *)
theory Kmalloc_Inv
  imports Kmalloc
begin

text \<open>
  Correctness of the kernel heap. \<open>heap_inv\<close> ties the heap to the blocks its clients hold; the
  operations keep it, and in every run of allocations, frees and writes by clients to their own
  blocks no two blocks overlap, nothing is lost and no assertion fails.
\<close>

section \<open>Words in memory and address masks\<close>

lemma load_store_same [simp]: "load_long (store_long a w m) a = w"
proof (rule bit_word_eqI)
  fix n assume "n < LENGTH(32)"
  then consider "n < 8" | "8 \<le> n" "n < 16" | "16 \<le> n" "n < 24" | "24 \<le> n" "n < 32" by force
  then show "bit (load_long (store_long a w m) a) n = bit w n"
    by cases (auto simp: load_long_def store_long_def bit_simps)
qed

lemma load_store_other: "a + 4 \<le> b \<or> b + 4 \<le> a \<Longrightarrow> load_long (store_long a w m) b = load_long m b"
  by (auto simp: load_long_def store_long_def)

lemma page_frame_and: "x < 2 ^ 32 \<Longrightarrow> x AND PAGE_FRAME = x - x mod PAGE_SIZE" for x :: nat
proof -
  assume x: "x < 2 ^ 32"
  have "bit (x AND PAGE_FRAME) n = bit (push_bit 12 (drop_bit 12 x)) n" for n
  proof -
    have "PAGE_FRAME = push_bit 12 (mask 20 :: nat)" by (simp add: mask_eq_exp_minus_1 push_bit_eq_mult)
    then have "bit (x AND PAGE_FRAME) n \<longleftrightarrow> bit x n \<and> 12 \<le> n \<and> n < 32"
      by (simp only: bit_simps) (auto simp: bit_simps)
    moreover have "bit x n \<Longrightarrow> n < 32" using x by (metis bit_take_bit_iff take_bit_nat_eq_self_iff)
    ultimately show ?thesis by (auto simp: bit_simps)
  qed
  then have "x AND PAGE_FRAME = push_bit 12 (drop_bit 12 x)" by (rule bit_eqI)
  also have "\<dots> = x - x mod PAGE_SIZE"
    by (simp add: push_bit_eq_mult drop_bit_eq_div minus_mod_eq_mult_div [symmetric] mult.commute)
  finally show ?thesis .
qed

lemma block_and: "x AND 0xfff = x mod PAGE_SIZE" for x :: nat
proof -
  have "(0xfff :: nat) = mask 12" by (simp add: mask_eq_exp_minus_1)
  then show ?thesis by (simp only: take_bit_eq_mask [symmetric] take_bit_eq_mod) simp
qed

lemma MKPAB_parts:
  assumes "pa mod PAGE_SIZE = 0" "pa < 2 ^ 32" "blk < PAGE_SIZE"
  shows "MKPAB pa blk AND PAGE_FRAME = pa" "MKPAB pa blk AND 0xfff = blk"
proof -
  have "(pa AND PAGE_FRAME) AND blk = 0"
  proof (rule bit_eqI)
    fix n
    have "bit pa n \<Longrightarrow> 12 \<le> n"
      using assms(1) bit_take_bit_iff [of 12 pa n] by (auto simp: take_bit_eq_mod not_le [symmetric])
    moreover have "bit blk n \<Longrightarrow> n < 12"
      using assms(3) bit_take_bit_iff [of 12 blk n] by (simp add: take_bit_eq_mod)
    ultimately show "bit ((pa AND PAGE_FRAME) AND blk) n = bit 0 n" by (auto simp: bit_simps)
  qed
  moreover have "pa AND PAGE_FRAME = pa" "blk AND 0xfff = blk" using assms by (simp_all add: page_frame_and block_and)
  ultimately have "MKPAB pa blk = pa + blk" by (simp add: MKPAB_def disjunctive_add_eq_or)
  moreover obtain k where k: "pa = 4096 * k" using assms(1) by (metis mod_0_imp_dvd dvdE)
  from k have "pa + blk < 2 ^ 32" "(pa + blk) mod PAGE_SIZE = blk" using assms(2,3) by simp_all
  ultimately show "MKPAB pa blk AND PAGE_FRAME = pa" "MKPAB pa blk AND 0xfff = blk"
    using assms by (simp_all add: page_frame_and block_and)
qed

lemma sub_wrap: "b \<le> a \<Longrightarrow> a - b < n \<Longrightarrow> (a + n - b) mod n = a - b" for a b n :: nat
  by (metis Nat.add_diff_assoc2 mod_add_self2 mod_less)

section \<open>Linked lists\<close>

text \<open>A NULL-terminated list whose links are read by \<open>nxt\<close>.\<close>

fun chain :: "(nat \<Rightarrow> nat) \<Rightarrow> nat \<Rightarrow> nat list \<Rightarrow> bool" where
  "chain nxt p [] \<longleftrightarrow> p = 0"
| "chain nxt p (x # xs) \<longleftrightarrow> p = x \<and> x \<noteq> 0 \<and> chain nxt (nxt x) xs"

lemma chain_cong: "(\<And>x. x \<in> set xs \<Longrightarrow> nxt x = nxt' x) \<Longrightarrow> chain nxt p xs = chain nxt' p xs"
  by (induction xs arbitrary: p) auto

lemma chain_nonzero: "chain nxt p xs \<Longrightarrow> x \<in> set xs \<Longrightarrow> x \<noteq> 0"
  by (induction xs arbitrary: p) auto

lemma chain_0: "chain nxt 0 xs \<longleftrightarrow> xs = []"
  by (cases xs) auto

lemma chain_head: "chain nxt p xs \<Longrightarrow> p \<noteq> 0 \<Longrightarrow> \<exists>ys. xs = p # ys \<and> chain nxt (nxt p) ys"
  by (cases xs) auto

lemma chain_upd: "a \<notin> set xs \<Longrightarrow> chain (nxt(a := v)) p xs = chain nxt p xs"
  by (rule chain_cong) auto

text \<open>Taking \<open>x\<close> out of a list: its predecessor's link now skips it.\<close>

lemma chain_remove:
  assumes "chain nxt p (xs @ x # ys)" "distinct (xs @ x # ys)"
  shows "xs = [] \<Longrightarrow> chain nxt (nxt x) ys"
    and "xs \<noteq> [] \<Longrightarrow> chain (nxt(last xs := nxt x)) p (xs @ ys)"
  using assms
proof (induction xs arbitrary: p)
  case (Cons a xs)
  {
    case 2
    show ?case
    proof (cases "xs = []")
      case True
      then show ?thesis using 2 by (auto simp del: fun_upd_apply simp: chain_upd fun_upd_same)
    next
      case False
      with 2 Cons.IH(2) [of "nxt a"] have "chain (nxt(last xs := nxt x)) (nxt a) (xs @ ys)"
        by (auto simp del: fun_upd_apply)
      moreover have "last xs \<noteq> a" using 2 False by auto
      ultimately show ?thesis using 2 False by (auto simp del: fun_upd_apply simp: fun_upd_other)
    qed
  }
qed simp_all

section \<open>The invariant\<close>

definition pr_size :: "pageref \<Rightarrow> nat" where
  "pr_size r = sizes ! PR_BLOCKTYPE r"

definition blocks :: "pageref \<Rightarrow> nat set" where
  "blocks r = (\<lambda>i. PR_PAGEADDR r + i * pr_size r) ` {..<PAGE_SIZE div pr_size r}"

text \<open>Memory is owned page-wise: by a page of pagerefs, by a heap page, or by a large block.\<close>

datatype owner = Root nat | Heap nat | Big nat

definition span :: "nat \<Rightarrow> nat" where
  "span sz = (sz + 4095) div PAGE_SIZE * PAGE_SIZE"

fun region :: "kheap \<Rightarrow> nat list \<Rightarrow> (nat \<rightharpoonup> nat) \<Rightarrow> owner \<Rightarrow> (nat \<times> nat) option" where
  "region s prs L (Root r) =
     (if r < 16 \<and> kr_page (kheaproots s ! r) \<noteq> 0 then Some (kr_page (kheaproots s ! r), PAGE_SIZE) else None)"
| "region s prs L (Heap pr) = (if pr \<in> set prs then Some (PR_PAGEADDR (prefs s pr), PAGE_SIZE) else None)"
| "region s prs L (Big p) = (case L p of Some sz \<Rightarrow> if sz \<ge> 2048 then Some (p, span sz) else None | None \<Rightarrow> None)"

definition regions_ok :: "(owner \<Rightarrow> (nat \<times> nat) option) \<Rightarrow> nat \<Rightarrow> bool" where
  "regions_ok R lim \<longleftrightarrow>
     (\<forall>x b n. R x = Some (b, n) \<longrightarrow> b mod PAGE_SIZE = 0 \<and> MIPS_KSEG0 < b \<and> b + n \<le> lim) \<and>
     (\<forall>x y b n b' n'. R x = Some (b, n) \<longrightarrow> R y = Some (b', n') \<longrightarrow> x \<noteq> y \<longrightarrow> b + n \<le> b' \<or> b' + n' \<le> b)"

definition fl_next :: "cmem \<Rightarrow> nat \<Rightarrow> nat" where
  "fl_next m a = unat (load_long m a)"

definition fl_head :: "pageref \<Rightarrow> nat" where
  "fl_head r = (if freelist_offset r = INVALID_OFFSET then 0 else PR_PAGEADDR r + freelist_offset r)"

definition free_list :: "cmem \<Rightarrow> pageref \<Rightarrow> nat list \<Rightarrow> bool" where
  "free_list m r fl \<longleftrightarrow> chain (fl_next m) (fl_head r) fl \<and> distinct fl \<and> set fl \<subseteq> blocks r \<and> nfree r = length fl"

text \<open>Each block of a heap page is either on its free list or held by a client that fits in it.\<close>

definition page_inv :: "cmem \<Rightarrow> (nat \<rightharpoonup> nat) \<Rightarrow> pageref \<Rightarrow> bool" where
  "page_inv m L r \<longleftrightarrow> PR_BLOCKTYPE r < NSIZES \<and>
     (\<exists>fl. free_list m r fl \<and>
        (\<forall>p\<in>blocks r. if p \<in> set fl then L p = None else \<exists>sz. L p = Some sz \<and> sz \<le> pr_size r \<and> sz < 2048))"

definition heap_links :: "kheap \<Rightarrow> nat list \<Rightarrow> bool" where
  "heap_links s prs \<longleftrightarrow> chain (\<lambda>p. next_all (prefs s p)) (allbase s) prs \<and> distinct prs \<and>
     length (sizebases s) = NSIZES \<and>
     (\<forall>t<NSIZES. chain (\<lambda>p. next_samesize (prefs s p)) (sizebases s ! t)
        (filter (\<lambda>p. PR_BLOCKTYPE (prefs s p) = t) prs))"

definition used_refs :: "kheap_root \<Rightarrow> nat set" where
  "used_refs k = {j. j < 256 \<and> bit (pagerefs_inuse k ! (j div 32)) (j mod 32)}"

definition root_inv :: "kheap_root \<Rightarrow> bool" where
  "root_inv k \<longleftrightarrow> length (pagerefs_inuse k) = INUSE_WORDS \<and> numinuse k = card (used_refs k)"

definition ref_at :: "kheap \<Rightarrow> nat \<Rightarrow> nat \<Rightarrow> nat \<Rightarrow> bool" where
  "ref_at s pr r j \<longleftrightarrow> r < 16 \<and> kr_page (kheaproots s ! r) \<noteq> 0 \<and> pr = kr_page (kheaproots s ! r) + 16 * j \<and>
     j \<in> used_refs (kheaproots s ! r)"

definition roots_inv :: "kheap \<Rightarrow> nat list \<Rightarrow> bool" where
  "roots_inv s prs \<longleftrightarrow> length (kheaproots s) = NUM_PAGEREFPAGES \<and> (\<forall>k\<in>set (kheaproots s). root_inv k) \<and>
     (\<forall>pr\<in>set prs. \<exists>r j. ref_at s pr r j) \<and>
     (\<forall>r'<16. \<forall>r<r'. kr_page (kheaproots s ! r) = 0 \<longrightarrow> kr_page (kheaproots s ! r') = 0) \<and>
     (\<forall>k\<in>set (kheaproots s). kr_page k = 0 \<longrightarrow> numinuse k \<noteq> 0 \<longrightarrow> firstpaddr s + PAGE_SIZE > lastpaddr s)"

definition heap_core :: "kheap \<Rightarrow> nat list \<Rightarrow> (nat \<rightharpoonup> nat) \<Rightarrow> bool" where
  "heap_core s prs L \<longleftrightarrow> ram_ok s \<and> heap_links s prs \<and> roots_inv s prs \<and>
     regions_ok (region s prs L) (heap_top s) \<and>
     (\<forall>pr\<in>set prs. page_inv (kmem s) L (prefs s pr)) \<and>
     (\<forall>p sz. L p = Some sz \<longrightarrow> sz < 2048 \<longrightarrow> (\<exists>pr\<in>set prs. p \<in> blocks (prefs s pr)))"

definition heap_inv :: "kheap \<Rightarrow> (nat \<rightharpoonup> nat) \<Rightarrow> bool" where
  "heap_inv s L \<longleftrightarrow> can_sleep s \<and> (\<exists>prs. heap_core s prs L)"

section \<open>Blocks\<close>

lemma sizes_nth:
  assumes "t < NSIZES"
  shows "16 \<le> sizes ! t" "sizes ! t \<le> 2048" "PAGE_SIZE div sizes ! t * sizes ! t = PAGE_SIZE"
    "2 \<le> PAGE_SIZE div sizes ! t" "PAGE_SIZE div sizes ! t \<le> 256" "sizes ! t mod 4 = 0"
proof -
  have "t = 0 \<or> t = 1 \<or> t = 2 \<or> t = 3 \<or> t = 4 \<or> t = 5 \<or> t = 6 \<or> t = 7" using assms by linarith
  then show "16 \<le> sizes ! t" "sizes ! t \<le> 2048" "PAGE_SIZE div sizes ! t * sizes ! t = PAGE_SIZE"
    "2 \<le> PAGE_SIZE div sizes ! t" "PAGE_SIZE div sizes ! t \<le> 256" "sizes ! t mod 4 = 0"
    by (auto simp: sizes_def)
qed

lemma block_range:
  assumes "p \<in> blocks r" "PR_BLOCKTYPE r < NSIZES"
  shows "PR_PAGEADDR r \<le> p" "p + pr_size r \<le> PR_PAGEADDR r + PAGE_SIZE" "(p - PR_PAGEADDR r) mod pr_size r = 0"
proof -
  obtain i where i: "i < PAGE_SIZE div pr_size r" "p = PR_PAGEADDR r + i * pr_size r"
    using assms(1) by (auto simp: blocks_def)
  have "i * pr_size r + pr_size r = Suc i * pr_size r" by simp
  also have "\<dots> \<le> PAGE_SIZE div pr_size r * pr_size r" using i(1) by (intro mult_le_mono1) simp
  also have "\<dots> = PAGE_SIZE" using sizes_nth(3) [OF assms(2)] by (simp add: pr_size_def)
  finally show "PR_PAGEADDR r \<le> p" "p + pr_size r \<le> PR_PAGEADDR r + PAGE_SIZE" "(p - PR_PAGEADDR r) mod pr_size r = 0"
    using i(2) by simp_all
qed

lemma block_apart:
  assumes "p \<in> blocks r" "q \<in> blocks r" "p \<noteq> q"
  shows "p + pr_size r \<le> q \<or> q + pr_size r \<le> p"
proof -
  obtain i j where ij: "p = PR_PAGEADDR r + i * pr_size r" "q = PR_PAGEADDR r + j * pr_size r"
    using assms by (auto simp: blocks_def)
  with assms(3) have "i \<noteq> j" by auto
  then have "Suc i \<le> j \<or> Suc j \<le> i" by linarith
  then have "Suc i * pr_size r \<le> j * pr_size r \<or> Suc j * pr_size r \<le> i * pr_size r" by (meson mult_le_mono1)
  then show ?thesis using ij by auto
qed

lemma card_blocks: "PR_BLOCKTYPE r < NSIZES \<Longrightarrow> card (blocks r) = PAGE_SIZE div pr_size r"
  using sizes_nth(1) [of "PR_BLOCKTYPE r"]
  by (auto simp: blocks_def pr_size_def card_image inj_on_def)

lemma finite_blocks [simp]: "finite (blocks r)"
  by (simp add: blocks_def)

lemma free_list_length:
  assumes "free_list m r fl" "PR_BLOCKTYPE r < NSIZES"
  shows "length fl \<le> PAGE_SIZE div pr_size r" "length fl \<le> 256"
proof -
  have "length fl = card (set fl)" using assms(1) by (simp add: free_list_def distinct_card)
  also have "\<dots> \<le> card (blocks r)" using assms(1) by (intro card_mono) (auto simp: free_list_def)
  finally show "length fl \<le> PAGE_SIZE div pr_size r" using card_blocks [OF assms(2)] by simp
  then show "length fl \<le> 256" using sizes_nth(5) [OF assms(2)] by (simp add: pr_size_def)
qed

lemma free_list_cong:
  assumes "free_list m r fl" "\<And>q. q \<in> set fl \<Longrightarrow> fl_next m' q = fl_next m q"
  shows "free_list m' r fl"
  using assms chain_cong [of fl "fl_next m'" "fl_next m"] by (simp add: free_list_def)

section \<open>Regions\<close>

lemma regions_range:
  "regions_ok R lim \<Longrightarrow> R x = Some (b, n) \<Longrightarrow> b mod PAGE_SIZE = 0 \<and> MIPS_KSEG0 < b \<and> b + n \<le> lim"
  by (simp add: regions_ok_def)

lemma regions_apart:
  "regions_ok R lim \<Longrightarrow> R x = Some (b, n) \<Longrightarrow> R y = Some (b', n') \<Longrightarrow> x \<noteq> y \<Longrightarrow> b + n \<le> b' \<or> b' + n' \<le> b"
  by (simp add: regions_ok_def)

lemma regions_sub:
  "regions_ok R lim \<Longrightarrow> (\<And>x. R' x = None \<or> R' x = R x) \<Longrightarrow> lim \<le> lim' \<Longrightarrow> regions_ok R' lim'"
proof -
  assume R: "regions_ok R lim" and sub: "\<And>x. R' x = None \<or> R' x = R x" and le: "lim \<le> lim'"
  have s: "R' x = Some v \<Longrightarrow> R x = Some v" for x v using sub [of x] by auto
  show ?thesis
    unfolding regions_ok_def
  proof (intro conjI allI impI)
    fix x b n assume "R' x = Some (b, n)"
    from regions_range [OF R s [OF this]] le show "b mod PAGE_SIZE = 0" "MIPS_KSEG0 < b" "b + n \<le> lim'" by simp_all
  next
    fix x y b n b' n' assume "R' x = Some (b, n)" "R' y = Some (b', n')" "x \<noteq> y"
    then show "b + n \<le> b' \<or> b' + n' \<le> b" using regions_apart [OF R s s] by blast
  qed
qed

lemma regions_add:
  assumes "regions_ok R lim" "lim mod PAGE_SIZE = 0" "MIPS_KSEG0 < lim"
  shows "regions_ok (R(x := Some (lim, n))) (lim + n)"
  using assms unfolding regions_ok_def by (auto simp: trans_le_add1)

section \<open>Holding the lock\<close>

definition lk :: "kheap \<Rightarrow> kheap" where
  "lk s = s\<lparr>hp_cpu := cpu_holding (hp_cpu s), kmalloc_spinlock := splk_taken (hp_me s)\<rparr>"

lemma km_acquire_run: "can_sleep s \<Longrightarrow> km_acquire s = Some (lk s)"
  by (simp add: km_acquire_def can_sleep_def acquire_free lk_def)

lemma km_release_run: "can_sleep s \<Longrightarrow> km_release (lk s) = Some s"
  by (cases s) (simp add: km_release_def can_sleep_def lk_def release_taken)

lemma lk_sel [simp]:
  "firstpaddr (lk s) = firstpaddr s" "lastpaddr (lk s) = lastpaddr s" "kheaproots (lk s) = kheaproots s"
  "prefs (lk s) = prefs s" "sizebases (lk s) = sizebases s" "allbase (lk s) = allbase s" "kmem (lk s) = kmem s"
  by (simp_all add: lk_def)

lemma lk_upd:
  "set_pref p f (lk s) = lk (set_pref p f s)" "set_root r g (lk s) = lk (set_root r g s)"
  "(lk s)\<lparr>kmem := m\<rparr> = lk (s\<lparr>kmem := m\<rparr>)" "(lk s)\<lparr>sizebases := b\<rparr> = lk (s\<lparr>sizebases := b\<rparr>)"
  "(lk s)\<lparr>allbase := a\<rparr> = lk (s\<lparr>allbase := a\<rparr>)"
  "(lk s)\<lparr>prefs := q\<rparr> = lk (s\<lparr>prefs := q\<rparr>)"
  by (cases s; simp add: lk_def set_pref_def set_root_def)+

lemma can_sleep_upd [simp]:
  "can_sleep (set_pref p f s) = can_sleep s" "can_sleep (set_root r g s) = can_sleep s"
  "can_sleep (s\<lparr>kmem := m\<rparr>) = can_sleep s" "can_sleep (s\<lparr>sizebases := b\<rparr>) = can_sleep s"
  "can_sleep (s\<lparr>allbase := a\<rparr>) = can_sleep s" "can_sleep (s\<lparr>firstpaddr := n\<rparr>) = can_sleep s"
  "can_sleep (s\<lparr>prefs := q\<rparr>) = can_sleep s"
  by (simp_all add: can_sleep_def set_pref_def set_root_def)

lemma set_pref_sel [simp]:
  "prefs (set_pref p f s) = (prefs s)(p := f (prefs s p))" "kheaproots (set_pref p f s) = kheaproots s"
  "sizebases (set_pref p f s) = sizebases s" "allbase (set_pref p f s) = allbase s" "kmem (set_pref p f s) = kmem s"
  "firstpaddr (set_pref p f s) = firstpaddr s" "lastpaddr (set_pref p f s) = lastpaddr s"
  by (simp_all add: set_pref_def)

lemma set_root_sel [simp]:
  "prefs (set_root r g s) = prefs s" "kheaproots (set_root r g s) = (kheaproots s)[r := g (kheaproots s ! r)]"
  "sizebases (set_root r g s) = sizebases s" "allbase (set_root r g s) = allbase s" "kmem (set_root r g s) = kmem s"
  "firstpaddr (set_root r g s) = firstpaddr s" "lastpaddr (set_root r g s) = lastpaddr s"
  by (simp_all add: set_root_def)

section \<open>Walking the lists\<close>

lemma find_SomeD: "find P xs = Some x \<Longrightarrow> x \<in> set xs \<and> P x"
  by (induction xs) (auto split: if_splits)

lemma find_page_run:
  assumes "chain (\<lambda>p. next_samesize (prefs s p)) p xs" "\<forall>x\<in>set xs. PR_BLOCKTYPE (prefs s x) = t"
  shows "find_page t p s = Some (case find (\<lambda>x. nfree (prefs s x) > 0) xs of None \<Rightarrow> 0 | Some x \<Rightarrow> x)"
  using assms by (induction xs arbitrary: p) (auto simp: find_page.simps)

lemma find_owner_run:
  assumes "chain (\<lambda>p. next_all (prefs s p)) p xs" "\<forall>x\<in>set xs. PR_BLOCKTYPE (prefs s x) < NSIZES"
  shows "find_owner a p s = Some (case find (\<lambda>x. PR_PAGEADDR (prefs s x) \<le> a \<and>
    a < (PR_PAGEADDR (prefs s x) + PAGE_SIZE) mod 2 ^ 32) xs of None \<Rightarrow> 0 | Some x \<Rightarrow> x)"
  using assms by (induction xs arbitrary: p) (auto simp: find_owner.simps)

lemma remove_same_run:
  assumes "chain (\<lambda>p. next_samesize (prefs s p)) (guy_get s g) (ys @ pr # zs)" "distinct (ys @ pr # zs)"
  shows "remove_same pr g s =
    Some (guy_set (if ys = [] then g else NextSame (last ys)) (next_samesize (prefs s pr)) s)"
  using assms by (induction ys arbitrary: g) (subst remove_same.simps, force)+

lemma remove_all_run:
  assumes "chain (\<lambda>p. next_all (prefs s p)) (guy_get s g) (ys @ pr # zs)" "distinct (ys @ pr # zs)"
  shows "remove_all pr g s =
    Some (guy_set (if ys = [] then g else NextAll (last ys)) (next_all (prefs s pr)) s)"
  using assms by (induction ys arbitrary: g) (subst remove_all.simps, force)+

section \<open>Consequences of the invariant\<close>

lemma ram_ok_top: "ram_ok s \<Longrightarrow> heap_top s mod PAGE_SIZE = 0 \<and> MIPS_KSEG0 < heap_top s \<and> heap_top s \<le> MIPS_KSEG0 + 2 ^ 29"
  unfolding ram_ok_def heap_top_def by (auto simp: mod_add_eq [symmetric])

lemma core_page:
  assumes "heap_core s prs L" "pr \<in> set prs"
  shows "PR_PAGEADDR (prefs s pr) mod PAGE_SIZE = 0" "MIPS_KSEG0 < PR_PAGEADDR (prefs s pr)"
    "PR_PAGEADDR (prefs s pr) + PAGE_SIZE \<le> heap_top s" "PR_PAGEADDR (prefs s pr) + PAGE_SIZE < 2 ^ 32"
    "PR_BLOCKTYPE (prefs s pr) < NSIZES"
proof -
  have R: "regions_ok (region s prs L) (heap_top s)" and "ram_ok s" and pg: "page_inv (kmem s) L (prefs s pr)"
    using assms by (simp_all add: heap_core_def)
  note top = ram_ok_top [OF this(2)]
  from regions_range [OF R, of "Heap pr" "PR_PAGEADDR (prefs s pr)" PAGE_SIZE] assms(2)
  show "PR_PAGEADDR (prefs s pr) mod PAGE_SIZE = 0" "MIPS_KSEG0 < PR_PAGEADDR (prefs s pr)"
    and le: "PR_PAGEADDR (prefs s pr) + PAGE_SIZE \<le> heap_top s" by simp_all
  with top show "PR_PAGEADDR (prefs s pr) + PAGE_SIZE < 2 ^ 32" by simp
  show "PR_BLOCKTYPE (prefs s pr) < NSIZES" using pg by (simp add: page_inv_def)
qed

lemma core_pages_apart:
  assumes "heap_core s prs L" "pr \<in> set prs" "pr' \<in> set prs" "pr \<noteq> pr'"
  shows "PR_PAGEADDR (prefs s pr) + PAGE_SIZE \<le> PR_PAGEADDR (prefs s pr') \<or>
    PR_PAGEADDR (prefs s pr') + PAGE_SIZE \<le> PR_PAGEADDR (prefs s pr)"
  using assms regions_apart [of "region s prs L" "heap_top s" "Heap pr" _ _ "Heap pr'"]
  by (auto simp: heap_core_def)

lemma core_block:
  assumes "heap_core s prs L" "pr \<in> set prs" "p \<in> blocks (prefs s pr)"
  shows "PR_PAGEADDR (prefs s pr) \<le> p" "p + pr_size (prefs s pr) \<le> PR_PAGEADDR (prefs s pr) + PAGE_SIZE"
    "MIPS_KSEG0 < p" "p < 2 ^ 32" "16 \<le> pr_size (prefs s pr)"
proof -
  note pg = core_page [OF assms(1,2)]
  note br = block_range [OF assms(3) pg(5)]
  show sz: "16 \<le> pr_size (prefs s pr)" using sizes_nth(1) [OF pg(5)] by (simp add: pr_size_def)
  show "PR_PAGEADDR (prefs s pr) \<le> p" "p + pr_size (prefs s pr) \<le> PR_PAGEADDR (prefs s pr) + PAGE_SIZE"
    by (fact br)+
  with pg sz show "MIPS_KSEG0 < p" "p < 2 ^ 32" by linarith+
qed

lemma core_block_owner:
  assumes "heap_core s prs L" "pr \<in> set prs" "p \<in> blocks (prefs s pr)" "pr' \<in> set prs" "p \<in> blocks (prefs s pr')"
  shows "pr' = pr"
proof (rule ccontr)
  assume "pr' \<noteq> pr"
  from core_pages_apart [OF assms(1,4,2) this] core_block [OF assms(1,2,3)] core_block [OF assms(1,4,5)]
  show False by linarith
qed

lemma core_pref_inv: "heap_core s prs L \<Longrightarrow> pr \<in> set prs \<Longrightarrow> page_inv (kmem s) L (prefs s pr)"
  by (simp add: heap_core_def)

lemma core_nonzero: "heap_core s prs L \<Longrightarrow> pr \<in> set prs \<Longrightarrow> pr \<noteq> 0"
  using chain_nonzero by (auto simp: heap_core_def heap_links_def)

text \<open>The block around a live pointer: \<open>extent\<close> bytes that nobody else owns.\<close>

definition extent :: "kheap \<Rightarrow> nat list \<Rightarrow> (nat \<rightharpoonup> nat) \<Rightarrow> nat \<Rightarrow> nat \<Rightarrow> bool" where
  "extent s prs L p n \<longleftrightarrow> (\<exists>sz. L p = Some sz \<and>
     (if sz \<ge> 2048 then n = span sz else \<exists>pr\<in>set prs. p \<in> blocks (prefs s pr) \<and> n = pr_size (prefs s pr)))"

lemma span_bounds: "sz \<le> span sz" "span sz \<le> sz + 4095" "span sz mod PAGE_SIZE = 0"
proof -
  have "(sz + 4095) div PAGE_SIZE * PAGE_SIZE + (sz + 4095) mod PAGE_SIZE = sz + 4095" by (rule div_mult_mod_eq)
  moreover have "(sz + 4095) mod PAGE_SIZE < PAGE_SIZE" by simp
  ultimately show "sz \<le> span sz" "span sz \<le> sz + 4095" unfolding span_def by linarith+
  show "span sz mod PAGE_SIZE = 0" by (simp add: span_def)
qed

lemma extent_ex: "heap_core s prs L \<Longrightarrow> L p = Some sz \<Longrightarrow> \<exists>n. extent s prs L p n \<and> sz \<le> n"
proof (cases "sz \<ge> 2048")
  case True
  assume "L p = Some sz"
  moreover note span_bounds(1) [of sz]
  ultimately show ?thesis using True by (auto simp: extent_def)
next
  case False
  assume core: "heap_core s prs L" and L: "L p = Some sz"
  with False obtain pr where pr: "pr \<in> set prs" "p \<in> blocks (prefs s pr)" by (fastforce simp: heap_core_def)
  from core_pref_inv [OF core pr(1)] pr(2) L have "sz \<le> pr_size (prefs s pr)" by (fastforce simp: page_inv_def split: if_splits)
  then show ?thesis using False pr L by (auto simp: extent_def)
qed

lemma extent_free_apart:
  assumes "heap_core s prs L" "extent s prs L p n" "pr \<in> set prs" "q \<in> blocks (prefs s pr)" "q \<noteq> p"
  shows "p + n \<le> q \<or> q + pr_size (prefs s pr) \<le> p"
proof -
  from assms(2) obtain sz where L: "L p = Some sz"
    and n: "if sz \<ge> 2048 then n = span sz else \<exists>pr\<in>set prs. p \<in> blocks (prefs s pr) \<and> n = pr_size (prefs s pr)"
    by (auto simp: extent_def)
  note q = core_block [OF assms(1,3,4)]
  show ?thesis
  proof (cases "sz \<ge> 2048")
    case True
    have "region s prs L (Big p) = Some (p, n)" "region s prs L (Heap pr) = Some (PR_PAGEADDR (prefs s pr), PAGE_SIZE)"
      using L True n assms(3) by simp_all
    then have "p + n \<le> PR_PAGEADDR (prefs s pr) \<or> PR_PAGEADDR (prefs s pr) + PAGE_SIZE \<le> p"
      using regions_apart [of "region s prs L" "heap_top s" "Big p" p n "Heap pr"] assms(1) by (simp add: heap_core_def)
    with q show ?thesis by linarith
  next
    case False
    with n obtain pr' where pr': "pr' \<in> set prs" "p \<in> blocks (prefs s pr')" "n = pr_size (prefs s pr')" by auto
    show ?thesis
    proof (cases "pr' = pr")
      case True
      with pr' assms(4,5) block_apart [of p "prefs s pr" q] show ?thesis by auto
    next
      case False
      from core_pages_apart [OF assms(1) pr'(1) assms(3) False] core_block [OF assms(1) pr'(1,2)] q pr'(3)
      show ?thesis by linarith
    qed
  qed
qed

text \<open>Writes inside a live block do not disturb any free list.\<close>

lemma free_list_frame:
  assumes "heap_core s prs L" "extent s prs L p n" "pr \<in> set prs" "free_list (kmem s) (prefs s pr) fl"
    and "p \<notin> set fl" "\<And>a. \<not> (p \<le> a \<and> a < p + n) \<Longrightarrow> m' a = kmem s a"
  shows "free_list m' (prefs s pr) fl"
proof (rule free_list_cong [OF assms(4)])
  fix q assume q: "q \<in> set fl"
  then have qb: "q \<in> blocks (prefs s pr)" "q \<noteq> p" using assms(4,5) by (auto simp: free_list_def)
  have "\<And>i. i < 4 \<Longrightarrow> m' (q + i) = kmem s (q + i)"
  proof (rule assms(6))
    fix i :: nat assume "i < 4"
    then show "\<not> (p \<le> q + i \<and> q + i < p + n)"
      using extent_free_apart [OF assms(1-3) qb] core_block(5) [OF assms(1,3) qb(1)] by linarith
  qed
  from this [of 0] this [of 1] this [of 2] this [of 3]
  show "fl_next m' q = fl_next (kmem s) q" by (simp add: fl_next_def load_long_def)
qed

section \<open>Taking a block from a page\<close>

lemma PR_cong: "pageaddr_and_blocktype r' = pageaddr_and_blocktype r \<Longrightarrow>
    PR_PAGEADDR r' = PR_PAGEADDR r \<and> PR_BLOCKTYPE r' = PR_BLOCKTYPE r \<and> pr_size r' = pr_size r \<and> blocks r' = blocks r"
  by (simp add: PR_PAGEADDR_def PR_BLOCKTYPE_def pr_size_def blocks_def)

lemma heap_links_cong:
  assumes "heap_links s prs" "allbase s' = allbase s" "sizebases s' = sizebases s"
    and "\<And>p. p \<in> set prs \<Longrightarrow> next_all (prefs s' p) = next_all (prefs s p) \<and>
      next_samesize (prefs s' p) = next_samesize (prefs s p) \<and> PR_BLOCKTYPE (prefs s' p) = PR_BLOCKTYPE (prefs s p)"
  shows "heap_links s' prs"
proof -
  have "chain (\<lambda>p. next_all (prefs s' p)) q prs = chain (\<lambda>p. next_all (prefs s p)) q prs" for q
    using assms(4) by (intro chain_cong) simp
  moreover have "filter (\<lambda>p. PR_BLOCKTYPE (prefs s' p) = t) prs = filter (\<lambda>p. PR_BLOCKTYPE (prefs s p) = t) prs" for t
    using assms(4) by (intro filter_cong) auto
  moreover have "chain (\<lambda>p. next_samesize (prefs s' p)) q (filter P prs) = chain (\<lambda>p. next_samesize (prefs s p)) q (filter P prs)" for q P
    using assms(4) by (intro chain_cong) simp
  ultimately show ?thesis using assms(1-3) by (simp add: heap_links_def)
qed

lemma roots_inv_cong:
  "roots_inv s prs \<Longrightarrow> kheaproots s' = kheaproots s \<Longrightarrow> firstpaddr s' = firstpaddr s \<Longrightarrow> lastpaddr s' = lastpaddr s \<Longrightarrow>
    roots_inv s' prs"
  by (simp add: roots_inv_def ref_at_def)

text \<open>Changing only a page's free list and memory.\<close>

lemma core_upd:
  assumes core: "heap_core s prs L" and pr: "pr \<in> set prs"
    and f: "next_samesize (f (prefs s pr)) = next_samesize (prefs s pr)" "next_all (f (prefs s pr)) = next_all (prefs s pr)"
      "pageaddr_and_blocktype (f (prefs s pr)) = pageaddr_and_blocktype (prefs s pr)"
    and this_page: "page_inv m' L' (f (prefs s pr))"
    and others: "\<And>pr'. pr' \<in> set prs \<Longrightarrow> pr' \<noteq> pr \<Longrightarrow> page_inv m' L' (prefs s pr')"
    and big: "\<And>p sz. L' p = Some sz \<Longrightarrow> sz \<ge> 2048 \<Longrightarrow> L p = Some sz"
    and small: "\<And>p sz. L' p = Some sz \<Longrightarrow> sz < 2048 \<Longrightarrow> \<exists>pr\<in>set prs. p \<in> blocks (prefs s pr)"
  shows "heap_core (set_pref pr f (s\<lparr>kmem := m'\<rparr>)) prs L'" (is "heap_core ?s' prs L'")
proof -
  note PR = PR_cong [OF f(3)]
  have "heap_links ?s' prs"
    by (rule heap_links_cong [of s]) (use core f PR in \<open>auto simp: heap_core_def\<close>)
  moreover have "roots_inv ?s' prs"
    by (rule roots_inv_cong [of s]) (use core in \<open>auto simp: heap_core_def\<close>)
  moreover have "regions_ok (region ?s' prs L') (heap_top ?s')"
  proof (rule regions_sub)
    show "regions_ok (region s prs L) (heap_top s)" using core by (simp add: heap_core_def)
    show "heap_top s \<le> heap_top ?s'" by (simp add: heap_top_def)
    show "region ?s' prs L' x = None \<or> region ?s' prs L' x = region s prs L x" for x
      using PR big by (cases x) (auto split: option.splits)
  qed
  moreover have "ram_ok ?s'" using core by (simp add: heap_core_def ram_ok_def)
  moreover have "\<forall>p\<in>set prs. page_inv (kmem ?s') L' (prefs ?s' p)" using this_page others by simp
  moreover have "\<forall>p sz. L' p = Some sz \<longrightarrow> sz < 2048 \<longrightarrow> (\<exists>x\<in>set prs. p \<in> blocks (prefs ?s' x))"
  proof -
    have "blocks (prefs ?s' x) = blocks (prefs s x)" for x using PR by simp
    then show ?thesis using small by simp
  qed
  ultimately show ?thesis by (simp add: heap_core_def)
qed

lemma page_inv_live:
  assumes "page_inv m L r" "\<And>p. p \<in> blocks r \<Longrightarrow> L' p = L p"
  shows "page_inv m L' r"
  using assms by (auto simp: page_inv_def)

lemma page_inv_mem:
  assumes "page_inv m L r" "\<And>x. x \<in> blocks r \<Longrightarrow> fl_next m' x = fl_next m x"
  shows "page_inv m' L r"
proof -
  have "free_list m' r fl" if "free_list m r fl" for fl
    by (rule free_list_cong [OF that]) (use that assms(2) in \<open>auto simp: free_list_def\<close>)
  then show ?thesis using assms(1) unfolding page_inv_def by blast
qed

lemma doalloc_core:
  assumes core: "heap_core s prs L" and sl: "can_sleep s" and pr: "pr \<in> set prs" "nfree (prefs s pr) > 0"
    and sz: "sz \<le> pr_size (prefs s pr)" "sz < 2048"
  shows "\<exists>p s'. doalloc pr (lk s) = Some (p, s') \<and> can_sleep s' \<and> heap_core s' prs (L(p \<mapsto> sz)) \<and>
    L p = None \<and> p \<noteq> 0 \<and> kmem s' = kmem s \<and> heap_top s' = heap_top s"
proof -
  let ?r = "prefs s pr"
  obtain fl where fl: "free_list (kmem s) ?r fl"
    and use: "\<forall>p\<in>blocks ?r. if p \<in> set fl then L p = None else \<exists>sz. L p = Some sz \<and> sz \<le> pr_size ?r \<and> sz < 2048"
    using core_pref_inv [OF core pr(1)] by (auto simp: page_inv_def)
  obtain p fl' where p: "fl = p # fl'" using fl pr(2) by (cases fl) (auto simp: free_list_def)
  have c: "fl_head ?r = p" "p \<noteq> 0" "chain (fl_next (kmem s)) (fl_next (kmem s) p) fl'" "p \<in> blocks ?r" "p \<notin> set fl'" "distinct fl'"
      "set fl' \<subseteq> blocks ?r" "nfree ?r = Suc (length fl')"
    using fl p by (auto simp: free_list_def)
  note pg = core_page [OF core pr(1)]
  have len: "length fl' < 256" using free_list_length(2) [OF fl pg(5)] p by simp
  have off: "PR_PAGEADDR ?r + freelist_offset ?r = p" "freelist_offset ?r < PAGE_SIZE"
    using c(1,2) core_block [OF core pr(1) c(4)] by (auto simp: fl_head_def split: if_splits)
  define off' where "off' = (if fl' = [] then INVALID_OFFSET else hd fl' - PR_PAGEADDR ?r)"
  define f where "f = (\<lambda>r :: pageref. r\<lparr>nfree := length fl', freelist_offset := off'\<rparr>)"
  have run: "doalloc pr (lk s) = Some (p, set_pref pr f s)"
  proof -
    have nf: "(nfree ?r + 2 ^ 16 - 1) mod 2 ^ 16 = length fl'" using c(8) len by simp
    show ?thesis
    proof (cases fl')
      case Nil
      then show ?thesis using c(3) off sl nf km_release_run [of "set_pref pr f s"]
        by (simp add: doalloc_def Let_def lk_upd fl_next_def set_pref_def f_def off'_def)
    next
      case (Cons q fl'')
      have q: "unat (load_long (kmem s) p) = q" "q \<noteq> 0" using c(3) Cons by (auto simp: fl_next_def)
      note qb = core_block [OF core pr(1), of q]
      have "q \<in> blocks ?r" using c(7) Cons by auto
      then have "(q + 2 ^ 32 - PR_PAGEADDR ?r) mod 2 ^ 32 = q - PR_PAGEADDR ?r" "q - PR_PAGEADDR ?r < PAGE_SIZE"
        using qb by (auto simp: mod_if)
      then show ?thesis using q off sl nf Cons km_release_run [of "set_pref pr f s"]
        by (simp add: doalloc_def Let_def lk_upd set_pref_def f_def off'_def)
    qed
  qed
  have "heap_core (set_pref pr f (s\<lparr>kmem := kmem s\<rparr>)) prs (L(p \<mapsto> sz))"
  proof (rule core_upd [OF core pr(1)])
    show "next_samesize (f ?r) = next_samesize ?r" "next_all (f ?r) = next_all ?r"
      and pab: "pageaddr_and_blocktype (f ?r) = pageaddr_and_blocktype ?r" by (simp_all add: f_def)
    note PR = PR_cong [OF pab]
    have "fl_head (f ?r) = (case fl' of [] \<Rightarrow> 0 | q # _ \<Rightarrow> q)"
    proof (cases fl')
      case (Cons q fl'')
      then have "q \<in> blocks ?r" using c(7) by simp
      from core_block [OF core pr(1) this] have "q - PR_PAGEADDR ?r < PAGE_SIZE" "PR_PAGEADDR ?r \<le> q" by linarith+
      then show ?thesis using Cons PR by (simp add: fl_head_def f_def off'_def)
    qed (simp add: fl_head_def f_def off'_def)
    then have "chain (fl_next (kmem s)) (fl_head (f ?r)) fl'" using c(3) by (cases fl') auto
    then have "free_list (kmem s) (f ?r) fl'" using c(6,7) PR by (simp add: free_list_def f_def)
    moreover have "PR_BLOCKTYPE (f ?r) < NSIZES" using PR pg by simp
    moreover have "\<forall>x\<in>blocks (f ?r). if x \<in> set fl' then (L(p \<mapsto> sz)) x = None
        else \<exists>n. (L(p \<mapsto> sz)) x = Some n \<and> n \<le> pr_size (f ?r) \<and> n < 2048"
      using use p c(5) PR sz by auto
    ultimately show "page_inv (kmem s) (L(p \<mapsto> sz)) (f ?r)" unfolding page_inv_def by blast
    show "page_inv (kmem s) (L(p \<mapsto> sz)) (prefs s pr')" if "pr' \<in> set prs" "pr' \<noteq> pr" for pr'
      using core_pref_inv [OF core that(1)] core_block_owner [OF core pr(1) c(4) that(1)] that(2)
      by (elim page_inv_live) auto
    show "L q = Some n" if "(L(p \<mapsto> sz)) q = Some n" "n \<ge> 2048" for q n
      using that sz by (auto split: if_splits)
    show "\<exists>x\<in>set prs. q \<in> blocks (prefs s x)" if "(L(p \<mapsto> sz)) q = Some n" "n < 2048" for q n
      using that core c(4) pr(1) by (auto simp: heap_core_def split: if_splits)
  qed
  moreover have "L p = None" using use c(4) p by auto
  ultimately show ?thesis using run sl c(2) by (auto simp: heap_top_def)
qed

section \<open>Allocating a pageref\<close>

definition with_roots :: "kheap \<Rightarrow> (owner \<Rightarrow> (nat \<times> nat) option) \<Rightarrow> owner \<Rightarrow> (nat \<times> nat) option" where
  "with_roots s R x = (case x of
     Root r \<Rightarrow> if r < 16 \<and> kr_page (kheaproots s ! r) \<noteq> 0 then Some (kr_page (kheaproots s ! r), PAGE_SIZE) else None
   | _ \<Rightarrow> R x)"

lemma region_with_roots: "with_roots s (region s prs L) = region s prs L"
  by (rule ext) (auto simp: with_roots_def split: owner.splits)

lemma ref_at_unique:
  assumes "regions_ok (with_roots s R) lim" "ref_at s p r j" "ref_at s p r' j'"
  shows "r' = r \<and> j' = j"
proof (cases "r' = r")
  case True
  then show ?thesis using assms by (auto simp: ref_at_def)
next
  case False
  have "j < 256" "j' < 256" using assms(2,3) by (auto simp: ref_at_def used_refs_def)
  moreover have "kr_page (kheaproots s ! r) + PAGE_SIZE \<le> kr_page (kheaproots s ! r') \<or>
      kr_page (kheaproots s ! r') + PAGE_SIZE \<le> kr_page (kheaproots s ! r)"
    using regions_apart [OF assms(1), of "Root r" _ _ "Root r'"] assms(2,3) False by (auto simp: ref_at_def with_roots_def)
  ultimately show ?thesis using assms(2,3) by (auto simp: ref_at_def)
qed

lemma and_bit_0: "(w AND push_bit j 1 = 0) \<longleftrightarrow> \<not> bit w j" for w :: u32
  by (simp add: and_exp_eq_0_iff_not_bit)

lemma free_bit_Some: "free_bit w = Some j \<Longrightarrow> j < 32 \<and> \<not> bit w j"
  by (auto simp: free_bit_def find_Some_iff and_exp_eq_0_iff_not_bit)

lemma free_bit_None: "free_bit w = None \<Longrightarrow> w = 0xffffffff"
proof -
  assume "free_bit w = None"
  then have "\<forall>j<32. bit w j" by (auto simp: free_bit_def find_None_iff and_exp_eq_0_iff_not_bit)
  then have "w = - 1" by (intro bit_word_eqI) simp
  then show ?thesis by simp
qed

lemma free_word_Some: "free_word ws = Some i \<Longrightarrow> i < 8 \<and> ws ! i \<noteq> 0xffffffff"
  by (auto simp: free_word_def find_Some_iff)

lemma used_refs_finite [simp]: "finite (used_refs k)"
  by (simp add: used_refs_def)

lemma free_word_None:
  assumes "root_inv k" "free_word (pagerefs_inuse k) = None"
  shows "numinuse k = 256"
proof -
  have "\<forall>i<8. pagerefs_inuse k ! i = - 1" using assms(2) by (auto simp: free_word_def find_None_iff)
  then have "bit (pagerefs_inuse k ! (j div 32)) (j mod 32)" if "j < 256" for j
    using that by (simp add: less_mult_imp_div_less)
  then have "used_refs k = {..<256}" by (auto simp: used_refs_def)
  then show ?thesis using assms(1) by (simp add: root_inv_def)
qed

text \<open>Setting the bit of a free pageref.\<close>

lemma used_refs_set:
  assumes "root_inv k" "i < 8" "j < 32" "\<not> bit (pagerefs_inuse k ! i) j"
    and "k' = k\<lparr>pagerefs_inuse := (pagerefs_inuse k)[i := pagerefs_inuse k ! i OR push_bit j 1], numinuse := numinuse k + 1\<rparr>"
  shows "used_refs k' = insert (i * 32 + j) (used_refs k)" "i * 32 + j \<notin> used_refs k" "root_inv k'"
proof -
  have bits: "bit (pagerefs_inuse k ! i OR push_bit j 1) n \<longleftrightarrow> bit (pagerefs_inuse k ! i) n \<or> n = j" if "n < 32" for n
    using that by (auto simp: bit_simps)
  have "x \<in> used_refs k' \<longleftrightarrow> x = i * 32 + j \<or> x \<in> used_refs k" for x
  proof (cases "x < 256 \<and> x div 32 = i")
    case True
    then have "x \<in> used_refs k' \<longleftrightarrow> bit (pagerefs_inuse k ! i) (x mod 32) \<or> x mod 32 = j"
      using assms(1,2,5) bits [of "x mod 32"] by (simp add: used_refs_def root_inv_def)
    moreover have "x mod 32 = j \<longleftrightarrow> x = i * 32 + j" using True assms(3) by presburger
    ultimately show ?thesis using True by (auto simp: used_refs_def)
  next
    case False
    then show ?thesis using assms by (auto simp: used_refs_def)
  qed
  then show u: "used_refs k' = insert (i * 32 + j) (used_refs k)" by blast
  show n: "i * 32 + j \<notin> used_refs k" using assms(3,4) by (simp add: used_refs_def)
  show "root_inv k'" using assms(1,5) u n by (simp add: root_inv_def)
qed

lemma allocpagerefpage_run:
  assumes "can_sleep s" "ram_ok s" "kr_page (kheaproots s ! r) = 0"
  shows "allocpagerefpage r (lk s) = Some (if firstpaddr s + PAGE_SIZE > lastpaddr s then lk s
    else lk (set_root r (\<lambda>k. k\<lparr>kr_page := heap_top s\<rparr>) (s\<lparr>firstpaddr := firstpaddr s + PAGE_SIZE\<rparr>)))"
proof -
  have "heap_top s \<noteq> 0" "heap_top s mod PAGE_SIZE = 0" using ram_ok_top [OF assms(2)] by auto
  then show ?thesis using assms alloc_kpages_run [OF assms(1,2), of 1]
    by (simp add: allocpagerefpage_def km_release_run km_acquire_run lk_upd)
qed

lemma roots_upd:
  assumes inv: "roots_inv s prs" and r: "r < 16"
    and s': "kheaproots s' = (kheaproots s)[r := k']" "lastpaddr s' = lastpaddr s" "firstpaddr s \<le> firstpaddr s'"
    and k': "root_inv k'" "used_refs (kheaproots s ! r) \<subseteq> used_refs k'"
    and page: "kr_page k' = kr_page (kheaproots s ! r) \<or>
      kr_page (kheaproots s ! r) = 0 \<and> (\<forall>r'<r. kr_page (kheaproots s ! r') \<noteq> 0)"
    and out: "kr_page k' = 0 \<Longrightarrow> numinuse k' \<noteq> 0 \<Longrightarrow> firstpaddr s' + PAGE_SIZE > lastpaddr s'"
  shows "roots_inv s' prs" "\<And>p r0 j0. ref_at s p r0 j0 \<Longrightarrow> ref_at s' p r0 j0"
proof -
  have len: "length (kheaproots s) = 16" using inv by (simp add: roots_inv_def)
  show ref: "ref_at s' p r0 j0" if "ref_at s p r0 j0" for p r0 j0
    using that k'(2) page len by (cases "r0 = r") (auto simp: ref_at_def s')
  have "\<forall>k\<in>set (kheaproots s'). root_inv k" "length (kheaproots s') = 16"
    using inv k'(1) len set_update_subset_insert [of "kheaproots s" r k'] by (auto simp: roots_inv_def s')
  moreover have "\<forall>pr\<in>set prs. \<exists>r j. ref_at s' pr r j" using inv ref unfolding roots_inv_def by blast
  moreover have "kr_page (kheaproots s' ! a) = 0 \<longrightarrow> kr_page (kheaproots s' ! b) = 0" if "b < 16" "a < b" for a b
  proof -
    have "kr_page (kheaproots s ! a) = 0 \<longrightarrow> kr_page (kheaproots s ! b) = 0" using inv that by (simp add: roots_inv_def)
    then show ?thesis using that page len r by (auto simp: s' nth_list_update)
  qed
  moreover have "\<forall>k\<in>set (kheaproots s'). kr_page k = 0 \<longrightarrow> numinuse k \<noteq> 0 \<longrightarrow> firstpaddr s' + PAGE_SIZE > lastpaddr s'"
    using inv out s'(2,3) set_update_subset_insert [of "kheaproots s" r k'] by (fastforce simp: roots_inv_def s'(1))
  ultimately show "roots_inv s' prs" by (simp add: roots_inv_def)
qed

definition ref_result :: "kheap \<Rightarrow> nat list \<Rightarrow> (owner \<Rightarrow> (nat \<times> nat) option) \<Rightarrow> nat \<Rightarrow> kheap \<Rightarrow> bool" where
  "ref_result s prs R p s' \<longleftrightarrow> can_sleep s' \<and> ram_ok s' \<and> prefs s' = prefs s \<and> sizebases s' = sizebases s \<and>
     allbase s' = allbase s \<and> kmem s' = kmem s \<and> heap_top s \<le> heap_top s' \<and> roots_inv s' prs \<and> regions_ok (with_roots s' R) (heap_top s') \<and>
     (p \<noteq> 0 \<longrightarrow> p \<notin> set prs \<and> (\<exists>r j. ref_at s' p r j))"

lemma take_pageref_run:
  assumes sl: "can_sleep s" and ram: "ram_ok s" and inv: "roots_inv s prs"
    and reg: "regions_ok (with_roots s R) (heap_top s)"
    and r: "r < 16" and full: "\<forall>r'<r. numinuse (kheaproots s ! r') \<noteq> 0"
    and ij: "i < 8" "j < 32" "\<not> bit (pagerefs_inuse (kheaproots s ! r) ! i) j"
  shows "\<exists>p s'. take_pageref r i j (lk s) = Some (p, lk s') \<and> ref_result s prs R p s'"
proof -
  let ?k = "kheaproots s ! r" and ?x = "i * 32 + j"
  define g where "g = (\<lambda>k :: kheap_root. k\<lparr>pagerefs_inuse := (pagerefs_inuse k)[i := pagerefs_inuse k ! i OR push_bit j 1],
                                   numinuse := numinuse k + 1\<rparr>)"
  have len: "length (kheaproots s) = 16" and kinv: "root_inv ?k" using inv r by (auto simp: roots_inv_def)
  have "g ?k = ?k\<lparr>pagerefs_inuse := (pagerefs_inuse ?k)[i := pagerefs_inuse ?k ! i OR push_bit j 1],
                  numinuse := numinuse ?k + 1\<rparr>" by (simp only: g_def)
  note u = used_refs_set [OF kinv ij this]
  have sub: "used_refs ?k \<subseteq> used_refs (g ?k)" using u(1) by auto
  have upd: "kr_page (g ?k) = kr_page ?k" "numinuse (g ?k) \<noteq> 0" by (simp_all add: g_def)
  let ?s1 = "set_root r g s"
  have take: "take_pageref r i j (lk s) =
      do { s' \<leftarrow> (if kr_page ?k = 0 then allocpagerefpage r (lk ?s1) else Some (lk ?s1));
           if kr_page (kheaproots s' ! r) = 0 then Some (0, s') else Some (kr_page (kheaproots s' ! r) + 16 * ?x, s') }"
    unfolding take_pageref_def g_def [symmetric] using r len by (simp add: lk_upd upd)
  have ram1: "ram_ok ?s1" "heap_top ?s1 = heap_top s" using ram by (simp_all add: ram_ok_def heap_top_def)
  have new: "p \<notin> set prs" if "roots_inv s' prs" "\<And>q r0 j0. ref_at s q r0 j0 \<Longrightarrow> ref_at s' q r0 j0"
      "regions_ok (with_roots s' R) lim" "ref_at s' p r ?x" for p s' lim
  proof
    assume "p \<in> set prs"
    then obtain r0 j0 where "ref_at s p r0 j0" using inv by (auto simp: roots_inv_def)
    with ref_at_unique [OF that(3) that(2) [OF this] that(4)] u(2) show False by (auto simp: ref_at_def)
  qed
  consider (have_page) "kr_page ?k \<noteq> 0" | (no_memory) "kr_page ?k = 0" "firstpaddr s + PAGE_SIZE > lastpaddr s"
    | (new_page) "kr_page ?k = 0" "firstpaddr s + PAGE_SIZE \<le> lastpaddr s" by linarith
  then show ?thesis
  proof cases
    case have_page
    note ru = roots_upd [OF inv r, of ?s1 "g ?k", simplified, OF u(3) sub]
    have wr: "with_roots ?s1 R = with_roots s R"
      using r len upd by (auto simp: with_roots_def fun_eq_iff nth_list_update split: owner.splits)
    have at: "ref_at ?s1 (kr_page ?k + 16 * ?x) r ?x" using r len have_page u(1) upd by (simp add: ref_at_def)
    have inv1: "roots_inv ?s1 prs" "\<And>q r0 j0. ref_at s q r0 j0 \<Longrightarrow> ref_at ?s1 q r0 j0" using ru upd have_page by auto
    then have "ref_result s prs R (kr_page ?k + 16 * ?x) ?s1"
      unfolding ref_result_def using sl ram1 reg wr at new [OF inv1 _ at] by auto
    then show ?thesis using take have_page r len upd by auto
  next
    case no_memory
    have "roots_inv ?s1 prs" using roots_upd(1) [OF inv r, of ?s1 "g ?k", simplified, OF u(3) sub] upd no_memory by simp
    moreover have "with_roots ?s1 R = with_roots s R"
      using r len upd by (auto simp: with_roots_def fun_eq_iff nth_list_update split: owner.splits)
    ultimately have "ref_result s prs R 0 ?s1" using sl ram1 reg by (simp add: ref_result_def)
    then show ?thesis using take no_memory r len upd sl ram1 allocpagerefpage_run [of ?s1 r] by auto
  next
    case new_page
    define h where "h = (\<lambda>k :: kheap_root. k\<lparr>kr_page := heap_top s\<rparr>)"
    define s2 where "s2 = set_root r h (?s1\<lparr>firstpaddr := firstpaddr s + PAGE_SIZE\<rparr>)"
    have "heap_top s \<noteq> 0" and top: "heap_top s mod PAGE_SIZE = 0" "MIPS_KSEG0 < heap_top s" using ram_ok_top [OF ram] by auto
    have s2: "kheaproots s2 = (kheaproots s)[r := h (g ?k)]" "firstpaddr s2 = firstpaddr s + PAGE_SIZE" "lastpaddr s2 = lastpaddr s"
      using r len by (simp_all add: s2_def)
    have hk: "kr_page (h (g ?k)) = heap_top s" "root_inv (h (g ?k))" "used_refs (h (g ?k)) = used_refs (g ?k)"
      using u(3) by (simp_all add: h_def root_inv_def used_refs_def)
    have earlier: "\<forall>r'<r. kr_page (kheaproots s ! r') \<noteq> 0"
    proof (intro allI impI)
      fix r' assume "r' < r"
      then have "kheaproots s ! r' \<in> set (kheaproots s)" "numinuse (kheaproots s ! r') \<noteq> 0" using r len full by auto
      then show "kr_page (kheaproots s ! r') \<noteq> 0" using inv new_page(2) by (fastforce simp: roots_inv_def)
    qed
    have inv2: "roots_inv s2 prs" "\<And>q r0 j0. ref_at s q r0 j0 \<Longrightarrow> ref_at s2 q r0 j0"
      using roots_upd [OF inv r s2(1,3) _ hk(2)] s2(2) hk sub new_page(1) earlier \<open>heap_top s \<noteq> 0\<close> by auto
    have "with_roots s2 R = (with_roots s R)(Root r := Some (heap_top s, PAGE_SIZE))"
      using r len hk \<open>heap_top s \<noteq> 0\<close> by (auto simp: with_roots_def fun_eq_iff nth_list_update s2 split: owner.splits)
    then have reg2: "regions_ok (with_roots s2 R) (heap_top s2)"
      using regions_add [OF reg top, of "Root r" PAGE_SIZE] by (simp add: heap_top_def s2 add.assoc)
    have at: "ref_at s2 (heap_top s + 16 * ?x) r ?x" using r len u(1) hk \<open>heap_top s \<noteq> 0\<close> by (simp add: ref_at_def s2)
    have "ram_ok s2" using ram new_page(2) by (auto simp: ram_ok_def s2 mod_add_eq [symmetric])
    moreover have "heap_top s \<le> heap_top s2" by (simp add: heap_top_def s2)
    ultimately have "ref_result s prs R (heap_top s + 16 * ?x) s2"
      unfolding ref_result_def using sl inv2(1) reg2 at new [OF inv2 reg2 at] by (auto simp: s2_def)
    moreover have "allocpagerefpage r (lk ?s1) = Some (lk s2)"
      using new_page ram1 sl allocpagerefpage_run [of ?s1 r] r len upd by (simp add: s2_def h_def)
    ultimately show ?thesis using take new_page(1) s2(1) r len hk(1) \<open>heap_top s \<noteq> 0\<close> by auto
  qed
qed

lemma allocpageref_loop_run:
  assumes "can_sleep s" "ram_ok s" "roots_inv s prs" "regions_ok (with_roots s R) (heap_top s)"
    and "n \<le> 16" "\<forall>r'<n. numinuse (kheaproots s ! r') \<noteq> 0"
  shows "\<exists>p s'. allocpageref_loop [n..<16] (lk s) = Some (p, lk s') \<and> ref_result s prs R p s'"
  using assms(5,6)
proof (induction "16 - n" arbitrary: n)
  case 0
  then show ?case using assms(1-4) by (auto simp: ref_result_def)
next
  case (Suc m)
  let ?k = "kheaproots s ! n"
  have n: "n < 16" "[n..<16] = n # [Suc n..<16]" using Suc.hyps(2) by (simp_all add: upt_conv_Cons)
  have k: "root_inv ?k" using assms(3) n(1) by (simp add: roots_inv_def)
  have skip: ?case if "numinuse ?k \<noteq> 0" "allocpageref_loop [n..<16] (lk s) = allocpageref_loop [Suc n..<16] (lk s)"
    using Suc that n(1) by (auto simp: less_Suc_eq)
  show ?case
  proof (cases "numinuse ?k \<ge> 256")
    case True
    then show ?thesis by (intro skip) (simp_all add: n(2))
  next
    case False
    show ?thesis
    proof (cases "free_word (pagerefs_inuse ?k)")
      case None
      with False free_word_None [OF k] show ?thesis by simp
    next
      case (Some i)
      note i = free_word_Some [OF Some]
      obtain j where j: "free_bit (pagerefs_inuse ?k ! i) = Some j" using i free_bit_None by blast
      then show ?thesis
        using take_pageref_run [OF assms(1-4) n(1) Suc.prems(2), of i j] i free_bit_Some [OF j] False Some n(2) by simp
    qed
  qed
qed

lemma allocpageref_run:
  assumes "can_sleep s" "ram_ok s" "roots_inv s prs" "regions_ok (with_roots s R) (heap_top s)"
  shows "\<exists>p s'. allocpageref (lk s) = Some (p, lk s') \<and> ref_result s prs R p s'"
  using allocpageref_loop_run [OF assms, of 0] by (simp add: allocpageref_def)

section \<open>A fresh heap page\<close>

lemma init_freelist_run:
  assumes "16 \<le> sz" "base + n * sz \<le> 2 ^ 32" "1 \<le> k" "k \<le> n"
    and "chain (fl_next m) (base + (k - 1) * sz) (map (\<lambda>i. base + i * sz) (rev [0..<k]))"
  shows "\<exists>m'. init_freelist base sz [k..<n] m = Some m' \<and>
    chain (fl_next m') (base + (n - 1) * sz) (map (\<lambda>i. base + i * sz) (rev [0..<n])) \<and>
    (\<forall>a. \<not> (base \<le> a \<and> a < base + n * sz) \<longrightarrow> m' a = m a)"
  using assms(3-5)
proof (induction "n - k" arbitrary: k m)
  case 0
  then show ?case by auto
next
  case (Suc d)
  define m1 where "m1 = store_long (base + k * sz) (word_of_nat (base + (k - 1) * sz)) m"
  have k: "[k..<n] = k # [Suc k..<n]" "k < n" using Suc.hyps(2) by (simp_all add: upt_conv_Cons)
  have le: "i * sz + sz \<le> k * sz" if "i < k" for i using mult_le_mono1 [of "Suc i" k sz] that by simp
  have kn: "k * sz + sz \<le> n * sz" using mult_le_mono1 [of "Suc k" n sz] k(2) by simp
  have prev: "(k - 1) * sz + sz \<le> k * sz" using le [of "k - 1"] Suc.prems(1) by simp
  have nxt: "fl_next m1 (base + k * sz) = base + (k - 1) * sz"
  proof -
    have "base + (k - 1) * sz < 2 ^ LENGTH(32)" using assms(1,2) kn prev by simp
    then show ?thesis unfolding m1_def fl_next_def load_store_same by (simp only: unat_of_nat take_bit_nat_eq_self_iff [THEN iffD2] flip: take_bit_eq_mod)
  qed
  have old: "fl_next m1 x = fl_next m x" if "x \<in> set (map (\<lambda>i. base + i * sz) (rev [0..<k]))" for x
    using that le assms(1) unfolding fl_next_def m1_def by (subst load_store_other) fastforce+
  have "chain (fl_next m1) (base + (k - 1) * sz) (map (\<lambda>i. base + i * sz) (rev [0..<k]))"
    using Suc.prems(3) chain_cong [of _ "fl_next m1" "fl_next m", OF old] by blast
  then have c: "chain (fl_next m1) (base + (Suc k - 1) * sz) (map (\<lambda>i. base + i * sz) (rev [0..<Suc k]))"
    using nxt Suc.prems(1) assms(1) by simp
  have "d = n - Suc k" using Suc.hyps(2) by simp
  from Suc.hyps(1) [OF this _ _ c] k(2) obtain m' where m': "init_freelist base sz [Suc k..<n] m1 = Some m'"
      "chain (fl_next m') (base + (n - 1) * sz) (map (\<lambda>i. base + i * sz) (rev [0..<n]))"
      "\<forall>a. \<not> (base \<le> a \<and> a < base + n * sz) \<longrightarrow> m' a = m1 a" by auto
  moreover have "m1 a = m a" if "\<not> (base \<le> a \<and> a < base + n * sz)" for a
    using that kn assms(1) by (auto simp: m1_def store_long_def)
  moreover have "base + k * sz \<noteq> unat (load_long m1 (base + k * sz))"
    using nxt prev assms(1) unfolding fl_next_def by linarith
  then have "init_freelist base sz [k..<n] m = init_freelist base sz [Suc k..<n] m1"
    unfolding k(1) init_freelist.simps m1_def [symmetric] Let_def by simp
  ultimately show ?case by (intro exI [of _ m']) auto
qed

definition core_fresh :: "kheap \<Rightarrow> nat list \<Rightarrow> (nat \<rightharpoonup> nat) \<Rightarrow> nat \<Rightarrow> bool" where
  "core_fresh s prs L pg \<longleftrightarrow> heap_core s prs L \<and>
     regions_ok ((region s prs L)(Heap 0 := Some (pg, PAGE_SIZE))) (heap_top s)"

lemma fresh_apart:
  assumes "core_fresh s prs L pg" "region s prs L x = Some (b, n)"
  shows "b + n \<le> pg \<or> pg + PAGE_SIZE \<le> b"
proof -
  have "heap_core s prs L" using assms(1) by (simp add: core_fresh_def)
  then have "x \<noteq> Heap 0" using assms(2) core_nonzero [of s prs L 0] by (auto split: if_splits)
  then show ?thesis
    using assms regions_apart [of "(region s prs L)(Heap 0 := Some (pg, PAGE_SIZE))" "heap_top s" x b n "Heap 0" pg PAGE_SIZE]
    by (simp add: core_fresh_def)
qed

lemma fresh_not_live:
  assumes fr: "core_fresh s prs L pg" and L: "L p = Some sz"
  shows "\<not> (pg \<le> p \<and> p < pg + PAGE_SIZE)"
proof (cases "sz \<ge> 2048")
  case True
  with L have "p + span sz \<le> pg \<or> pg + PAGE_SIZE \<le> p" by (intro fresh_apart [OF fr, of "Big p"]) simp
  then show ?thesis using span_bounds(1) [of sz] True by auto
next
  case False
  have core: "heap_core s prs L" using fr by (simp add: core_fresh_def)
  then obtain pr where pr: "pr \<in> set prs" "p \<in> blocks (prefs s pr)" using L False by (fastforce simp: heap_core_def)
  then have "PR_PAGEADDR (prefs s pr) + PAGE_SIZE \<le> pg \<or> pg + PAGE_SIZE \<le> PR_PAGEADDR (prefs s pr)"
    by (intro fresh_apart [OF fr, of "Heap pr"]) simp
  then show ?thesis using core_block [OF core pr] by linarith
qed

lemma blocks_list:
  assumes "PR_BLOCKTYPE r < NSIZES" "n = PAGE_SIZE div pr_size r"
  shows "set (map (\<lambda>i. PR_PAGEADDR r + i * pr_size r) (rev [0..<n])) = blocks r"
    "distinct (map (\<lambda>i. PR_PAGEADDR r + i * pr_size r) (rev [0..<n]))"
  using assms sizes_nth(1) [OF assms(1)]
  by (auto simp: blocks_def distinct_map inj_on_def pr_size_def)

lemma heap_links_push:
  assumes "heap_links s prs" "pr \<notin> set prs" "pr \<noteq> 0" "t < NSIZES" "PR_BLOCKTYPE r = t"
    and "next_samesize r = sizebases s ! t" "next_all r = allbase s"
    and s': "prefs s' = (prefs s)(pr := r)" "sizebases s' = (sizebases s)[t := pr]" "allbase s' = pr"
  shows "heap_links s' (pr # prs)"
proof -
  let ?same = "\<lambda>s t. filter (\<lambda>p. PR_BLOCKTYPE (prefs s p) = t) prs"
  have f: "?same s' t = ?same s t" for t by (rule filter_cong) (use assms(2) s'(1) in auto)
  have "chain (\<lambda>p. next_samesize (prefs s' p)) q (?same s t) = chain (\<lambda>p. next_samesize (prefs s p)) q (?same s t)" for q t
    by (rule chain_cong) (use assms(2) s'(1) in auto)
  moreover have "chain (\<lambda>p. next_all (prefs s' p)) q prs = chain (\<lambda>p. next_all (prefs s p)) q prs" for q
    by (rule chain_cong) (use assms(2) s'(1) in auto)
  moreover have "filter (\<lambda>p. PR_BLOCKTYPE (prefs s' p) = u) (pr # prs) = (if u = t then pr # ?same s u else ?same s u)" for u
    using f assms(5) by (simp add: fun_upd_same [of "prefs s" pr r, folded s'(1)])
  moreover have "prefs s' pr = r" using s'(1) by simp
  ultimately show ?thesis using assms(1-4,6,7) s'(2,3) by (simp add: heap_links_def nth_list_update)
qed

lemma setup_page_core:
  assumes fr: "core_fresh s prs L pg" and sl: "can_sleep s" and pr: "pr \<notin> set prs" "pr \<noteq> 0" "ref_at s pr r0 j0"
    and t: "t < NSIZES"
  shows "\<exists>s'. setup_page pr pg t (lk s) = Some (lk s') \<and> can_sleep s' \<and> heap_core s' (pr # prs) L \<and>
    nfree (prefs s' pr) > 0 \<and> pr_size (prefs s' pr) = sizes ! t \<and>
    (\<forall>a. \<not> (pg \<le> a \<and> a < pg + PAGE_SIZE) \<longrightarrow> kmem s' a = kmem s a) \<and> heap_top s' = heap_top s"
proof -
  have core: "heap_core s prs L" using fr by (simp add: core_fresh_def)
  define sz where "sz = sizes ! t"
  define n where "n = PAGE_SIZE div sz"
  have sz: "16 \<le> sz" "n * sz = PAGE_SIZE" "2 \<le> n" "n \<le> 256" using sizes_nth [OF t] by (simp_all add: sz_def n_def)
  have pg: "pg mod PAGE_SIZE = 0" "MIPS_KSEG0 < pg" "pg + PAGE_SIZE \<le> heap_top s"
    using fr regions_range [of "(region s prs L)(Heap 0 := Some (pg, PAGE_SIZE))" "heap_top s" "Heap 0" pg PAGE_SIZE]
    by (simp_all add: core_fresh_def)
  have "ram_ok s" using core by (simp add: heap_core_def)
  with pg have hi: "pg + PAGE_SIZE < 2 ^ 32" using ram_ok_top [of s] by simp
  have c0: "chain (fl_next (store_long pg 0 (kmem s))) (pg + (1 - 1) * sz) (map (\<lambda>i. pg + i * sz) (rev [0..<1]))"
    using pg(2) by (simp add: fl_next_def)
  obtain m' where m': "init_freelist pg sz [1..<n] (store_long pg 0 (kmem s)) = Some m'"
      "chain (fl_next m') (pg + (n - 1) * sz) (map (\<lambda>i. pg + i * sz) (rev [0..<n]))"
      "\<forall>a. \<not> (pg \<le> a \<and> a < pg + n * sz) \<longrightarrow> m' a = store_long pg 0 (kmem s) a"
    using init_freelist_run [OF sz(1) _ _ _ c0, of n] sz hi by auto
  then have frame: "m' a = kmem s a" if "\<not> (pg \<le> a \<and> a < pg + PAGE_SIZE)" for a
    using that sz by (auto simp: store_long_def)
  define r where "r = \<lparr>next_samesize = sizebases s ! t, next_all = allbase s, pageaddr_and_blocktype = MKPAB pg t,
    freelist_offset = (n - 1) * sz, nfree = n\<rparr>"
  define s' where "s' = s\<lparr>kmem := m', prefs := (prefs s)(pr := r), sizebases := (sizebases s)[t := pr], allbase := pr\<rparr>"
  have run: "setup_page pr pg t (lk s) = Some (lk s')"
    using m'(1) by (cases s, cases "prefs s pr")
      (simp add: setup_page_def Let_def lk_upd set_pref_def s'_def r_def sz_def [symmetric] n_def [symmetric] lk_def)
  have r: "PR_PAGEADDR r = pg" "PR_BLOCKTYPE r = t" "pr_size r = sz"
    using MKPAB_parts [of pg t] pg hi t by (simp_all add: r_def PR_PAGEADDR_def PR_BLOCKTYPE_def pr_size_def sz_def)
  have "heap_links s' (pr # prs)"
    by (rule heap_links_push [of s prs pr t r]) (use core pr t r in \<open>auto simp: heap_core_def s'_def r_def\<close>)
  moreover have "roots_inv s' (pr # prs)" using core pr(3) by (auto simp: heap_core_def roots_inv_def ref_at_def s'_def)
  moreover have "regions_ok (region s' (pr # prs) L) (heap_top s')"
  proof -
    have R: "regions_ok ((region s prs L)(Heap 0 := Some (pg, PAGE_SIZE))) (heap_top s)" using fr by (simp add: core_fresh_def)
    have eq: "region s' (pr # prs) L x = (if x = Heap pr then Some (pg, PAGE_SIZE) else region s prs L x)" for x
      using r pr by (cases x) (auto simp: s'_def)
    define bk where "bk x = (if x = Heap pr then Heap 0 else x)" for x :: owner
    have nz: "region s prs L (Heap 0) = None" using core_nonzero [OF core] by auto
    have b: "region s' (pr # prs) L x = Some v \<Longrightarrow> ((region s prs L)(Heap 0 := Some (pg, PAGE_SIZE))) (bk x) = Some v" for x v
      using nz by (auto simp: eq bk_def split: if_splits)
    have inj: "bk x = bk y \<Longrightarrow> region s' (pr # prs) L x = Some v \<Longrightarrow> region s' (pr # prs) L y = Some w \<Longrightarrow> x = y" for x y v w
      using nz pr(2) by (auto simp: eq bk_def split: if_splits)
    show ?thesis unfolding regions_ok_def
    proof (intro conjI allI impI)
      fix x b n assume "region s' (pr # prs) L x = Some (b, n)"
      from regions_range [OF R b [OF this]] show "b mod PAGE_SIZE = 0" "MIPS_KSEG0 < b" "b + n \<le> heap_top s'"
        by (simp_all add: heap_top_def s'_def)
    next
      fix x y b n b' n' assume *: "region s' (pr # prs) L x = Some (b, n)" "region s' (pr # prs) L y = Some (b', n')" "x \<noteq> y"
      then have "bk x \<noteq> bk y" using inj by blast
      then show "b + n \<le> b' \<or> b' + n' \<le> b" by (rule regions_apart [OF R b [OF *(1)] b [OF *(2)]])
    qed
  qed
  moreover have "page_inv m' L r"
  proof -
    have bl: "set (map (\<lambda>i. pg + i * sz) (rev [0..<n])) = blocks r" "distinct (map (\<lambda>i. pg + i * sz) (rev [0..<n]))"
      using blocks_list [of r n] t by (simp_all only: r n_def)
    have rn: "nfree r = n" "freelist_offset r = (n - 1) * sz" by (simp_all add: r_def)
    have "free_list m' r (map (\<lambda>i. pg + i * sz) (rev [0..<n]))"
    proof -
      have "(n - 1) * sz \<noteq> INVALID_OFFSET" using sz mult_le_mono1 [of "n - 1" n sz] by simp
      then have "fl_head r = pg + (n - 1) * sz" by (simp add: fl_head_def r(1) rn(2))
      then show ?thesis unfolding free_list_def using m'(2) bl rn(1) by simp
    qed
    moreover have "L p = None" if "p \<in> blocks r" for p
    proof (rule ccontr)
      assume "L p \<noteq> None"
      with fresh_not_live [OF fr] block_range [OF that] r t sz(1) show False by fastforce
    qed
    ultimately show ?thesis unfolding page_inv_def using bl(1) r(2) t by (metis (no_types, lifting))
  qed
  moreover have "page_inv m' L (prefs s q)" if q: "q \<in> set prs" for q
  proof -
    have "fl_next m' x = fl_next (kmem s) x" if "x \<in> blocks (prefs s q)" for x
    proof -
      have "PR_PAGEADDR (prefs s q) + PAGE_SIZE \<le> pg \<or> pg + PAGE_SIZE \<le> PR_PAGEADDR (prefs s q)"
        by (rule fresh_apart [OF fr, of "Heap q"]) (simp add: q)
      then have "m' (x + i) = kmem s (x + i)" if "i < 4" for i
        using core_block [OF core q \<open>x \<in> _\<close>] that by (intro frame) linarith
      from this [of 0] this [of 1] this [of 2] this [of 3] show ?thesis by (simp add: fl_next_def load_long_def)
    qed
    with core_pref_inv [OF core q] show ?thesis by (rule page_inv_mem)
  qed
  moreover have "ram_ok s'" using \<open>ram_ok s\<close> by (simp add: ram_ok_def s'_def)
  moreover have "\<forall>p sz. L p = Some sz \<longrightarrow> sz < 2048 \<longrightarrow> (\<exists>x\<in>set (pr # prs). p \<in> blocks (prefs s' x))"
    using core pr(1) by (fastforce simp: heap_core_def s'_def)
  ultimately have "heap_core s' (pr # prs) L" using pr(1) by (simp add: heap_core_def) (simp add: s'_def)
  moreover have "can_sleep s'" using sl by (simp add: s'_def)
  ultimately show ?thesis using run r(3) sz(3) frame by (intro exI [of _ s']) (simp add: s'_def r_def sz_def heap_top_def)
qed

section \<open>Allocation\<close>

lemma blocktype_run: "sz < 2048 \<Longrightarrow> \<exists>t. blocktype sz = Some t \<and> t < NSIZES \<and> sz \<le> sizes ! t"
proof -
  assume "sz < 2048"
  then have "7 \<in> set [0..<8] \<and> sz \<le> sizes ! 7" by (simp add: sizes_def)
  then have "find (\<lambda>i. sz \<le> sizes ! i) [0..<8] \<noteq> None" unfolding find_None_iff by blast
  then show ?thesis unfolding blocktype_def by (auto simp: find_Some_iff)
qed

lemma live_below:
  assumes "heap_core s prs L" "L p = Some sz"
  shows "p < heap_top s" "MIPS_KSEG0 < p"
proof -
  have "p < heap_top s \<and> MIPS_KSEG0 < p"
  proof (cases "sz \<ge> 2048")
    case True
    with assms regions_range [of "region s prs L" "heap_top s" "Big p" p "span sz"] span_bounds(1) [of sz]
    show ?thesis by (simp add: heap_core_def)
  next
    case False
    with assms obtain pr where pr: "pr \<in> set prs" "p \<in> blocks (prefs s pr)" by (fastforce simp: heap_core_def)
    from core_block [OF assms(1) pr] core_page(3) [OF assms(1) pr(1)] show ?thesis by linarith
  qed
  then show "p < heap_top s" "MIPS_KSEG0 < p" by simp_all
qed

lemma fresh_after_ref:
  assumes core: "heap_core s prs L" and s1: "s1 = s\<lparr>firstpaddr := firstpaddr s + PAGE_SIZE\<rparr>"
    and R: "R = (region s prs L)(Heap 0 := Some (heap_top s, PAGE_SIZE))" and ref: "ref_result s1 prs R p s2"
  shows "core_fresh s2 prs L (heap_top s)"
proof -
  have same: "prefs s2 = prefs s" "sizebases s2 = sizebases s" "allbase s2 = allbase s" "kmem s2 = kmem s"
    using ref by (simp_all add: ref_result_def s1)
  have eq: "with_roots s2 R = (region s2 prs L)(Heap 0 := Some (heap_top s, PAGE_SIZE))"
    using core_nonzero [OF core] by (auto simp: fun_eq_iff with_roots_def R same split: owner.splits)
  have reg: "regions_ok ((region s2 prs L)(Heap 0 := Some (heap_top s, PAGE_SIZE))) (heap_top s2)"
    using ref eq by (simp add: ref_result_def)
  have "regions_ok (region s2 prs L) (heap_top s2)"
    by (rule regions_sub [OF reg]) (use core_nonzero [OF core] in auto)
  moreover have "heap_links s2 prs" by (rule heap_links_cong [of s]) (use core same in \<open>auto simp: heap_core_def\<close>)
  ultimately show ?thesis using core ref reg by (simp add: core_fresh_def heap_core_def ref_result_def same)
qed

text \<open>The outcome of an allocation: NULL, or a new block; memory below the old top is as it was.\<close>

definition alloc_ok :: "(nat \<rightharpoonup> nat) \<Rightarrow> nat \<Rightarrow> kheap \<Rightarrow> nat \<Rightarrow> kheap \<Rightarrow> bool" where
  "alloc_ok L sz s p s' \<longleftrightarrow> (if p = 0 then heap_inv s' L else L p = None \<and> heap_inv s' (L(p \<mapsto> sz))) \<and>
     (\<forall>a<heap_top s. kmem s' a = kmem s a) \<and> heap_top s \<le> heap_top s'"

lemma subpage_kmalloc_inv:
  assumes inv: "heap_inv s L" and sz: "sz < 2048"
  shows "\<exists>p s'. subpage_kmalloc sz s = Some (p, s') \<and> alloc_ok L sz s p s'"
proof -
  obtain prs where core: "heap_core s prs L" and sl: "can_sleep s" using inv by (auto simp: heap_inv_def)
  obtain t where t: "blocktype sz = Some t" "t < NSIZES" "sz \<le> sizes ! t" using blocktype_run [OF sz] by auto
  let ?same = "filter (\<lambda>p. PR_BLOCKTYPE (prefs s p) = t) prs"
  have ch: "chain (\<lambda>p. next_samesize (prefs (lk s) p)) (sizebases s ! t) ?same"
    using core t(2) by (simp add: heap_core_def heap_links_def)
  note fp = find_page_run [OF ch, of t]
  show ?thesis
  proof (cases "find (\<lambda>x. nfree (prefs s x) > 0) ?same")
    case (Some pr)
    then have pr: "pr \<in> set prs" "PR_BLOCKTYPE (prefs s pr) = t" "nfree (prefs s pr) > 0"
      by (auto dest!: find_SomeD)
    have "pr \<noteq> 0" using core_nonzero [OF core pr(1)] .
    moreover obtain p s' where "doalloc pr (lk s) = Some (p, s')" "can_sleep s'" "heap_core s' prs (L(p \<mapsto> sz))" "L p = None" "p \<noteq> 0" "kmem s' = kmem s" "heap_top s' = heap_top s"
      using doalloc_core [OF core sl pr(1,3), of sz] pr(2) t(3) sz by (auto simp: pr_size_def)
    ultimately show ?thesis using t sl fp Some
      by (auto simp: subpage_kmalloc_def km_acquire_run alloc_ok_def heap_inv_def)
  next
    case None
    have ram: "ram_ok s" and roots: "roots_inv s prs" and reg: "regions_ok (region s prs L) (heap_top s)"
      using core by (simp_all add: heap_core_def)
    note top = ram_ok_top [OF ram]
    show ?thesis
    proof (cases "firstpaddr s + PAGE_SIZE > lastpaddr s")
      case True
      then show ?thesis using t sl fp None alloc_kpages_run [OF sl ram, of 1] inv
        by (simp add: subpage_kmalloc_def km_acquire_run km_release_run alloc_ok_def)
    next
      case False
      define s1 where "s1 = s\<lparr>firstpaddr := firstpaddr s + PAGE_SIZE\<rparr>"
      define R where "R = (region s prs L)(Heap 0 := Some (heap_top s, PAGE_SIZE))"
      have sl1: "can_sleep s1" and ram1: "ram_ok s1"
        using sl ram False by (auto simp: s1_def ram_ok_def mod_add_eq [symmetric])
      have roots1: "roots_inv s1 prs" using roots by (fastforce simp: roots_inv_def ref_at_def s1_def)
      have "with_roots s1 R = R" by (auto simp: fun_eq_iff with_roots_def R_def s1_def split: owner.splits)
      then have "regions_ok (with_roots s1 R) (heap_top s1)"
        using regions_add [OF reg, of "Heap 0" PAGE_SIZE] top by (simp add: R_def s1_def heap_top_def add.assoc)
      from allocpageref_run [OF sl1 ram1 roots1 this] obtain pr s2 where
        ref: "allocpageref (lk s1) = Some (pr, lk s2)" "ref_result s1 prs R pr s2" by blast
      note fresh = fresh_after_ref [OF core s1_def R_def ref(2)]
      have sl2: "can_sleep s2" and km2: "kmem s2 = kmem s" "heap_top s \<le> heap_top s2"
        using ref(2) by (simp_all add: ref_result_def s1_def heap_top_def)
      have run: "subpage_kmalloc sz s = (if pr = 0 then Some (0, s2)
          else do { s \<leftarrow> setup_page pr (heap_top s) t (lk s2); doalloc pr s })"
        using t sl sl1 sl2 fp None False alloc_kpages_run [OF sl ram, of 1] ref(1) top
        by (simp add: subpage_kmalloc_def km_acquire_run km_release_run free_kpages_def s1_def)
      show ?thesis
      proof (cases "pr = 0")
        case True
        then show ?thesis using run fresh sl2 km2 by (auto simp: alloc_ok_def heap_inv_def core_fresh_def)
      next
        case False
        with ref(2) obtain r j where pr: "pr \<notin> set prs" "ref_at s2 pr r j" by (auto simp: ref_result_def)
        from setup_page_core [OF fresh sl2 pr(1) False pr(2) t(2)] obtain s3 where s3:
          "setup_page pr (heap_top s) t (lk s2) = Some (lk s3)" "can_sleep s3" "heap_core s3 (pr # prs) L"
          "nfree (prefs s3 pr) > 0" "pr_size (prefs s3 pr) = sizes ! t"
          "\<forall>a. \<not> (heap_top s \<le> a \<and> a < heap_top s + PAGE_SIZE) \<longrightarrow> kmem s3 a = kmem s2 a" "heap_top s3 = heap_top s2" by blast
        from doalloc_core [OF s3(3,2) _ s3(4), of sz] s3(5) t(3) sz obtain p s' where
          "doalloc pr (lk s3) = Some (p, s')" "can_sleep s'" "heap_core s' (pr # prs) (L(p \<mapsto> sz))" "L p = None" "p \<noteq> 0" "kmem s' = kmem s3"
            "heap_top s' = heap_top s3"
          by auto
        then show ?thesis using run False s3(1,6,7) km2 by (auto simp: alloc_ok_def heap_inv_def)
      qed
    qed
  qed
qed

text \<open>A large block is a number of pages of its own.\<close>

lemma kmalloc_large:
  assumes sl: "can_sleep s" and ram: "ram_ok s" and sz: "2048 \<le> sz" "sz \<le> 0xDFFFF000"
  shows "kmalloc sz s = (if firstpaddr s + span sz > lastpaddr s then Some (0, s)
    else Some (heap_top s, s\<lparr>firstpaddr := firstpaddr s + span sz\<rparr>))"
proof -
  define n where "n = (sz + 4095) div PAGE_SIZE"
  have span: "n * PAGE_SIZE = span sz" by (simp add: n_def span_def)
  have "span sz < 0xDFFFF000 + PAGE_SIZE" using span_bounds(2) [of sz] sz by linarith
  moreover obtain k where "span sz = PAGE_SIZE * k" using span by (metis mult.commute)
  ultimately have n: "n * PAGE_SIZE \<le> 0xDFFFF000" using span by simp
  have np: "(sz + PAGE_SIZE - 1) mod 2 ^ 32 div PAGE_SIZE = n" using sz by (simp add: n_def)
  show ?thesis unfolding kmalloc_def np Let_def
    using sz(1) alloc_kpages_run [OF sl ram n] ram_ok_top [OF ram] by (simp add: span)
qed

lemma kmalloc_inv:
  assumes inv: "heap_inv s L" and sz: "sz \<le> 0xDFFFF000"
  shows "\<exists>p s'. kmalloc sz s = Some (p, s') \<and> alloc_ok L sz s p s'"
proof (cases "sz \<ge> 2048")
  case False
  then show ?thesis using subpage_kmalloc_inv [OF inv, of sz] by (simp add: kmalloc_def)
next
  case True
  obtain prs where core: "heap_core s prs L" and sl: "can_sleep s" using inv by (auto simp: heap_inv_def)
  have ram: "ram_ok s" using core by (simp add: heap_core_def)
  note top = ram_ok_top [OF ram]
  note run = kmalloc_large [OF sl ram True sz]
  show ?thesis
  proof (cases "firstpaddr s + span sz > lastpaddr s")
    case True
    then show ?thesis using run inv by (simp add: alloc_ok_def)
  next
    case False
    define s' where "s' = s\<lparr>firstpaddr := firstpaddr s + span sz\<rparr>"
    define p where "p = heap_top s"
    have new: "L p = None" using live_below [OF core] by (fastforce simp: p_def)
    have "region s' prs (L(p \<mapsto> sz)) = (region s prs L)(Big p := Some (heap_top s, span sz))"
      using True by (auto simp: fun_eq_iff s'_def p_def split: owner.splits) (case_tac x; auto)
    then have "regions_ok (region s' prs (L(p \<mapsto> sz))) (heap_top s')"
      using core regions_add [of "region s prs L" "heap_top s" "Big p" "span sz"] top
      by (simp add: heap_core_def) (simp add: heap_top_def s'_def add.assoc)
    moreover have "heap_links s' prs" by (rule heap_links_cong [of s]) (use core in \<open>auto simp: heap_core_def s'_def\<close>)
    moreover have "roots_inv s' prs" using core by (fastforce simp: heap_core_def roots_inv_def ref_at_def s'_def)
    moreover have "ram_ok s'" using ram False span_bounds(3) [of sz] by (auto simp: ram_ok_def s'_def mod_add_eq [symmetric])
    moreover have "page_inv (kmem s') (L(p \<mapsto> sz)) (prefs s' pr)" if "pr \<in> set prs" for pr
    proof -
      have "p \<notin> blocks (prefs s pr)"
        using core_block [OF core that, of p] core_page(3) [OF core that] by (auto simp: p_def)
      then have "page_inv (kmem s) (L(p \<mapsto> sz)) (prefs s pr)"
        by (intro page_inv_live [OF core_pref_inv [OF core that]]) auto
      then show ?thesis by (simp add: s'_def)
    qed
    moreover have "\<forall>q n. (L(p \<mapsto> sz)) q = Some n \<longrightarrow> n < 2048 \<longrightarrow> (\<exists>pr\<in>set prs. q \<in> blocks (prefs s' pr))"
      using core True by (auto simp: heap_core_def s'_def)
    ultimately have "heap_inv s' (L(p \<mapsto> sz))" using sl by (auto simp: heap_inv_def heap_core_def s'_def)
    moreover have "heap_top s \<le> heap_top s'" by (simp add: heap_top_def s'_def)
    ultimately show ?thesis using run False new top by (auto simp: alloc_ok_def s'_def p_def)
  qed
qed

section \<open>Giving back a pageref\<close>

lemma used_refs_clear:
  assumes "root_inv k" "x \<in> used_refs k"
    and "k' = k\<lparr>pagerefs_inuse := (pagerefs_inuse k)[x div 32 := pagerefs_inuse k ! (x div 32) AND NOT (push_bit (x mod 32) 1)],
                numinuse := numinuse k - 1\<rparr>"
  shows "used_refs k' = used_refs k - {x}" "root_inv k'" "pagerefs_inuse k ! (x div 32) AND push_bit (x mod 32) 1 \<noteq> 0" "numinuse k > 0"
proof -
  let ?w = "pagerefs_inuse k ! (x div 32)"
  have bits: "bit (?w AND NOT (push_bit (x mod 32) 1)) n \<longleftrightarrow> bit ?w n \<and> n \<noteq> x mod 32" if "n < 32" for n
    using that by (auto simp: bit_simps)
  have x: "x < 256" "bit ?w (x mod 32)" using assms(2) by (auto simp: used_refs_def)
  then have x8: "x div 32 < 8" by (simp add: less_mult_imp_div_less)
  have "y \<in> used_refs k' \<longleftrightarrow> y \<noteq> x \<and> y \<in> used_refs k" for y
  proof (cases "y < 256 \<and> y div 32 = x div 32")
    case True
    then have "y \<in> used_refs k' \<longleftrightarrow> bit ?w (y mod 32) \<and> y mod 32 \<noteq> x mod 32"
      using assms(1,3) bits [of "y mod 32"] x8 by (simp add: used_refs_def root_inv_def)
    moreover have "y mod 32 = x mod 32 \<longleftrightarrow> y = x" using True by (metis nat_div_mod_eqI)
    ultimately show ?thesis using True by (auto simp: used_refs_def)
  next
    case False
    then show ?thesis using assms by (auto simp: used_refs_def)
  qed
  then show u: "used_refs k' = used_refs k - {x}" by blast
  have "0 < card (used_refs k)" using assms(2) by (auto simp: card_gt_0_iff)
  then show "numinuse k > 0" using assms(1) by (simp add: root_inv_def)
  show "root_inv k'" using assms u by (simp add: root_inv_def)
  show "?w AND push_bit (x mod 32) 1 \<noteq> 0" using x(2) by (simp add: and_exp_eq_0_iff_not_bit)
qed

lemma ref_index_here: "j < 256 \<Longrightarrow> ref_index (pg + 16 * j) pg = j"
  by (simp add: ref_index_def)

lemma ref_index_away:
  assumes "p + 16 \<le> pg \<or> pg + PAGE_SIZE \<le> p" "p < 2 ^ 32" "pg < 2 ^ 32"
  shows "\<not> ref_index p pg < 256"
proof (cases "pg + PAGE_SIZE \<le> p")
  case True
  let ?d = "(int p - int pg) div 16"
  have "256 \<le> ?d" "?d < 4294967296" using True assms(2) by simp_all
  then show ?thesis by (simp add: ref_index_def)
next
  case False
  let ?d = "(int p - int pg) div 16"
  have d: "?d < 0" "- 268435456 \<le> ?d" using False assms by simp_all
  have "?d mod 4294967296 = (?d + 4294967296) mod 4294967296" by (rule mod_add_self2 [symmetric])
  also have "\<dots> = ?d + 4294967296" using d by (intro mod_pos_pos_trivial) linarith+
  finally show ?thesis using d by (simp add: ref_index_def)
qed

definition clear_ref :: "nat \<Rightarrow> kheap_root \<Rightarrow> kheap_root" where
  "clear_ref j k = k\<lparr>pagerefs_inuse := (pagerefs_inuse k)[j div 32 := pagerefs_inuse k ! (j div 32) AND NOT (push_bit (j mod 32) 1)],
                     numinuse := numinuse k - 1\<rparr>"

lemma freepageref_run:
  assumes inv: "roots_inv s prs" and reg: "regions_ok (with_roots s R) lim" and lim: "lim < 2 ^ 32"
    and at: "ref_at s p r j" and n: "n \<le> r"
  shows "freepageref_loop p [n..<16] s = Some (set_root r (clear_ref j) s)"
  using n
proof (induction "r - n" arbitrary: n)
  case 0
  let ?k = "kheaproots s ! r"
  have r: "r < 16" "kr_page ?k \<noteq> 0" "p = kr_page ?k + 16 * j" "j \<in> used_refs ?k" "j < 256"
    using at by (auto simp: ref_at_def used_refs_def)
  have k: "root_inv ?k" using inv r(1) by (simp add: roots_inv_def)
  have "[n..<16] = r # [Suc r..<16]" using 0 r(1) by (simp add: upt_conv_Cons)
  moreover note used_refs_clear(3,4) [OF k r(4) refl]
  ultimately show ?case using r by (simp add: Let_def ref_index_here clear_ref_def [abs_def])
next
  case (Suc m)
  let ?k = "kheaproots s ! n"
  have nr: "n < r" using Suc.hyps(2) by simp
  have r: "r < 16" "kr_page (kheaproots s ! r) \<noteq> 0" "p = kr_page (kheaproots s ! r) + 16 * j" "j < 256"
    using at by (auto simp: ref_at_def used_refs_def)
  have pg: "kr_page ?k \<noteq> 0" using inv nr r by (auto simp: roots_inv_def)
  have "kr_page ?k + PAGE_SIZE \<le> kr_page (kheaproots s ! r) \<or> kr_page (kheaproots s ! r) + PAGE_SIZE \<le> kr_page ?k"
    using regions_apart [OF reg, of "Root n" _ _ "Root r"] pg r nr by (simp add: with_roots_def)
  moreover have "kr_page ?k + PAGE_SIZE \<le> lim" "kr_page (kheaproots s ! r) + PAGE_SIZE \<le> lim"
    using regions_range [OF reg, of "Root n"] regions_range [OF reg, of "Root r"] pg r nr by (simp_all add: with_roots_def)
  ultimately have "\<not> ref_index p (kr_page ?k) < 256"
    using r(3,4) lim by (intro ref_index_away) linarith+
  moreover have "[n..<16] = n # [Suc n..<16]" using nr r(1) by (simp add: upt_conv_Cons)
  ultimately show ?case using Suc.hyps(1) [of "Suc n"] Suc.hyps(2) nr pg by (simp add: Let_def)
qed

lemma roots_clear:
  assumes inv: "roots_inv s prs" and reg: "regions_ok (with_roots s R) lim" and at: "ref_at s p r j"
    and s': "kheaproots s' = (kheaproots s)[r := clear_ref j (kheaproots s ! r)]" "lastpaddr s' = lastpaddr s" "firstpaddr s' = firstpaddr s"
    and prs': "set prs' \<subseteq> set prs - {p}"
  shows "roots_inv s' prs'" "with_roots s' R = with_roots s R"
proof -
  let ?k = "kheaproots s ! r"
  have r: "r < 16" "kr_page ?k \<noteq> 0" "p = kr_page ?k + 16 * j" "j \<in> used_refs ?k" using at by (auto simp: ref_at_def)
  have len: "length (kheaproots s) = 16" and k: "root_inv ?k" using inv r(1) by (simp_all add: roots_inv_def)
  note c = used_refs_clear [OF k r(4) clear_ref_def]
  have pg: "kr_page (clear_ref j ?k) = kr_page ?k" by (simp add: clear_ref_def)
  then show "with_roots s' R = with_roots s R"
    using r(1) len by (auto simp: with_roots_def s' fun_eq_iff nth_list_update split: owner.splits)
  have "\<exists>r j. ref_at s' q r j" if "q \<in> set prs'" for q
  proof -
    from that prs' inv obtain r0 j0 where q: "ref_at s q r0 j0" "q \<noteq> p" by (fastforce simp: roots_inv_def)
    have "r0 = r \<Longrightarrow> j0 \<noteq> j" using q r by (auto simp: ref_at_def)
    then have "ref_at s' q r0 j0" using q(1) len c(1) pg by (cases "r0 = r") (auto simp: ref_at_def s')
    then show ?thesis by blast
  qed
  moreover have "\<forall>k\<in>set (kheaproots s'). root_inv k"
    using inv c(2) set_update_subset_insert [of "kheaproots s" r] by (auto simp: roots_inv_def s'(1))
  moreover have "\<forall>k\<in>set (kheaproots s'). kr_page k = 0 \<longrightarrow> numinuse k \<noteq> 0 \<longrightarrow> firstpaddr s + PAGE_SIZE > lastpaddr s"
    using inv pg r(2) set_update_subset_insert [of "kheaproots s" r] by (fastforce simp: roots_inv_def s'(1))
  moreover have "kr_page (kheaproots s' ! x) = kr_page (kheaproots s ! x)" if "x < 16" for x
    using that pg len by (cases "x = r") (simp_all add: s')
  ultimately show "roots_inv s' prs'" using inv len by (simp add: roots_inv_def s')
qed

section \<open>Unlinking a page\<close>

lemma chain_drop:
  assumes "chain nxt p (ys @ x # zs)" "distinct (ys @ x # zs)"
  shows "chain (\<lambda>q. if ys \<noteq> [] \<and> q = last ys then nxt x else nxt q) (if ys = [] then nxt x else p) (ys @ zs)"
proof (cases "ys = []")
  case True
  then show ?thesis using chain_remove(1) [OF assms] by simp
next
  case False
  moreover have "(\<lambda>q. if ys \<noteq> [] \<and> q = last ys then nxt x else nxt q) = nxt(last ys := nxt x)" using False by auto
  ultimately show ?thesis using chain_remove(2) [OF assms] by simp
qed

lemma guy_set_lk: "guy_set g v (lk s) = lk (guy_set g v s)"
  by (cases g) (simp_all add: lk_upd)

lemma guy_set_sel [simp]:
  "kheaproots (guy_set g v s) = kheaproots s" "kmem (guy_set g v s) = kmem s" "firstpaddr (guy_set g v s) = firstpaddr s"
  "lastpaddr (guy_set g v s) = lastpaddr s" "can_sleep (guy_set g v s) = can_sleep s"
  "freelist_offset (prefs (guy_set g v s) q) = freelist_offset (prefs s q)" "nfree (prefs (guy_set g v s) q) = nfree (prefs s q)"
  "pageaddr_and_blocktype (prefs (guy_set g v s) q) = pageaddr_and_blocktype (prefs s q)"
  by (cases g; simp)+

lemma page_inv_cong:
  assumes "freelist_offset r' = freelist_offset r" "nfree r' = nfree r" "pageaddr_and_blocktype r' = pageaddr_and_blocktype r"
  shows "page_inv m L r' = page_inv m L r"
  using assms PR_cong [OF assms(3)] by (simp add: page_inv_def free_list_def fl_head_def)

lemma remove_lists_run:
  assumes links: "heap_links s prs" and prs: "prs = ys @ pr # zs" and t: "PR_BLOCKTYPE (prefs s pr) = t" "t < NSIZES"
  shows "\<exists>s'. remove_lists pr t (lk s) = Some (lk s') \<and> heap_links s' (ys @ zs) \<and> can_sleep s' = can_sleep s \<and>
    kheaproots s' = kheaproots s \<and> kmem s' = kmem s \<and> firstpaddr s' = firstpaddr s \<and> lastpaddr s' = lastpaddr s \<and>
    (\<forall>q. freelist_offset (prefs s' q) = freelist_offset (prefs s q) \<and> nfree (prefs s' q) = nfree (prefs s q) \<and>
      pageaddr_and_blocktype (prefs s' q) = pageaddr_and_blocktype (prefs s q))"
proof -
  let ?same = "\<lambda>t xs. filter (\<lambda>p. PR_BLOCKTYPE (prefs s p) = t) xs"
  let ?ns = "\<lambda>q. next_samesize (prefs s q)" and ?na = "\<lambda>q. next_all (prefs s q)"
  define g1 where "g1 = (if ?same t ys = [] then SizeBase t else NextSame (last (?same t ys)))"
  define s1 where "s1 = guy_set g1 (?ns pr) s"
  define g2 where "g2 = (if ys = [] then AllBase else NextAll (last ys))"
  define s2 where "s2 = guy_set g2 (?na pr) s1"
  have d: "distinct (ys @ pr # zs)" and all: "chain ?na (allbase s) (ys @ pr # zs)"
    and same: "\<And>u. u < 8 \<Longrightarrow> chain ?ns (sizebases s ! u) (?same u (ys @ pr # zs))" and len: "length (sizebases s) = 8"
    using links prs by (auto simp: heap_links_def)
  have split: "?same t (ys @ pr # zs) = ?same t ys @ pr # ?same t zs" using t by simp
  have dt: "distinct (?same t ys @ pr # ?same t zs)" using d by auto
  have "remove_same pr (SizeBase t) (lk s) = Some (lk s1)"
    using remove_same_run [of "lk s" "SizeBase t" "?same t ys" pr "?same t zs"] same [OF t(2)] dt split
    by (simp add: s1_def g1_def guy_set_lk)
  moreover have na1: "next_all (prefs s1 q) = ?na q" "PR_BLOCKTYPE (prefs s1 q) = PR_BLOCKTYPE (prefs s q)" "allbase s1 = allbase s" for q
    by (simp_all add: s1_def g1_def PR_BLOCKTYPE_def)
  then have "remove_all pr AllBase (lk s1) = Some (lk s2)"
    using remove_all_run [of "lk s1" AllBase ys pr zs] all d by (simp add: s2_def g2_def guy_set_lk)
  ultimately have run: "remove_lists pr t (lk s) = Some (lk s2)" using t(2) by (simp add: remove_lists_def)
  have na: "next_all (prefs s2 q) = (if ys \<noteq> [] \<and> q = last ys then ?na pr else ?na q)"
      "allbase s2 = (if ys = [] then ?na pr else allbase s)" for q
    using na1 by (simp_all add: s2_def g2_def)
  have ns: "next_samesize (prefs s2 q) = (if ?same t ys \<noteq> [] \<and> q = last (?same t ys) then ?ns pr else ?ns q)"
      "sizebases s2 = (if ?same t ys = [] then (sizebases s)[t := ?ns pr] else sizebases s)"
      "PR_BLOCKTYPE (prefs s2 q) = PR_BLOCKTYPE (prefs s q)" for q
    by (simp_all add: s2_def g2_def s1_def g1_def PR_BLOCKTYPE_def)
  have "chain (\<lambda>q. next_all (prefs s2 q)) (allbase s2) (ys @ zs)"
    using chain_drop [OF all d] by (simp only: na cong: if_cong)
  moreover have "chain (\<lambda>q. next_samesize (prefs s2 q)) (sizebases s2 ! u) (?same u (ys @ zs))" if u: "u < 8" for u
  proof (cases "u = t")
    case True
    then show ?thesis using chain_drop [OF same [OF t(2), unfolded split] dt] len u
      by (cases "?same t ys = []") (simp_all add: ns)
  next
    case False
    have "chain (\<lambda>q. next_samesize (prefs s2 q)) (sizebases s ! u) (?same u (ys @ zs)) =
        chain ?ns (sizebases s ! u) (?same u (ys @ zs))"
    proof (rule chain_cong)
      fix x assume "x \<in> set (?same u (ys @ zs))"
      moreover have "?same t ys \<noteq> [] \<Longrightarrow> last (?same t ys) \<in> set (?same t ys)" by (rule last_in_set)
      ultimately show "next_samesize (prefs s2 x) = ?ns x" using False by (auto simp: ns(1))
    qed
    then show ?thesis using same [OF u] t(1) False by (simp add: ns(2))
  qed
  ultimately have "heap_links s2 (ys @ zs)" using d len by (auto simp: heap_links_def ns(2,3))
  then show ?thesis using run by (intro exI [of _ s2]) (simp add: s2_def s1_def)
qed

lemma drop_page_core:
  assumes core: "heap_core s prs L" and sl: "can_sleep s" and pr: "pr \<in> set prs"
    and empty: "nfree (prefs s pr) = PAGE_SIZE div pr_size (prefs s pr)"
  shows "\<exists>s' prs'. do { s \<leftarrow> remove_lists pr (PR_BLOCKTYPE (prefs s pr)) (lk s); s \<leftarrow> freepageref pr s; km_release s } = Some s' \<and>
    can_sleep s' \<and> heap_core s' prs' L \<and> kmem s' = kmem s"
proof -
  obtain ys zs where prs: "prs = ys @ pr # zs" using pr by (metis split_list)
  have links: "heap_links s prs" and roots: "roots_inv s prs" and ram: "ram_ok s"
    and reg: "regions_ok (region s prs L) (heap_top s)" using core by (simp_all add: heap_core_def)
  from remove_lists_run [OF links prs refl core_page(5) [OF core pr]] obtain s1 where
    s1: "remove_lists pr (PR_BLOCKTYPE (prefs s pr)) (lk s) = Some (lk s1)" "heap_links s1 (ys @ zs)" "can_sleep s1"
    and k1: "kheaproots s1 = kheaproots s" "kmem s1 = kmem s" "firstpaddr s1 = firstpaddr s" "lastpaddr s1 = lastpaddr s"
    and r1: "\<And>q. freelist_offset (prefs s1 q) = freelist_offset (prefs s q)" "\<And>q. nfree (prefs s1 q) = nfree (prefs s q)"
      "\<And>q. pageaddr_and_blocktype (prefs s1 q) = pageaddr_and_blocktype (prefs s q)" using sl by auto
  note PR1 = PR_cong [OF r1(3)]
  obtain r j where at: "ref_at s pr r j" using roots pr by (auto simp: roots_inv_def)
  have roots1: "roots_inv (lk s1) prs" by (rule roots_inv_cong [OF roots]) (simp_all add: k1)
  have wr: "with_roots (lk s1) (region s prs L) = region s prs L"
    by (auto simp: fun_eq_iff with_roots_def k1 split: owner.splits)
  have "heap_top s < 2 ^ 32" using ram_ok_top [OF ram] by simp
  then have fr: "freepageref pr (lk s1) = Some (set_root r (clear_ref j) (lk s1))"
    using freepageref_run [OF roots1, of "region s prs L" "heap_top s" pr r j 0] reg wr at
    by (simp add: freepageref_def ref_at_def k1)
  define s2 where "s2 = set_root r (clear_ref j) s1"
  have run: "do { s \<leftarrow> remove_lists pr (PR_BLOCKTYPE (prefs s pr)) (lk s); s \<leftarrow> freepageref pr s; km_release s } = Some s2"
    using s1(1,3) fr km_release_run [of s2] by (simp add: s2_def lk_upd)
  have sub: "set (ys @ zs) \<subseteq> set prs - {pr}" using links by (auto simp: prs heap_links_def)
  have k2: "kheaproots s2 = (kheaproots s)[r := clear_ref j (kheaproots s ! r)]" "kmem s2 = kmem s" "firstpaddr s2 = firstpaddr s"
    "lastpaddr s2 = lastpaddr s" "prefs s2 = prefs s1" by (simp_all add: s2_def k1)
  note rc = roots_clear [OF roots, of "region s prs L" "heap_top s", unfolded region_with_roots, OF reg at k2(1,4,3) sub]
  have "regions_ok (region s2 (ys @ zs) L) (heap_top s2)"
  proof (rule regions_sub [OF reg])
    show "heap_top s \<le> heap_top s2" by (simp add: heap_top_def k2)
    fix x
    have "with_roots s2 (region s prs L) (Root n) = region s prs L (Root n)" for n using rc(2) by (metis region_with_roots)
    then show "region s2 (ys @ zs) L x = None \<or> region s2 (ys @ zs) L x = region s prs L x"
      using PR1 by (cases x) (auto simp: k2(5) prs with_roots_def)
  qed
  moreover have "heap_links s2 (ys @ zs)" by (rule heap_links_cong [OF s1(2)]) (simp_all add: s2_def)
  moreover have "page_inv (kmem s2) L (prefs s2 q)" if "q \<in> set (ys @ zs)" for q
    using core_pref_inv [OF core, of q] that page_inv_cong [OF r1, of _ L q] by (auto simp: k2 prs)
  moreover have "\<exists>q\<in>set (ys @ zs). p \<in> blocks (prefs s2 q)" if p: "L p = Some sz" "sz < 2048" for p sz
  proof -
    from core p obtain q where q: "q \<in> set prs" "p \<in> blocks (prefs s q)" by (fastforce simp: heap_core_def)
    have "q \<noteq> pr"
    proof
      assume "q = pr"
      obtain fl where fl: "free_list (kmem s) (prefs s pr) fl" "\<forall>p\<in>blocks (prefs s pr). p \<in> set fl \<longrightarrow> L p = None"
        using core_pref_inv [OF core pr] by (auto simp: page_inv_def)
      have "set fl = blocks (prefs s pr)"
        using fl(1) empty card_blocks [OF core_page(5) [OF core pr]]
        by (intro card_subset_eq) (auto simp: free_list_def distinct_card)
      then show False using fl(2) q \<open>q = pr\<close> p(1) by auto
    qed
    then show ?thesis using q PR1 by (auto simp: k2 prs)
  qed
  moreover have "ram_ok s2" using ram by (simp add: ram_ok_def k2)
  ultimately have "heap_core s2 (ys @ zs) L" using rc(1) by (auto simp: heap_core_def)
  moreover have "can_sleep s2" using s1(3) by (simp add: s2_def)
  ultimately show ?thesis using run k2(2) by blast
qed

section \<open>Freeing\<close>

lemma fill_deadbeef_frame:
  assumes "\<not> (p \<le> a \<and> a < p + n)"
  shows "fill_deadbeef p n m a = m a"
proof -
  have "fold (\<lambda>i m. store_long (p + 4 * i) 0xdeadbeef m) [0..<k] m a = m a" if "k \<le> n div 4" for k
    using that
  proof (induction k)
    case (Suc k)
    have "4 * Suc k \<le> n" using Suc.prems by presburger
    then show ?case using Suc assms by (auto simp: store_long_def)
  qed simp
  then show ?thesis by (simp add: fill_deadbeef_def)
qed

lemma unat_word_of_nat: "n < 2 ^ 32 \<Longrightarrow> unat (word_of_nat n :: u32) = n"
  by (simp add: unsigned_of_nat take_bit_eq_mod)

lemma free_block_core:
  assumes core: "heap_core s prs L" and sl: "can_sleep s" and pr: "pr \<in> set prs"
    and p: "p \<in> blocks (prefs s pr)" "L p = Some sz" "sz < 2048"
  shows "\<exists>s' prs'. free_block p pr (lk s) = Some s' \<and> can_sleep s' \<and> heap_core s' prs' (L(p := None)) \<and>
    (\<forall>a. \<not> (p \<le> a \<and> a < p + pr_size (prefs s pr)) \<longrightarrow> kmem s' a = kmem s a)"
proof -
  let ?r = "prefs s pr" and ?pg = "PR_PAGEADDR (prefs s pr)" and ?n = "pr_size (prefs s pr)"
  note pg = core_page [OF core pr] and pb = core_block [OF core pr p(1)]
  have ext: "extent s prs L p ?n" using p pr by (auto simp: extent_def)
  obtain fl where fl: "free_list (kmem s) ?r fl"
    and use: "\<forall>q\<in>blocks ?r. if q \<in> set fl then L q = None else \<exists>sz. L q = Some sz \<and> sz \<le> ?n \<and> sz < 2048"
    using core_pref_inv [OF core pr] by (auto simp: page_inv_def)
  have pfl: "p \<notin> set fl" using use p by auto
  have off: "(p + 2 ^ 32 - ?pg) mod 2 ^ 32 = p - ?pg" "p - ?pg < PAGE_SIZE" "(p - ?pg) mod ?n = 0"
  proof -
    show lt: "p - ?pg < PAGE_SIZE" using pb(1,2,5) by (simp add: less_diff_conv2)
    show "(p + 2 ^ 32 - ?pg) mod 2 ^ 32 = p - ?pg" using pb(1) lt by (intro sub_wrap) simp_all
    show "(p - ?pg) mod ?n = 0" by (rule block_range(3) [OF p(1) pg(5)])
  qed
  define m2 where "m2 = store_long p (word_of_nat (fl_head ?r)) (fill_deadbeef p ?n (kmem s))"
  define f where "f = (\<lambda>r :: pageref. r\<lparr>freelist_offset := p - ?pg, nfree := Suc (length fl)\<rparr>)"
  define s2 where "s2 = set_pref pr f (s\<lparr>kmem := m2\<rparr>)"
  have head: "fl_head ?r < 2 ^ 32" "fl_head ?r \<noteq> p" "fl_head ?r = 0 \<longleftrightarrow> freelist_offset ?r = INVALID_OFFSET"
  proof -
    show "fl_head ?r = 0 \<longleftrightarrow> freelist_offset ?r = INVALID_OFFSET" using pg(2) by (auto simp: fl_head_def)
    show "fl_head ?r < 2 ^ 32" "fl_head ?r \<noteq> p"
      using fl pfl pb core_block(4) [OF core pr] by (cases fl; auto simp: free_list_def)+
  qed
  have m2p: "fl_next m2 p = fl_head ?r" using head(1) by (simp add: m2_def fl_next_def unat_word_of_nat)
  have frame: "m2 a = kmem s a" if "\<not> (p \<le> a \<and> a < p + ?n)" for a
    using that pb(5) fill_deadbeef_frame [OF that] by (auto simp: m2_def store_long_def)
  have fl2: "free_list m2 ?r fl" by (rule free_list_frame [OF core ext pr fl pfl frame])
  have len: "Suc (length fl) \<le> PAGE_SIZE div ?n"
  proof -
    have "card (set (p # fl)) \<le> card (blocks ?r)" using fl p(1) by (intro card_mono) (auto simp: free_list_def)
    then show ?thesis using fl pfl card_blocks [OF pg(5)] by (simp add: free_list_def distinct_card)
  qed
  have n256: "PAGE_SIZE div ?n \<le> 256" using sizes_nth(5) [OF pg(5)] by (simp add: pr_size_def)
  have run: "free_block p pr (lk s) = (if Suc (length fl) = PAGE_SIZE div ?n
      then do { s \<leftarrow> remove_lists pr (PR_BLOCKTYPE ?r) (lk s2); s \<leftarrow> freepageref pr s; km_release s } else km_release (lk s2))"
  proof -
    have nf: "(nfree ?r + 1) mod 2 ^ 16 = Suc (length fl)" using fl len n256 by (simp add: free_list_def)
    have pg_p: "?pg + (p - ?pg) = p" using pb(1) by simp
    show ?thesis
    proof (cases "freelist_offset ?r = INVALID_OFFSET")
      case True
      then have "m2 = store_long p 0 (fill_deadbeef p ?n (kmem s))" by (simp add: m2_def fl_head_def)
      with True show ?thesis unfolding free_block_def Let_def
        using off nf len pg_p by (simp add: pr_size_def [symmetric] lk_upd set_pref_def s2_def f_def free_kpages_def)
    next
      case False
      then have "m2 = store_long p (word_of_nat (?pg + freelist_offset ?r)) (fill_deadbeef p ?n (kmem s))"
        by (simp add: m2_def fl_head_def)
      moreover have "p \<noteq> unat (load_long m2 p)" using head(2) m2p by (simp add: fl_next_def)
      ultimately show ?thesis unfolding free_block_def Let_def
        using False off nf len pg_p by (simp add: pr_size_def [symmetric] lk_upd set_pref_def s2_def f_def free_kpages_def)
    qed
  qed
  have pab: "pageaddr_and_blocktype (f ?r) = pageaddr_and_blocktype ?r" by (simp add: f_def)
  note PR = PR_cong [OF pab]
  have core2: "heap_core s2 prs (L(p := None))"
    unfolding s2_def
  proof (rule core_upd [OF core pr])
    show "next_samesize (f ?r) = next_samesize ?r" "next_all (f ?r) = next_all ?r"
      "pageaddr_and_blocktype (f ?r) = pageaddr_and_blocktype ?r" by (simp_all add: f_def)
    have "fl_head (f ?r) = p" using off(2) pb(1) PR by (simp add: fl_head_def f_def)
    then have "free_list m2 (f ?r) (p # fl)"
      using fl2 pfl p(1) pb(3) m2p PR by (auto simp: free_list_def f_def)
    moreover have "\<forall>q\<in>blocks (f ?r). if q \<in> set (p # fl) then (L(p := None)) q = None
        else \<exists>sz. (L(p := None)) q = Some sz \<and> sz \<le> pr_size (f ?r) \<and> sz < 2048"
      using use PR by auto
    moreover have "PR_BLOCKTYPE (f ?r) < NSIZES" using PR pg(5) by simp
    ultimately show "page_inv m2 (L(p := None)) (f ?r)" unfolding page_inv_def by blast
    show "page_inv m2 (L(p := None)) (prefs s q)" if q: "q \<in> set prs" "q \<noteq> pr" for q
    proof (rule page_inv_live [OF page_inv_mem [OF core_pref_inv [OF core q(1)]]])
      have np: "p \<notin> blocks (prefs s q)" using core_block_owner [OF core pr p(1) q(1)] q(2) by blast
      show "fl_next m2 x = fl_next (kmem s) x" if x: "x \<in> blocks (prefs s q)" for x
      proof -
        have "x \<noteq> p" using np x by blast
        then have "\<not> (p \<le> x + i \<and> x + i < p + ?n)" if "i < 4" for i
          using extent_free_apart [OF core ext q(1) x] core_block(5) [OF core q(1) x] that by linarith
        from frame [OF this, of 0] frame [OF this, of 1] frame [OF this, of 2] frame [OF this, of 3]
        show ?thesis by (simp add: fl_next_def load_long_def)
      qed
      show "\<And>x. x \<in> blocks (prefs s q) \<Longrightarrow> (L(p := None)) x = L x" using np by auto
    qed
    show "L q = Some n" if "(L(p := None)) q = Some n" "n \<ge> 2048" for q n using that by (auto split: if_splits)
    show "\<exists>x\<in>set prs. q \<in> blocks (prefs s x)" if "(L(p := None)) q = Some n" "n < 2048" for q n
      using that core by (auto simp: heap_core_def split: if_splits)
  qed
  have sl2: "can_sleep s2" using sl by (simp add: s2_def)
  show ?thesis
  proof (cases "Suc (length fl) = PAGE_SIZE div ?n")
    case True
    have s2r: "prefs s2 pr = f ?r" by (simp add: s2_def)
    then have "nfree (prefs s2 pr) = PAGE_SIZE div pr_size (prefs s2 pr)" using True PR by (simp add: f_def)
    from drop_page_core [OF core2 sl2 pr this] obtain s' prs' where
      "do { s \<leftarrow> remove_lists pr (PR_BLOCKTYPE (prefs s2 pr)) (lk s2); s \<leftarrow> freepageref pr s; km_release s } = Some s'"
      "can_sleep s'" "heap_core s' prs' (L(p := None))" "kmem s' = kmem s2" by blast
    then show ?thesis using run True s2r PR frame by (simp add: s2_def) blast
  next
    case False
    then show ?thesis using run core2 sl2 km_release_run [OF sl2] frame by (auto simp: s2_def)
  qed
qed

lemma find_owner_small:
  assumes core: "heap_core s prs L" and pr: "pr \<in> set prs" "p \<in> blocks (prefs s pr)"
  shows "find_owner p (allbase s) (lk s) = Some pr"
proof -
  let ?P = "\<lambda>x. PR_PAGEADDR (prefs s x) \<le> p \<and> p < (PR_PAGEADDR (prefs s x) + PAGE_SIZE) mod 2 ^ 32"
  have P: "?P x \<longleftrightarrow> x = pr" if "x \<in> set prs" for x
    using core_block [OF core pr] core_page(4) [OF core that] core_pages_apart [OF core that pr(1)] by (cases "x = pr") auto
  have "find ?P prs = Some pr"
  proof (cases "find ?P prs")
    case None
    then show ?thesis using P pr(1) by (auto simp: find_None_iff)
  next
    case (Some x)
    then show ?thesis using find_SomeD [OF Some] P by auto
  qed
  moreover have "chain (\<lambda>p. next_all (prefs (lk s) p)) (allbase s) prs" "\<forall>x\<in>set prs. PR_BLOCKTYPE (prefs (lk s) x) < NSIZES"
    using core core_page(5) [OF core] by (simp_all add: heap_core_def heap_links_def)
  ultimately show ?thesis using find_owner_run [of "lk s" "allbase s" prs p] by simp
qed

lemma find_owner_big:
  assumes core: "heap_core s prs L" and L: "L p = Some sz" "sz \<ge> 2048"
  shows "find_owner p (allbase s) (lk s) = Some 0"
proof -
  have "\<not> (PR_PAGEADDR (prefs s x) \<le> p \<and> p < (PR_PAGEADDR (prefs s x) + PAGE_SIZE) mod 2 ^ 32)" if "x \<in> set prs" for x
  proof -
    have "p + span sz \<le> PR_PAGEADDR (prefs s x) \<or> PR_PAGEADDR (prefs s x) + PAGE_SIZE \<le> p"
      using core regions_apart [of "region s prs L" "heap_top s" "Big p" p "span sz" "Heap x"] L that by (simp add: heap_core_def)
    then show ?thesis using core_page(4) [OF core that] span_bounds(1) [of sz] L(2) by auto
  qed
  then have "find (\<lambda>x. PR_PAGEADDR (prefs s x) \<le> p \<and> p < (PR_PAGEADDR (prefs s x) + PAGE_SIZE) mod 2 ^ 32) prs = None"
    unfolding find_None_iff by blast
  moreover have "chain (\<lambda>p. next_all (prefs (lk s) p)) (allbase s) prs" "\<forall>x\<in>set prs. PR_BLOCKTYPE (prefs (lk s) x) < NSIZES"
    using core core_page(5) [OF core] by (simp_all add: heap_core_def heap_links_def)
  ultimately show ?thesis using find_owner_run [of "lk s" "allbase s" prs p] by simp
qed

lemma big_forget:
  assumes core: "heap_core s prs L" and L: "L p = Some sz" "sz \<ge> 2048"
  shows "heap_core s prs (L(p := None))"
proof -
  have "regions_ok (region s prs (L(p := None))) (heap_top s)"
  proof (rule regions_sub)
    show "regions_ok (region s prs L) (heap_top s)" using core by (simp add: heap_core_def)
    show "region s prs (L(p := None)) x = None \<or> region s prs (L(p := None)) x = region s prs L x" for x
      by (cases x) auto
  qed simp
  moreover have "page_inv (kmem s) (L(p := None)) (prefs s pr)" if "pr \<in> set prs" for pr
  proof (rule page_inv_live [OF core_pref_inv [OF core that]])
    fix q assume "q \<in> blocks (prefs s pr)"
    then have "q \<noteq> p" using core_pref_inv [OF core that] L by (fastforce simp: page_inv_def split: if_splits)
    then show "(L(p := None)) q = L q" by simp
  qed
  ultimately show ?thesis using core by (auto simp: heap_core_def split: if_splits)
qed

text \<open>Live blocks do not overlap.\<close>

lemma extents_apart:
  assumes core: "heap_core s prs L" and p: "extent s prs L p n" and q: "extent s prs L q k" and pq: "p \<noteq> q"
  shows "p + n \<le> q \<or> q + k \<le> p"
proof -
  have small: "x + a \<le> y \<or> y + b \<le> x" if x: "extent s prs L x a" and y: "extent s prs L y b" "L y = Some sz" "sz < 2048" "x \<noteq> y"
    for x y a b sz
  proof -
    obtain pr where "pr \<in> set prs" "y \<in> blocks (prefs s pr)" "b = pr_size (prefs s pr)" using y by (auto simp: extent_def)
    with extent_free_apart [OF core x this(1,2)] y(4) show ?thesis by simp
  qed
  obtain m1 m2 where L: "L p = Some m1" "L q = Some m2" using p q by (auto simp: extent_def)
  consider "m2 < 2048" | "m1 < 2048" | "m1 \<ge> 2048" "m2 \<ge> 2048" by linarith
  then show ?thesis
  proof cases
    case 1
    then show ?thesis using small [OF p q L(2)] pq by simp
  next
    case 2
    then show ?thesis using small [OF q p L(1)] pq by auto
  next
    case 3
    then show ?thesis
      using core p q L pq regions_apart [of "region s prs L" "heap_top s" "Big p" p n "Big q" q k] by (simp add: heap_core_def extent_def)
  qed
qed

lemma kfree_inv:
  assumes inv: "heap_inv s L" and L: "L p = Some sz"
  shows "\<exists>s'. kfree p s = Some s' \<and> heap_inv s' (L(p := None)) \<and>
    (\<forall>q n a. L q = Some n \<longrightarrow> q \<noteq> p \<longrightarrow> q \<le> a \<longrightarrow> a < q + n \<longrightarrow> kmem s' a = kmem s a)"
proof -
  obtain prs where core: "heap_core s prs L" and sl: "can_sleep s" using inv by (auto simp: heap_inv_def)
  have p0: "p \<noteq> 0" using live_below(2) [OF core L] by simp
  show ?thesis
  proof (cases "sz \<ge> 2048")
    case True
    have "p mod PAGE_SIZE = 0"
      using core L True regions_range [of "region s prs L" "heap_top s" "Big p"] by (simp add: heap_core_def)
    then have "kfree p s = Some s" using p0 sl find_owner_big [OF core L True]
      by (simp add: kfree_def subpage_kfree_def km_acquire_run km_release_run free_kpages_def)
    then show ?thesis using big_forget [OF core L True] sl by (auto simp: heap_inv_def)
  next
    case False
    with core L obtain pr where pr: "pr \<in> set prs" "p \<in> blocks (prefs s pr)" by (fastforce simp: heap_core_def)
    have ext: "extent s prs L p (pr_size (prefs s pr))" using L False pr by (auto simp: extent_def)
    obtain s' prs' where s': "free_block p pr (lk s) = Some s'" "can_sleep s'" "heap_core s' prs' (L(p := None))"
        "\<forall>a. \<not> (p \<le> a \<and> a < p + pr_size (prefs s pr)) \<longrightarrow> kmem s' a = kmem s a"
      using free_block_core [OF core sl pr(1,2) L] False by auto
    then have "kfree p s = Some s'" using p0 sl find_owner_small [OF core pr] core_nonzero [OF core pr(1)]
      by (simp add: kfree_def subpage_kfree_def km_acquire_run)
    moreover have "kmem s' a = kmem s a" if h: "L q = Some n" "q \<noteq> p" "q \<le> a" "a < q + n" for q n a
    proof -
      obtain k where "extent s prs L q k" "n \<le> k" using extent_ex [OF core h(1)] by blast
      with extents_apart [OF core ext this(1)] h have "\<not> (p \<le> a \<and> a < p + pr_size (prefs s pr))" by auto
      then show ?thesis using s'(4) by blast
    qed
    ultimately show ?thesis using s' by (auto simp: heap_inv_def)
  qed
qed

end
