(* ===== verification/Kernel_Heap.thy ===== *)
theory Kernel_Heap
  imports Kmalloc_Inv
begin

text \<open>
  Runs of the kernel heap: clients allocate, free what they hold and write to it, in any order,
  while other parts of the kernel take whole pages. The state is the heap and the blocks that are
  held, each with the size that was asked for.
\<close>

section \<open>Runs\<close>

text \<open>
  Requests of more than \<open>0xDFFFF000\<close> bytes are left out: for them the sums in \<open>kmalloc\<close> and
  \<open>ram_stealmem\<close> can wrap around (see \<open>kmalloc_overflow\<close> below).
\<close>

inductive heap_step :: "kheap \<times> (nat \<rightharpoonup> nat) \<Rightarrow> kheap \<times> (nat \<rightharpoonup> nat) \<Rightarrow> bool" where
  hs_malloc: "sz \<le> 0xDFFFF000 \<Longrightarrow> kmalloc sz s = Some (p, s') \<Longrightarrow>
    heap_step (s, L) (s', if p = 0 then L else L(p \<mapsto> sz))"
| hs_free: "L p = Some sz \<Longrightarrow> kfree p s = Some s' \<Longrightarrow> heap_step (s, L) (s', L(p := None))"
| hs_write: "L p = Some sz \<Longrightarrow> p \<le> a \<Longrightarrow> a < p + sz \<Longrightarrow> heap_step (s, L) (s\<lparr>kmem := (kmem s)(a := b)\<rparr>, L)"
| hs_pages: "n * PAGE_SIZE \<le> 0xDFFFF000 \<Longrightarrow> getppages n s = Some (pa, s') \<Longrightarrow> heap_step (s, L) (s', L)"

definition heap_boot :: "kheap \<Rightarrow> bool" where
  "heap_boot s \<longleftrightarrow> ram_ok s \<and> can_sleep s \<and>
     kheaproots s = replicate 16 \<lparr>kr_page = 0, pagerefs_inuse = replicate 8 0, numinuse = 0\<rparr> \<and>
     sizebases s = replicate 8 0 \<and> allbase s = 0"

lemma boot_inv: "heap_boot s \<Longrightarrow> heap_inv s Map.empty"
proof -
  assume boot: "heap_boot s"
  then have "heap_links s []" "roots_inv s []"
    by (auto simp: heap_boot_def heap_links_def roots_inv_def root_inv_def used_refs_def)
  moreover have "region s [] Map.empty x = None" for x using boot by (cases x) (auto simp: heap_boot_def)
  then have "regions_ok (region s [] Map.empty) (heap_top s)" by (simp add: regions_ok_def)
  ultimately have "heap_core s [] Map.empty" using boot by (simp add: heap_core_def heap_boot_def)
  then show ?thesis using boot by (auto simp: heap_inv_def heap_boot_def)
qed

lemma write_inv:
  assumes inv: "heap_inv s L" and L: "L p = Some sz" and a: "p \<le> a" "a < p + sz"
  shows "heap_inv (s\<lparr>kmem := (kmem s)(a := b)\<rparr>) L"
proof -
  obtain prs where core: "heap_core s prs L" and sl: "can_sleep s" using inv by (auto simp: heap_inv_def)
  obtain n where ex: "extent s prs L p n" "sz \<le> n" using extent_ex [OF core L] by blast
  let ?s' = "s\<lparr>kmem := (kmem s)(a := b)\<rparr>"
  have "page_inv (kmem ?s') L (prefs s pr)" if pr: "pr \<in> set prs" for pr
  proof -
    obtain fl where fl: "free_list (kmem s) (prefs s pr) fl"
      and use: "\<forall>p\<in>blocks (prefs s pr). if p \<in> set fl then L p = None else \<exists>sz. L p = Some sz \<and> sz \<le> pr_size (prefs s pr) \<and> sz < 2048"
      and t: "PR_BLOCKTYPE (prefs s pr) < NSIZES"
      using core_pref_inv [OF core pr] by (auto simp: page_inv_def)
    have "p \<notin> set fl" using use fl L by (auto simp: free_list_def)
    then have "free_list (kmem ?s') (prefs s pr) fl"
      using a ex(2) by (intro free_list_frame [OF core ex(1) pr fl]) auto
    then show ?thesis using use t unfolding page_inv_def by blast
  qed
  moreover have "heap_links ?s' prs" by (rule heap_links_cong [of s]) (use core in \<open>auto simp: heap_core_def\<close>)
  moreover have "roots_inv ?s' prs" by (rule roots_inv_cong [of s]) (use core in \<open>auto simp: heap_core_def\<close>)
  moreover have "region ?s' prs L = region s prs L" by (rule ext, case_tac x) simp_all
  ultimately have "heap_core ?s' prs L" using core by (simp add: heap_core_def ram_ok_def heap_top_def)
  then show ?thesis using sl by (auto simp: heap_inv_def)
qed

text \<open>Memory above the top may change, and the top may move up: neither belongs to the heap.\<close>

lemma advance_inv:
  assumes inv: "heap_inv s L" and F: "firstpaddr s \<le> F" "F \<le> lastpaddr s" "F mod PAGE_SIZE = 0"
    and m: "\<forall>a<heap_top s. m a = kmem s a"
  shows "heap_inv (s\<lparr>firstpaddr := F, kmem := m\<rparr>) L"
proof -
  obtain prs where core: "heap_core s prs L" and sl: "can_sleep s" using inv by (auto simp: heap_inv_def)
  let ?s' = "s\<lparr>firstpaddr := F, kmem := m\<rparr>"
  have reg: "region ?s' prs L x = region s prs L x" for x by (cases x) simp_all
  have "regions_ok (region ?s' prs L) (heap_top ?s')"
  proof (rule regions_sub)
    show "regions_ok (region s prs L) (heap_top s)" using core by (simp add: heap_core_def)
    show "heap_top s \<le> heap_top ?s'" using F by (simp add: heap_top_def)
  qed (simp add: reg)
  moreover have "heap_links ?s' prs" by (rule heap_links_cong [of s]) (use core in \<open>auto simp: heap_core_def\<close>)
  moreover have "roots_inv ?s' prs" using core F by (fastforce simp: heap_core_def roots_inv_def ref_at_def)
  moreover have "ram_ok ?s'" using core F by (auto simp: heap_core_def ram_ok_def)
  moreover have "page_inv m L (prefs s pr)" if pr: "pr \<in> set prs" for pr
  proof (rule page_inv_mem [OF core_pref_inv [OF core pr]])
    fix x assume x: "x \<in> blocks (prefs s pr)"
    have "m (x + i) = kmem s (x + i)" if "i < 4" for i
      using m core_block [OF core pr x] core_page(3) [OF core pr] that by simp
    from this [of 0] this [of 1] this [of 2] this [of 3] show "fl_next m x = fl_next (kmem s) x"
      by (simp add: fl_next_def load_long_def)
  qed
  ultimately have "heap_core ?s' prs L" using core by (simp add: heap_core_def)
  then show ?thesis using sl by (auto simp: heap_inv_def can_sleep_def)
qed

lemma stealmem_run:
  assumes "ram_ok s" "n * PAGE_SIZE \<le> 0xDFFFF000"
  shows "ram_stealmem n s = (if firstpaddr s + n * PAGE_SIZE > lastpaddr s then (0, s)
    else (firstpaddr s, s\<lparr>firstpaddr := firstpaddr s + n * PAGE_SIZE\<rparr>))"
  using assms by (auto simp: ram_stealmem_def ram_ok_def Let_def)

lemma heap_inv_ram: "heap_inv s L \<Longrightarrow> ram_ok s \<and> can_sleep s"
  by (auto simp: heap_inv_def heap_core_def)

lemma heap_getppages:
  assumes "heap_inv s L" "n * PAGE_SIZE \<le> 0xDFFFF000"
  shows "getppages n s = (if firstpaddr s + n * PAGE_SIZE > lastpaddr s then Some (0, s)
    else Some (firstpaddr s, s\<lparr>firstpaddr := firstpaddr s + n * PAGE_SIZE\<rparr>))"
  using heap_inv_ram [OF assms(1)] stealmem_run [of s n] assms(2) getppages_run [of s n] by (auto simp: can_sleep_def)

lemma pages_inv:
  assumes inv: "heap_inv s L" and n: "n * PAGE_SIZE \<le> 0xDFFFF000" and run: "getppages n s = Some (pa, s')"
  shows "heap_inv s' L"
proof -
  have al: "firstpaddr s mod PAGE_SIZE = 0" using heap_inv_ram [OF inv] by (simp add: ram_ok_def)
  from run heap_getppages [OF inv n]
  have "s' = s \<or> firstpaddr s + n * PAGE_SIZE \<le> lastpaddr s \<and> s' = s\<lparr>firstpaddr := firstpaddr s + n * PAGE_SIZE\<rparr>"
    by (auto split: if_splits)
  then show ?thesis using inv advance_inv [OF inv, of "firstpaddr s + n * PAGE_SIZE" "kmem s"] al by auto
qed

interpretation heap_runs: step_system "\<lambda>(s, L). heap_boot s \<and> L = Map.empty" heap_step "\<lambda>(s, L). heap_inv s L"
proof (unfold_locales, goal_cases)
  case (1 x)
  then show ?case by (auto intro: boot_inv)
next
  case (2 x y)
  then show ?case
  proof (cases rule: heap_step.cases)
    case (hs_malloc sz s p s' L)
    then show ?thesis using 2(2) kmalloc_inv [of s L sz] by (auto simp: alloc_ok_def split: if_splits)
  next
    case (hs_free L p sz s s')
    then show ?thesis using 2(2) kfree_inv [of s L p sz] by auto
  next
    case (hs_write L p sz a s b)
    then show ?thesis using 2(2) write_inv [of s L p sz a b] by auto
  next
    case (hs_pages n s pa s' L)
    then show ?thesis using 2(2) pages_inv [of s L n pa s'] by auto
  qed
qed

section \<open>What clients rely on\<close>

lemma live_block:
  assumes core: "heap_core s prs L" and L: "L p = Some sz"
  shows "p mod 16 = 0" "MIPS_KSEG0 < p" "p + sz \<le> heap_top s"
proof -
  have "p mod 16 = 0 \<and> p + sz \<le> heap_top s"
  proof (cases "sz \<ge> 2048")
    case True
    then have "p mod PAGE_SIZE = 0 \<and> p + span sz \<le> heap_top s"
      using core L regions_range [of "region s prs L" "heap_top s" "Big p" p "span sz"] by (simp add: heap_core_def)
    then show ?thesis using span_bounds(1) [of sz] mod_mod_cancel [of 16 4096 p] by auto
  next
    case False
    with core L obtain pr where pr: "pr \<in> set prs" "p \<in> blocks (prefs s pr)" by (fastforce simp: heap_core_def)
    note pg = core_page [OF core pr(1)]
    have "PR_BLOCKTYPE (prefs s pr) \<in> set [0..<8]" using pg(5) by simp
    then have s16: "pr_size (prefs s pr) mod 16 = 0" by (auto simp: pr_size_def sizes_def upt_rec)
    obtain i where "p = PR_PAGEADDR (prefs s pr) + i * pr_size (prefs s pr)" using pr(2) by (auto simp: blocks_def)
    moreover have "PR_PAGEADDR (prefs s pr) mod 16 = 0" using pg(1) mod_mod_cancel [of 16 4096 "PR_PAGEADDR (prefs s pr)"] by simp
    ultimately have "p mod 16 = 0" using s16 by (metis add_0 mod_add_eq mod_mult_right_eq mult_0_right mod_0)
    moreover have "sz \<le> pr_size (prefs s pr)"
      using core_pref_inv [OF core pr(1)] pr(2) L by (fastforce simp: page_inv_def split: if_splits)
    ultimately show ?thesis using core_block [OF core pr] pg(3) by simp
  qed
  then show "p mod 16 = 0" "p + sz \<le> heap_top s" by simp_all
  show "MIPS_KSEG0 < p" by (rule live_below(2) [OF core L])
qed

text \<open>Two live blocks do not share a byte, and none lies in a page of pagerefs.\<close>

definition blocks_apart :: "nat \<Rightarrow> nat \<Rightarrow> nat \<Rightarrow> nat \<Rightarrow> bool" where
  "blocks_apart p m q n \<longleftrightarrow> p + m \<le> q \<or> q + n \<le> p"

lemma live_apart:
  assumes core: "heap_core s prs L" and L: "L p = Some m" "L q = Some n" and pq: "p \<noteq> q"
  shows "blocks_apart p m q n"
proof -
  obtain i where i: "extent s prs L p i" "m \<le> i" using extent_ex [OF core L(1)] by blast
  obtain j where j: "extent s prs L q j" "n \<le> j" using extent_ex [OF core L(2)] by blast
  from extents_apart [OF core i(1) j(1) pq] i(2) j(2) show ?thesis by (auto simp: blocks_apart_def)
qed

lemma live_not_root:
  assumes core: "heap_core s prs L" and L: "L p = Some m" and r: "r < 16" "kr_page (kheaproots s ! r) \<noteq> 0"
  shows "blocks_apart p m (kr_page (kheaproots s ! r)) PAGE_SIZE"
proof (cases "m \<ge> 2048")
  case True
  then show ?thesis
    using core L r regions_apart [of "region s prs L" "heap_top s" "Big p" p "span m" "Root r"] span_bounds(1) [of m]
    by (auto simp: heap_core_def blocks_apart_def)
next
  case False
  with core L obtain pr where pr: "pr \<in> set prs" "p \<in> blocks (prefs s pr)" by (fastforce simp: heap_core_def)
  have "PR_PAGEADDR (prefs s pr) + PAGE_SIZE \<le> kr_page (kheaproots s ! r) \<or> kr_page (kheaproots s ! r) + PAGE_SIZE \<le> PR_PAGEADDR (prefs s pr)"
    using core pr r regions_apart [of "region s prs L" "heap_top s" "Heap pr" "PR_PAGEADDR (prefs s pr)" PAGE_SIZE "Root r"]
    by (simp add: heap_core_def)
  moreover have "m \<le> pr_size (prefs s pr)"
    using core_pref_inv [OF core pr(1)] pr(2) L by (fastforce simp: page_inv_def split: if_splits)
  ultimately show ?thesis using core_block [OF core pr] by (auto simp: blocks_apart_def)
qed

text \<open>
  C5. Whatever the sequence of allocations, frees, writes by clients to their own blocks and page
  allocations since boot: the blocks held are 16-byte aligned kernel memory, no two of them overlap
  and none overlaps the pages of bookkeeping; a further \<open>kmalloc\<close> does not fail an assertion and
  returns NULL or a block that is not held; and freeing any held block does not fail an assertion.
\<close>

theorem kmalloc_safe:
  assumes "heap_boot s0" "heap_step\<^sup>*\<^sup>* (s0, Map.empty) (s, L)"
  shows "(\<forall>p m. L p = Some m \<longrightarrow> p mod 16 = 0 \<and> MIPS_KSEG0 < p \<and> p + m \<le> heap_top s) \<and>
    (\<forall>p m q n. L p = Some m \<longrightarrow> L q = Some n \<longrightarrow> p \<noteq> q \<longrightarrow> blocks_apart p m q n) \<and>
    (\<forall>p m r. L p = Some m \<longrightarrow> r < 16 \<longrightarrow> kr_page (kheaproots s ! r) \<noteq> 0 \<longrightarrow>
      blocks_apart p m (kr_page (kheaproots s ! r)) PAGE_SIZE) \<and>
    (\<forall>m\<le>0xDFFFF000. \<exists>p s'. kmalloc m s = Some (p, s') \<and> L p = None) \<and>
    (\<forall>p m. L p = Some m \<longrightarrow> kfree p s \<noteq> None)"
proof -
  have inv: "heap_inv s L" using heap_runs.reach_inv [OF assms(2)] assms(1) by simp
  then obtain prs where core: "heap_core s prs L" by (auto simp: heap_inv_def)
  have "L 0 = None" using live_below(2) [OF core, of 0] by (cases "L 0") auto
  then have "\<forall>m\<le>0xDFFFF000. \<exists>p s'. kmalloc m s = Some (p, s') \<and> L p = None"
    using kmalloc_inv [OF inv] by (fastforce simp: alloc_ok_def split: if_splits)
  moreover have "\<forall>p m. L p = Some m \<longrightarrow> kfree p s \<noteq> None" using kfree_inv [OF inv] by fastforce
  moreover have "\<forall>p m. L p = Some m \<longrightarrow> p mod 16 = 0 \<and> MIPS_KSEG0 < p \<and> p + m \<le> heap_top s"
    using live_block [OF core] by blast
  moreover have "\<forall>p m q n. L p = Some m \<longrightarrow> L q = Some n \<longrightarrow> p \<noteq> q \<longrightarrow> blocks_apart p m q n"
    using live_apart [OF core] by blast
  moreover have "\<forall>p m r. L p = Some m \<longrightarrow> r < 16 \<longrightarrow> kr_page (kheaproots s ! r) \<noteq> 0 \<longrightarrow>
      blocks_apart p m (kr_page (kheaproots s ! r)) PAGE_SIZE" using live_not_root [OF core] by blast
  ultimately show ?thesis by blast
qed

text \<open>
  C6. The heap never touches the data of a block that a client holds: no byte of it changes in an
  allocation, nor when another block is freed.
\<close>

theorem kmalloc_keeps_data:
  assumes "heap_boot s0" "heap_step\<^sup>*\<^sup>* (s0, Map.empty) (s, L)" "L q = Some n" "q \<le> a" "a < q + n"
  shows "(\<forall>m p s'. m \<le> 0xDFFFF000 \<longrightarrow> kmalloc m s = Some (p, s') \<longrightarrow> kmem s' a = kmem s a) \<and>
    (\<forall>p s'. p \<in> dom L \<longrightarrow> p \<noteq> q \<longrightarrow> kfree p s = Some s' \<longrightarrow> kmem s' a = kmem s a)"
proof -
  have inv: "heap_inv s L" using heap_runs.reach_inv [OF assms(2)] assms(1) by simp
  then obtain prs where core: "heap_core s prs L" by (auto simp: heap_inv_def)
  have "a < heap_top s" using live_block(3) [OF core assms(3)] assms(5) by simp
  then have "\<forall>m p s'. m \<le> 0xDFFFF000 \<longrightarrow> kmalloc m s = Some (p, s') \<longrightarrow> kmem s' a = kmem s a"
    using kmalloc_inv [OF inv] by (fastforce simp: alloc_ok_def)
  moreover have "\<forall>p s'. p \<in> dom L \<longrightarrow> p \<noteq> q \<longrightarrow> kfree p s = Some s' \<longrightarrow> kmem s' a = kmem s a"
    using kfree_inv [OF inv] assms(3-5) by fastforce
  ultimately show ?thesis by blast
qed

text \<open>
  C38. A request that is within a page of \<open>2 ^ 32\<close> bytes is not refused: the rounding in \<open>kmalloc\<close>
  wraps to zero pages, so it returns the start of the free memory without reserving any of it,
  and the next large allocation returns the same address.
\<close>

theorem kmalloc_overflow:
  assumes "heap_boot s0" "heap_step\<^sup>*\<^sup>* (s0, Map.empty) (s, L)" "0xfffff000 < m" "m < 2 ^ 32"
  shows "kmalloc m s = Some (heap_top s, s) \<and>
    (\<forall>k. 2048 \<le> k \<longrightarrow> k \<le> 0xDFFFF000 \<longrightarrow> firstpaddr s + span k \<le> lastpaddr s \<longrightarrow>
      kmalloc k s = Some (heap_top s, s\<lparr>firstpaddr := firstpaddr s + span k\<rparr>))"
proof -
  have inv: "heap_inv s L" using heap_runs.reach_inv [OF assms(2)] assms(1) by simp
  then have sl: "can_sleep s" and ram: "ram_ok s" by (auto simp: heap_inv_def heap_core_def)
  note top = ram_ok_top [OF ram]
  have "m - 0xfffff001 < PAGE_SIZE" "m + PAGE_SIZE - 1 = m - 0xfffff001 + 2 ^ 32" using assms(3,4) by simp_all
  then have np: "(m + PAGE_SIZE - 1) mod 2 ^ 32 div PAGE_SIZE = 0" by (simp only: mod_add_self2) simp
  have "alloc_kpages 0 s = Some (heap_top s, s)" using alloc_kpages_run [OF sl ram, of 0] ram by (simp add: ram_ok_def)
  then have "kmalloc m s = Some (heap_top s, s)"
    unfolding kmalloc_def np Let_def using assms(3) top by simp
  then show ?thesis using kmalloc_large [OF sl ram] by simp
qed

section \<open>A heap at work\<close>

definition ex_heap :: kheap where
  "ex_heap = \<lparr>firstpaddr = 0x21000, lastpaddr = 0x80000, hp_me = 0,
     hp_cpu = \<lparr>curcpu_exists = True, irq_on = True, t_iplhigh_count = 0, t_curspl = 0, c_spinlocks = 0\<rparr>,
     hp_in_interrupt = False, stealmem_lock = splk_free, kmalloc_spinlock = splk_free,
     kheaproots = replicate 16 \<lparr>kr_page = 0, pagerefs_inuse = replicate 8 0, numinuse = 0\<rparr>,
     prefs = (\<lambda>_. \<lparr>next_samesize = 0, next_all = 0, pageaddr_and_blocktype = 0, freelist_offset = 0, nfree = 0\<rparr>),
     sizebases = replicate 8 0, allbase = 0, kmem = (\<lambda>_. 0)\<rparr>"

lemma ex_heap_boot: "heap_boot ex_heap"
  by (simp add: heap_boot_def ex_heap_def ram_ok_def can_sleep_def spl_inv_def)

lemmas heap_eval = ex_heap_def kmalloc_def subpage_kmalloc_def blocktype_def sizes_def upt_rec numeral_2_eq_2 [symmetric] Let_def
  km_acquire_def spinlock_acquire_def splraise_def km_release_def spinlock_release_def spllower_def splk_free_def
  find_page.simps alloc_kpages_def dumbvm_can_sleep_def getppages_def ram_stealmem_def PADDR_TO_KVADDR_def
  allocpageref_def free_word_def free_bit_def take_pageref_def allocpagerefpage_def set_root_def set_pref_def
  setup_page_def doalloc_def PR_PAGEADDR_def MKPAB_parts load_store_other

lemma ex_heap_malloc: "map_option fst (kmalloc 2000 ex_heap) = Some 0x80021800"
  by (simp add: heap_eval)

text \<open>After one allocation the block lies in the upper half of a page of 2048-byte blocks.\<close>

definition ex_live :: "nat \<rightharpoonup> nat" where
  "ex_live = [0x80021800 \<mapsto> 2000]"

lemma ex_heap_run: "\<exists>s. heap_step\<^sup>*\<^sup>* (ex_heap, Map.empty) (s, ex_live)"
proof -
  obtain s where "kmalloc 2000 ex_heap = Some (0x80021800, s)" using ex_heap_malloc by auto
  from hs_malloc [of 2000 ex_heap, OF _ this, of Map.empty] show ?thesis by (auto simp: ex_live_def)
qed

theorem kmalloc_safe_witness:
  "\<exists>s. heap_step\<^sup>*\<^sup>* (ex_heap, Map.empty) (s, ex_live) \<and> 0x80021800 + 2000 \<le> heap_top s \<and> kfree 0x80021800 s \<noteq> None"
proof -
  obtain s where run: "heap_step\<^sup>*\<^sup>* (ex_heap, Map.empty) (s, ex_live)" using ex_heap_run by blast
  have "ex_live 0x80021800 = Some 2000" by (simp add: ex_live_def)
  with kmalloc_safe [OF ex_heap_boot run] run show ?thesis by blast
qed

theorem kmalloc_keeps_data_witness:
  "\<exists>s p s'. heap_step\<^sup>*\<^sup>* (ex_heap, Map.empty) (s, ex_live) \<and> kmalloc 100 s = Some (p, s') \<and>
    kmem s' 0x80021801 = kmem s 0x80021801"
proof -
  obtain s where run: "heap_step\<^sup>*\<^sup>* (ex_heap, Map.empty) (s, ex_live)" using ex_heap_run by blast
  have inv: "heap_inv s ex_live" using heap_runs.reach_inv [OF run] ex_heap_boot by simp
  have "ex_live 0x80021800 = Some 2000" by (simp add: ex_live_def)
  from kmalloc_keeps_data [where a = "0x80021801", OF ex_heap_boot run this]
  have "\<forall>m p s'. m \<le> 0xDFFFF000 \<longrightarrow> kmalloc m s = Some (p, s') \<longrightarrow> kmem s' 0x80021801 = kmem s 0x80021801" by simp
  then have "\<forall>p s'. kmalloc 100 s = Some (p, s') \<longrightarrow> kmem s' 0x80021801 = kmem s 0x80021801"
    by (intro allI) (erule_tac x = 100 in allE, simp)
  moreover obtain p s' where "kmalloc 100 s = Some (p, s')" using kmalloc_inv [OF inv, of 100] by auto
  ultimately show ?thesis using run by blast
qed

theorem kmalloc_overflow_witness:
  "kmalloc 0xffffffff ex_heap = Some (0x80021000, ex_heap) \<and> map_option fst (kmalloc 5000 ex_heap) = Some 0x80021000"
  using kmalloc_overflow [where m = "0xffffffff", OF ex_heap_boot rtranclp.rtrancl_refl]
  by (simp add: span_def) (simp add: ex_heap_def heap_top_def)

end
