(* ===== verification/Addrspace.thy ===== *)
theory Addrspace
  imports Kernel_Heap
begin

text \<open>
  Address spaces and page faults, \<open>kern/arch/mips/vm/dumbvm.c\<close>: an address space has two regions and
  a stack, each one block of physical memory. \<open>struct addrspace\<close> objects are kept by address in
  \<open>spaces\<close> (a freed or NULL one maps to \<open>None\<close>, and using it stops the caller). The TLB is a list of
  pairs \<open>(entryhi, entrylo)\<close>; \<open>tlb_read\<close> and \<open>tlb_write\<close> are its selection and update. The state
  has the address space of the current process, \<open>proc_getas()\<close>.
\<close>

section \<open>State\<close>

record addrspace =
  as_vbase1 :: nat
  as_pbase1 :: nat
  as_npages1 :: nat
  as_vbase2 :: nat
  as_pbase2 :: nat
  as_npages2 :: nat
  as_stackpbase :: nat

record vmstate =
  vm_heap :: kheap
  spaces :: "nat \<Rightarrow> addrspace option"
  curproc_set :: bool
  cur_as :: nat
  tlb :: "(nat \<times> nat) list"

abbreviation (input) DUMBVM_STACKPAGES :: nat where "DUMBVM_STACKPAGES \<equiv> 18"
abbreviation (input) USERSTACK :: nat where "USERSTACK \<equiv> 0x80000000"
abbreviation (input) NUM_TLB :: nat where "NUM_TLB \<equiv> 64"
abbreviation (input) TLBLO_DIRTY :: nat where "TLBLO_DIRTY \<equiv> 0x400"
abbreviation (input) TLBLO_VALID :: nat where "TLBLO_VALID \<equiv> 0x200"
abbreviation (input) VM_FAULT_READ :: int where "VM_FAULT_READ \<equiv> 0"
abbreviation (input) VM_FAULT_WRITE :: int where "VM_FAULT_WRITE \<equiv> 1"
abbreviation (input) VM_FAULT_READONLY :: int where "VM_FAULT_READONLY \<equiv> 2"

definition TLBHI_INVALID :: "nat \<Rightarrow> nat" where
  "TLBHI_INVALID i = (0x80000 + i) * 2 ^ 12"

definition set_space :: "nat \<Rightarrow> (addrspace \<Rightarrow> addrspace) \<Rightarrow> vmstate \<Rightarrow> vmstate" where
  "set_space p f s = s\<lparr>spaces := (spaces s)(p := map_option f (spaces s p))\<rparr>"

section \<open>Page faults\<close>

definition vm_tlbshootdown :: "vmstate \<Rightarrow> vmstate option" where
  "vm_tlbshootdown s = None"

definition as_mapped :: "addrspace \<Rightarrow> bool" where
  "as_mapped a \<longleftrightarrow> as_vbase1 a \<noteq> 0 \<and> as_pbase1 a \<noteq> 0 \<and> as_npages1 a \<noteq> 0 \<and> as_vbase2 a \<noteq> 0 \<and> as_pbase2 a \<noteq> 0 \<and>
     as_npages2 a \<noteq> 0 \<and> as_stackpbase a \<noteq> 0 \<and> as_vbase1 a AND PAGE_FRAME = as_vbase1 a \<and>
     as_pbase1 a AND PAGE_FRAME = as_pbase1 a \<and> as_vbase2 a AND PAGE_FRAME = as_vbase2 a \<and>
     as_pbase2 a AND PAGE_FRAME = as_pbase2 a \<and> as_stackpbase a AND PAGE_FRAME = as_stackpbase a"

definition fault_paddr :: "addrspace \<Rightarrow> nat \<Rightarrow> nat option" where
  "fault_paddr a va =
     (let vtop1 = (as_vbase1 a + as_npages1 a * PAGE_SIZE) mod 2 ^ 32;
          vtop2 = (as_vbase2 a + as_npages2 a * PAGE_SIZE) mod 2 ^ 32;
          stackbase = USERSTACK - DUMBVM_STACKPAGES * PAGE_SIZE
      in if va \<ge> as_vbase1 a \<and> va < vtop1 then Some ((va - as_vbase1 a + as_pbase1 a) mod 2 ^ 32)
         else if va \<ge> as_vbase2 a \<and> va < vtop2 then Some ((va - as_vbase2 a + as_pbase2 a) mod 2 ^ 32)
         else if va \<ge> stackbase \<and> va < USERSTACK then Some ((va - stackbase + as_stackpbase a) mod 2 ^ 32)
         else None)"

definition tlb_install :: "nat \<Rightarrow> nat \<Rightarrow> vmstate \<Rightarrow> errno \<times> vmstate" where
  "tlb_install va paddr s =
     (case find (\<lambda>i. snd (tlb s ! i) AND TLBLO_VALID = 0) [0..<NUM_TLB] of
        Some i \<Rightarrow> (0, s\<lparr>tlb := (tlb s)[i := (va, paddr OR TLBLO_DIRTY OR TLBLO_VALID)]\<rparr>)
      | None \<Rightarrow> (EFAULT, s))"

definition vm_fault :: "int \<Rightarrow> nat \<Rightarrow> vmstate \<Rightarrow> (errno \<times> vmstate) option" where
  "vm_fault faulttype faultaddress s =
     (let va = faultaddress AND PAGE_FRAME
      in if faulttype = VM_FAULT_READONLY then None
         else if faulttype \<noteq> VM_FAULT_READ \<and> faulttype \<noteq> VM_FAULT_WRITE then Some (EINVAL, s)
         else if \<not> curproc_set s then Some (EFAULT, s)
         else if cur_as s = 0 then Some (EFAULT, s)
         else do {
           a \<leftarrow> spaces s (cur_as s);
           kassert (as_mapped a);
           case fault_paddr a va of
             None \<Rightarrow> Some (EFAULT, s)
           | Some paddr \<Rightarrow>
               do {
                 kassert (paddr AND PAGE_FRAME = paddr);
                 (spl, c) \<leftarrow> splhigh (hp_cpu (vm_heap s));
                 let (result, s) = tlb_install va paddr (s\<lparr>vm_heap := (vm_heap s)\<lparr>hp_cpu := c\<rparr>\<rparr>);
                 (_, c) \<leftarrow> splx spl (hp_cpu (vm_heap s));
                 Some (result, s\<lparr>vm_heap := (vm_heap s)\<lparr>hp_cpu := c\<rparr>\<rparr>)
               }
         })"

section \<open>Address spaces\<close>

definition as_create :: "vmstate \<Rightarrow> (nat \<times> vmstate) option" where
  "as_create s =
     do {
       (p, h) \<leftarrow> kmalloc 28 (vm_heap s);
       let s = s\<lparr>vm_heap := h\<rparr>;
       if p = 0 then Some (0, s)
       else Some (p, s\<lparr>spaces := (spaces s)(p \<mapsto> \<lparr>as_vbase1 = 0, as_pbase1 = 0, as_npages1 = 0, as_vbase2 = 0, as_pbase2 = 0,
                       as_npages2 = 0, as_stackpbase = 0\<rparr>)\<rparr>)
     }"

definition as_destroy :: "nat \<Rightarrow> vmstate \<Rightarrow> vmstate option" where
  "as_destroy p s =
     do {
       dumbvm_can_sleep (vm_heap s);
       h \<leftarrow> kfree p (vm_heap s);
       Some (s\<lparr>vm_heap := h, spaces := (spaces s)(p := None)\<rparr>)
     }"

definition as_activate :: "vmstate \<Rightarrow> vmstate option" where
  "as_activate s =
     (if cur_as s = 0 then Some s
      else do {
        (spl, c) \<leftarrow> splhigh (hp_cpu (vm_heap s));
        let s = s\<lparr>tlb := fold (\<lambda>i t. t[i := (TLBHI_INVALID i, 0)]) [0..<NUM_TLB] (tlb s)\<rparr>;
        (_, c) \<leftarrow> splx spl c;
        Some (s\<lparr>vm_heap := (vm_heap s)\<lparr>hp_cpu := c\<rparr>\<rparr>)
      })"

definition as_deactivate :: "vmstate \<Rightarrow> vmstate" where
  "as_deactivate s = s"

definition as_define_region :: "nat \<Rightarrow> nat \<Rightarrow> nat \<Rightarrow> vmstate \<Rightarrow> (errno \<times> vmstate) option" where
  "as_define_region p vaddr sz s =
     do {
       dumbvm_can_sleep (vm_heap s);
       let sz = (sz + (vaddr AND 0xfff)) mod 2 ^ 32;
       let vaddr = vaddr AND PAGE_FRAME;
       let sz = (sz + PAGE_SIZE - 1) mod 2 ^ 32 AND PAGE_FRAME;
       let npages = sz div PAGE_SIZE;
       a \<leftarrow> spaces s p;
       if as_vbase1 a = 0 then Some (0, set_space p (\<lambda>a. a\<lparr>as_vbase1 := vaddr, as_npages1 := npages\<rparr>) s)
       else if as_vbase2 a = 0 then Some (0, set_space p (\<lambda>a. a\<lparr>as_vbase2 := vaddr, as_npages2 := npages\<rparr>) s)
       else Some (ENOSYS, s)
     }"

definition as_zero_region :: "nat \<Rightarrow> nat \<Rightarrow> vmstate \<Rightarrow> vmstate" where
  "as_zero_region paddr npages s =
     s\<lparr>vm_heap := (vm_heap s)\<lparr>kmem := bzero (PADDR_TO_KVADDR paddr) (npages * PAGE_SIZE mod 2 ^ 32) (kmem (vm_heap s))\<rparr>\<rparr>"

definition as_getppages :: "nat \<Rightarrow> vmstate \<Rightarrow> (nat \<times> vmstate) option" where
  "as_getppages n s = do { (pa, h) \<leftarrow> getppages n (vm_heap s); Some (pa, s\<lparr>vm_heap := h\<rparr>) }"

definition as_prepare_load :: "nat \<Rightarrow> vmstate \<Rightarrow> (errno \<times> vmstate) option" where
  "as_prepare_load p s =
     do {
       a \<leftarrow> spaces s p;
       kassert (as_pbase1 a = 0);
       kassert (as_pbase2 a = 0);
       kassert (as_stackpbase a = 0);
       dumbvm_can_sleep (vm_heap s);
       (pa1, s) \<leftarrow> as_getppages (as_npages1 a) s;
       let s = set_space p (\<lambda>a. a\<lparr>as_pbase1 := pa1\<rparr>) s;
       if pa1 = 0 then Some (ENOMEM, s)
       else do {
         (pa2, s) \<leftarrow> as_getppages (as_npages2 a) s;
         let s = set_space p (\<lambda>a. a\<lparr>as_pbase2 := pa2\<rparr>) s;
         if pa2 = 0 then Some (ENOMEM, s)
         else do {
           (pas, s) \<leftarrow> as_getppages DUMBVM_STACKPAGES s;
           let s = set_space p (\<lambda>a. a\<lparr>as_stackpbase := pas\<rparr>) s;
           if pas = 0 then Some (ENOMEM, s)
           else Some (0, as_zero_region pas DUMBVM_STACKPAGES (as_zero_region pa2 (as_npages2 a)
                         (as_zero_region pa1 (as_npages1 a) s)))
         }
       }
     }"

definition as_complete_load :: "nat \<Rightarrow> vmstate \<Rightarrow> (errno \<times> vmstate) option" where
  "as_complete_load p s = do { dumbvm_can_sleep (vm_heap s); Some (0, s) }"

definition as_define_stack :: "nat \<Rightarrow> vmstate \<Rightarrow> (errno \<times> nat \<times> vmstate) option" where
  "as_define_stack p s = do { a \<leftarrow> spaces s p; kassert (as_stackpbase a \<noteq> 0); Some (0, USERSTACK, s) }"

definition as_memmove :: "nat \<Rightarrow> nat \<Rightarrow> nat \<Rightarrow> vmstate \<Rightarrow> vmstate" where
  "as_memmove dst src npages s =
     s\<lparr>vm_heap := (vm_heap s)\<lparr>kmem := snd (memmove (PADDR_TO_KVADDR dst) (PADDR_TO_KVADDR src) (npages * PAGE_SIZE mod 2 ^ 32)
        (kmem (vm_heap s)))\<rparr>\<rparr>"

definition as_copy :: "nat \<Rightarrow> vmstate \<Rightarrow> (errno \<times> nat \<times> vmstate) option" where
  "as_copy old s =
     do {
       dumbvm_can_sleep (vm_heap s);
       (new, s) \<leftarrow> as_create s;
       if new = 0 then Some (ENOMEM, 0, s)
       else do {
         a \<leftarrow> spaces s old;
         let s = set_space new (\<lambda>n. n\<lparr>as_vbase1 := as_vbase1 a, as_npages1 := as_npages1 a,
                                       as_vbase2 := as_vbase2 a, as_npages2 := as_npages2 a\<rparr>) s;
         (result, s) \<leftarrow> as_prepare_load new s;
         if result \<noteq> 0 then do { s \<leftarrow> as_destroy new s; Some (ENOMEM, 0, s) }
         else do {
           n \<leftarrow> spaces s new;
           kassert (as_pbase1 n \<noteq> 0);
           kassert (as_pbase2 n \<noteq> 0);
           kassert (as_stackpbase n \<noteq> 0);
           let s = as_memmove (as_pbase1 n) (as_pbase1 a) (as_npages1 a) s;
           let s = as_memmove (as_pbase2 n) (as_pbase2 a) (as_npages2 a) s;
           let s = as_memmove (as_stackpbase n) (as_stackpbase a) DUMBVM_STACKPAGES s;
           Some (0, new, s)
         }
       }
     }"

section \<open>Translation of addresses\<close>

text \<open>
  The reference: what an address space means, byte by byte. A well-formed address space has
  page-aligned regions that do not wrap around.
\<close>

definition translate :: "addrspace \<Rightarrow> nat \<Rightarrow> nat option" where
  "translate a va =
     (if as_vbase1 a \<le> va \<and> va < as_vbase1 a + as_npages1 a * PAGE_SIZE then Some (as_pbase1 a + (va - as_vbase1 a))
      else if as_vbase2 a \<le> va \<and> va < as_vbase2 a + as_npages2 a * PAGE_SIZE then Some (as_pbase2 a + (va - as_vbase2 a))
      else if 0x7FFEE000 \<le> va \<and> va < USERSTACK then Some (as_stackpbase a + (va - 0x7FFEE000))
      else None)"

definition as_wf :: "addrspace \<Rightarrow> bool" where
  "as_wf a \<longleftrightarrow> 0 < as_vbase1 a \<and> 0 < as_npages1 a \<and> 0 < as_vbase2 a \<and> 0 < as_npages2 a \<and>
     0 < as_pbase1 a \<and> 0 < as_pbase2 a \<and> 0 < as_stackpbase a \<and>
     as_vbase1 a mod PAGE_SIZE = 0 \<and> as_vbase2 a mod PAGE_SIZE = 0 \<and> as_pbase1 a mod PAGE_SIZE = 0 \<and>
     as_pbase2 a mod PAGE_SIZE = 0 \<and> as_stackpbase a mod PAGE_SIZE = 0 \<and>
     as_vbase1 a + as_npages1 a * PAGE_SIZE < 2 ^ 32 \<and> as_vbase2 a + as_npages2 a * PAGE_SIZE < 2 ^ 32 \<and>
     as_pbase1 a + as_npages1 a * PAGE_SIZE < 2 ^ 32 \<and> as_pbase2 a + as_npages2 a * PAGE_SIZE < 2 ^ 32 \<and>
     as_stackpbase a + 18 * PAGE_SIZE < 2 ^ 32"

definition tlb_valid :: "nat \<times> nat \<Rightarrow> bool" where
  "tlb_valid e \<longleftrightarrow> snd e AND TLBLO_VALID \<noteq> 0"

text \<open>Every valid entry of the TLB maps the whole of its page as the address space says.\<close>

definition tlb_coherent :: "addrspace \<Rightarrow> (nat \<times> nat) list \<Rightarrow> bool" where
  "tlb_coherent a t \<longleftrightarrow> length t = NUM_TLB \<and>
     (\<forall>e\<in>set t. tlb_valid e \<longrightarrow> (\<forall>i<PAGE_SIZE. translate a (fst e + i) = Some ((snd e AND PAGE_FRAME) + i)))"

lemma as_wf_mapped: "as_wf a \<Longrightarrow> as_mapped a"
  by (auto simp: as_wf_def as_mapped_def page_frame_and)

lemma page_split:
  assumes "va mod PAGE_SIZE = 0" "b mod PAGE_SIZE = 0" "i < PAGE_SIZE"
  shows "b \<le> va + i \<longleftrightarrow> b \<le> va" "va + i < b \<longleftrightarrow> va < b"
proof -
  obtain x y where "va = 4096 * x" "b = 4096 * y" using assms(1,2) by (metis mod_0_imp_dvd dvdE)
  then show "b \<le> va + i \<longleftrightarrow> b \<le> va" "va + i < b \<longleftrightarrow> va < b" using assms(3) by auto
qed

lemma translate_page:
  assumes wf: "as_wf a" and va: "va mod PAGE_SIZE = 0" and i: "i < PAGE_SIZE"
  shows "translate a (va + i) = map_option (\<lambda>x. x + i) (translate a va)"
proof -
  have al: "as_vbase1 a mod PAGE_SIZE = 0" "(as_vbase1 a + as_npages1 a * PAGE_SIZE) mod PAGE_SIZE = 0"
    "as_vbase2 a mod PAGE_SIZE = 0" "(as_vbase2 a + as_npages2 a * PAGE_SIZE) mod PAGE_SIZE = 0"
    "(0x7FFEE000 :: nat) mod PAGE_SIZE = 0" "(USERSTACK :: nat) mod PAGE_SIZE = 0"
    using wf by (simp_all add: as_wf_def)
  show ?thesis unfolding translate_def
      page_split [OF va al(1) i] page_split [OF va al(2) i] page_split [OF va al(3) i]
      page_split [OF va al(4) i] page_split [OF va al(5) i] page_split [OF va al(6) i] by (simp add: add.assoc)
qed

lemma translate_bounds:
  assumes wf: "as_wf a" and va: "va mod PAGE_SIZE = 0" and tr: "translate a va = Some x"
  shows "x mod PAGE_SIZE = 0" "x < 2 ^ 32"
proof -
  have al: "(p + (va - b)) mod PAGE_SIZE = 0" if "b \<le> va" "p mod PAGE_SIZE = 0" "b mod PAGE_SIZE = 0" for p b
    using that va by (metis mod_eq_dvd_iff_nat dvd_add mod_0_imp_dvd dvd_imp_mod_0 dvd_diff_nat)
  show "x mod PAGE_SIZE = 0" using tr wf al [of "as_vbase1 a" "as_pbase1 a"] al [of "as_vbase2 a" "as_pbase2 a"]
      al [of "0x7FFEE000" "as_stackpbase a"] by (auto simp: translate_def as_wf_def split: if_splits)
  show "x < 2 ^ 32" using tr wf by (auto simp: translate_def as_wf_def split: if_splits)
qed

lemma fault_paddr_translate:
  assumes "as_wf a"
  shows "fault_paddr a va = translate a va"
  using assms unfolding fault_paddr_def translate_def as_wf_def by (auto simp: add.commute)

lemma spl_nest: "spl_inv c \<Longrightarrow> \<exists>c' r. splhigh c = Some (t_curspl c, c') \<and> splx (t_curspl c) c' = Some (r, c)"
  by (cases c) (auto simp: splhigh_def splx_def splraise_def spllower_def spl_inv_def Let_def)

lemma tlb_bits:
  assumes "x mod PAGE_SIZE = 0" "x < 2 ^ 32"
  shows "(x OR 0x400 OR 0x200) AND PAGE_FRAME = x" "(x OR 0x400 OR 0x200) AND TLBLO_VALID \<noteq> 0"
proof -
  have "x OR 0x400 OR 0x200 = MKPAB x 0x600"
    using assms by (simp add: MKPAB_def page_frame_and)
  then show "(x OR 0x400 OR 0x200) AND PAGE_FRAME = x" using MKPAB_parts(1) [OF assms, of "0x600"] by simp
  have "bit (x OR 0x400 OR 0x200) 9" by (simp add: bit_simps)
  then show "(x OR 0x400 OR 0x200) AND TLBLO_VALID \<noteq> 0" using and_exp_eq_0_iff_not_bit [of "x OR 0x400 OR 0x200" 9] by simp
qed

lemma vm_fault_run:
  assumes cur: "curproc_set s" "cur_as s \<noteq> 0" "spaces s (cur_as s) = Some a" and wf: "as_wf a"
    and cpu: "spl_inv (hp_cpu (vm_heap s))" and ft: "ft = VM_FAULT_READ \<or> ft = VM_FAULT_WRITE"
    and fa: "fa < 2 ^ 32" and pg: "va = fa - fa mod PAGE_SIZE"
  shows "vm_fault ft fa s = Some (case translate a va of None \<Rightarrow> (EFAULT, s) | Some x \<Rightarrow> tlb_install va x s)"
proof -
  have va: "fa AND PAGE_FRAME = va" "va mod PAGE_SIZE = 0" using fa pg by (simp_all add: page_frame_and minus_mod_eq_mult_div)
  obtain c' r where c': "splhigh (hp_cpu (vm_heap s)) = Some (t_curspl (hp_cpu (vm_heap s)), c')"
    "splx (t_curspl (hp_cpu (vm_heap s))) c' = Some (r, hp_cpu (vm_heap s))" using spl_nest [OF cpu] by blast
  show ?thesis
  proof (cases "translate a va")
    case None
    then show ?thesis unfolding vm_fault_def va(1) using cur ft as_wf_mapped [OF wf] fault_paddr_translate [OF wf] by auto
  next
    case (Some x)
    have "x AND PAGE_FRAME = x" using translate_bounds [OF wf va(2) Some] by (simp add: page_frame_and)
    then show ?thesis unfolding vm_fault_def va(1)
      using cur ft as_wf_mapped [OF wf] fault_paddr_translate [OF wf] Some c'
      by (auto simp: tlb_install_def Let_def split: option.splits)
  qed
qed

text \<open>
  C7. Page faults keep the TLB coherent with the address space: a read or write fault at an address
  that the address space maps, with a free TLB entry, installs an entry that translates the address
  exactly as the address space does; every other fault is refused with \<open>EFAULT\<close> and changes
  nothing.
\<close>

theorem vm_fault_correct:
  assumes "curproc_set s" "cur_as s \<noteq> 0" "spaces s (cur_as s) = Some a" "as_wf a" "spl_inv (hp_cpu (vm_heap s))"
    and "ft = VM_FAULT_READ \<or> ft = VM_FAULT_WRITE" "fa < 2 ^ 32" "tlb_coherent a (tlb s)"
  shows "\<exists>r s'. vm_fault ft fa s = Some (r, s') \<and> tlb_coherent a (tlb s') \<and> vm_heap s' = vm_heap s \<and> spaces s' = spaces s \<and>
    (r = 0 \<longleftrightarrow> translate a fa \<noteq> None \<and> (\<exists>e\<in>set (tlb s). \<not> tlb_valid e)) \<and>
    (r = 0 \<longrightarrow> (\<exists>e\<in>set (tlb s'). tlb_valid e \<and> fst e = fa - fa mod PAGE_SIZE \<and>
       translate a fa = Some ((snd e AND PAGE_FRAME) + fa mod PAGE_SIZE))) \<and>
    (r \<noteq> 0 \<longrightarrow> r = EFAULT \<and> s' = s)"
proof -
  define va where "va = fa - fa mod PAGE_SIZE"
  have va: "va mod PAGE_SIZE = 0" "va + fa mod PAGE_SIZE = fa" by (simp_all add: va_def minus_mod_eq_mult_div)
  note run = vm_fault_run [OF assms(1-7) va_def]
  have tr: "translate a fa = map_option (\<lambda>x. x + fa mod PAGE_SIZE) (translate a va)"
    using translate_page [OF assms(4) va(1), of "fa mod PAGE_SIZE"] va(2) by simp
  have len: "length (tlb s) = 64" using assms(8) by (simp add: tlb_coherent_def)
  have inv: "find (\<lambda>i. snd (tlb s ! i) AND TLBLO_VALID = 0) [0..<NUM_TLB] = None \<longleftrightarrow> (\<forall>e\<in>set (tlb s). tlb_valid e)"
    using len by (simp add: find_None_iff tlb_valid_def all_set_conv_all_nth)
  show ?thesis
  proof (cases "translate a va")
    case None
    then show ?thesis using run tr assms(8) by auto
  next
    case (Some x)
    show ?thesis
    proof (cases "find (\<lambda>i. snd (tlb s ! i) AND TLBLO_VALID = 0) [0..<NUM_TLB]")
      case None
      with inv have "\<forall>e\<in>set (tlb s). tlb_valid e" by simp
      then show ?thesis using run Some None assms(8) by (auto simp: tlb_install_def)
    next
      case i: (Some i)
      note i' = find_SomeD [OF i]
      define e where "e = (va, x OR 0x400 OR 0x200)"
      note b = tlb_bits [OF translate_bounds [OF assms(4) va(1) Some]]
      have "vm_fault ft fa s = Some (0, s\<lparr>tlb := (tlb s)[i := e]\<rparr>)" using run Some i by (simp add: tlb_install_def e_def)
      moreover have "tlb_valid e" "snd e AND PAGE_FRAME = x" using b by (simp_all add: tlb_valid_def e_def)
      moreover have "\<forall>j<PAGE_SIZE. translate a (fst e + j) = Some ((snd e AND PAGE_FRAME) + j)"
        using translate_page [OF assms(4) va(1)] Some b(1) by (simp add: e_def)
      then have "tlb_coherent a ((tlb s)[i := e])"
        using assms(8) set_update_subset_insert [of "tlb s" i e] by (auto simp: tlb_coherent_def)
      moreover have "e \<in> set ((tlb s)[i := e])" using i' len by (simp add: set_update_memI)
      moreover have "\<exists>e\<in>set (tlb s). \<not> tlb_valid e" using i inv by auto
      ultimately show ?thesis using tr Some
        by (intro exI [of _ 0] exI [of _ "s\<lparr>tlb := (tlb s)[i := e]\<rparr>"]) (auto simp: va_def e_def)
    qed
  qed
qed

text \<open>Activating an address space empties the TLB, so it is coherent with any address space.\<close>

lemma as_activate_coherent:
  assumes "spl_inv (hp_cpu (vm_heap s))" "cur_as s \<noteq> 0" "length (tlb s) = NUM_TLB"
  shows "\<exists>s'. as_activate s = Some s' \<and> tlb_coherent a (tlb s') \<and> (\<forall>e\<in>set (tlb s'). \<not> tlb_valid e) \<and>
    vm_heap s' = vm_heap s \<and> spaces s' = spaces s \<and> cur_as s' = cur_as s"
proof -
  obtain c' r where c': "splhigh (hp_cpu (vm_heap s)) = Some (t_curspl (hp_cpu (vm_heap s)), c')"
    "splx (t_curspl (hp_cpu (vm_heap s))) c' = Some (r, hp_cpu (vm_heap s))" using spl_nest [OF assms(1)] by blast
  define t' where "t' = fold (\<lambda>i t. t[i := (TLBHI_INVALID i, 0)]) [0..<NUM_TLB] (tlb s)"
  have "length (fold (\<lambda>i t. t[i := (TLBHI_INVALID i, 0)]) [0..<k] t) = length t \<and>
      (k \<le> length t \<longrightarrow> (\<forall>j<k. snd (fold (\<lambda>i t. t[i := (TLBHI_INVALID i, 0)]) [0..<k] t ! j) = 0))" for k and t :: "(nat \<times> nat) list"
    by (induction k) (auto simp: nth_list_update less_Suc_eq)
  from this [of 64 "tlb s"] have t': "length t' = 64" "\<forall>j<64. snd (t' ! j) = 0" using assms(3) by (simp_all add: t'_def)
  then have "\<forall>e\<in>set t'. \<not> tlb_valid e" by (simp add: all_set_conv_all_nth tlb_valid_def)
  moreover have "as_activate s = Some (s\<lparr>tlb := t'\<rparr>)" using c' assms(2) by (simp add: as_activate_def t'_def Let_def)
  ultimately show ?thesis using t'(1) by (auto simp: tlb_coherent_def)
qed

section \<open>Physical memory for an address space\<close>

lemma set_space_sel [simp]:
  "vm_heap (set_space p f s) = vm_heap s" "tlb (set_space p f s) = tlb s" "cur_as (set_space p f s) = cur_as s"
  "spaces (set_space p f s) = (spaces s)(p := map_option f (spaces s p))"
  by (simp_all add: set_space_def)

lemma as_getppages_run:
  assumes "heap_inv (vm_heap s) L" "n * PAGE_SIZE \<le> 0xDFFFF000"
  shows "as_getppages n s = (let F = firstpaddr (vm_heap s) in
    if F + n * PAGE_SIZE > lastpaddr (vm_heap s) then Some (0, s)
    else Some (F, s\<lparr>vm_heap := (vm_heap s)\<lparr>firstpaddr := F + n * PAGE_SIZE\<rparr>\<rparr>))"
  using heap_getppages [OF assms] by (simp add: as_getppages_def Let_def)

lemma kseg_map:
  assumes "pa + n * PAGE_SIZE \<le> 2 ^ 29"
  shows "PADDR_TO_KVADDR pa = MIPS_KSEG0 + pa" "n * PAGE_SIZE mod 2 ^ 32 = n * PAGE_SIZE"
proof -
  have "pa + n * PAGE_SIZE \<le> 536870912" using assms by simp
  then have l: "pa + MIPS_KSEG0 < 4294967296" "n * PAGE_SIZE < 4294967296" by linarith+
  show "PADDR_TO_KVADDR pa = MIPS_KSEG0 + pa" "n * PAGE_SIZE mod 2 ^ 32 = n * PAGE_SIZE"
    using mod_less [OF l(1)] mod_less [OF l(2)] unfolding PADDR_TO_KVADDR_def by simp_all
qed

lemma as_zero_region_run:
  assumes "pa + n * PAGE_SIZE \<le> 2 ^ 29"
  shows "as_zero_region pa n s =
    s\<lparr>vm_heap := (vm_heap s)\<lparr>kmem := block_fill (MIPS_KSEG0 + pa) (n * PAGE_SIZE) 0 (kmem (vm_heap s))\<rparr>\<rparr>"
  unfolding as_zero_region_def bzero_ok kseg_map(1) [OF assms] kseg_map(2) [OF assms] ..

lemma as_memmove_run:
  assumes "dst + n * PAGE_SIZE \<le> 2 ^ 29" "src + n * PAGE_SIZE \<le> 2 ^ 29"
  shows "as_memmove dst src n s = s\<lparr>vm_heap := (vm_heap s)\<lparr>kmem :=
    block_move (MIPS_KSEG0 + dst) (MIPS_KSEG0 + src) (n * PAGE_SIZE) (kmem (vm_heap s))\<rparr>\<rparr>"
  unfolding as_memmove_def memmove_ok kseg_map(1) [OF assms(1)] kseg_map(1) [OF assms(2)] kseg_map(2) [OF assms(1)] by simp

text \<open>What \<open>as_prepare_load\<close> leaves: three fresh zeroed blocks one after the other, or \<open>ENOMEM\<close>.\<close>

definition prepared :: "nat \<Rightarrow> addrspace \<Rightarrow> vmstate \<Rightarrow> vmstate \<Rightarrow> bool" where
  "prepared p a s s' \<longleftrightarrow> (let F = firstpaddr (vm_heap s); n1 = as_npages1 a * PAGE_SIZE; n2 = as_npages2 a * PAGE_SIZE in
     spaces s' p = Some (a\<lparr>as_pbase1 := F, as_pbase2 := F + n1, as_stackpbase := F + n1 + n2\<rparr>) \<and>
     firstpaddr (vm_heap s') = F + n1 + n2 + 18 * PAGE_SIZE \<and> firstpaddr (vm_heap s') \<le> 2 ^ 29 \<and>
     vm_heap s' = (vm_heap s)\<lparr>firstpaddr := firstpaddr (vm_heap s'), kmem := kmem (vm_heap s')\<rparr> \<and>
     (\<forall>x. heap_top (vm_heap s) \<le> x \<longrightarrow> x < heap_top (vm_heap s') \<longrightarrow> kmem (vm_heap s') x = 0))"

lemma as_prepare_load_run:
  assumes inv: "heap_inv (vm_heap s) L" and sp: "spaces s p = Some a"
    and zero: "as_pbase1 a = 0" "as_pbase2 a = 0" "as_stackpbase a = 0"
    and n: "as_npages1 a * PAGE_SIZE \<le> 0xDFFFF000" "as_npages2 a * PAGE_SIZE \<le> 0xDFFFF000"
  shows "\<exists>r s'. as_prepare_load p s = Some (r, s') \<and> heap_inv (vm_heap s') L \<and> (\<forall>q. q \<noteq> p \<longrightarrow> spaces s' q = spaces s q) \<and>
    (\<forall>x<heap_top (vm_heap s). kmem (vm_heap s') x = kmem (vm_heap s) x) \<and> (r = 0 \<or> r = ENOMEM) \<and>
    (r = 0 \<longrightarrow> prepared p a s s')"
proof -
  let ?h = "vm_heap s" and ?F = "firstpaddr (vm_heap s)"
  define n1 where "n1 = as_npages1 a * PAGE_SIZE"
  define n2 where "n2 = as_npages2 a * PAGE_SIZE"
  have ram: "ram_ok ?h" and sl: "can_sleep ?h" using heap_inv_ram [OF inv] by auto
  have al: "?F mod PAGE_SIZE = 0" "n1 mod PAGE_SIZE = 0" "n2 mod PAGE_SIZE = 0" "lastpaddr ?h \<le> 2 ^ 29" "0 < ?F"
    using ram by (simp_all add: ram_ok_def n1_def n2_def)
  have cs: "dumbvm_can_sleep ?h = Some ()" using sl by (auto simp: can_sleep_def dumbvm_can_sleep_def)
  have adv: "heap_inv (?h\<lparr>firstpaddr := F', kmem := m\<rparr>) L"
    if "?F \<le> F'" "F' \<le> lastpaddr ?h" "F' mod PAGE_SIZE = 0" "\<forall>x<heap_top ?h. m x = kmem ?h x" for F' m
    using advance_inv [OF inv that] .
  have adv0: "heap_inv (?h\<lparr>firstpaddr := F'\<rparr>) L" if "?F \<le> F'" "F' \<le> lastpaddr ?h" "F' mod PAGE_SIZE = 0" for F'
    using adv [OF that, of "kmem ?h"] by simp
  define s1 where "s1 = set_space p (\<lambda>a. a\<lparr>as_pbase1 := ?F\<rparr>) (s\<lparr>vm_heap := ?h\<lparr>firstpaddr := ?F + n1\<rparr>\<rparr>)"
  define s2 where "s2 = set_space p (\<lambda>a. a\<lparr>as_pbase2 := ?F + n1\<rparr>) (s1\<lparr>vm_heap := ?h\<lparr>firstpaddr := ?F + n1 + n2\<rparr>\<rparr>)"
  define s3 where "s3 = set_space p (\<lambda>a. a\<lparr>as_stackpbase := ?F + n1 + n2\<rparr>)
    (s2\<lparr>vm_heap := ?h\<lparr>firstpaddr := ?F + n1 + n2 + 18 * PAGE_SIZE\<rparr>\<rparr>)"
  note g1 = as_getppages_run [OF inv n(1)]
  consider (full) "?F + n1 > lastpaddr ?h" | (one) "?F + n1 \<le> lastpaddr ?h" "?F + n1 + n2 > lastpaddr ?h"
    | (two) "?F + n1 + n2 \<le> lastpaddr ?h" "?F + n1 + n2 + 18 * PAGE_SIZE > lastpaddr ?h"
    | (all) "?F + n1 + n2 + 18 * PAGE_SIZE \<le> lastpaddr ?h" by linarith
  then show ?thesis
  proof cases
    case full
    then have "as_prepare_load p s = Some (ENOMEM, set_space p (\<lambda>a. a\<lparr>as_pbase1 := 0\<rparr>) s)"
      using sp zero cs g1 by (simp add: as_prepare_load_def n1_def [symmetric] Let_def)
    then show ?thesis using inv by auto
  next
    case one
    have i1: "heap_inv (vm_heap s1) L" using adv0 [of "?F + n1"] one al by (simp add: s1_def mod_add_eq [symmetric])
    note g2 = as_getppages_run [OF i1 n(2)]
    have "as_prepare_load p s = Some (ENOMEM, set_space p (\<lambda>a. a\<lparr>as_pbase2 := 0\<rparr>) s1)"
      using sp zero cs g1 g2 one al by (simp add: as_prepare_load_def n1_def [symmetric] n2_def [symmetric] s1_def Let_def)
    then show ?thesis using i1 by (auto simp: s1_def)
  next
    case two
    have i1: "heap_inv (vm_heap s1) L" using adv0 [of "?F + n1"] two al by (simp add: s1_def mod_add_eq [symmetric])
    note g2 = as_getppages_run [OF i1 n(2)]
    have i2: "heap_inv (vm_heap s2) L" using adv0 [of "?F + n1 + n2"] two al by (simp add: s2_def mod_add_eq [symmetric])
    note g3 = as_getppages_run [OF i2, of 18]
    have "as_prepare_load p s = Some (ENOMEM, set_space p (\<lambda>a. a\<lparr>as_stackpbase := 0\<rparr>) s2)"
      using sp zero cs g1 g2 g3 two al by (simp add: as_prepare_load_def n1_def [symmetric] n2_def [symmetric] s1_def s2_def Let_def)
    then show ?thesis using i2 by (auto simp: s1_def s2_def)
  next
    case all
    have i1: "heap_inv (vm_heap s1) L" using adv0 [of "?F + n1"] all al by (simp add: s1_def mod_add_eq [symmetric])
    note g2 = as_getppages_run [OF i1 n(2)]
    have i2: "heap_inv (vm_heap s2) L" using adv0 [of "?F + n1 + n2"] all al by (simp add: s2_def mod_add_eq [symmetric])
    note g3 = as_getppages_run [OF i2, of 18]
    define m where "m = block_fill (MIPS_KSEG0 + (?F + n1 + n2)) (18 * PAGE_SIZE) 0
      (block_fill (MIPS_KSEG0 + (?F + n1)) n2 0 (block_fill (MIPS_KSEG0 + ?F) n1 0 (kmem ?h)))"
    define s4 where "s4 = s3\<lparr>vm_heap := ?h\<lparr>firstpaddr := ?F + n1 + n2 + 18 * PAGE_SIZE, kmem := m\<rparr>\<rparr>"
    have "as_prepare_load p s = Some (0, as_zero_region (?F + n1 + n2) 18 (as_zero_region (?F + n1) (as_npages2 a)
        (as_zero_region ?F (as_npages1 a) s3)))"
      using sp zero cs g1 g2 g3 all al
      by (simp add: as_prepare_load_def n1_def [symmetric] n2_def [symmetric] s1_def s2_def s3_def Let_def)
    moreover have "as_zero_region (?F + n1 + n2) 18 (as_zero_region (?F + n1) (as_npages2 a) (as_zero_region ?F (as_npages1 a) s3)) = s4"
      using all al by (simp add: as_zero_region_run n1_def [symmetric] n2_def [symmetric] s4_def m_def)
        (simp add: s3_def set_space_def)
    moreover have "\<forall>x<heap_top ?h. m x = kmem ?h x" by (simp add: m_def block_fill_def heap_top_def)
    then have "heap_inv (vm_heap s4) L" using adv [of "?F + n1 + n2 + 18 * PAGE_SIZE" m] all al
      by (simp add: s4_def mod_add_eq [symmetric])
    moreover have "m x = 0" if "heap_top ?h \<le> x" "x < MIPS_KSEG0 + (?F + n1 + n2 + 18 * PAGE_SIZE)" for x
      using that by (auto simp: m_def block_fill_def heap_top_def)
    ultimately show ?thesis using sp all al \<open>\<forall>x<heap_top ?h. m x = kmem ?h x\<close>
      by (intro exI [of _ 0] exI [of _ s4])
        (auto simp: prepared_def s4_def s3_def s2_def s1_def n1_def n2_def heap_top_def Let_def)
  qed
qed

section \<open>Copying an address space\<close>

definition allocated :: "addrspace \<Rightarrow> nat \<Rightarrow> bool" where
  "allocated a F \<longleftrightarrow> as_pbase1 a + as_npages1 a * PAGE_SIZE \<le> F \<and> as_pbase2 a + as_npages2 a * PAGE_SIZE \<le> F \<and>
     as_stackpbase a + 18 * PAGE_SIZE \<le> F"

text \<open>The three moves of \<open>as_copy\<close>, into the blocks that start at \<open>F\<close>.\<close>

definition copied :: "addrspace \<Rightarrow> nat \<Rightarrow> cmem \<Rightarrow> cmem" where
  "copied a F m = (let n1 = as_npages1 a * PAGE_SIZE; n2 = as_npages2 a * PAGE_SIZE in
     block_move (MIPS_KSEG0 + (F + n1 + n2)) (MIPS_KSEG0 + as_stackpbase a) (18 * PAGE_SIZE)
       (block_move (MIPS_KSEG0 + (F + n1)) (MIPS_KSEG0 + as_pbase2 a) n2
         (block_move (MIPS_KSEG0 + F) (MIPS_KSEG0 + as_pbase1 a) n1 m)))"

lemma copied_below: "x < MIPS_KSEG0 + F \<Longrightarrow> copied a F m x = m x"
  by (simp add: copied_def Let_def block_move_def)

lemma copied_translate:
  assumes al: "allocated a F0" and F: "F0 \<le> F"
    and b: "b = a\<lparr>as_pbase1 := F, as_pbase2 := F + as_npages1 a * PAGE_SIZE,
      as_stackpbase := F + as_npages1 a * PAGE_SIZE + as_npages2 a * PAGE_SIZE\<rparr>"
  shows "rel_option (\<lambda>x y. x < F0 \<and> F \<le> y \<and> copied a F m (MIPS_KSEG0 + y) = m (MIPS_KSEG0 + x)) (translate a va) (translate b va)"
proof -
  define n1 where "n1 = as_npages1 a * PAGE_SIZE"
  define n2 where "n2 = as_npages2 a * PAGE_SIZE"
  have al': "as_pbase1 a + n1 \<le> F0" "as_pbase2 a + n2 \<le> F0" "as_stackpbase a + 18 * PAGE_SIZE \<le> F0"
    using al by (simp_all add: allocated_def n1_def n2_def)
  have c1: "copied a F m (MIPS_KSEG0 + (F + i)) = m (MIPS_KSEG0 + (as_pbase1 a + i))" if "i < n1" for i
    using that by (simp add: copied_def Let_def n1_def [symmetric] n2_def [symmetric] block_move_def add.assoc)
  have c2: "copied a F m (MIPS_KSEG0 + (F + n1 + i)) = m (MIPS_KSEG0 + (as_pbase2 a + i))" if "i < n2" for i
    using that al'(2) F by (simp add: copied_def Let_def n1_def [symmetric] n2_def [symmetric] block_move_def add.assoc)
  have c3: "copied a F m (MIPS_KSEG0 + (F + n1 + n2 + i)) = m (MIPS_KSEG0 + (as_stackpbase a + i))" if "i < 18 * PAGE_SIZE" for i
    using that al'(3) F by (simp add: copied_def Let_def n1_def [symmetric] n2_def [symmetric] block_move_def add.assoc)
  show ?thesis unfolding translate_def b using al' F c1 [of "va - as_vbase1 a"] c2 [of "va - as_vbase2 a"] c3 [of "va - 0x7FFEE000"]
    by (auto simp: n1_def [symmetric] n2_def [symmetric] add.assoc)
qed


section \<open>Defining regions\<close>

text \<open>
  The pages of a region cover the bytes it was defined for, with less than a page to spare on
  either side, provided that the sums do not wrap.
\<close>

lemma as_define_region_covers:
  assumes "can_sleep (vm_heap s)" "spaces s p = Some a" "as_vbase1 a = 0" "vaddr + sz + PAGE_SIZE \<le> 2 ^ 32"
  shows "\<exists>b n. as_define_region p vaddr sz s = Some (0, set_space p (\<lambda>a. a\<lparr>as_vbase1 := b, as_npages1 := n\<rparr>) s) \<and>
    b mod PAGE_SIZE = 0 \<and> b \<le> vaddr \<and> vaddr < b + PAGE_SIZE \<and> vaddr + sz \<le> b + n * PAGE_SIZE \<and>
    b + n * PAGE_SIZE < vaddr + sz + PAGE_SIZE"
proof -
  define off where "off = vaddr mod PAGE_SIZE"
  define b where "b = vaddr - off"
  define n where "n = (sz + off + 4095) div PAGE_SIZE"
  have off: "off < PAGE_SIZE" "b + off = vaddr" "b mod PAGE_SIZE = 0" by (simp_all add: off_def b_def minus_mod_eq_mult_div)
  have lt: "vaddr < 2 ^ 32" "sz + off < 2 ^ 32" "sz + off + 4095 < 2 ^ 32" using assms(4) off by simp_all
  have "vaddr AND 0xfff = off" "vaddr AND PAGE_FRAME = b" using lt(1) by (simp_all add: block_and page_frame_and off_def b_def)
  moreover have "(sz + off + PAGE_SIZE - 1) mod 2 ^ 32 = sz + off + 4095" using lt(3) by simp
  moreover have "(sz + off + 4095) AND PAGE_FRAME = n * PAGE_SIZE"
    using lt(3) by (simp add: page_frame_and n_def minus_mod_eq_div_mult)
  moreover have "(sz + off) mod 2 ^ 32 = sz + off" using lt(2) by simp
  moreover have "dumbvm_can_sleep (vm_heap s) = Some ()" using assms(1) by (auto simp: can_sleep_def dumbvm_can_sleep_def)
  ultimately have "as_define_region p vaddr sz s = Some (0, set_space p (\<lambda>a. a\<lparr>as_vbase1 := b, as_npages1 := n\<rparr>) s)"
    using assms(2,3) by (simp add: as_define_region_def Let_def del: One_nat_def)
  moreover have "n * PAGE_SIZE = span (sz + off)" by (simp add: n_def span_def)
  ultimately show ?thesis using off span_bounds(1,2) [of "sz + off"] by (intro exI [of _ b] exI [of _ n]) simp
qed

text \<open>A program with fewer than two regions stops the kernel at its first fault.\<close>

lemma vm_fault_unmapped:
  assumes "curproc_set s" "cur_as s \<noteq> 0" "spaces s (cur_as s) = Some a" "as_vbase2 a = 0" "ft = VM_FAULT_READ \<or> ft = VM_FAULT_WRITE"
  shows "vm_fault ft fa s = None"
  using assms by (auto simp: vm_fault_def as_mapped_def Let_def)

section \<open>An address space at work\<close>

definition ex_as :: addrspace where
  "ex_as = \<lparr>as_vbase1 = 0x400000, as_pbase1 = 0x1000, as_npages1 = 2, as_vbase2 = 0x10000000, as_pbase2 = 0x3000, as_npages2 = 1,
     as_stackpbase = 0x4000\<rparr>"

definition ex_vm :: vmstate where
  "ex_vm = \<lparr>vm_heap = ex_heap, spaces = (\<lambda>_. None)(0x80021FE0 \<mapsto> ex_as), curproc_set = True, cur_as = 0x80021FE0,
     tlb = replicate 64 (0, 0)\<rparr>"

lemma ex_as_wf: "as_wf ex_as" "allocated ex_as 0x21000"
  by (simp_all add: as_wf_def ex_as_def allocated_def)

theorem vm_fault_correct_witness:
  "\<exists>r s'. vm_fault VM_FAULT_WRITE 0x401234 ex_vm = Some (r, s') \<and> r = 0 \<and> translate ex_as 0x401234 = Some 0x2234 \<and>
    (\<exists>e\<in>set (tlb s'). tlb_valid e \<and> fst e = 0x401000 \<and> (snd e AND PAGE_FRAME) + 0x234 = 0x2234)"
proof -
  have "tlb_coherent ex_as (tlb ex_vm)" by (simp add: tlb_coherent_def tlb_valid_def ex_vm_def)
  moreover have "spl_inv (hp_cpu (vm_heap ex_vm))" by (simp add: ex_vm_def ex_heap_def spl_inv_def)
  moreover have "curproc_set ex_vm" "cur_as ex_vm \<noteq> 0" "spaces ex_vm (cur_as ex_vm) = Some ex_as" by (simp_all add: ex_vm_def)
  ultimately obtain r s' where h: "vm_fault VM_FAULT_WRITE 0x401234 ex_vm = Some (r, s')"
    "r = 0 \<longleftrightarrow> translate ex_as 0x401234 \<noteq> None \<and> (\<exists>e\<in>set (tlb ex_vm). \<not> tlb_valid e)"
    "r = 0 \<longrightarrow> (\<exists>e\<in>set (tlb s'). tlb_valid e \<and> fst e = 0x401234 - 0x401234 mod PAGE_SIZE \<and>
       translate ex_as 0x401234 = Some ((snd e AND PAGE_FRAME) + 0x401234 mod PAGE_SIZE))"
    using vm_fault_correct [where s = ex_vm and a = ex_as and ft = VM_FAULT_WRITE and fa = "0x401234"] ex_as_wf by force
  have tr: "translate ex_as 0x401234 = Some 0x2234" by (simp add: translate_def ex_as_def)
  moreover have "\<exists>e\<in>set (tlb ex_vm). \<not> tlb_valid e" by (simp add: ex_vm_def tlb_valid_def)
  ultimately show ?thesis using h by auto
qed

lemma ex_as_malloc: "map_option fst (kmalloc 28 ex_heap) = Some 0x80021FE0"
  by (simp add: heap_eval)


end
