(* ===== verification/Proc.thy ===== *)
theory Proc
  imports Linked_List File_Table Addrspace
begin

text \<open>
  Processes: \<open>kern/proc/proctable.c\<close>, \<open>kern/proc/proc.c\<close> and the system calls \<open>fork\<close>, \<open>_exit\<close>,
  \<open>waitpid\<close> and \<open>getpid\<close>.

  The state puts together the file state, the address spaces, the process structures (by address)
  and the process table. As in the file layer, \<open>None\<close> means that the calling thread does not come
  back: a failed assertion or panic, a NULL or freed structure used, an array index out of range, or a
  lock it waits for. \<open>p_lock\<close> is held only inside single functions; \<open>pt_lock\<close> is a flag, because
  \<open>proc_count\<close> leaves it taken. A slot of \<open>exit_locks\<close> holds the owner of its lock, a slot of
  \<open>exit_cvs\<close> the threads that wait on it; NULL is \<open>None\<close>. The answers of \<open>kmalloc\<close> to the
  constructors are arguments (\<open>pc_mem\<close>).
\<close>

section \<open>State\<close>

record proc =
  p_name :: nat
  pr_numthreads :: nat
  p_addrspace :: nat
  pr_cwd :: "nat option"
  p_pid :: int
  p_ppid :: int
  p_children_ll :: "llist option"
  p_exited :: bool
  exitcode :: int
  parent_proc :: "nat option"
  proc_ft :: "nat option"
  p_exit_sem :: "nat option"

record proctable =
  procs :: "nat \<Rightarrow> nat option"
  exit_cvs :: "nat \<Rightarrow> nat list option"
  exit_locks :: "nat \<Rightarrow> nat option option"
  pt_lock :: bool
  active_procs :: int

record pstate =
  pfs :: fstate
  pvm :: vmstate
  pstore :: "nat \<Rightarrow> proc option"
  proc_table :: "proctable option"
  kproc :: "nat option"
  curproc :: "nat option"
  pid_cells :: "nat \<Rightarrow> int"

record pc_mem =
  m_proc :: "nat option"
  m_name :: "nat option"
  m_list :: "nat option"
  m_listlock :: bool
  m_sem :: "nat option"
  m_ft :: "nat option"
  m_ftlock :: bool
  m_lock :: bool
  m_cv :: bool

definition upd_proc :: "nat \<Rightarrow> (proc \<Rightarrow> proc) \<Rightarrow> pstate \<Rightarrow> pstate option" where
  "upd_proc p f s = do { x \<leftarrow> pstore s p; Some (s\<lparr>pstore := (pstore s)(p \<mapsto> f x)\<rparr>) }"

definition upd_pt :: "(proctable \<Rightarrow> proctable) \<Rightarrow> pstate \<Rightarrow> pstate" where
  "upd_pt f s = s\<lparr>proc_table := map_option f (proc_table s)\<rparr>"

text \<open>\<open>spinlock_acquire(&proc_table->pt_lock)\<close> and its release.\<close>

definition pt_acquire :: "pstate \<Rightarrow> (proctable \<times> pstate) option" where
  "pt_acquire s = do { t \<leftarrow> proc_table s; kassert (\<not> pt_lock t); let s = upd_pt (pt_lock_update (\<lambda>_. True)) s; Some (t, s) }"

definition pt_release :: "pstate \<Rightarrow> pstate option" where
  "pt_release s = do { t \<leftarrow> proc_table s; kassert (pt_lock t); Some (upd_pt (pt_lock_update (\<lambda>_. False)) s) }"

definition pt_index :: "int \<Rightarrow> nat option" where
  "pt_index pid = (if 0 \<le> pid \<and> pid < int PID_MAX then Some (nat pid) else None)"

section \<open>The process table\<close>

definition create_proctable :: "bool \<Rightarrow> pstate \<Rightarrow> pstate option" where
  "create_proctable ok s =
     do {
       kassert ok;
       Some (s\<lparr>proc_table := Some \<lparr>procs = (\<lambda>_. None), exit_cvs = (\<lambda>_. None), exit_locks = (\<lambda>_. None),
               pt_lock = False, active_procs = 0\<rparr>\<rparr>)
     }"

definition add_proc :: "nat \<Rightarrow> int \<Rightarrow> bool \<Rightarrow> bool \<Rightarrow> pstate \<Rightarrow> pstate option" where
  "add_proc new_proc pid ok_lock ok_cv s =
     do {
       kassert (proc_table s \<noteq> None);
       (_, s) \<leftarrow> pt_acquire s;
       i \<leftarrow> pt_index pid;
       let s = upd_pt (\<lambda>t. t\<lparr>procs := (procs t)(i := Some new_proc), active_procs := active_procs t + 1\<rparr>) s;
       let s = upd_pt (\<lambda>t. t\<lparr>exit_locks := (exit_locks t)(i := if ok_lock then Some None else None)\<rparr>) s;
       let s = upd_pt (\<lambda>t. t\<lparr>exit_cvs := (exit_cvs t)(i := if ok_cv then Some [] else None)\<rparr>) s;
       pt_release s
     }"

definition exit_lock_destroy :: "nat \<Rightarrow> nat option option \<Rightarrow> unit option" where
  "exit_lock_destroy me l = do { owner \<leftarrow> l; kassert (owner \<noteq> Some me) }"

definition exit_cv_destroy :: "nat list option \<Rightarrow> unit option" where
  "exit_cv_destroy c = do { waiting \<leftarrow> c; kassert (waiting = []) }"

definition remove_proc :: "nat \<Rightarrow> int \<Rightarrow> pstate \<Rightarrow> pstate option" where
  "remove_proc me pid s =
     do {
       (t, s) \<leftarrow> pt_acquire s;
       i \<leftarrow> pt_index pid;
       kassert (procs t i \<noteq> None);
       let s = upd_pt (\<lambda>t. t\<lparr>procs := (procs t)(i := None), active_procs := active_procs t - 1\<rparr>) s;
       exit_lock_destroy me (exit_locks t i);
       let s = upd_pt (\<lambda>t. t\<lparr>exit_locks := (exit_locks t)(i := None)\<rparr>) s;
       exit_cv_destroy (exit_cvs t i);
       let s = upd_pt (\<lambda>t. t\<lparr>exit_cvs := (exit_cvs t)(i := None)\<rparr>) s;
       pt_release s
     }"

definition find_process :: "int \<Rightarrow> pstate \<Rightarrow> (nat option \<times> pstate) option" where
  "find_process pid s =
     do { (t, s) \<leftarrow> pt_acquire s; i \<leftarrow> pt_index pid; s \<leftarrow> pt_release s; Some (procs t i, s) }"

definition pid_range :: "nat list" where
  "pid_range = [2..<PID_MAX]"

definition assign_pid :: "pstate \<Rightarrow> (int \<times> pstate) option" where
  "assign_pid s =
     do {
       (t, s) \<leftarrow> pt_acquire s;
       s \<leftarrow> pt_release s;
       Some (case find (\<lambda>i. procs t i = None) pid_range of Some i \<Rightarrow> int i | None \<Rightarrow> - 1, s)
     }"

definition proc_count :: "pstate \<Rightarrow> (int \<times> pstate) option" where
  "proc_count s = do { (t, s) \<leftarrow> pt_acquire s; Some (active_procs t, s) }"

section \<open>Process structures\<close>

definition proc_create :: "pc_mem \<Rightarrow> pstate \<Rightarrow> (nat option \<times> pstate) option" where
  "proc_create mem s =
     (case m_proc mem of
        None \<Rightarrow> Some (None, s)
      | Some p \<Rightarrow>
          (case m_name mem of
             None \<Rightarrow> Some (None, s)
           | Some nm \<Rightarrow>
               do {
                 (pid, s) \<leftarrow> assign_pid s;
                 if pid = - 1 then Some (None, s)
                 else do {
                   l \<leftarrow> linked_list_create (\<lambda>_. \<lparr>ln_prev = None, ln_next = None, ln_key = 0, ln_data = 0\<rparr>) (m_list mem) (m_listlock mem);
                   (ft, fs) \<leftarrow> file_table_create (m_ft mem) (m_ftlock mem) (pfs s);
                   let s = s\<lparr>pfs := fs, pstore := (pstore s)(p \<mapsto>
                       \<lparr>p_name = nm, pr_numthreads = 0, p_addrspace = 0, pr_cwd = None, p_pid = pid, p_ppid = - 1,
                        p_children_ll = Some l, p_exited = False, exitcode = - 1, parent_proc = None, proc_ft = ft,
                        p_exit_sem = map_option (\<lambda>_. 0) (m_sem mem)\<rparr>)\<rparr>;
                   s \<leftarrow> add_proc p pid (m_lock mem) (m_cv mem) s;
                   Some (Some p, s)
                 }
               }))"

definition proc_setas :: "nat \<Rightarrow> pstate \<Rightarrow> (nat \<times> pstate) option" where
  "proc_setas newas s =
     do { p \<leftarrow> curproc s; x \<leftarrow> pstore s p;
          s \<leftarrow> upd_proc p (p_addrspace_update (\<lambda>_. newas)) (s\<lparr>pvm := (pvm s)\<lparr>cur_as := newas\<rparr>\<rparr>); Some (p_addrspace x, s) }"

definition proc_getas :: "pstate \<Rightarrow> nat option" where
  "proc_getas s = (case curproc s of None \<Rightarrow> Some 0 | Some p \<Rightarrow> map_option p_addrspace (pstore s p))"

text \<open>The two steps of \<open>proc_destroy\<close> that give up the current directory and the address space.\<close>

definition proc_drop_cwd :: "(nat \<Rightarrow> vnode_ops) \<Rightarrow> nat \<Rightarrow> pstate \<Rightarrow> pstate option" where
  "proc_drop_cwd vops p s =
     do { x \<leftarrow> pstore s p;
          if pr_cwd x = None then Some s
          else do { fs \<leftarrow> vnode_decref vops (pr_cwd x) (pfs s); upd_proc p (pr_cwd_update (\<lambda>_. None)) (s\<lparr>pfs := fs\<rparr>) } }"

definition proc_drop_as :: "nat \<Rightarrow> pstate \<Rightarrow> pstate option" where
  "proc_drop_as p s =
     do { x \<leftarrow> pstore s p;
          if p_addrspace x = 0 then Some s
          else do {
            (as, s) \<leftarrow> (if curproc s = Some p
                       then do { (as, s) \<leftarrow> proc_setas 0 s; Some (as, s\<lparr>pvm := as_deactivate (pvm s)\<rparr>) }
                       else do { s \<leftarrow> upd_proc p (p_addrspace_update (\<lambda>_. 0)) s; Some (p_addrspace x, s) });
            v \<leftarrow> as_destroy as (pvm s);
            Some (s\<lparr>pvm := v\<rparr>)
          } }"

definition proc_destroy :: "(nat \<Rightarrow> vnode_ops) \<Rightarrow> nat \<Rightarrow> nat option \<Rightarrow> pstate \<Rightarrow> pstate option" where
  "proc_destroy vops me proc s =
     do {
       p \<leftarrow> proc;
       kassert (kproc s \<noteq> Some p);
       s \<leftarrow> proc_drop_cwd vops p s;
       s \<leftarrow> proc_drop_as p s;
       x \<leftarrow> pstore s p;
       s \<leftarrow> remove_proc me (p_pid x) s;
       let s = (case parent_proc x of None \<Rightarrow> s | Some q \<Rightarrow> s\<lparr>pstore := (pstore s)(q := None)\<rparr>);
       x \<leftarrow> pstore s p;
       kassert (pr_numthreads x = 0);
       _ \<leftarrow> p_exit_sem x;
       l \<leftarrow> p_children_ll x;
       linked_list_destroy me l;
       Some (s\<lparr>pstore := (pstore s)(p := None)\<rparr>)
     }"

text \<open>\<open>destroy_proctable\<close>: it keeps \<open>pt_lock\<close> while \<open>proc_destroy\<close> asks for it again.\<close>

fun destroy_procs :: "(nat \<Rightarrow> vnode_ops) \<Rightarrow> nat \<Rightarrow> nat list \<Rightarrow> pstate \<Rightarrow> pstate option" where
  "destroy_procs vops me [] s = Some s"
| "destroy_procs vops me (i # is) s =
     do {
       t \<leftarrow> proc_table s;
       s \<leftarrow> (case procs t i of None \<Rightarrow> Some s
             | Some p \<Rightarrow>
                 do {
                   s \<leftarrow> proc_destroy vops me (Some p) s;
                   t \<leftarrow> proc_table s;
                   exit_lock_destroy me (exit_locks t i);
                   exit_cv_destroy (exit_cvs t i);
                   Some (upd_pt (\<lambda>t. t\<lparr>procs := (procs t)(i := None), exit_locks := (exit_locks t)(i := None),
                                        exit_cvs := (exit_cvs t)(i := None)\<rparr>) s)
                 });
       destroy_procs vops me is s
     }"

definition destroy_proctable :: "(nat \<Rightarrow> vnode_ops) \<Rightarrow> nat \<Rightarrow> pstate \<Rightarrow> pstate option" where
  "destroy_proctable vops me s =
     do {
       (_, s) \<leftarrow> pt_acquire s;
       s \<leftarrow> destroy_procs vops me [0..<PID_MAX] s;
       s \<leftarrow> pt_release s;
       Some (s\<lparr>proc_table := None\<rparr>)
     }"

definition proc_bootstrap :: "bool \<Rightarrow> pc_mem \<Rightarrow> pstate \<Rightarrow> pstate option" where
  "proc_bootstrap ok mem s =
     do {
       s \<leftarrow> create_proctable ok s;
       kassert (proc_table s \<noteq> None);
       (p, s) \<leftarrow> proc_create mem s;
       let s = s\<lparr>kproc := p\<rparr>;
       if p = None then None else Some s
     }"

definition proc_create_runprogram :: "pc_mem \<Rightarrow> pstate \<Rightarrow> (nat option \<times> pstate) option" where
  "proc_create_runprogram mem s =
     do {
       (np, s) \<leftarrow> proc_create mem s;
       case np of None \<Rightarrow> Some (None, s)
       | Some newproc \<Rightarrow>
           do {
             s \<leftarrow> upd_proc newproc (p_addrspace_update (\<lambda>_. 0)) s;
             c \<leftarrow> curproc s;
             x \<leftarrow> pstore s c;
             s \<leftarrow> (if pr_cwd x = None then Some s
                   else do { fs \<leftarrow> vnode_incref (pr_cwd x) (pfs s);
                             upd_proc newproc (pr_cwd_update (\<lambda>_. pr_cwd x)) (s\<lparr>pfs := fs\<rparr>) });
             Some (Some newproc, s)
           }
     }"

text \<open>\<open>proc_remthread\<close> for a thread of process \<open>t_proc\<close>; the caller then has no process.\<close>

definition proc_remthread :: "(nat \<Rightarrow> vnode_ops) \<Rightarrow> nat \<Rightarrow> nat option \<Rightarrow> pstate \<Rightarrow> pstate option" where
  "proc_remthread vops me t_proc s =
     do {
       p \<leftarrow> t_proc;
       x \<leftarrow> pstore s p;
       kassert (pr_numthreads x > 0);
       s \<leftarrow> upd_proc p (\<lambda>x. x\<lparr>pr_numthreads := pr_numthreads x - 1\<rparr>) s;
       proc_destroy vops me (Some p) s
     }"

section \<open>System calls\<close>

definition sys_getpid :: "pstate \<Rightarrow> int option" where
  "sys_getpid s = do { p \<leftarrow> curproc s; x \<leftarrow> pstore s p; Some (p_pid x) }"

text \<open>
  \<open>sys_fork\<close>. \<open>tf\<close> is whether the copy of the trap frame could be allocated and \<open>fork_result\<close> the
  answer of \<open>thread_fork\<close>, which gives the child its thread. On success the result is 0 and
  the child's number, which the code stores through \<open>retval\<close>.
\<close>

definition sys_fork :: "(nat \<Rightarrow> vnode_ops) \<Rightarrow> nat \<Rightarrow> pc_mem \<Rightarrow> bool \<Rightarrow> bool \<Rightarrow> nat option \<Rightarrow> bool \<Rightarrow> bool \<Rightarrow> errno \<Rightarrow> pstate \<Rightarrow>
    (errno \<times> int option \<times> pstate) option" where
  "sys_fork vops me mem ok_lock ok_cv ft_addr ft_lock tf fork_result s =
     do {
       c \<leftarrow> curproc s;
       cx \<leftarrow> pstore s c;
       if p_addrspace cx = 0 then Some (- EINVAL, None, s)
       else do {
         (np, s) \<leftarrow> proc_create mem s;
         child \<leftarrow> np;
         s \<leftarrow> upd_proc child (p_ppid_update (\<lambda>_. p_pid cx)) s;
         x \<leftarrow> pstore s child;
         s \<leftarrow> add_proc child (p_pid x) ok_lock ok_cv s;
         (r, new, v) \<leftarrow> as_copy (p_addrspace cx) (pvm s);
         let s = s\<lparr>pvm := v\<rparr>;
         if r \<noteq> 0 then do { s \<leftarrow> proc_destroy vops me (Some child) s; Some (r, None, s) }
         else do {
           s \<leftarrow> upd_proc child (p_addrspace_update (\<lambda>_. new)) s;
           (ft, fs) \<leftarrow> file_table_copy me (proc_ft cx) ft_addr ft_lock (pfs s);
           let s = s\<lparr>pfs := fs\<rparr>;
           s \<leftarrow> upd_proc child (proc_ft_update (\<lambda>_. ft)) s;
           if ft = None \<or> \<not> tf \<or> fork_result \<noteq> 0 then
             do {
               v \<leftarrow> as_destroy new (pvm s);
               s \<leftarrow> proc_destroy vops me (Some child) (s\<lparr>pvm := v\<rparr>);
               Some (- ENOMEM, None, s)
             }
           else do {
             s \<leftarrow> upd_proc child (\<lambda>x. x\<lparr>pr_numthreads := pr_numthreads x + 1\<rparr>) s;
             Some (0, Some (p_pid x), s)
           }
         }
       }
     }"

definition MKWAIT_EXIT :: "int \<Rightarrow> int" where
  "MKWAIT_EXIT x = (push_bit 2 x) OR 0"

text \<open>\<open>cv_broadcast\<close> on the slot of a process: the caller must hold the slot's lock.\<close>

definition exit_broadcast :: "nat \<Rightarrow> int \<Rightarrow> pstate \<Rightarrow> pstate option" where
  "exit_broadcast me pid s =
     do {
       t \<leftarrow> proc_table s;
       i \<leftarrow> pt_index pid;
       owner \<leftarrow> exit_locks t i;
       kassert (owner = Some me);
       _ \<leftarrow> exit_cvs t i;
       Some (upd_pt (\<lambda>t. t\<lparr>exit_cvs := (exit_cvs t)(i := Some [])\<rparr>) s)
     }"

text \<open>\<open>sys_exit\<close> up to the end of the process; \<open>thread_exit\<close> does not return, so the rest of the code
  is never reached and the call has no return value.\<close>

definition sys_exit :: "(nat \<Rightarrow> vnode_ops) \<Rightarrow> nat \<Rightarrow> int \<Rightarrow> pstate \<Rightarrow> pstate option" where
  "sys_exit vops me code s =
     do {
       c \<leftarrow> curproc s;
       x \<leftarrow> pstore s c;
       s \<leftarrow> exit_broadcast me (p_pid x) s;
       s \<leftarrow> upd_proc c (\<lambda>x. x\<lparr>exitcode := MKWAIT_EXIT (exitcode x)\<rparr>) s;
       x \<leftarrow> pstore s c;
       s \<leftarrow> (case parent_proc x of None \<Rightarrow> Some s
             | Some q \<Rightarrow> upd_proc q (exitcode_update (\<lambda>_. exitcode x)) s);
       proc_remthread vops me (Some c) s
     }"

partial_function (option) wait_scan :: "(nat \<Rightarrow> int) \<Rightarrow> int \<Rightarrow> nat option \<Rightarrow> llist \<Rightarrow> bool option" where
  "wait_scan cells pid node l =
     (case node of
        None \<Rightarrow> Some False
      | Some n \<Rightarrow> if cells (ln_data (ll_heap l n)) = pid then Some True
                  else wait_scan cells pid (ln_next (ll_heap l n)) l)"

declare wait_scan.simps [code]

text \<open>\<open>sys_waitpid\<close> returns an error, or leaves the caller waiting on the process's condition variable.\<close>

datatype wait_result = Returns int | Waits

definition sys_waitpid :: "nat \<Rightarrow> int \<Rightarrow> int \<Rightarrow> pstate \<Rightarrow> (wait_result \<times> pstate) option" where
  "sys_waitpid me pid options s =
     (if options \<noteq> 0 then Some (Returns (- EINVAL), s)
      else do {
        (target, s) \<leftarrow> find_process pid s;
        if target = None then Some (Returns (- ESRCH), s)
        else do {
          t \<leftarrow> proc_table s;
          i \<leftarrow> pt_index pid;
          owner \<leftarrow> exit_locks t i;
          kassert (owner = None);
          let s = upd_pt (\<lambda>t. t\<lparr>exit_locks := (exit_locks t)(i := Some (Some me))\<rparr>) s;
          c \<leftarrow> curproc s;
          x \<leftarrow> pstore s c;
          l \<leftarrow> p_children_ll x;
          found \<leftarrow> wait_scan (pid_cells s) pid (ll_first l) l;
          let s = upd_pt (\<lambda>t. t\<lparr>exit_locks := (exit_locks t)(i := Some None)\<rparr>) s;
          if \<not> found then Some (Returns (- ECHILD), s)
          else do {
            waiting \<leftarrow> exit_cvs t i;
            Some (Waits, upd_pt (\<lambda>t. t\<lparr>exit_cvs := (exit_cvs t)(i := Some (waiting @ [me]))\<rparr>) s)
          }
        }
      })"

text \<open>What \<open>sys_waitpid\<close> does after it is woken: it takes the lock again and returns the process number; the
  exit status is only assigned to the parameter.\<close>

definition sys_waitpid_resume :: "nat \<Rightarrow> int \<Rightarrow> pstate \<Rightarrow> (int \<times> pstate) option" where
  "sys_waitpid_resume me pid s =
     do {
       t \<leftarrow> proc_table s;
       i \<leftarrow> pt_index pid;
       owner \<leftarrow> exit_locks t i;
       kassert (owner = None);
       Some (pid, s)
     }"

end
