(* ===== verification/Proc_Inv.thy ===== *)
theory Proc_Inv
  imports Proc File_Syscalls
begin

text \<open>
  The process table under the operations of \<open>Proc\<close>: process numbers are unique and lead back to their
  process, and what follows for \<open>fork\<close>, \<open>_exit\<close> and \<open>waitpid\<close>.
\<close>

section \<open>Locking the table\<close>

lemma pt_acquire_Some:
  "pt_acquire s = Some (t, s') \<longleftrightarrow>
     proc_table s = Some t \<and> \<not> pt_lock t \<and> s' = s\<lparr>proc_table := Some (t\<lparr>pt_lock := True\<rparr>)\<rparr>"
  by (auto simp: pt_acquire_def upd_pt_def Option.bind_eq_Some_conv)

lemma pt_release_Some:
  "pt_release s = Some s' \<longleftrightarrow>
     (\<exists>t. proc_table s = Some t \<and> pt_lock t \<and> s' = s\<lparr>proc_table := Some (t\<lparr>pt_lock := False\<rparr>)\<rparr>)"
  by (auto simp: pt_release_def kassert_def upd_pt_def Option.bind_eq_Some_conv)

lemma pt_index_Some: "pt_index pid = Some i \<longleftrightarrow> pid = int i \<and> i < PID_MAX"
  by (auto simp: pt_index_def)

lemma add_proc_eq:
  "add_proc p pid ol oc s = Some s' \<longleftrightarrow>
     (\<exists>t i. proc_table s = Some t \<and> \<not> pt_lock t \<and> pid = int i \<and> i < PID_MAX \<and>
        s' = s\<lparr>proc_table := Some (t\<lparr>procs := (procs t)(i := Some p), active_procs := active_procs t + 1,
                exit_locks := (exit_locks t)(i := if ol then Some None else None),
                exit_cvs := (exit_cvs t)(i := if oc then Some [] else None), pt_lock := False\<rparr>)\<rparr>)"
  by (auto simp: add_proc_def Let_def Option.bind_eq_Some_conv pt_acquire_Some pt_release_Some pt_index_Some upd_pt_def)

lemma remove_proc_eq:
  "remove_proc me pid s = Some s' \<longleftrightarrow>
     (\<exists>t i owner. proc_table s = Some t \<and> \<not> pt_lock t \<and> pid = int i \<and> i < PID_MAX \<and> procs t i \<noteq> None \<and>
        exit_locks t i = Some owner \<and> owner \<noteq> Some me \<and> exit_cvs t i = Some [] \<and>
        s' = s\<lparr>proc_table := Some (t\<lparr>procs := (procs t)(i := None), active_procs := active_procs t - 1,
                exit_locks := (exit_locks t)(i := None), exit_cvs := (exit_cvs t)(i := None), pt_lock := False\<rparr>)\<rparr>)"
  by (auto simp: remove_proc_def kassert_def Let_def Option.bind_eq_Some_conv pt_acquire_Some pt_release_Some pt_index_Some upd_pt_def
      exit_lock_destroy_def exit_cv_destroy_def)

lemma find_process_eq:
  "find_process pid s = Some (r, s') \<longleftrightarrow>
     (\<exists>t i. proc_table s = Some t \<and> \<not> pt_lock t \<and> pid = int i \<and> i < PID_MAX \<and> r = procs t i \<and> s' = s)"
  by (auto simp: find_process_def Option.bind_eq_Some_conv pt_acquire_Some pt_release_Some pt_index_Some)

definition low_pid :: "proctable \<Rightarrow> int" where
  "low_pid t = (case find (\<lambda>i. procs t i = None) pid_range of Some i \<Rightarrow> int i | None \<Rightarrow> - 1)"

lemma assign_pid_eq:
  "assign_pid s = Some (pid, s') \<longleftrightarrow>
     (\<exists>t. proc_table s = Some t \<and> \<not> pt_lock t \<and> pid = low_pid t \<and> s' = s)"
  by (auto simp: assign_pid_def low_pid_def Option.bind_eq_Some_conv pt_acquire_Some pt_release_Some)

section \<open>Process numbers\<close>

lemma low_pid_cases:
  "(low_pid t = - 1 \<and> (\<forall>i\<in>{2..<PID_MAX}. procs t i \<noteq> None)) \<or>
   (\<exists>i\<in>{2..<PID_MAX}. low_pid t = int i \<and> procs t i = None \<and> (\<forall>j\<in>{2..<i}. procs t j \<noteq> None))"
proof (cases "find (\<lambda>i. procs t i = None) pid_range")
  case None
  then have "low_pid t = - 1" by (simp add: low_pid_def)
  moreover from None have "\<forall>i\<in>set pid_range. procs t i \<noteq> None" by (simp add: find_None_iff)
  ultimately show ?thesis by (simp add: pid_range_def del: upt_rec_numeral)
next
  case (Some i)
  then obtain k where k: "k < length pid_range" "procs t (pid_range ! k) = None" "i = pid_range ! k"
    "\<forall>j<k. procs t (pid_range ! j) \<noteq> None"
    by (auto simp: find_Some_iff)
  then have i: "i = 2 + k" "i < PID_MAX" by (simp_all add: pid_range_def del: upt_rec_numeral)
  have "procs t j \<noteq> None" if "j \<in> {2..<i}" for j
  proof -
    have "j - 2 < k" "pid_range ! (j - 2) = j"
      using that i by (auto simp: pid_range_def simp del: upt_rec_numeral)
    with k(4) show ?thesis by fastforce
  qed
  with Some k i show ?thesis by (auto simp: low_pid_def)
qed

text \<open>
  C39. Process numbers (\<open>assign_pid\<close>): with the table's lock free, the call returns, leaves the state as
  it was, and answers the lowest unused number of 2, ..., \<open>PID_MAX\<close> - 1; it answers -1 exactly when
  all of them are in use.
\<close>

theorem assign_pid_correct:
  assumes "proc_table s = Some t" "\<not> pt_lock t"
  shows "\<exists>pid. assign_pid s = Some (pid, s) \<and>
           (pid = - 1 \<longleftrightarrow> (\<forall>i. 2 \<le> i \<and> i < PID_MAX \<longrightarrow> procs t i \<noteq> None)) \<and>
           (pid \<noteq> - 1 \<longrightarrow> 2 \<le> pid \<and> pid < int PID_MAX \<and> procs t (nat pid) = None \<and>
              (\<forall>i. 2 \<le> i \<and> int i < pid \<longrightarrow> procs t i \<noteq> None))"
  using low_pid_cases [of t] assms by (auto simp: assign_pid_eq)

section \<open>The invariant\<close>

text \<open>A process as \<open>proc_create\<close> leaves it: no child is ever recorded and no parent is ever set.\<close>

definition childless :: "proc \<Rightarrow> bool" where
  "childless x \<longleftrightarrow> (\<exists>l. p_children_ll x = Some l \<and> ll_first l = None) \<and> parent_proc x = None"

definition table_ok :: "proctable \<Rightarrow> (nat \<Rightarrow> proc option) \<Rightarrow> bool" where
  "table_ok t st \<longleftrightarrow>
     \<not> pt_lock t \<and>
     (\<forall>i p. procs t i = Some p \<longrightarrow> 2 \<le> i \<and> i < PID_MAX \<and> (\<exists>x. st p = Some x \<and> p_pid x = int i)) \<and>
     (\<forall>p x. st p = Some x \<longrightarrow> 0 \<le> p_pid x \<and> procs t (nat (p_pid x)) = Some p \<and> childless x) \<and>
     (\<forall>i owner. exit_locks t i \<noteq> Some (Some owner)) \<and>
     (\<forall>i w. exit_cvs t i = Some w \<longrightarrow> w = [])"

lemma table_okD:
  assumes "table_ok t st"
  shows "\<not> pt_lock t"
    and "procs t i = Some p \<Longrightarrow> 2 \<le> i \<and> i < PID_MAX \<and> (\<exists>x. st p = Some x \<and> p_pid x = int i)"
    and "st p = Some x \<Longrightarrow> 0 \<le> p_pid x \<and> procs t (nat (p_pid x)) = Some p \<and> childless x"
    and "exit_locks t i \<noteq> Some (Some owner)"
    and "exit_cvs t i = Some w \<Longrightarrow> w = []"
  using assms unfolding table_ok_def by blast+

definition proc_inv :: "pstate \<Rightarrow> bool" where
  "proc_inv s \<longleftrightarrow> (\<exists>t. proc_table s = Some t \<and> table_ok t (pstore s))"

lemma proc_invD:
  assumes "proc_inv s" "proc_table s = Some t"
  shows "\<not> pt_lock t"
    and "procs t i = Some p \<Longrightarrow> 2 \<le> i \<and> i < PID_MAX \<and> (\<exists>x. pstore s p = Some x \<and> p_pid x = int i)"
    and "pstore s p = Some x \<Longrightarrow> procs t (nat (p_pid x)) = Some p \<and> childless x \<and> 2 \<le> p_pid x \<and> p_pid x < int PID_MAX"
    and "exit_locks t i \<noteq> Some (Some owner)"
    and "exit_cvs t i = Some w \<Longrightarrow> w = []"
proof -
  have ok: "table_ok t (pstore s)" using assms by (auto simp: proc_inv_def)
  show "\<not> pt_lock t" "exit_locks t i \<noteq> Some (Some owner)" "exit_cvs t i = Some w \<Longrightarrow> w = []"
    "procs t i = Some p \<Longrightarrow> 2 \<le> i \<and> i < PID_MAX \<and> (\<exists>x. pstore s p = Some x \<and> p_pid x = int i)"
    using ok by (auto simp: table_ok_def)
  assume x: "pstore s p = Some x"
  with ok have "0 \<le> p_pid x" "procs t (nat (p_pid x)) = Some p" "childless x" by (auto simp: table_ok_def)
  moreover from this ok have "2 \<le> nat (p_pid x)" "nat (p_pid x) < PID_MAX" by (meson table_ok_def)+
  ultimately show "procs t (nat (p_pid x)) = Some p \<and> childless x \<and> 2 \<le> p_pid x \<and> p_pid x < int PID_MAX"
    by linarith
qed

lemma proc_inv_table: "proc_inv s \<Longrightarrow> proc_table s \<noteq> None"
  by (auto simp: proc_inv_def)

text \<open>What does not touch the table and keeps numbers and family of the processes keeps the invariant.\<close>

lemma table_ok_mono:
  assumes "table_ok t st"
    and "\<And>p. (st p = None) = (st' p = None)"
    and "\<And>p x x'. st p = Some x \<Longrightarrow> st' p = Some x' \<Longrightarrow>
           p_pid x' = p_pid x \<and> p_children_ll x' = p_children_ll x \<and> parent_proc x' = parent_proc x"
  shows "table_ok t st'"
proof -
  have fwd: "\<exists>x'. st' p = Some x' \<and> p_pid x' = p_pid x \<and> p_children_ll x' = p_children_ll x \<and> parent_proc x' = parent_proc x"
    if "st p = Some x" for p x
    using assms(2) [of p] assms(3) [of p x] that by (cases "st' p") simp_all
  have bwd: "\<exists>x. st p = Some x \<and> p_pid x' = p_pid x \<and> p_children_ll x' = p_children_ll x \<and> parent_proc x' = parent_proc x"
    if "st' p = Some x'" for p x'
    using assms(2) [of p] assms(3) [of p _ x'] that by (cases "st p") simp_all
  show ?thesis
    unfolding table_ok_def
  proof (intro conjI allI impI)
    fix i p assume "procs t i = Some p"
    with assms(1) obtain x where "2 \<le> i" "i < PID_MAX" "st p = Some x" "p_pid x = int i"
      unfolding table_ok_def by blast
    with fwd [of p x] show "2 \<le> i" "i < PID_MAX" "\<exists>x. st' p = Some x \<and> p_pid x = int i" by auto
  next
    fix p x' assume "st' p = Some x'"
    from bwd [OF this] assms(1) show "0 \<le> p_pid x'" "procs t (nat (p_pid x')) = Some p" "childless x'"
      by (auto simp: table_ok_def childless_def)
  qed (use assms(1) in \<open>auto simp: table_ok_def\<close>)
qed

lemma proc_inv_frame [simp]:
  "proc_inv (s\<lparr>pfs := fs\<rparr>) = proc_inv s"
  "proc_inv (s\<lparr>pvm := v\<rparr>) = proc_inv s"
  "proc_inv (s\<lparr>curproc := c\<rparr>) = proc_inv s"
  "proc_inv (s\<lparr>kproc := c\<rparr>) = proc_inv s"
  "proc_inv (s\<lparr>pid_cells := m\<rparr>) = proc_inv s"
  by (simp_all add: proc_inv_def)

lemma proc_inv_upd:
  assumes "proc_inv s" "upd_proc p f s = Some s'"
    and "\<And>x. p_pid (f x) = p_pid x \<and> p_children_ll (f x) = p_children_ll x \<and> parent_proc (f x) = parent_proc x"
  shows "proc_inv s'"
proof -
  from assms(1) obtain t where t: "proc_table s = Some t" "table_ok t (pstore s)" by (auto simp: proc_inv_def)
  from assms(2) obtain x where x: "pstore s p = Some x" "s' = s\<lparr>pstore := (pstore s)(p \<mapsto> f x)\<rparr>"
    by (auto simp: upd_proc_def Option.bind_eq_Some_conv)
  have "table_ok t (pstore s')"
    by (rule table_ok_mono [OF t(2)]) (use x assms(3) in \<open>auto split: if_splits\<close>)
  with t x show ?thesis by (simp add: proc_inv_def)
qed

section \<open>The operations keep it\<close>

lemma table_ok_add:
  assumes "table_ok t st" "procs t i = None" "2 \<le> i" "i < PID_MAX" "st p = None" "p_pid x = int i" "childless x"
  shows "table_ok (t\<lparr>procs := (procs t)(i := Some p), active_procs := n,
                exit_locks := (exit_locks t)(i := if ol then Some None else None),
                exit_cvs := (exit_cvs t)(i := if oc then Some [] else None), pt_lock := False\<rparr>) (st(p \<mapsto> x))" (is "table_ok ?t _")
proof -
  have ne: "nat (p_pid y) \<noteq> i" "q \<noteq> p" if "st q = Some y" for q y
  proof -
    from table_okD(3) [OF assms(1) that] have "procs t (nat (p_pid y)) = Some q" by blast
    with assms(2) show "nat (p_pid y) \<noteq> i" by auto
    from that assms(5) show "q \<noteq> p" by auto
  qed
  have ne': "q \<noteq> p" if "procs t j = Some q" for q j
    using table_okD(2) [OF assms(1) that] assms(5) by auto
  show ?thesis
    unfolding table_ok_def
  proof (intro conjI allI impI)
    fix j q assume "procs ?t j = Some q"
    then consider "j = i" "q = p" | "procs t j = Some q" "j \<noteq> i" by (cases "j = i") simp_all
    then have "2 \<le> j \<and> j < PID_MAX \<and> (\<exists>y. (st(p \<mapsto> x)) q = Some y \<and> p_pid y = int j)"
    proof cases
      case 2
      with assms(1) have "2 \<le> j \<and> j < PID_MAX \<and> (\<exists>y. st q = Some y \<and> p_pid y = int j)"
        unfolding table_ok_def by blast
      with ne' [OF 2(1)] show ?thesis by simp
    qed (use assms in simp)
    then show "2 \<le> j" "j < PID_MAX" "\<exists>y. (st(p \<mapsto> x)) q = Some y \<and> p_pid y = int j" by blast+
  next
    fix q y assume "(st(p \<mapsto> x)) q = Some y"
    then consider "q = p" "y = x" | "st q = Some y" "q \<noteq> p" by (cases "q = p") simp_all
    then have "0 \<le> p_pid y \<and> ((procs t)(i := Some p)) (nat (p_pid y)) = Some q \<and> childless y"
    proof cases
      case 2
      with assms(1) have "0 \<le> p_pid y \<and> procs t (nat (p_pid y)) = Some q \<and> childless y"
        unfolding table_ok_def by blast
      with ne [OF 2(1)] show ?thesis by simp
    qed (use assms in simp)
    then show "0 \<le> p_pid y" "childless y"
      "procs ?t (nat (p_pid y)) = Some q"
      by simp_all
  qed (use table_okD(4,5) [OF assms(1)] in \<open>auto split: if_splits\<close>)
qed

lemma table_ok_again:
  assumes "table_ok t st" "st p = Some x" "p_pid x = int i"
  shows "table_ok (t\<lparr>procs := (procs t)(i := Some p), active_procs := n,
                exit_locks := (exit_locks t)(i := if ol then Some None else None),
                exit_cvs := (exit_cvs t)(i := if oc then Some [] else None), pt_lock := False\<rparr>) st" (is "table_ok ?t _")
proof -
  have "procs t (nat (p_pid x)) = Some p" using assms(1,2) unfolding table_ok_def by blast
  then have same: "(procs t)(i := Some p) = procs t" using assms(3) by (simp add: fun_upd_idem)
  show ?thesis unfolding table_ok_def
  proof (intro conjI allI impI)
    fix j q assume "procs ?t j = Some q"
    with table_okD(2) [OF assms(1), of j q] show "2 \<le> j" "j < PID_MAX" "\<exists>y. st q = Some y \<and> p_pid y = int j"
      by (simp_all add: same)
  next
    fix q y assume "st q = Some y"
    with table_okD(3) [OF assms(1), of q y] show "0 \<le> p_pid y" "childless y"
      "procs ?t (nat (p_pid y)) = Some q"
      by (simp_all add: same)
  qed (use table_okD(4,5) [OF assms(1)] in \<open>auto split: if_splits\<close>)
qed

lemma table_ok_del:
  assumes "table_ok t st" "st p = Some x" "p_pid x = int i"
  shows "table_ok (t\<lparr>procs := (procs t)(i := None), active_procs := n,
                exit_locks := (exit_locks t)(i := None), exit_cvs := (exit_cvs t)(i := None), pt_lock := False\<rparr>) (st(p := None))" (is "table_ok ?t _")
proof -
  have pi: "procs t i = Some p" using table_okD(3) [OF assms(1,2)] assms(3) by simp
  have ne: "nat (p_pid y) \<noteq> i" if "st q = Some y" "q \<noteq> p" for q y
    using table_okD(3) [OF assms(1) that(1)] that(2) pi by auto
  have ne': "q \<noteq> p" if "procs t j = Some q" "j \<noteq> i" for q j
  proof
    assume "q = p"
    with assms(1) that obtain y where "st p = Some y" "p_pid y = int j" unfolding table_ok_def by blast
    with assms(2,3) that show False by simp
  qed
  show ?thesis
    unfolding table_ok_def
  proof (intro conjI allI impI)
    fix j q assume "procs ?t j = Some q"
    then have j: "procs t j = Some q" "j \<noteq> i" by (auto split: if_splits)
    with assms(1) have "2 \<le> j \<and> j < PID_MAX \<and> (\<exists>y. st q = Some y \<and> p_pid y = int j)"
      unfolding table_ok_def by blast
    with ne' [OF j] show "2 \<le> j" "j < PID_MAX" "\<exists>y. (st(p := None)) q = Some y \<and> p_pid y = int j" by simp_all
  next
    fix q y assume "(st(p := None)) q = Some y"
    then have q: "st q = Some y" "q \<noteq> p" by (auto split: if_splits)
    with assms(1) have "0 \<le> p_pid y \<and> procs t (nat (p_pid y)) = Some q \<and> childless y"
      unfolding table_ok_def by blast
    with ne [OF q] show "0 \<le> p_pid y" "childless y"
      "procs ?t (nat (p_pid y)) = Some q"
      by simp_all
  qed (use table_okD(4,5) [OF assms(1)] in \<open>auto split: if_splits\<close>)
qed

lemma proc_inv_add_again:
  assumes "proc_inv s" "pstore s p = Some x" "add_proc p (p_pid x) ol oc s = Some s'"
  shows "proc_inv s'" "pstore s' = pstore s"
proof -
  from assms(3) obtain t i where t: "proc_table s = Some t" "p_pid x = int i"
    and s': "s' = s\<lparr>proc_table := Some (t\<lparr>procs := (procs t)(i := Some p), active_procs := active_procs t + 1,
                exit_locks := (exit_locks t)(i := if ol then Some None else None),
                exit_cvs := (exit_cvs t)(i := if oc then Some [] else None), pt_lock := False\<rparr>)\<rparr>"
    unfolding add_proc_eq by blast
  from assms(1) t have "table_ok t (pstore s)" by (simp add: proc_inv_def)
  from table_ok_again [OF this assms(2) t(2)] s' show "proc_inv s'" "pstore s' = pstore s" by (simp_all add: proc_inv_def)
qed

lemma proc_create_cases:
  assumes "proc_create mem s = Some (r, s')"
  obtains (none) "r = None" "s' = s"
  | (made) p i t x fs where "r = Some p" "m_proc mem = Some p" "proc_table s = Some t" "low_pid t = int i"
      "i < PID_MAX" "p_pid x = int i" "childless x" "p_ppid x = - 1" "pr_numthreads x = 0"
      "s' = s\<lparr>pfs := fs, pstore := (pstore s)(p \<mapsto> x),
               proc_table := Some (t\<lparr>procs := (procs t)(i := Some p), active_procs := active_procs t + 1,
                 exit_locks := (exit_locks t)(i := if m_lock mem then Some None else None),
                 exit_cvs := (exit_cvs t)(i := if m_cv mem then Some [] else None), pt_lock := False\<rparr>)\<rparr>"
proof (cases "m_proc mem = None \<or> m_name mem = None \<or> (\<exists>t. proc_table s = Some t \<and> low_pid t = - 1)")
  case True
  then have "r = None \<and> s' = s"
    using assms by (auto simp: proc_create_def Option.bind_eq_Some_conv assign_pid_eq split: option.splits)
  then show thesis using none by blast
next
  case False
  then obtain p nm where pn: "m_proc mem = Some p" "m_name mem = Some nm" by auto
  define l where "l = \<lparr>ll_heap = (\<lambda>_. \<lparr>ln_prev = None, ln_next = None, ln_key = 0, ln_data = 0\<rparr>), ll_first = None, ll_last = None,
    ll_length = 0, ll_lock = (if m_listlock mem then Some None else None)\<rparr>"
  define x where "x pid ft = \<lparr>p_name = nm, pr_numthreads = 0, p_addrspace = 0, pr_cwd = None, p_pid = pid, p_ppid = - 1,
                        p_children_ll = Some l, p_exited = False, exitcode = - 1, parent_proc = None, proc_ft = ft,
                        p_exit_sem = map_option (\<lambda>_. 0) (m_sem mem)\<rparr>" for pid ft
  from assms pn False obtain t ft fs where t: "proc_table s = Some t" and r: "r = Some p"
    and add: "add_proc p (low_pid t) (m_lock mem) (m_cv mem) (s\<lparr>pfs := fs, pstore := (pstore s)(p \<mapsto> x (low_pid t) ft)\<rparr>) = Some s'"
    by (auto simp: proc_create_def Option.bind_eq_Some_conv assign_pid_eq linked_list_create_def x_def l_def Let_def)
  from add t obtain i where "low_pid t = int i" "i < PID_MAX" and
    "s' = s\<lparr>pfs := fs, pstore := (pstore s)(p \<mapsto> x (low_pid t) ft),
               proc_table := Some (t\<lparr>procs := (procs t)(i := Some p), active_procs := active_procs t + 1,
                 exit_locks := (exit_locks t)(i := if m_lock mem then Some None else None),
                 exit_cvs := (exit_cvs t)(i := if m_cv mem then Some [] else None), pt_lock := False\<rparr>)\<rparr>"
    unfolding add_proc_eq by auto
  moreover from this have "p_pid (x (low_pid t) ft) = int i" "childless (x (low_pid t) ft)"
    "p_ppid (x (low_pid t) ft) = - 1" "pr_numthreads (x (low_pid t) ft) = 0"
    by (simp_all add: x_def childless_def l_def)
  ultimately show thesis using made [of p t i "x (low_pid t) ft" fs] r pn t by blast
qed

lemma low_pid_free: "low_pid t = int i \<Longrightarrow> 2 \<le> i \<and> procs t i = None"
  using low_pid_cases [of t] by auto

lemma proc_create_inv:
  assumes "proc_inv s" "proc_create mem s = Some (r, s')" "\<And>p. m_proc mem = Some p \<Longrightarrow> pstore s p = None"
  shows "proc_inv s'" "\<And>p. r = Some p \<Longrightarrow> pstore s' p \<noteq> None"
proof -
  from assms(2) have "proc_inv s' \<and> (\<forall>p. r = Some p \<longrightarrow> pstore s' p \<noteq> None)"
  proof (cases rule: proc_create_cases)
    case (made p i t x fs)
    from assms(1) made have "table_ok t (pstore s)" by (simp add: proc_inv_def)
    from table_ok_add [OF this _ _ made(5) assms(3) [OF made(2)] made(6,7)] low_pid_free [OF made(4)] made
    show ?thesis by (simp add: proc_inv_def)
  qed (use assms in simp)
  then show "proc_inv s'" "\<And>p. r = Some p \<Longrightarrow> pstore s' p \<noteq> None" by blast+
qed

lemma proc_drop_cwd_inv: "proc_inv s \<Longrightarrow> proc_drop_cwd vops p s = Some s' \<Longrightarrow> proc_inv s'"
  by (auto simp: proc_drop_cwd_def Option.bind_eq_Some_conv split: if_splits dest: proc_inv_upd [rotated])

lemma proc_setas_inv: "proc_inv s \<Longrightarrow> proc_setas a s = Some (r, s') \<Longrightarrow> proc_inv s'"
  by (auto simp: proc_setas_def Option.bind_eq_Some_conv dest: proc_inv_upd [rotated])

lemma proc_drop_as_inv:
  assumes "proc_inv s" "proc_drop_as p s = Some s'"
  shows "proc_inv s'"
  using assms
  by (auto simp: proc_drop_as_def Option.bind_eq_Some_conv split: if_splits
      dest: proc_inv_upd [rotated] proc_setas_inv)

lemma proc_destroy_inv:
  assumes "proc_inv s" "proc_destroy vops me pr s = Some s'"
  shows "proc_inv s'"
proof -
  from assms(2) obtain p s1 s2 s3 x where pr: "pr = Some p" and s1: "proc_drop_cwd vops p s = Some s1"
    and s2: "proc_drop_as p s1 = Some s2" and x: "pstore s2 p = Some x" and s3: "remove_proc me (p_pid x) s2 = Some s3"
    and s': "s' = (case parent_proc x of None \<Rightarrow> s3 | Some q \<Rightarrow> s3\<lparr>pstore := (pstore s3)(q := None)\<rparr>)
        \<lparr>pstore := (pstore (case parent_proc x of None \<Rightarrow> s3 | Some q \<Rightarrow> s3\<lparr>pstore := (pstore s3)(q := None)\<rparr>))(p := None)\<rparr>"
    by (auto simp: proc_destroy_def Option.bind_eq_Some_conv Let_def)
  have inv: "proc_inv s2" using assms(1) s1 s2 proc_drop_cwd_inv proc_drop_as_inv by blast
  then obtain t where t: "proc_table s2 = Some t" "table_ok t (pstore s2)" by (auto simp: proc_inv_def)
  have "childless x" using table_okD(3) [OF t(2) x] by blast
  then have none: "parent_proc x = None" by (simp add: childless_def)
  from s3 t(1) obtain i where "p_pid x = int i" and
    "s3 = s2\<lparr>proc_table := Some (t\<lparr>procs := (procs t)(i := None), active_procs := active_procs t - 1,
                exit_locks := (exit_locks t)(i := None), exit_cvs := (exit_cvs t)(i := None), pt_lock := False\<rparr>)\<rparr>"
    unfolding remove_proc_eq by auto
  with table_ok_del [OF t(2) x] s' none show ?thesis by (simp add: proc_inv_def)
qed

lemma proc_create_runprogram_inv:
  assumes "proc_inv s" "proc_create_runprogram mem s = Some (r, s')" "\<And>p. m_proc mem = Some p \<Longrightarrow> pstore s p = None"
  shows "proc_inv s'"
proof -
  from assms(2) obtain np s1 where c: "proc_create mem s = Some (np, s1)"
    by (auto simp: proc_create_runprogram_def Option.bind_eq_Some_conv)
  from proc_create_inv(1) [OF assms(1) c assms(3)] have "proc_inv s1" .
  with assms(2) c show ?thesis
    by (auto simp: proc_create_runprogram_def Option.bind_eq_Some_conv split: option.splits if_splits dest!: proc_inv_upd [rotated])
qed

lemma proc_remthread_inv:
  assumes "proc_inv s" "proc_remthread vops me tp s = Some s'"
  shows "proc_inv s'"
  using assms by (auto simp: proc_remthread_def Option.bind_eq_Some_conv dest: proc_inv_upd [rotated] intro: proc_destroy_inv)

text \<open>\<open>fork\<close> up to the second registration of the child.\<close>

lemma fork_child_inv:
  assumes "proc_inv s" "proc_create mem s = Some (Some child, s1)" "\<And>p. m_proc mem = Some p \<Longrightarrow> pstore s p = None"
    and "upd_proc child (p_ppid_update (\<lambda>_. pp)) s1 = Some s2" "pstore s2 child = Some x"
    and "add_proc child (p_pid x) ol oc s2 = Some s3"
  shows "proc_inv s3"
proof -
  have "proc_inv s1" by (rule proc_create_inv(1) [OF assms(1-3)])
  then have "proc_inv s2" by (rule proc_inv_upd [OF _ assms(4)]) simp
  then show ?thesis by (rule proc_inv_add_again(1) [OF _ assms(5,6)])
qed

lemma sys_fork_inv:
  assumes "proc_inv s" "sys_fork vops me mem ol oc fa fl tf fr s = Some (e, r, s')" "\<And>p. m_proc mem = Some p \<Longrightarrow> pstore s p = None"
  shows "proc_inv s'"
proof -
  from assms(2) obtain c cx where c: "curproc s = Some c" "pstore s c = Some cx"
    by (auto simp: sys_fork_def Option.bind_eq_Some_conv)
  show ?thesis
  proof (cases "p_addrspace cx = 0")
    case True
    with assms c show ?thesis by (auto simp: sys_fork_def)
  next
    case False
    from assms(2) c False obtain child s1 s2 x s3 where
      f: "proc_create mem s = Some (Some child, s1)" "upd_proc child (p_ppid_update (\<lambda>_. p_pid cx)) s1 = Some s2"
         "pstore s2 child = Some x" "add_proc child (p_pid x) ol oc s2 = Some s3"
      by (auto simp: sys_fork_def Option.bind_eq_Some_conv)
    have "proc_inv s3" by (rule fork_child_inv [OF assms(1) f(1) assms(3) f(2-4)])
    then have s3: "proc_inv (s3\<lparr>pvm := v\<rparr>)" for v by simp
    from assms(2) c False f obtain er new v where cp: "as_copy (p_addrspace cx) (pvm s3) = Some (er, new, v)"
      by (auto simp: sys_fork_def Option.bind_eq_Some_conv)
    show ?thesis
    proof (cases "er = 0")
      case err: False
      with assms(2) c False f cp have "proc_destroy vops me (Some child) (s3\<lparr>pvm := v\<rparr>) = Some s'"
        by (auto simp: sys_fork_def Option.bind_eq_Some_conv Let_def)
      then show ?thesis by (rule proc_destroy_inv [OF s3])
    next
      case True
      with assms(2) c False f cp obtain s4 ft fs s5 where
        s4: "upd_proc child (p_addrspace_update (\<lambda>_. new)) (s3\<lparr>pvm := v\<rparr>) = Some s4"
        and s5: "upd_proc child (proc_ft_update (\<lambda>_. ft)) (s4\<lparr>pfs := fs\<rparr>) = Some s5"
        and rest: "(if ft = None \<or> \<not> tf \<or> fr \<noteq> 0 then
             do { v \<leftarrow> as_destroy new (pvm s5); s \<leftarrow> proc_destroy vops me (Some child) (s5\<lparr>pvm := v\<rparr>); Some (- ENOMEM, None, s) }
           else do { s \<leftarrow> upd_proc child (\<lambda>x. x\<lparr>pr_numthreads := pr_numthreads x + 1\<rparr>) s5; Some (0, Some (p_pid x), s) })
           = Some (e, r, s')"
        by (auto simp: sys_fork_def Option.bind_eq_Some_conv Let_def)
      have "proc_inv s4" by (rule proc_inv_upd [OF s3 s4]) simp
      then have "proc_inv (s4\<lparr>pfs := fs\<rparr>)" by simp
      then have s5: "proc_inv s5" by (rule proc_inv_upd [OF _ s5]) simp
      show ?thesis
      proof (cases "ft = None \<or> \<not> tf \<or> fr \<noteq> 0")
        case True
        with rest obtain v' where "proc_destroy vops me (Some child) (s5\<lparr>pvm := v'\<rparr>) = Some s'"
          by (auto simp: Option.bind_eq_Some_conv)
        moreover have "proc_inv (s5\<lparr>pvm := v'\<rparr>)" using s5 by simp
        ultimately show ?thesis by (blast intro: proc_destroy_inv)
      next
        case False
        with rest have "upd_proc child (\<lambda>x. x\<lparr>pr_numthreads := pr_numthreads x + 1\<rparr>) s5 = Some s'"
          by (auto simp: Option.bind_eq_Some_conv)
        then show ?thesis by (rule proc_inv_upd [OF s5]) simp
      qed
    qed
  qed
qed

section \<open>\<open>waitpid\<close> and \<open>_exit\<close>\<close>

lemma wait_scan_end [simp]: "wait_scan m pid None l = Some False"
  by (subst wait_scan.simps) simp

lemma proc_inv_self [simp]:
  assumes "exit_locks t i = Some None"
  shows "t\<lparr>exit_locks := (exit_locks t)(i := Some None)\<rparr> = t"
  using assms by (simp add: fun_upd_idem)

lemma sys_waitpid_childless:
  assumes inv: "proc_inv s" and cur: "curproc s = Some c" "pstore s c = Some x"
  shows "sys_waitpid me pid options s =
     (if options \<noteq> 0 then Some (Returns (- EINVAL), s)
      else case find_process pid s of None \<Rightarrow> None
        | Some (None, _) \<Rightarrow> Some (Returns (- ESRCH), s)
        | Some (Some _, _) \<Rightarrow>
            (case proc_table s of None \<Rightarrow> None
             | Some t \<Rightarrow> if exit_locks t (nat pid) = None then None else Some (Returns (- ECHILD), s)))"
proof (cases "options \<noteq> 0")
  case True
  then show ?thesis by (simp add: sys_waitpid_def)
next
  case False
  from inv obtain t where t: "proc_table s = Some t" by (auto simp: proc_inv_def)
  from proc_invD(3) [OF inv t cur(2)] obtain l where l: "p_children_ll x = Some l" "ll_first l = None"
    by (auto simp: childless_def)
  show ?thesis
  proof (cases "pt_index pid")
    case None
    then have "find_process pid s = None" by (cases "pt_acquire s") (simp_all add: find_process_def split_beta)
    then show ?thesis using False by (simp add: sys_waitpid_def)
  next
    case (Some i)
    then have i: "pid = int i" "i < PID_MAX" by (simp_all add: pt_index_Some)
    from i have fp: "find_process pid s = Some (procs t i, s)"
      using t proc_invD(1) [OF inv t] by (simp add: find_process_eq)
    have lk: "exit_locks t i = None \<or> exit_locks t i = Some None"
      using proc_invD(4) [OF inv t, of i] by (cases "exit_locks t i") auto
    show ?thesis
      using lk False Some fp t l cur i
      by (cases "procs t i") (auto simp: sys_waitpid_def upd_pt_def Let_def)
  qed
qed

lemma sys_waitpid_inv:
  assumes "proc_inv s" "curproc s = Some c" "pstore s c = Some x" "sys_waitpid me pid options s = Some (r, s')"
  shows "s' = s"
  using assms(4) by (auto simp: sys_waitpid_childless [OF assms(1-3)] split: if_splits option.splits)

lemma sys_exit_stops:
  assumes "proc_inv s"
  shows "sys_exit vops me code s = None"
proof (rule ccontr)
  assume "sys_exit vops me code s \<noteq> None"
  then obtain c x s1 where "pstore s c = Some x" "exit_broadcast me (p_pid x) s = Some s1"
    by (auto simp: sys_exit_def Option.bind_eq_Some_conv)
  then obtain t i where "proc_table s = Some t" "exit_locks t i = Some (Some me)"
    by (auto simp: exit_broadcast_def Option.bind_eq_Some_conv kassert_def split: if_splits)
  with proc_invD(4) [OF assms] show False by blast
qed

section \<open>Runs of the system\<close>

text \<open>
  The calls that touch processes, in any order and for any current process; a new process structure is a
  block \<open>kmalloc\<close> has not handed out, and the rest of the kernel changes the file state and the memory.
\<close>

definition fresh_mem :: "pc_mem \<Rightarrow> pstate \<Rightarrow> bool" where
  "fresh_mem mem s \<longleftrightarrow> (case m_proc mem of None \<Rightarrow> True | Some p \<Rightarrow> pstore s p = None)"

inductive proc_step :: "(nat \<Rightarrow> vnode_ops) \<Rightarrow> pstate \<Rightarrow> pstate \<Rightarrow> bool" for vops where
  ps_runprogram: "fresh_mem mem s \<Longrightarrow> proc_create_runprogram mem s = Some (r, s') \<Longrightarrow> proc_step vops s s'"
| ps_fork: "fresh_mem mem s \<Longrightarrow> sys_fork vops me mem ol oc fa fl tf fr s = Some (e, r, s') \<Longrightarrow> proc_step vops s s'"
| ps_destroy: "proc_destroy vops me pr s = Some s' \<Longrightarrow> proc_step vops s s'"
| ps_remthread: "proc_remthread vops me pr s = Some s' \<Longrightarrow> proc_step vops s s'"
| ps_addthread: "upd_proc p (\<lambda>x. x\<lparr>pr_numthreads := pr_numthreads x + 1\<rparr>) s = Some s' \<Longrightarrow> proc_step vops s s'"
| ps_chdir: "upd_proc p (pr_cwd_update (\<lambda>_. v)) s = Some s' \<Longrightarrow> proc_step vops s s'"
| ps_setas: "proc_setas a s = Some (r, s') \<Longrightarrow> proc_step vops s s'"
| ps_waitpid: "curproc s = Some c \<Longrightarrow> pstore s c \<noteq> None \<Longrightarrow> sys_waitpid me pid opts s = Some (r, s') \<Longrightarrow> proc_step vops s s'"
| ps_exit: "sys_exit vops me code s = Some s' \<Longrightarrow> proc_step vops s s'"
| ps_switch: "proc_step vops s (s\<lparr>curproc := c\<rparr>)"
| ps_files: "proc_step vops s (s\<lparr>pfs := fs\<rparr>)"
| ps_memory: "proc_step vops s (s\<lparr>pvm := v, pid_cells := m\<rparr>)"

definition proc_boot :: "pstate \<Rightarrow> bool" where
  "proc_boot s \<longleftrightarrow> (\<exists>ok mem s0. pstore s0 = Map.empty \<and> proc_bootstrap ok mem s0 = Some s)"

lemma fresh_memD: "fresh_mem mem s \<Longrightarrow> m_proc mem = Some p \<Longrightarrow> pstore s p = None"
  by (simp add: fresh_mem_def)

lemma proc_boot_inv:
  assumes "proc_boot s"
  shows "proc_inv s"
proof -
  from assms obtain ok mem s0 where e: "pstore s0 = Map.empty" and b: "proc_bootstrap ok mem s0 = Some s"
    by (auto simp: proc_boot_def)
  define s1 where "s1 = s0\<lparr>proc_table := Some \<lparr>procs = (\<lambda>_. None), exit_cvs = (\<lambda>_. None), exit_locks = (\<lambda>_. None),
               pt_lock = False, active_procs = 0\<rparr>\<rparr>"
  from b obtain p s2 where c: "proc_create mem s1 = Some (p, s2)" and s: "s = s2\<lparr>kproc := p\<rparr>"
    by (auto simp: proc_bootstrap_def create_proctable_def s1_def Option.bind_eq_Some_conv Let_def split: if_splits)
  have "proc_inv s1" using e by (simp add: proc_inv_def s1_def table_ok_def)
  from proc_create_inv(1) [OF this c] e s show ?thesis by (simp add: s1_def)
qed

lemma proc_step_inv:
  assumes "proc_step vops s s'" "proc_inv s"
  shows "proc_inv s'"
  using assms
proof (cases rule: proc_step.cases)
  case (ps_waitpid c me pid opts r)
  then obtain x where "pstore s c = Some x" by blast
  from sys_waitpid_inv [OF assms(2) ps_waitpid(1) this ps_waitpid(3)] assms(2) show ?thesis by simp
next
  case (ps_exit me code)
  with sys_exit_stops [OF assms(2)] show ?thesis by simp
qed (use assms(2) in \<open>auto intro: proc_create_runprogram_inv fresh_memD sys_fork_inv proc_destroy_inv proc_remthread_inv
      proc_setas_inv dest: proc_inv_upd [rotated]\<close>)

interpretation proc_runs: step_system proc_boot "proc_step vops" proc_inv for vops
  by unfold_locales (rule proc_boot_inv, assumption, rule proc_step_inv)


text \<open>
  C36. \<open>_exit\<close> and \<open>waitpid\<close>: in every state the system can reach, \<open>sys_exit\<close> stops the kernel, because
  it calls \<open>cv_broadcast\<close> without the lock that call asserts; and \<open>sys_waitpid\<close> never waits and never
  succeeds: it changes nothing and answers \<open>EINVAL\<close> for non-zero options, \<open>ESRCH\<close> for an unused
  number and \<open>ECHILD\<close> for every existing process, because no child is ever recorded in \<open>p_children_ll\<close>.
\<close>

theorem exit_and_waitpid_fail:
  assumes "proc_boot s0" "(proc_step vops)\<^sup>*\<^sup>* s0 s"
  shows "sys_exit vops me code s = None \<and>
         (curproc s = Some c \<and> pstore s c = Some x \<and> sys_waitpid me pid options s = Some (r, s') \<longrightarrow>
           s' = s \<and> r = Returns (- (if options \<noteq> 0 then EINVAL
                                    else if find_process pid s = Some (None, s) then ESRCH else ECHILD)))"
proof (intro conjI impI; (elim conjE)?)
  have inv: "proc_inv s" by (rule proc_runs.reach_inv [OF assms(2,1)])
  then show "sys_exit vops me code s = None" by (rule sys_exit_stops)
  assume c: "curproc s = Some c" "pstore s c = Some x" and w: "sys_waitpid me pid options s = Some (r, s')"
  have "find_process pid s = Some (q, s1) \<Longrightarrow> s1 = s" for q s1 by (auto simp: find_process_eq)
  with w show "s' = s" and "r = Returns (- (if options \<noteq> 0 then EINVAL
                                    else if find_process pid s = Some (None, s) then ESRCH else ECHILD))"
    by (auto simp: sys_waitpid_childless [OF inv c] split: if_splits option.splits)
qed

section \<open>\<open>fork\<close>\<close>

lemma upd_proc_Some:
  "upd_proc p f s = Some s' \<longleftrightarrow> (\<exists>x. pstore s p = Some x \<and> s' = s\<lparr>pstore := (pstore s)(p \<mapsto> f x)\<rparr>)"
  by (auto simp: upd_proc_def Option.bind_eq_Some_conv)

text \<open>What a successful \<open>sys_fork\<close> went through.\<close>

lemma sys_fork_success:
  assumes "curproc s = Some c" "pstore s c = Some cx"
    and "sys_fork vops me mem ol oc fa fl tf fr s = Some (0, r, s')"
  obtains child s1 s2 x s3 new v s4 ft fs s5 where "p_addrspace cx \<noteq> 0" "proc_create mem s = Some (Some child, s1)"
    "upd_proc child (p_ppid_update (\<lambda>_. p_pid cx)) s1 = Some s2" "pstore s2 child = Some x"
    "add_proc child (p_pid x) ol oc s2 = Some s3" "as_copy (p_addrspace cx) (pvm s3) = Some (0, new, v)"
    "upd_proc child (p_addrspace_update (\<lambda>_. new)) (s3\<lparr>pvm := v\<rparr>) = Some s4"
    "file_table_copy me (proc_ft cx) fa fl (pfs s4) = Some (Some ft, fs)"
    "upd_proc child (proc_ft_update (\<lambda>_. Some ft)) (s4\<lparr>pfs := fs\<rparr>) = Some s5"
    "upd_proc child (\<lambda>x. x\<lparr>pr_numthreads := pr_numthreads x + 1\<rparr>) s5 = Some s'" "r = Some (p_pid x)"
  using assms by (auto simp: sys_fork_def Option.bind_eq_Some_conv Let_def split: if_splits)

lemma sys_fork_made:
  assumes cur: "curproc s = Some c" "pstore s c = Some cx" and fresh: "fresh_mem mem s" and t: "proc_table s = Some t"
    and run: "sys_fork vops me mem ol oc fa fl tf fr s = Some (0, r, s')"
  shows "\<exists>child x new ft fs fs' i t'. r = Some (int i) \<and> assign_pid s = Some (int i, s) \<and>
               pstore s child = None \<and> pstore s' = (pstore s)(child \<mapsto> x) \<and>
               p_pid x = int i \<and> p_ppid x = p_pid cx \<and> pr_numthreads x = 1 \<and> p_addrspace x = new \<and> proc_ft x = Some ft \<and>
               as_copy (p_addrspace cx) (pvm s) = Some (0, new, pvm s') \<and>
               file_table_copy me (proc_ft cx) fa fl fs = Some (Some ft, fs') \<and> pfs s' = fs' \<and>
               proc_table s' = Some t' \<and> procs t' = (procs t)(i \<mapsto> child) \<and> active_procs t' = active_procs t + 2"
proof -
  from sys_fork_success [OF cur run] obtain child s1 s2 y s3 new v s4 ft fs s5 where
    f: "proc_create mem s = Some (Some child, s1)" "upd_proc child (p_ppid_update (\<lambda>_. p_pid cx)) s1 = Some s2"
       "pstore s2 child = Some y" "add_proc child (p_pid y) ol oc s2 = Some s3"
       "as_copy (p_addrspace cx) (pvm s3) = Some (0, new, v)"
       "upd_proc child (p_addrspace_update (\<lambda>_. new)) (s3\<lparr>pvm := v\<rparr>) = Some s4"
       "file_table_copy me (proc_ft cx) fa fl (pfs s4) = Some (Some ft, fs)"
       "upd_proc child (proc_ft_update (\<lambda>_. Some ft)) (s4\<lparr>pfs := fs\<rparr>) = Some s5"
       "upd_proc child (\<lambda>x. x\<lparr>pr_numthreads := pr_numthreads x + 1\<rparr>) s5 = Some s'" and r: "r = Some (p_pid y)" .
  from f(1) show ?thesis
  proof (cases rule: proc_create_cases)
    case (made p i t0 x fs0)
    from f(1) have "\<not> pt_lock t" using t by (auto simp: proc_create_def Option.bind_eq_Some_conv assign_pid_eq split: option.splits)
    then have a: "assign_pid s = Some (int i, s)" using made t by (simp add: assign_pid_eq)
    have n: "pstore s child = None" using fresh made by (simp add: fresh_mem_def)
    obtain t1 where s1: "s1 = s\<lparr>pfs := fs0, pstore := (pstore s)(child \<mapsto> x), proc_table := Some t1\<rparr>"
      "procs t1 = (procs t)(i \<mapsto> child)" "active_procs t1 = active_procs t + 1"
      using made t by auto
    have y: "y = x\<lparr>p_ppid := p_pid cx\<rparr>" "s2 = s\<lparr>pfs := fs0, pstore := (pstore s)(child \<mapsto> y), proc_table := Some t1\<rparr>"
      using f(2,3) by (simp_all add: upd_proc_Some s1(1))
    from y(1) made(6) have yi: "p_pid y = int i" by simp
    obtain t' where s3: "s3 = s\<lparr>pfs := fs0, pstore := (pstore s)(child \<mapsto> y), proc_table := Some t'\<rparr>"
      "procs t' = (procs t)(i \<mapsto> child)" "active_procs t' = active_procs t + 2"
      using f(4) s1(2,3) by (auto simp: add_proc_eq yi y(2))
    have s': "s' = s\<lparr>pfs := fs, pvm := v, proc_table := Some t', pstore := (pstore s)(child \<mapsto>
        y\<lparr>p_addrspace := new, proc_ft := Some ft, pr_numthreads := pr_numthreads y + 1\<rparr>)\<rparr>"
      using f(6,8,9) by (simp add: upd_proc_Some s3(1)) 
    have "file_table_copy me (proc_ft cx) fa fl fs0 = Some (Some ft, fs)" "as_copy (p_addrspace cx) (pvm s) = Some (0, new, v)"
      using f(5,6,7) by (auto simp: upd_proc_Some s3(1))
    then show ?thesis using s' s3(2,3) r yi y(1) made(9) a n by fastforce
  qed simp
qed


section \<open>Two processes created at once\<close>

text \<open>
  C37. \<open>assign_pid\<close> gives the lock back before \<open>add_proc\<close> takes the slot. So when a second \<open>proc_create\<close>
  asks for a number between the two calls of the first, in any state with a free number, both get the
  same one: the second process takes the place of the first, which \<open>find_process\<close> no longer finds, and
  after one of the two has been removed, removing the other stops the kernel.
\<close>

theorem pid_race:
  assumes "proc_table s = Some t" "\<not> pt_lock t" "\<exists>i. 2 \<le> i \<and> i < PID_MAX \<and> procs t i = None"
  shows "\<exists>pid s1 s2 s3. assign_pid s = Some (pid, s) \<and> pid \<noteq> - 1 \<and>
           add_proc p pid True True s = Some s1 \<and> add_proc q pid True True s1 = Some s2 \<and>
           find_process pid s2 = Some (Some q, s2) \<and>
           remove_proc me pid s2 = Some s3 \<and> remove_proc me' pid s3 = None"
proof -
  obtain i where i: "2 \<le> i" "i < PID_MAX" "low_pid t = int i"
    using low_pid_cases [of t] assms(3) by fastforce
  have stuck: "remove_proc me' (int i) s3 = None" if "proc_table s3 = Some t3" "procs t3 i = None" for s3 t3
    using that i by (auto simp: remove_proc_eq simp flip: not_Some_eq)
  define place where "place r t = t\<lparr>procs := (procs t)(i := Some r), active_procs := active_procs t + 1,
    exit_locks := (exit_locks t)(i := Some None), exit_cvs := (exit_cvs t)(i := Some []), pt_lock := False\<rparr>" for r and t :: proctable
  define s1 where "s1 = s\<lparr>proc_table := Some (place p t)\<rparr>"
  define s2 where "s2 = s1\<lparr>proc_table := Some (place q (place p t))\<rparr>"
  have a: "add_proc p (int i) True True s = Some s1" "add_proc q (int i) True True s1 = Some s2"
    using assms(1,2) i by (auto simp: add_proc_eq s1_def s2_def place_def)
  moreover have f: "find_process (int i) s2 = Some (Some q, s2)"
    using i by (simp add: find_process_eq s2_def place_def)
  moreover obtain s3 where r: "remove_proc me (int i) s2 = Some s3"
    using i by (simp add: remove_proc_eq s2_def place_def)
  moreover from r have "remove_proc me' (int i) s3 = None"
    using stuck unfolding remove_proc_eq by auto
  moreover have "assign_pid s = Some (int i, s)" using assms i by (simp add: assign_pid_eq)
  ultimately show ?thesis by fastforce
qed

section \<open>Processes at work\<close>

text \<open>One process, number 2 at address 1, with the address space and the file table of the earlier examples.\<close>

definition ex_pvm :: vmstate where
  "ex_pvm = ex_vm\<lparr>vm_heap := (case kmalloc 28 ex_heap of None \<Rightarrow> ex_heap | Some (_, h) \<Rightarrow> h)\<rparr>"

definition ex_proc :: proc where
  "ex_proc = \<lparr>p_name = 0, pr_numthreads = 1, p_addrspace = 0x80021FE0, pr_cwd = None, p_pid = 2, p_ppid = - 1,
     p_children_ll = Some \<lparr>ll_heap = (\<lambda>_. \<lparr>ln_prev = None, ln_next = None, ln_key = 0, ln_data = 0\<rparr>), ll_first = None,
       ll_last = None, ll_length = 0, ll_lock = Some None\<rparr>,
     p_exited = False, exitcode = - 1, parent_proc = None, proc_ft = Some 60, p_exit_sem = Some 0\<rparr>"

definition ex_ptable :: proctable where
  "ex_ptable = \<lparr>procs = [2 \<mapsto> 1], exit_cvs = [2 \<mapsto> []], exit_locks = [2 \<mapsto> None], pt_lock = False, active_procs = 1\<rparr>"

definition ex_procs :: pstate where
  "ex_procs = \<lparr>pfs = ex_files, pvm = ex_pvm, pstore = [1 \<mapsto> ex_proc], proc_table = Some ex_ptable, kproc = None,
     curproc = Some 1, pid_cells = (\<lambda>_. 0)\<rparr>"

definition ex_pc :: "nat \<Rightarrow> pc_mem" where
  "ex_pc p = \<lparr>m_proc = Some p, m_name = Some 0, m_list = Some 0, m_listlock = True, m_sem = Some 0, m_ft = None, m_ftlock = True,
     m_lock = True, m_cv = True\<rparr>"

lemma low_pid_eqI:
  assumes "2 \<le> i" "i < PID_MAX" "procs t i = None" "\<And>j. 2 \<le> j \<Longrightarrow> j < i \<Longrightarrow> procs t j \<noteq> None"
  shows "low_pid t = int i"
  using low_pid_cases [of t]
proof (elim disjE bexE conjE)
  assume "\<forall>j\<in>{2..<PID_MAX}. procs t j \<noteq> None"
  then have "procs t i \<noteq> None" by (rule bspec) (use assms in simp)
  with assms show ?thesis by simp
next
  fix k assume k: "k \<in> {2..<PID_MAX}" "low_pid t = int k" "procs t k = None" "\<forall>j\<in>{2..<k}. procs t j \<noteq> None"
  have "\<not> k < i" using assms(4) [of k] k by auto
  moreover have "\<not> i < k" using bspec [OF k(4), of i] assms(1,3) by fastforce
  ultimately show ?thesis using k(2) by simp
qed

lemma ex_low_pid: "low_pid ex_ptable = 3"
  using low_pid_eqI [of 3 ex_ptable] by (simp add: ex_ptable_def less_Suc_eq numeral_3_eq_3 numeral_2_eq_2)

lemma ex_assign_pid: "proc_table s = Some ex_ptable \<Longrightarrow> assign_pid s = Some (3, s)"
  by (simp add: assign_pid_eq ex_low_pid) (simp add: ex_ptable_def)

lemma spaces_zero_region [simp]: "spaces (as_zero_region pa n s) = spaces s"
  by (simp add: as_zero_region_def)

lemma ex_as_copy: "map_option fst (as_copy 0x80021FE0 ex_pvm) = Some 0"
  by (simp add: as_copy_def as_create_def as_prepare_load_def as_getppages_def set_space_def ex_pvm_def ex_vm_def ex_as_def
      heap_eval PR_BLOCKTYPE_def)

lemma ex_fork: "\<exists>s'. sys_fork vops 1 (ex_pc 5) True True (Some 70) True True 0 ex_procs = Some (0, Some 3, s')"
proof -
  obtain new v where c: "as_copy 0x80021FE0 ex_pvm = Some (0, new, v)" using ex_as_copy by auto
  obtain fs where f: "file_table_copy 1 (Some 60) (Some 70) True ex_files = Some (Some 70, fs)"
    using file_table_copy_correct [OF ex_files_inv, of 60 "ex_table (Some 80)" 70 1] by (fastforce simp: ex_sel simp del: upt_rec_numeral)
  show ?thesis
    using c f ex_assign_pid [of ex_procs]
    by (simp add: sys_fork_def ex_procs_def ex_proc_def proc_create_def ex_pc_def linked_list_create_def file_table_create_def
        add_proc_def pt_acquire_def pt_release_def pt_index_def upd_pt_def upd_proc_def Let_def)
      (simp add: ex_ptable_def)
qed

text \<open>The state after booting, with the kernel's process as number 2.\<close>

definition ex_booted :: pstate where
  "ex_booted = ex_procs\<lparr>pstore := [1 \<mapsto> ex_proc\<lparr>pr_numthreads := 0, p_addrspace := 0, proc_ft := None\<rparr>], kproc := Some 1,
     proc_table := Some ex_ptable\<rparr>"

lemma first_pid: "find (\<lambda>_. True) pid_range = Some 2"
proof -
  have e: "pid_range = 2 # [Suc 2..<PID_MAX]" unfolding pid_range_def by (rule upt_conv_Cons) simp
  show ?thesis unfolding e find.simps by simp
qed

lemma ex_booted_boot: "proc_boot ex_booted"
proof -
  have "proc_bootstrap True (ex_pc 1) (ex_procs\<lparr>pstore := Map.empty, proc_table := None\<rparr>) = Some ex_booted"
    by (simp add: proc_bootstrap_def create_proctable_def proc_create_def ex_pc_def assign_pid_def pt_acquire_def pt_release_def
        upd_pt_def first_pid linked_list_create_def file_table_create_def add_proc_def pt_index_def Let_def)
      (simp add: ex_booted_def ex_ptable_def ex_procs_def ex_proc_def)
  then show ?thesis unfolding proc_boot_def by (intro exI conjI) (auto simp: ex_procs_def)
qed

theorem assign_pid_correct_witness: "assign_pid ex_procs = Some (3, ex_procs) \<and> procs ex_ptable 2 = Some 1"
proof -
  have "proc_table ex_procs = Some ex_ptable" "\<not> pt_lock ex_ptable" by (simp_all add: ex_procs_def ex_ptable_def)
  from assign_pid_correct [OF this] obtain pid where p: "assign_pid ex_procs = Some (pid, ex_procs)" by blast
  moreover from p have "pid = 3" using ex_assign_pid [of ex_procs] by (simp add: ex_procs_def)
  ultimately show ?thesis by (simp add: ex_ptable_def)
qed


theorem exit_and_waitpid_fail_witness:
  "sys_exit (\<lambda>_. undefined) 1 0 ex_booted = None \<and> sys_waitpid 1 2 0 ex_booted = Some (Returns (- ECHILD), ex_booted)"
proof -
  obtain r s' where w: "sys_waitpid 1 2 0 ex_booted = Some (r, s')"
    by (simp add: sys_waitpid_def find_process_def pt_acquire_def pt_release_def pt_index_def upd_pt_def ex_booted_def ex_ptable_def
        ex_procs_def ex_proc_def Let_def)
  have f: "find_process 2 ex_booted \<noteq> Some (None, ex_booted)"
    by (simp add: find_process_eq ex_booted_def ex_ptable_def)
  have c: "curproc ex_booted = Some 1" "pstore ex_booted 1 = Some (ex_proc\<lparr>pr_numthreads := 0, p_addrspace := 0, proc_ft := None\<rparr>)"
    by (simp_all add: ex_booted_def ex_procs_def)
  show ?thesis
    using exit_and_waitpid_fail [where vops = "\<lambda>_. undefined" and me = 1 and code = 0 and pid = 2 and options = 0 and c = 1,
        OF ex_booted_boot rtranclp.rtrancl_refl] c f w by simp
qed


theorem pid_race_witness:
  "\<exists>pid s1 s2 s3. assign_pid ex_procs = Some (pid, ex_procs) \<and> pid \<noteq> - 1 \<and> add_proc 5 pid True True ex_procs = Some s1 \<and>
     add_proc 6 pid True True s1 = Some s2 \<and> find_process pid s2 = Some (Some 6, s2) \<and>
     remove_proc 1 pid s2 = Some s3 \<and> remove_proc 1 pid s3 = None"
proof -
  have "proc_table ex_procs = Some ex_ptable" "\<not> pt_lock ex_ptable" "\<exists>i. 2 \<le> i \<and> i < PID_MAX \<and> procs ex_ptable i = None"
    by (simp_all add: ex_procs_def ex_ptable_def) (rule exI [of _ 3], simp)
  from pid_race [OF this] show ?thesis .
qed

end
