(* ===== verification/Sfs.thy ===== *)
theory Sfs
  imports Bitmap Uio Cstring
begin

text \<open>
  The Simple File System, \<open>kern/fs/sfs\<close>, on the disk of \<open>kern/dev/lamebus/lhd.c\<close>: block I/O, block
  allocation, the map from file blocks to disk blocks, truncation and metadata I/O.

  The state is one mounted volume: the fields of \<open>struct sfs_fs\<close>, the loaded \<open>struct sfs_vnode\<close> objects by
  address, the depth of the big lock (its owner is the caller) and the disk, a map from sector numbers
  to 512 bytes. The disk answers each command with the next element of \<open>sfs_answers\<close>, and with
  success when there is none left. A block number is a \<open>nat\<close>; on disk it is four bytes, most significant
  first. A kernel buffer (\<open>idbuf\<close>, \<open>metaiobuf\<close>, an inode) that is the target of a block transfer is the
  byte list it holds. \<open>None\<close> is a panic or a failed assertion.
\<close>

abbreviation (input) SFS_BLOCKSIZE :: nat where "SFS_BLOCKSIZE \<equiv> 512"
abbreviation (input) SFS_NDIRECT :: nat where "SFS_NDIRECT \<equiv> 15"
abbreviation (input) SFS_NINDIRECT :: nat where "SFS_NINDIRECT \<equiv> 1"
abbreviation (input) SFS_DBPERIDB :: nat where "SFS_DBPERIDB \<equiv> 128"
abbreviation (input) SFS_NAMELEN :: nat where "SFS_NAMELEN \<equiv> 60"
abbreviation (input) SFS_SUPER_BLOCK :: nat where "SFS_SUPER_BLOCK \<equiv> 0"
abbreviation (input) SFS_FREEMAP_START :: nat where "SFS_FREEMAP_START \<equiv> 2"
abbreviation (input) SFS_NOINO :: nat where "SFS_NOINO \<equiv> 0"
abbreviation (input) SFS_ROOTDIR_INO :: nat where "SFS_ROOTDIR_INO \<equiv> 1"
abbreviation (input) SFS_TYPE_INVAL :: nat where "SFS_TYPE_INVAL \<equiv> 0"
abbreviation (input) SFS_TYPE_FILE :: nat where "SFS_TYPE_FILE \<equiv> 1"
abbreviation (input) SFS_TYPE_DIR :: nat where "SFS_TYPE_DIR \<equiv> 2"
abbreviation (input) SFS_MAGIC :: nat where "SFS_MAGIC \<equiv> 0xabadf001"

section \<open>State\<close>

record sfs_superblock =
  sb_magic :: nat
  sb_nblocks :: nat
  sb_volname :: "u8 list"
  sb_reserved :: "u8 list"

record sfs_dinode =
  sfi_size :: nat
  sfi_type :: nat
  sfi_linkcount :: nat
  sfi_direct :: "nat list"
  sfi_indirect :: nat
  sfi_waste :: "nat list"

record sfs_vnode =
  sv_refcount :: int
  sv_i :: sfs_dinode
  sv_ino :: nat
  sv_dirty :: bool

record sfs_fs =
  sfs_sb :: sfs_superblock
  sfs_superdirty :: bool
  sfs_vnodes :: "nat list"
  sfs_freemap :: bitmap
  sfs_freemapdirty :: bool
  svs :: "nat \<Rightarrow> sfs_vnode option"
  biglock_depth :: nat
  sfs_disk :: "nat \<Rightarrow> u8 list"
  lh_blocks :: nat
  sfs_answers :: "errno list"

definition upd_sv :: "nat \<Rightarrow> (sfs_vnode \<Rightarrow> sfs_vnode) \<Rightarrow> sfs_fs \<Rightarrow> sfs_fs" where
  "upd_sv p f s = s\<lparr>svs := (svs s)(p := map_option f (svs s p))\<rparr>"

definition upd_inode :: "nat \<Rightarrow> (sfs_dinode \<Rightarrow> sfs_dinode) \<Rightarrow> sfs_fs \<Rightarrow> sfs_fs" where
  "upd_inode p f s = upd_sv p (\<lambda>x. x\<lparr>sv_i := f (sv_i x), sv_dirty := True\<rparr>) s"

section \<open>Numbers on disk\<close>

definition be32 :: "nat \<Rightarrow> u8 list" where
  "be32 n = [of_nat (n div 2 ^ 24), of_nat (n div 2 ^ 16), of_nat (n div 2 ^ 8), of_nat n]"

definition be16 :: "nat \<Rightarrow> u8 list" where
  "be16 n = [of_nat (n div 2 ^ 8), of_nat n]"

fun de_nat :: "u8 list \<Rightarrow> nat" where
  "de_nat [] = 0"
| "de_nat (b # bs) = unat b * 256 ^ length bs + de_nat bs"

fun words_of :: "u8 list \<Rightarrow> nat list" where
  "words_of (a # b # c # d # bs) = de_nat [a, b, c, d] # words_of bs"
| "words_of _ = []"

definition bytes_of :: "nat list \<Rightarrow> u8 list" where
  "bytes_of ws = concat (map be32 ws)"

definition dinode_bytes :: "sfs_dinode \<Rightarrow> u8 list" where
  "dinode_bytes i = be32 (sfi_size i) @ be16 (sfi_type i) @ be16 (sfi_linkcount i) @
     bytes_of (sfi_direct i @ [sfi_indirect i] @ sfi_waste i)"

definition dinode_of :: "u8 list \<Rightarrow> sfs_dinode" where
  "dinode_of bs =
     (let ws = words_of (drop 8 bs) in
      \<lparr>sfi_size = de_nat (take 4 bs), sfi_type = de_nat (take 2 (drop 4 bs)), sfi_linkcount = de_nat (take 2 (drop 6 bs)),
       sfi_direct = take SFS_NDIRECT ws, sfi_indirect = ws ! SFS_NDIRECT, sfi_waste = drop (SFS_NDIRECT + 1) ws\<rparr>)"

definition superblock_bytes :: "sfs_superblock \<Rightarrow> u8 list" where
  "superblock_bytes sb = be32 (sb_magic sb) @ be32 (sb_nblocks sb) @ sb_volname sb @ sb_reserved sb"

definition superblock_of :: "u8 list \<Rightarrow> sfs_superblock" where
  "superblock_of bs = \<lparr>sb_magic = de_nat (take 4 bs), sb_nblocks = de_nat (take 4 (drop 4 bs)),
     sb_volname = take 32 (drop 8 bs), sb_reserved = drop 40 bs\<rparr>"

section \<open>The big lock\<close>

definition biglock_acquire :: "sfs_fs \<Rightarrow> sfs_fs" where
  "biglock_acquire s = s\<lparr>biglock_depth := Suc (biglock_depth s)\<rparr>"

definition biglock_release :: "sfs_fs \<Rightarrow> sfs_fs option" where
  "biglock_release s = do { kassert (biglock_depth s > 0); Some (s\<lparr>biglock_depth := biglock_depth s - 1\<rparr>) }"

section \<open>Block I/O\<close>

definition dev_answer :: "sfs_fs \<Rightarrow> errno \<times> sfs_fs" where
  "dev_answer s = (case sfs_answers s of [] \<Rightarrow> (0, s) | e # es \<Rightarrow> (e, s\<lparr>sfs_answers := es\<rparr>))"

text \<open>
  A request for one sector with a kernel buffer: what \<open>SFSUIO\<close> sets up. \<open>kio_sector\<close> is
  \<open>uio_offset\<close> in sectors; \<open>uiomove\<close> moves the whole sector at once and advances both fields.
\<close>

record kio =
  kio_rw :: uio_rw
  kio_sector :: nat
  kio_resid :: nat
  kio_data :: "u8 list"

definition kio_moved :: "kio \<Rightarrow> kio" where
  "kio_moved k = k\<lparr>kio_sector := Suc (kio_sector k), kio_resid := kio_resid k - 512\<rparr>"

definition lhd_io :: "kio \<Rightarrow> sfs_fs \<Rightarrow> (errno \<times> kio \<times> sfs_fs) option" where
  "lhd_io k s =
     (let sector = kio_sector k; len = kio_resid k div 512 in
      if kio_resid k mod 512 \<noteq> 0 then Some (EINVAL, k, s)
      else if (sector + len) mod 2 ^ 32 > lh_blocks s then Some (EINVAL, k, s)
      else if len = 0 then Some (0, k, s)
      else if kio_rw k = UIO_WRITE then
        (let (result, s) = dev_answer s in
         Some (result, kio_moved k, if result = 0 then s\<lparr>sfs_disk := (sfs_disk s)(sector := kio_data k)\<rparr> else s))
      else
        (let (result, s) = dev_answer s in
         if result = 0 then Some (0, kio_moved (k\<lparr>kio_data := sfs_disk s sector\<rparr>), s) else Some (result, k, s)))"

text \<open>The retries of \<open>sfs_rwblock\<close>: at most ten more attempts, with the uio as the last attempt left it.\<close>

fun sfs_retry :: "nat \<Rightarrow> ('u \<Rightarrow> sfs_fs \<Rightarrow> (errno \<times> 'u \<times> sfs_fs) option) \<Rightarrow> 'u \<Rightarrow> sfs_fs \<Rightarrow> (errno \<times> 'u \<times> sfs_fs) option" where
  "sfs_retry n devop_io u s =
     do {
       (result, u, s) \<leftarrow> devop_io u s;
       if result = EINVAL then None
       else if result = EIO then (case n of 0 \<Rightarrow> Some (result, u, s) | Suc m \<Rightarrow> sfs_retry m devop_io u s)
       else Some (result, u, s)
     }"

declare sfs_retry.simps [simp del]

definition sfs_rwblock :: "('u \<Rightarrow> sfs_fs \<Rightarrow> (errno \<times> 'u \<times> sfs_fs) option) \<Rightarrow> 'u \<Rightarrow> sfs_fs \<Rightarrow> (errno \<times> 'u \<times> sfs_fs) option" where
  "sfs_rwblock devop_io u s = do { kassert (biglock_depth s > 0); sfs_retry 10 devop_io u s }"

definition sfs_readblock :: "nat \<Rightarrow> sfs_fs \<Rightarrow> (errno \<times> u8 list \<times> sfs_fs) option" where
  "sfs_readblock block s =
     do {
       (result, k, s) \<leftarrow> sfs_rwblock lhd_io \<lparr>kio_rw = UIO_READ, kio_sector = block, kio_resid = 512, kio_data = []\<rparr> s;
       Some (result, kio_data k, s)
     }"

definition sfs_writeblock :: "nat \<Rightarrow> u8 list \<Rightarrow> sfs_fs \<Rightarrow> (errno \<times> sfs_fs) option" where
  "sfs_writeblock block data s =
     do {
       (result, _, s) \<leftarrow> sfs_rwblock lhd_io \<lparr>kio_rw = UIO_WRITE, kio_sector = block, kio_resid = 512, kio_data = data\<rparr> s;
       Some (result, s)
     }"

section \<open>Block allocation\<close>

definition sfs_clearblock :: "nat \<Rightarrow> sfs_fs \<Rightarrow> (errno \<times> sfs_fs) option" where
  "sfs_clearblock block s = sfs_writeblock block (replicate SFS_BLOCKSIZE 0) s"

definition sfs_balloc :: "sfs_fs \<Rightarrow> (errno \<times> nat \<times> sfs_fs) option" where
  "sfs_balloc s =
     do {
       r \<leftarrow> bitmap_alloc (sfs_freemap s);
       case r of
         Inl result \<Rightarrow> Some (result, 0, s)
       | Inr (diskblock, bm) \<Rightarrow>
           do {
             let s = s\<lparr>sfs_freemap := bm, sfs_freemapdirty := True\<rparr>;
             kassert (diskblock < sb_nblocks (sfs_sb s));
             (result, s) \<leftarrow> sfs_clearblock diskblock s;
             if result \<noteq> 0 then
               do { bm \<leftarrow> bitmap_unmark (sfs_freemap s) diskblock; Some (result, diskblock, s\<lparr>sfs_freemap := bm\<rparr>) }
             else Some (result, diskblock, s)
           }
     }"

definition sfs_bfree :: "nat \<Rightarrow> sfs_fs \<Rightarrow> sfs_fs option" where
  "sfs_bfree diskblock s =
     do { bm \<leftarrow> bitmap_unmark (sfs_freemap s) diskblock; Some (s\<lparr>sfs_freemap := bm, sfs_freemapdirty := True\<rparr>) }"

definition sfs_bused :: "nat \<Rightarrow> sfs_fs \<Rightarrow> bool option" where
  "sfs_bused diskblock s =
     do { kassert (diskblock < sb_nblocks (sfs_sb s)); Some (bitmap_isset (sfs_freemap s) diskblock \<noteq> 0) }"

section \<open>The block map\<close>

text \<open>The end of \<open>sfs_bmap\<close>: hand back the block, which has to be in use.\<close>

definition bmap_result :: "nat \<Rightarrow> sfs_fs \<Rightarrow> (errno \<times> nat \<times> sfs_fs) option" where
  "bmap_result block s =
     (if block = 0 then Some (0, 0, s)
      else do { used \<leftarrow> sfs_bused block s; kassert used; Some (0, block, s) })"

text \<open>The second half of \<open>sfs_bmap\<close>, with the indirect block in \<open>idbuf\<close>.\<close>

definition bmap_indirect :: "nat \<Rightarrow> nat \<Rightarrow> bool \<Rightarrow> nat list \<Rightarrow> sfs_fs \<Rightarrow> (errno \<times> nat \<times> sfs_fs) option" where
  "bmap_indirect idblock idoff doalloc idbuf s =
     (let block = idbuf ! idoff in
      if block = 0 \<and> doalloc then
        do {
          (result, block, s) \<leftarrow> sfs_balloc s;
          if result \<noteq> 0 then Some (result, 0, s)
          else do {
            (result, s) \<leftarrow> sfs_writeblock idblock (bytes_of (idbuf[idoff := block])) s;
            if result \<noteq> 0 then Some (result, 0, s) else bmap_result block s
          }
        }
      else bmap_result block s)"

definition sfs_bmap :: "nat \<Rightarrow> nat \<Rightarrow> bool \<Rightarrow> sfs_fs \<Rightarrow> (errno \<times> nat \<times> sfs_fs) option" where
  "sfs_bmap sv fileblock doalloc s =
     do {
       kassert (biglock_depth s > 0);
       x \<leftarrow> svs s sv;
       if fileblock < SFS_NDIRECT then
         (let block = sfi_direct (sv_i x) ! fileblock in
          if block = 0 \<and> doalloc then
            do {
              (result, block, s) \<leftarrow> sfs_balloc s;
              if result \<noteq> 0 then Some (result, 0, s)
              else bmap_result block (upd_inode sv (\<lambda>i. i\<lparr>sfi_direct := (sfi_direct i)[fileblock := block]\<rparr>) s)
            }
          else bmap_result block s)
       else
         (let fileblock = fileblock - SFS_NDIRECT; idnum = fileblock div SFS_DBPERIDB; idoff = fileblock mod SFS_DBPERIDB;
              idblock = sfi_indirect (sv_i x)
          in if idnum \<ge> SFS_NINDIRECT then Some (EFBIG, 0, s)
             else if idblock = 0 \<and> \<not> doalloc then Some (0, 0, s)
             else if idblock = 0 then
               do {
                 (result, idblock, s) \<leftarrow> sfs_balloc s;
                 if result \<noteq> 0 then Some (result, 0, s)
                 else bmap_indirect idblock idoff doalloc (replicate SFS_DBPERIDB 0)
                        (upd_inode sv (\<lambda>i. i\<lparr>sfi_indirect := idblock\<rparr>) s)
               }
             else
               do {
                 (result, idbuf, s) \<leftarrow> sfs_readblock idblock s;
                 if result \<noteq> 0 then Some (result, 0, s)
                 else bmap_indirect idblock idoff doalloc (words_of idbuf) s
               })
     }"
section \<open>Truncation\<close>

text \<open>\<open>len\<close> is the (non-negative) \<open>off_t\<close>; \<open>blocklen\<close> is cut to 32 bits, as is \<open>sfi_size\<close>.\<close>

fun trunc_direct :: "nat \<Rightarrow> nat \<Rightarrow> nat list \<Rightarrow> sfs_fs \<Rightarrow> sfs_fs option" where
  "trunc_direct sv blocklen [] s = Some s"
| "trunc_direct sv blocklen (i # is) s =
     do {
       x \<leftarrow> svs s sv;
       let block = sfi_direct (sv_i x) ! i;
       s \<leftarrow> (if i \<ge> blocklen \<and> block \<noteq> 0 then
               do { s \<leftarrow> sfs_bfree block s; Some (upd_inode sv (\<lambda>n. n\<lparr>sfi_direct := (sfi_direct n)[i := 0]\<rparr>) s) }
             else Some s);
       trunc_direct sv blocklen is s
     }"

fun trunc_indirect :: "nat \<Rightarrow> nat list \<Rightarrow> nat list \<Rightarrow> bool \<Rightarrow> bool \<Rightarrow> sfs_fs \<Rightarrow> (nat list \<times> bool \<times> bool \<times> sfs_fs) option" where
  "trunc_indirect blocklen [] idbuf hasnonzero iddirty s = Some (idbuf, hasnonzero, iddirty, s)"
| "trunc_indirect blocklen (j # js) idbuf hasnonzero iddirty s =
     do {
       (idbuf, iddirty, s) \<leftarrow>
         (if blocklen < SFS_NDIRECT + j \<and> idbuf ! j \<noteq> 0 then
            do { s \<leftarrow> sfs_bfree (idbuf ! j) s; Some (idbuf[j := 0], True, s) }
          else Some (idbuf, iddirty, s));
       trunc_indirect blocklen js idbuf (hasnonzero \<or> idbuf ! j \<noteq> 0) iddirty s
     }"

text \<open>The part of \<open>sfs_itrunc\<close> that deals with the indirect block.\<close>

definition itrunc_indirect :: "nat \<Rightarrow> nat \<Rightarrow> sfs_fs \<Rightarrow> (errno \<times> sfs_fs) option" where
  "itrunc_indirect sv blocklen s =
     do {
       x \<leftarrow> svs s sv;
       let idblock = sfi_indirect (sv_i x);
       let highblock = SFS_NDIRECT + SFS_DBPERIDB - 1;
       if blocklen < highblock \<and> idblock \<noteq> 0 then
         do {
           (result, idbuf, s) \<leftarrow> sfs_readblock idblock s;
           if result \<noteq> 0 then Some (result, s)
           else do {
             (idbuf, hasnonzero, iddirty, s) \<leftarrow> trunc_indirect blocklen [0..<SFS_DBPERIDB] (words_of idbuf) False False s;
             if \<not> hasnonzero then
               do { s \<leftarrow> sfs_bfree idblock s; Some (0, upd_inode sv (\<lambda>n. n\<lparr>sfi_indirect := 0\<rparr>) s) }
             else if iddirty then sfs_writeblock idblock (bytes_of idbuf) s
             else Some (0, s)
           }
         }
       else Some (0, s)
     }"

definition sfs_itrunc :: "nat \<Rightarrow> nat \<Rightarrow> sfs_fs \<Rightarrow> (errno \<times> sfs_fs) option" where
  "sfs_itrunc sv len s =
     do {
       let blocklen = ((len + SFS_BLOCKSIZE - 1) div SFS_BLOCKSIZE) mod 2 ^ 32;
       let s = biglock_acquire s;
       s \<leftarrow> trunc_direct sv blocklen [0..<SFS_NDIRECT] s;
       (result, s) \<leftarrow> itrunc_indirect sv blocklen s;
       if result \<noteq> 0 then do { s \<leftarrow> biglock_release s; Some (result, s) }
       else do {
         s \<leftarrow> biglock_release (upd_inode sv (\<lambda>n. n\<lparr>sfi_size := len mod 2 ^ 32\<rparr>) s);
         Some (0, s)
       }
     }"

section \<open>Metadata I/O and directories\<close>

text \<open>
  \<open>sfs_metaio\<close>, reading \<open>len\<close> bytes into \<open>data\<close> or writing \<open>data\<close>; the region does not cross a block
  boundary. The position is \<open>slot * sizeof(struct sfs_direntry)\<close>, which the callers compute.
\<close>

definition set_block :: "u8 list \<Rightarrow> nat \<Rightarrow> u8 list \<Rightarrow> u8 list" where
  "set_block blk off data = take off blk @ data @ drop (off + length data) blk"

definition sfs_metaio_read :: "nat \<Rightarrow> nat \<Rightarrow> nat \<Rightarrow> sfs_fs \<Rightarrow> (errno \<times> u8 list \<times> sfs_fs) option" where
  "sfs_metaio_read sv actualpos len s =
     do {
       kassert (biglock_depth s > 0);
       (result, diskblock, s) \<leftarrow> sfs_bmap sv (actualpos div SFS_BLOCKSIZE) False s;
       if result \<noteq> 0 then Some (result, [], s)
       else if diskblock = 0 then Some (0, replicate len 0, s)
       else do {
         (result, metaiobuf, s) \<leftarrow> sfs_readblock diskblock s;
         if result \<noteq> 0 then Some (result, [], s)
         else Some (0, take len (drop (actualpos mod SFS_BLOCKSIZE) metaiobuf), s)
       }
     }"

definition metaio_put :: "nat \<Rightarrow> nat \<Rightarrow> nat \<Rightarrow> u8 list \<Rightarrow> sfs_fs \<Rightarrow> (errno \<times> sfs_fs) option" where
  "metaio_put sv diskblock actualpos data s =
     do {
       (result, metaiobuf, s) \<leftarrow> sfs_readblock diskblock s;
       if result \<noteq> 0 then Some (result, s)
       else do {
         (result, s) \<leftarrow> sfs_writeblock diskblock (set_block metaiobuf (actualpos mod SFS_BLOCKSIZE) data) s;
         if result \<noteq> 0 then Some (result, s)
         else do {
           x \<leftarrow> svs s sv;
           let endpos = actualpos + length data;
           Some (0, if endpos > sfi_size (sv_i x) then upd_inode sv (\<lambda>n. n\<lparr>sfi_size := endpos mod 2 ^ 32\<rparr>) s else s)
         }
       }
     }"

definition sfs_metaio_write :: "nat \<Rightarrow> nat \<Rightarrow> u8 list \<Rightarrow> sfs_fs \<Rightarrow> (errno \<times> sfs_fs) option" where
  "sfs_metaio_write sv actualpos data s =
     do {
       kassert (biglock_depth s > 0);
       (result, diskblock, s) \<leftarrow> sfs_bmap sv (actualpos div SFS_BLOCKSIZE) True s;
       if result \<noteq> 0 then Some (result, s)
       else do { kassert (diskblock \<noteq> 0); metaio_put sv diskblock actualpos data s }
     }"

text \<open>A directory entry, 64 bytes: the inode number and the name field.\<close>

definition dirent_ino :: "u8 list \<Rightarrow> nat" where
  "dirent_ino sd = de_nat (take 4 sd)"

text \<open>The string in the name field after its last byte has been cleared.\<close>

definition dirent_name :: "u8 list \<Rightarrow> u8 list" where
  "dirent_name sd = takeWhile (\<lambda>c. c \<noteq> 0) (take (SFS_NAMELEN - 1) (drop 4 sd))"

definition dirent_bytes :: "nat \<Rightarrow> u8 list \<Rightarrow> u8 list" where
  "dirent_bytes ino name = be32 ino @ name @ replicate (SFS_NAMELEN - length name) 0"

definition sfs_readdir :: "nat \<Rightarrow> nat \<Rightarrow> sfs_fs \<Rightarrow> (errno \<times> u8 list \<times> sfs_fs) option" where
  "sfs_readdir sv slot s = sfs_metaio_read sv (slot * 64) 64 s"

definition sfs_writedir :: "nat \<Rightarrow> nat \<Rightarrow> u8 list \<Rightarrow> sfs_fs \<Rightarrow> (errno \<times> sfs_fs) option" where
  "sfs_writedir sv slot sd s = sfs_metaio_write sv (slot * 64) sd s"

definition sfs_dir_nentries :: "nat \<Rightarrow> sfs_fs \<Rightarrow> nat option" where
  "sfs_dir_nentries sv s =
     do {
       x \<leftarrow> svs s sv;
       kassert (sfi_type (sv_i x) = SFS_TYPE_DIR);
       kassert (sfi_size (sv_i x) mod 64 = 0);
       Some (sfi_size (sv_i x) div 64)
     }"

text \<open>
  \<open>sfs_dir_findname\<close>: \<open>found\<close> is the slot and inode number of the match, \<open>eslot\<close> the last free slot seen.
\<close>

fun findname_loop :: "nat \<Rightarrow> u8 list \<Rightarrow> nat list \<Rightarrow> (nat \<times> nat) option \<Rightarrow> nat option \<Rightarrow> sfs_fs \<Rightarrow>
    (errno \<times> (nat \<times> nat) option \<times> nat option \<times> sfs_fs) option" where
  "findname_loop sv name [] found eslot s = Some (if found = None then ENOENT else 0, found, eslot, s)"
| "findname_loop sv name (i # is) found eslot s =
     do {
       (result, tsd, s) \<leftarrow> sfs_readdir sv i s;
       if result \<noteq> 0 then Some (result, found, eslot, s)
       else if dirent_ino tsd = SFS_NOINO then findname_loop sv name is found (Some i) s
       else if dirent_name tsd = name then
         do { kassert (found = None); findname_loop sv name is (Some (i, dirent_ino tsd)) eslot s }
       else findname_loop sv name is found eslot s
     }"

definition sfs_dir_findname :: "nat \<Rightarrow> u8 list \<Rightarrow> sfs_fs \<Rightarrow> (errno \<times> (nat \<times> nat) option \<times> nat option \<times> sfs_fs) option" where
  "sfs_dir_findname sv name s = do { n \<leftarrow> sfs_dir_nentries sv s; findname_loop sv name [0..<n] None None s }"

definition sfs_dir_link :: "nat \<Rightarrow> u8 list \<Rightarrow> nat \<Rightarrow> sfs_fs \<Rightarrow> (errno \<times> nat \<times> sfs_fs) option" where
  "sfs_dir_link sv name ino s =
     do {
       (result, _, emptyslot, s) \<leftarrow> sfs_dir_findname sv name s;
       if result \<noteq> 0 \<and> result \<noteq> ENOENT then Some (result, 0, s)
       else if result = 0 then Some (EEXIST, 0, s)
       else if length name + 1 > SFS_NAMELEN then Some (ENAMETOOLONG, 0, s)
       else do {
         slot \<leftarrow> (case emptyslot of Some e \<Rightarrow> Some e | None \<Rightarrow> sfs_dir_nentries sv s);
         (result, s) \<leftarrow> sfs_writedir sv slot (dirent_bytes ino name) s;
         Some (result, slot, s)
       }
     }"

definition sfs_dir_unlink :: "nat \<Rightarrow> nat \<Rightarrow> sfs_fs \<Rightarrow> (errno \<times> sfs_fs) option" where
  "sfs_dir_unlink sv slot s = sfs_writedir sv slot (replicate 64 0) s"

end
