(* ===== verification/Sfs_Block.thy ===== *)
theory Sfs_Block
  imports Sfs
begin

text \<open>
  Blocks of SFS files: that the numbers on disk are read back as they were written, what block I/O
  does on a disk that answers every command with success, and that \<open>sfs_bmap\<close> and \<open>sfs_itrunc\<close> keep
  the map from file blocks to disk blocks injective and inside the allocated blocks.
\<close>

section \<open>Numbers on disk\<close>

lemma de_nat_bound: "de_nat bs < 256 ^ length bs"
proof (induction bs)
  case (Cons b bs)
  have "unat b \<le> 255" using unsigned_less [where ?'a = nat and w = b] by simp
  then have m: "unat b * 256 ^ length bs \<le> 255 * 256 ^ length bs" by (rule mult_right_mono) simp
  have "256 ^ length (b # bs) = 255 * 256 ^ length bs + (256 ^ length bs :: nat)" by simp
  with Cons m show ?case unfolding de_nat.simps by linarith
qed simp

lemma unat_of_nat_byte: "unat (of_nat n :: u8) = n mod 256"
  by (simp add: unat_of_nat)

lemma base256: "(n::nat) div 2 ^ 24 mod 256 * 16777216 + (n div 2 ^ 16 mod 256 * 65536 + (n div 2 ^ 8 mod 256 * 256 + n mod 256)) = n mod 2 ^ 32"
proof -
  have a: "n mod 2 ^ 16 = n div 2 ^ 8 mod 2 ^ 8 * 2 ^ 8 + n mod 2 ^ 8"
    using mod_mult2_eq [of n "2 ^ 8" "2 ^ 8"] by simp
  have b: "n mod 2 ^ 24 = n div 2 ^ 16 mod 2 ^ 8 * 2 ^ 16 + n mod 2 ^ 16"
    using mod_mult2_eq [of n "2 ^ 16" "2 ^ 8"] by simp
  have c: "n mod 2 ^ 32 = n div 2 ^ 24 mod 2 ^ 8 * 2 ^ 24 + n mod 2 ^ 24"
    using mod_mult2_eq [of n "2 ^ 24" "2 ^ 8"] by simp
  show ?thesis using a b c by simp
qed

lemma de_be32 [simp]: "de_nat (be32 n) = n mod 2 ^ 32"
  using base256 [of n] by (simp add: be32_def unat_of_nat_byte)

lemma length_be32 [simp]: "length (be32 n) = 4" "length (be16 n) = 2"
  by (simp_all add: be32_def be16_def)

lemma words_of_be32 [simp]: "words_of (be32 n @ bs) = n mod 2 ^ 32 # words_of bs"
proof -
  obtain a b c d where e: "be32 n = [a, b, c, d]" by (simp add: be32_def)
  then have "de_nat [a, b, c, d] = n mod 2 ^ 32" using de_be32 [of n] by (simp only:)
  then show ?thesis by (simp only: e append.simps words_of.simps)
qed

lemma words_of_bytes_of: "\<forall>w\<in>set ws. w < 2 ^ 32 \<Longrightarrow> words_of (bytes_of ws) = ws"
  by (induction ws) (simp_all add: bytes_of_def del: power_Suc)

lemma length_bytes_of [simp]: "length (bytes_of ws) = 4 * length ws"
  by (induction ws) (simp_all add: bytes_of_def)

lemma length_words_of: "length (words_of bs) = length bs div 4"
  by (induction bs rule: words_of.induct) simp_all

lemma words_of_bound: "w \<in> set (words_of bs) \<Longrightarrow> w < 2 ^ 32"
proof (induction bs rule: words_of.induct)
  case (1 a b c d bs)
  then show ?case using de_nat_bound [of "[a, b, c, d]"] by auto
qed auto

lemma words_of_zeros: "words_of (replicate (4 * n) 0) = replicate n 0"
proof (induction n)
  case (Suc n)
  have "replicate (4 * Suc n) (0::u8) = 0 # 0 # 0 # 0 # replicate (4 * n) 0" by (simp add: eval_nat_numeral)
  with Suc show ?case by simp
qed simp

section \<open>A volume in order\<close>

abbreviation used :: "sfs_fs \<Rightarrow> nat set" where
  "used s \<equiv> bitmap_used (sfs_freemap s)"

definition vol_ok :: "sfs_fs \<Rightarrow> bool" where
  "vol_ok s \<longleftrightarrow> sfs_answers s = [] \<and> biglock_depth s > 0 \<and> bitmap_inv (sfs_freemap s) \<and>
     sb_nblocks (sfs_sb s) \<le> lh_blocks s \<and> lh_blocks s < 2 ^ 32 \<and> sb_nblocks (sfs_sb s) \<le> nbits (sfs_freemap s) \<and>
     {sb_nblocks (sfs_sb s)..<nbits (sfs_freemap s)} \<subseteq> used s \<and> 0 \<in> used s \<and> (\<forall>b. length (sfs_disk s b) = 512)"

lemma sfs_readblock_ok:
  assumes "vol_ok s" "b < sb_nblocks (sfs_sb s)"
  shows "sfs_readblock b s = Some (0, sfs_disk s b, s)"
proof -
  have "b + 1 \<le> lh_blocks s" "lh_blocks s < 2 ^ 32" using assms by (auto simp: vol_ok_def)
  then have "(b + 1) mod 2 ^ 32 \<le> lh_blocks s" by (meson mod_less_eq_dividend order_trans)
  with assms show ?thesis
    by (simp add: vol_ok_def sfs_readblock_def sfs_rwblock_def sfs_retry.simps lhd_io_def dev_answer_def kio_moved_def Let_def)
qed

lemma sfs_writeblock_ok:
  assumes "vol_ok s" "b < sb_nblocks (sfs_sb s)"
  shows "sfs_writeblock b data s = Some (0, s\<lparr>sfs_disk := (sfs_disk s)(b := data)\<rparr>)"
proof -
  have "b + 1 \<le> lh_blocks s" "lh_blocks s < 2 ^ 32" using assms by (auto simp: vol_ok_def)
  then have "(b + 1) mod 2 ^ 32 \<le> lh_blocks s" by (meson mod_less_eq_dividend order_trans)
  with assms show ?thesis
    by (simp add: vol_ok_def sfs_writeblock_def sfs_rwblock_def sfs_retry.simps lhd_io_def dev_answer_def kio_moved_def Let_def)
qed

lemma vol_ok_frame:
  "vol_ok s \<Longrightarrow> length data = 512 \<Longrightarrow> vol_ok (s\<lparr>sfs_disk := (sfs_disk s)(b := data)\<rparr>)"
  "vol_ok (upd_inode p f s) = vol_ok s"
  "vol_ok (s\<lparr>sfs_freemapdirty := d\<rparr>) = vol_ok s"
  by (auto simp: vol_ok_def upd_inode_def upd_sv_def)

lemma sfs_balloc_cases:
  assumes "vol_ok s"
  obtains (full) "sfs_balloc s = Some (ENOSPC, 0, s)" "used s = {..<nbits (sfs_freemap s)}"
  | (got) b bm where "sfs_balloc s = Some (0, b, s\<lparr>sfs_freemap := bm, sfs_freemapdirty := True, sfs_disk := (sfs_disk s)(b := replicate 512 0)\<rparr>)"
      "b \<notin> used s" "b \<noteq> 0" "b < sb_nblocks (sfs_sb s)" "bitmap_used bm = insert b (used s)"
      "vol_ok (s\<lparr>sfs_freemap := bm, sfs_freemapdirty := True, sfs_disk := (sfs_disk s)(b := replicate 512 0)\<rparr>)"
proof -
  have inv: "bitmap_inv (sfs_freemap s)" and z: "0 \<in> used s" using assms by (simp_all add: vol_ok_def)
  obtain r where r: "bitmap_alloc (sfs_freemap s) = Some r" using bm.alloc_never_panics [OF inv] by auto
  from inv r show thesis
  proof (cases rule: bm.alloc_Some_cases)
    case full
    then show thesis using r that(1) by (simp add: sfs_balloc_def)
  next
    case (got b bm)
    let ?s = "s\<lparr>sfs_freemap := bm, sfs_freemapdirty := True\<rparr>"
    have "{sb_nblocks (sfs_sb s)..<nbits (sfs_freemap s)} \<subseteq> used s" using assms by (simp add: vol_ok_def)
    then have b: "b < sb_nblocks (sfs_sb s)" using got(2,3) by (meson atLeastLessThan_iff not_le subset_iff)
    have "vol_ok ?s" using assms got by (auto simp: vol_ok_def)
    then have w: "sfs_clearblock b ?s = Some (0, ?s\<lparr>sfs_disk := (sfs_disk s)(b := replicate 512 0)\<rparr>)"
      "vol_ok (?s\<lparr>sfs_disk := (sfs_disk s)(b := replicate 512 0)\<rparr>)"
      using sfs_writeblock_ok [of ?s b "replicate 512 0"] vol_ok_frame(1) [of ?s "replicate 512 0" b] b by (simp_all add: sfs_clearblock_def)
    then have "sfs_balloc s = Some (0, b, ?s\<lparr>sfs_disk := (sfs_disk s)(b := replicate 512 0)\<rparr>)"
      using r got(1) b by (simp add: sfs_balloc_def Let_def)
    then show thesis using that(2) [of b bm] w(2) got b z by auto
  qed
qed

lemma bitmap_isset_used: "i < nbits b \<Longrightarrow> bitmap_isset b i \<noteq> 0 \<longleftrightarrow> i \<in> bitmap_used b"
  by (simp add: bitmap_isset_def bitmap_translate_def bitmap_used_def bm_bit_def)

lemma bmap_result_ok:
  assumes "vol_ok s" "b \<in> used s" "b < sb_nblocks (sfs_sb s)"
  shows "bmap_result b s = Some (0, b, s)"
proof -
  have "b < nbits (sfs_freemap s)" using assms by (auto simp: vol_ok_def)
  with assms bitmap_isset_used [of b "sfs_freemap s"] show ?thesis by (simp add: bmap_result_def sfs_bused_def)
qed

lemma bmap_result_zero [simp]: "bmap_result 0 s = Some (0, 0, s)"
  by (simp add: bmap_result_def)

lemma sfs_bfree_ok:
  assumes "vol_ok s" "b \<in> used s" "b < sb_nblocks (sfs_sb s)" "b \<noteq> 0"
  obtains bm where "sfs_bfree b s = Some (s\<lparr>sfs_freemap := bm, sfs_freemapdirty := True\<rparr>)" "bitmap_used bm = used s - {b}"
    "vol_ok (s\<lparr>sfs_freemap := bm, sfs_freemapdirty := True\<rparr>)"
proof -
  have inv: "bitmap_inv (sfs_freemap s)" using assms(1) by (simp add: vol_ok_def)
  from bm.unmark_used [OF inv assms(2)] obtain bm where "bitmap_unmark (sfs_freemap s) b = Some bm" "bitmap_inv bm"
    "bitmap_used bm = used s - {b}" "nbits bm = nbits (sfs_freemap s)" by blast
  moreover from this assms(1,3,4) have "vol_ok (s\<lparr>sfs_freemap := bm, sfs_freemapdirty := True\<rparr>)"
    by (auto simp: vol_ok_def)
  ultimately show thesis using that [of bm] by (simp add: sfs_bfree_def)
qed
section \<open>The blocks of a file\<close>

text \<open>The disk block behind block \<open>k\<close> of a file (0 for a hole), all blocks a file occupies, and a file
  whose map is injective and inside the allocated blocks.\<close>

definition idwords :: "(nat \<Rightarrow> u8 list) \<Rightarrow> sfs_dinode \<Rightarrow> nat list" where
  "idwords d i = (if sfi_indirect i = 0 then replicate SFS_DBPERIDB 0 else words_of (d (sfi_indirect i)))"

definition fmap :: "(nat \<Rightarrow> u8 list) \<Rightarrow> sfs_dinode \<Rightarrow> nat \<Rightarrow> nat" where
  "fmap d i k = (if k < 15 then sfi_direct i ! k else if k < 143 then idwords d i ! (k - 15) else 0)"

definition fblocks :: "(nat \<Rightarrow> u8 list) \<Rightarrow> sfs_dinode \<Rightarrow> nat set" where
  "fblocks d i = (insert (sfi_indirect i) (range (fmap d i))) - {0}"

definition file_ok :: "sfs_fs \<Rightarrow> sfs_dinode \<Rightarrow> bool" where
  "file_ok s i \<longleftrightarrow> length (sfi_direct i) = 15 \<and>
     fblocks (sfs_disk s) i \<subseteq> used s \<inter> {..<sb_nblocks (sfs_sb s)} \<and>
     (\<forall>k l. fmap (sfs_disk s) i k = fmap (sfs_disk s) i l \<and> fmap (sfs_disk s) i k \<noteq> 0 \<longrightarrow> k = l) \<and>
     (\<forall>k. fmap (sfs_disk s) i k = sfi_indirect i \<longrightarrow> sfi_indirect i = 0)"

lemma file_okD:
  assumes "file_ok s i"
  shows "length (sfi_direct i) = 15"
    and "fmap (sfs_disk s) i k \<noteq> 0 \<Longrightarrow> fmap (sfs_disk s) i k \<in> used s \<and> fmap (sfs_disk s) i k < sb_nblocks (sfs_sb s)"
    and "sfi_indirect i \<noteq> 0 \<Longrightarrow> sfi_indirect i \<in> used s \<and> sfi_indirect i < sb_nblocks (sfs_sb s)"
    and "fmap (sfs_disk s) i k = fmap (sfs_disk s) i l \<Longrightarrow> fmap (sfs_disk s) i k \<noteq> 0 \<Longrightarrow> k = l"
    and "fmap (sfs_disk s) i k = sfi_indirect i \<Longrightarrow> sfi_indirect i = 0"
proof -
  have sub: "fblocks (sfs_disk s) i \<subseteq> used s \<inter> {..<sb_nblocks (sfs_sb s)}" using assms by (simp add: file_ok_def)
  have "fmap (sfs_disk s) i k \<noteq> 0 \<Longrightarrow> fmap (sfs_disk s) i k \<in> fblocks (sfs_disk s) i"
    "sfi_indirect i \<noteq> 0 \<Longrightarrow> sfi_indirect i \<in> fblocks (sfs_disk s) i" by (auto simp: fblocks_def)
  with sub show "fmap (sfs_disk s) i k \<noteq> 0 \<Longrightarrow> fmap (sfs_disk s) i k \<in> used s \<and> fmap (sfs_disk s) i k < sb_nblocks (sfs_sb s)"
    "sfi_indirect i \<noteq> 0 \<Longrightarrow> sfi_indirect i \<in> used s \<and> sfi_indirect i < sb_nblocks (sfs_sb s)" by blast+
qed (use assms in \<open>auto simp: file_ok_def\<close>)

lemma length_idwords: "vol_ok s \<Longrightarrow> length (idwords (sfs_disk s) i) = 128"
  by (simp add: idwords_def length_words_of vol_ok_def)

lemma idwords_bound: "w \<in> set (idwords d i) \<Longrightarrow> w < 2 ^ 32"
  by (auto simp: idwords_def dest: words_of_bound split: if_splits)

text \<open>A file's map depends only on its inode and its indirect block.\<close>

lemma fmap_cong: "sfi_direct i = sfi_direct j \<Longrightarrow> idwords d i = idwords e j \<Longrightarrow> fmap d i = fmap e j"
  by (simp add: fmap_def fun_eq_iff)

lemma fmap_direct: "length (sfi_direct i) = 15 \<Longrightarrow> k < 15 \<Longrightarrow>
    fmap d (i\<lparr>sfi_direct := (sfi_direct i)[k := b]\<rparr>) = (fmap d i)(k := b)"
  by (auto simp: fmap_def idwords_def fun_eq_iff)

lemma fmap_indirect:
  assumes "sfi_direct j = sfi_direct i" "idwords e j = (idwords d i)[k - 15 := b]" "length (idwords d i) = 128" "15 \<le> k" "k < 143"
  shows "fmap e j = (fmap d i)(k := b)"
proof
  fix l
  have "k - 15 < 128" using assms by simp
  moreover have "l - 15 \<noteq> k - 15" if "l \<noteq> k" "15 \<le> l" using that assms(4) by simp
  ultimately show "fmap e j l = ((fmap d i)(k := b)) l"
    using assms by (auto simp: fmap_def)
qed

text \<open>Adding one fresh block to the map keeps a file in order.\<close>

lemma file_ok_add:
  assumes ok: "file_ok s i" and "length (sfi_direct j) = 15" "fmap (sfs_disk s') j = (fmap (sfs_disk s) i)(k := b)"
    and "used s \<subseteq> used s'" "b \<in> used s'" "b < sb_nblocks (sfs_sb s)" "b \<notin> used s" "sfs_sb s' = sfs_sb s"
    and "sfi_indirect j = sfi_indirect i \<or> sfi_indirect j \<in> used s' - used s - {b} \<and> sfi_indirect j < sb_nblocks (sfs_sb s)"
    and "b \<noteq> sfi_indirect j" "b \<noteq> 0"
  shows "file_ok s' j"
proof -
  let ?m = "fmap (sfs_disk s) i"
  have old: "?m l \<in> used s" "?m l < sb_nblocks (sfs_sb s)" if "?m l \<noteq> 0" for l using file_okD(2) [OF ok that] by auto
  have "fblocks (sfs_disk s') j \<subseteq> used s' \<inter> {..<sb_nblocks (sfs_sb s')}"
  proof
    fix c assume "c \<in> fblocks (sfs_disk s') j"
    then have c: "c = sfi_indirect j \<or> (\<exists>l. c = (?m(k := b)) l)" "c \<noteq> 0" by (auto simp: fblocks_def assms(3))
    then consider "c = sfi_indirect j" | "c = b" | l where "c = ?m l" by (auto split: if_splits)
    then show "c \<in> used s' \<inter> {..<sb_nblocks (sfs_sb s')}"
    proof cases
      case 1
      with assms(9) c(2) file_okD(3) [OF ok] assms(4,8) show ?thesis by auto
    next
      case 3
      with old [of l] c(2) assms(4,8) show ?thesis by auto
    qed (use assms in auto)
  qed
  moreover have "l = m" if "(?m(k := b)) l = (?m(k := b)) m" "(?m(k := b)) l \<noteq> 0" for l m
    using that old(1) [of l] old(1) [of m] assms(7) file_okD(4) [OF ok, of l m] by (auto split: if_splits)
  moreover have "sfi_indirect j = 0" if "(?m(k := b)) l = sfi_indirect j" for l
  proof (cases "l = k")
    case True
    with that assms(10) show ?thesis by simp
  next
    case False
    with that have eq: "?m l = sfi_indirect j" by simp
    show ?thesis
    proof (rule ccontr)
      assume nz: "sfi_indirect j \<noteq> 0"
      with eq old(1) [of l] have "sfi_indirect j \<in> used s" by simp
      with assms(9) eq file_okD(5) [OF ok, of l] nz show False by auto
    qed
  qed
  ultimately show ?thesis using assms(2) unfolding file_ok_def assms(3) by blast
qed

lemma file_ok_same_map:
  assumes ok: "file_ok s i" and "length (sfi_direct j) = 15" "fmap (sfs_disk s') j = fmap (sfs_disk s) i"
    and "used s \<subseteq> used s'" "sfs_sb s' = sfs_sb s"
    and "sfi_indirect j = sfi_indirect i \<or> sfi_indirect j \<in> used s' - used s \<and> sfi_indirect j < sb_nblocks (sfs_sb s)"
  shows "file_ok s' j"
proof -
  let ?m = "fmap (sfs_disk s) i"
  have "fblocks (sfs_disk s') j \<subseteq> used s' \<inter> {..<sb_nblocks (sfs_sb s')}"
  proof
    fix c assume "c \<in> fblocks (sfs_disk s') j"
    then have "c = sfi_indirect j \<or> (\<exists>l. c = ?m l)" "c \<noteq> 0" by (auto simp: fblocks_def assms(3))
    then show "c \<in> used s' \<inter> {..<sb_nblocks (sfs_sb s')}"
      using assms(4-6) file_okD(2) [OF ok] file_okD(3) [OF ok] by auto
  qed
  moreover have "sfi_indirect j = 0" if "?m l = sfi_indirect j" for l
    using that assms(6) file_okD(5) [OF ok, of l] file_okD(2) [OF ok, of l] by (cases "sfi_indirect j = 0") auto
  ultimately show ?thesis using assms(2,3) file_okD(4) [OF ok] unfolding file_ok_def by simp
qed

section \<open>\<open>sfs_bmap\<close>\<close>

text \<open>
  The outcome of allocating block \<open>k\<close> of the file with inode \<open>i\<close> in state \<open>s\<close>: the disk is full and the map
  is unchanged, or the map has the new block \<open>b\<close> at \<open>k\<close>.
\<close>

definition grown :: "nat \<Rightarrow> sfs_vnode \<Rightarrow> nat \<Rightarrow> sfs_fs \<Rightarrow> errno \<Rightarrow> nat \<Rightarrow> sfs_fs \<Rightarrow> bool" where
  "grown p x k s r b s' \<longleftrightarrow>
     vol_ok s' \<and> sfs_sb s' = sfs_sb s \<and> biglock_depth s' = biglock_depth s \<and> used s \<subseteq> used s' \<and>
     (\<exists>dirty ds ind. let x' = x\<lparr>sv_i := (sv_i x)\<lparr>sfi_direct := ds, sfi_indirect := ind\<rparr>, sv_dirty := dirty\<rparr> in
        svs s' = (svs s)(p \<mapsto> x') \<and> file_ok s' (sv_i x') \<and>
        (r = ENOSPC \<and> used s' = {..<nbits (sfs_freemap s')} \<and> fmap (sfs_disk s') (sv_i x') = fmap (sfs_disk s) (sv_i x) \<or>
         r = 0 \<and> b \<notin> used s \<and> b \<in> used s' \<and> sfs_disk s' b = replicate 512 0 \<and>
           fmap (sfs_disk s') (sv_i x') = (fmap (sfs_disk s) (sv_i x))(k := b))) \<and>
     (\<forall>c\<in>used s. c \<noteq> sfi_indirect (sv_i x) \<longrightarrow> sfs_disk s' c = sfs_disk s c)"

lemma svs_upd_inode [simp]:
  "svs (upd_inode p f s) = (svs s)(p := map_option (\<lambda>x. x\<lparr>sv_i := f (sv_i x), sv_dirty := True\<rparr>) (svs s p))"
  "sfs_disk (upd_inode p f s) = sfs_disk s" "sfs_freemap (upd_inode p f s) = sfs_freemap s"
  "sfs_sb (upd_inode p f s) = sfs_sb s" "biglock_depth (upd_inode p f s) = biglock_depth s"
  by (simp_all add: upd_inode_def upd_sv_def)

lemma grown_full:
  assumes "vol_ok s" "svs s p = Some x" "file_ok s (sv_i x)" "used s = {..<nbits (sfs_freemap s)}"
  shows "grown p x k s ENOSPC 0 s"
proof -
  have "x\<lparr>sv_i := (sv_i x)\<lparr>sfi_direct := sfi_direct (sv_i x), sfi_indirect := sfi_indirect (sv_i x)\<rparr>, sv_dirty := sv_dirty x\<rparr> = x" by simp
  with assms show ?thesis unfolding grown_def Let_def
    by (intro conjI exI [of _ "sv_dirty x"] exI [of _ "sfi_direct (sv_i x)"] exI [of _ "sfi_indirect (sv_i x)"]) (simp_all add: fun_upd_idem)
qed

lemma bmap_indirect_new:
  assumes ok: "vol_ok s" "svs s p = Some x" "file_ok s (sv_i x)" and k: "15 \<le> k" "k < 143"
    and id: "sfi_indirect (sv_i x) = idb" "idb \<noteq> 0" and hole: "fmap (sfs_disk s) (sv_i x) k = 0"
  shows "\<exists>r b s'. bmap_indirect idb (k - 15) True (words_of (sfs_disk s idb)) s = Some (r, b, s') \<and> grown p x k s r b s'"
proof -
  let ?i = "sv_i x" and ?ws = "words_of (sfs_disk s idb)"
  have ws: "?ws = idwords (sfs_disk s) ?i" using id by (simp add: idwords_def)
  have z: "?ws ! (k - 15) = 0" using hole k ws by (simp add: fmap_def)
  have idu: "idb \<in> used s" "idb < sb_nblocks (sfs_sb s)" using file_okD(3) [OF ok(3)] id by auto
  have xeq: "x = x\<lparr>sv_i := ?i\<lparr>sfi_direct := sfi_direct ?i, sfi_indirect := sfi_indirect ?i\<rparr>, sv_dirty := sv_dirty x\<rparr>" by simp
  from ok(1) show ?thesis
  proof (cases rule: sfs_balloc_cases)
    case full
    have "bmap_indirect idb (k - 15) True ?ws s = Some (ENOSPC, 0, s)" using full z by (simp add: bmap_indirect_def)
    then show ?thesis using grown_full [OF ok(1-3) full(2)] by blast
  next
    case (got b bm)
    let ?s1 = "s\<lparr>sfs_freemap := bm, sfs_freemapdirty := True, sfs_disk := (sfs_disk s)(b := replicate 512 0)\<rparr>"
    let ?d = "((sfs_disk s)(b := replicate 512 0))(idb := bytes_of (?ws[k - 15 := b]))"
    let ?s2 = "?s1\<lparr>sfs_disk := ?d\<rparr>"
    have ne: "b \<noteq> idb" using got(2) idu by auto
    have len: "length ?ws = 128" using length_idwords [OF ok(1), of ?i] ws by simp
    have b32: "b < 2 ^ 32" using got(4) ok(1) by (auto simp: vol_ok_def)
    have wr: "words_of (bytes_of (?ws[k - 15 := b])) = ?ws[k - 15 := b]"
      by (rule words_of_bytes_of) (use b32 words_of_bound [of _ "sfs_disk s idb"] set_update_subset_insert [of ?ws "k - 15" b] in fastforce)
    have w: "sfs_writeblock idb (bytes_of (?ws[k - 15 := b])) ?s1 = Some (0, ?s2)"
      using sfs_writeblock_ok [OF got(6), of idb] idu by simp
    have v2: "vol_ok ?s2" using vol_ok_frame(1) [OF got(6), of "bytes_of (?ws[k - 15 := b])" idb] len by simp
    have fm: "fmap ?d ?i = (fmap (sfs_disk s) ?i)(k := b)"
      by (rule fmap_indirect) (use id ws len k wr in \<open>auto simp: idwords_def\<close>)
    have f2: "file_ok ?s2 ?i"
      by (rule file_ok_add [OF ok(3), where k = k and b = b]) (use file_okD(1) [OF ok(3)] fm got id ne in auto)
    have "bmap_result b ?s2 = Some (0, b, ?s2)" by (rule bmap_result_ok [OF v2]) (use got in auto)
    then have "bmap_indirect idb (k - 15) True ?ws s = Some (0, b, ?s2)"
      using z got(1) w by (simp add: bmap_indirect_def)
    moreover have "grown p x k s 0 b ?s2"
      unfolding grown_def Let_def using v2 f2 fm got id ne ok(2) xeq
      by (intro conjI exI [of _ "sv_dirty x"] exI [of _ "sfi_direct ?i"] exI [of _ "sfi_indirect ?i"]) (auto simp: fun_upd_idem)
    ultimately show ?thesis by blast
  qed
qed

lemma bmap_direct_new:
  assumes ok: "vol_ok s" "svs s p = Some x" "file_ok s (sv_i x)" and k: "k < 15" and hole: "fmap (sfs_disk s) (sv_i x) k = 0"
  shows "\<exists>r b s'. sfs_bmap p k True s = Some (r, b, s') \<and> grown p x k s r b s'"
proof -
  let ?i = "sv_i x"
  have z: "sfi_direct ?i ! k = 0" "biglock_depth s > 0" using hole k ok(1) by (simp_all add: fmap_def vol_ok_def)
  from ok(1) show ?thesis
  proof (cases rule: sfs_balloc_cases)
    case full
    have "sfs_bmap p k True s = Some (ENOSPC, 0, s)" using full z k ok(2) by (simp add: sfs_bmap_def)
    then show ?thesis using grown_full [OF ok(1-3) full(2)] by blast
  next
    case (got b bm)
    let ?s1 = "s\<lparr>sfs_freemap := bm, sfs_freemapdirty := True, sfs_disk := (sfs_disk s)(b := replicate 512 0)\<rparr>"
    let ?j = "?i\<lparr>sfi_direct := (sfi_direct ?i)[k := b]\<rparr>"
    let ?s2 = "upd_inode p (\<lambda>i. i\<lparr>sfi_direct := (sfi_direct i)[k := b]\<rparr>) ?s1"
    have v2: "vol_ok ?s2" using got(6) by (simp add: vol_ok_frame(2))
    have ne: "sfi_indirect ?i \<noteq> b" using file_okD(3) [OF ok(3)] got(2,3) by auto
    have idw: "idwords ((sfs_disk s)(b := replicate 512 0)) ?i = idwords (sfs_disk s) ?i" using ne by (simp add: idwords_def)
    have "fmap (sfs_disk ?s2) ?j = (fmap ((sfs_disk s)(b := replicate 512 0)) ?i)(k := b)"
      using fmap_direct [OF file_okD(1) [OF ok(3)] k] by simp
    also have "fmap ((sfs_disk s)(b := replicate 512 0)) ?i = fmap (sfs_disk s) ?i" by (rule fmap_cong) (simp_all add: idw)
    finally have fm: "fmap (sfs_disk ?s2) ?j = (fmap (sfs_disk s) ?i)(k := b)" .
    have f2: "file_ok ?s2 ?j"
      by (rule file_ok_add [OF ok(3), where k = k and b = b]) (use file_okD(1) [OF ok(3)] fm got ne in auto)
    have "bmap_result b ?s2 = Some (0, b, ?s2)" by (rule bmap_result_ok [OF v2]) (use got in auto)
    then have "sfs_bmap p k True s = Some (0, b, ?s2)" using z got(1) k ok(2) by (simp add: sfs_bmap_def)
    moreover have "grown p x k s 0 b ?s2"
      unfolding grown_def Let_def using v2 f2 fm got ok(2)
      by (intro conjI exI [of _ True] exI [of _ "(sfi_direct ?i)[k := b]"] exI [of _ "sfi_indirect ?i"]) auto
    ultimately show ?thesis by blast
  qed
qed

lemma bmap_fresh_indirect:
  assumes ok: "vol_ok s" "svs s p = Some x" "file_ok s (sv_i x)" and k: "15 \<le> k" "k < 143" and no: "sfi_indirect (sv_i x) = 0"
  shows "\<exists>r b s'. sfs_bmap p k True s = Some (r, b, s') \<and> grown p x k s r b s'"
proof -
  let ?i = "sv_i x"
  have z: "biglock_depth s > 0" "(k - 15) div 128 = 0" "(k - 15) mod 128 = k - 15" "\<not> k < 15" using ok(1) k by (simp_all add: vol_ok_def)
  from ok(1) show ?thesis
  proof (cases rule: sfs_balloc_cases)
    case full
    have "sfs_bmap p k True s = Some (ENOSPC, 0, s)" using full z ok(2) no by (simp add: sfs_bmap_def Let_def)
    then show ?thesis using grown_full [OF ok(1-3) full(2)] by blast
  next
    case (got a bm)
    let ?s1 = "s\<lparr>sfs_freemap := bm, sfs_freemapdirty := True, sfs_disk := (sfs_disk s)(a := replicate 512 0)\<rparr>"
    let ?j = "?i\<lparr>sfi_indirect := a\<rparr>"
    let ?y = "x\<lparr>sv_i := ?j, sv_dirty := True\<rparr>"
    let ?s2 = "upd_inode p (\<lambda>i. i\<lparr>sfi_indirect := a\<rparr>) ?s1"
    have v2: "vol_ok ?s2" and y: "svs ?s2 p = Some ?y" using got(6) ok(2) by (simp_all add: vol_ok_frame(2))
    have zw: "words_of (replicate 512 0) = replicate 128 0" using words_of_zeros [of 128] by simp
    have fm: "fmap (sfs_disk ?s2) ?j = fmap (sfs_disk s) ?i"
      by (rule fmap_cong) (use no got(3) zw in \<open>simp_all add: idwords_def\<close>)
    have f2: "file_ok ?s2 (sv_i ?y)"
      by (rule file_ok_same_map [OF ok(3)]) (use file_okD(1) [OF ok(3)] fm got in auto)
    have hole: "fmap (sfs_disk ?s2) (sv_i ?y) k = 0" using fm no k by (simp add: fmap_def idwords_def)
    have "\<exists>r b s'. bmap_indirect a (k - 15) True (words_of (sfs_disk ?s2 a)) ?s2 = Some (r, b, s') \<and> grown p ?y k ?s2 r b s'"
      by (rule bmap_indirect_new [OF v2 y f2 k _ got(3) hole]) simp
    then obtain r b s' where r: "bmap_indirect a (k - 15) True (replicate 128 0) ?s2 = Some (r, b, s')" "grown p ?y k ?s2 r b s'"
      using zw by auto
    have "sfs_bmap p k True s = Some (r, b, s')"
      using r(1) z ok(2) no got(1) by (simp add: sfs_bmap_def Let_def)
    moreover have "grown p x k s r b s'"
    proof -
      from r(2) obtain dirty ds ind where g: "svs s' = (svs ?s2)(p \<mapsto> ?y\<lparr>sv_i := ?j\<lparr>sfi_direct := ds, sfi_indirect := ind\<rparr>, sv_dirty := dirty\<rparr>)"
        "file_ok s' (?j\<lparr>sfi_direct := ds, sfi_indirect := ind\<rparr>)"
        "r = ENOSPC \<and> used s' = {..<nbits (sfs_freemap s')} \<and> fmap (sfs_disk s') (?j\<lparr>sfi_direct := ds, sfi_indirect := ind\<rparr>) = fmap (sfs_disk ?s2) ?j \<or>
         r = 0 \<and> b \<notin> used ?s2 \<and> b \<in> used s' \<and> sfs_disk s' b = replicate 512 0 \<and>
           fmap (sfs_disk s') (?j\<lparr>sfi_direct := ds, sfi_indirect := ind\<rparr>) = (fmap (sfs_disk ?s2) ?j)(k := b)"
        by (auto simp: grown_def Let_def)
      have u: "used s \<subseteq> used s'" "b \<notin> used ?s2 \<longrightarrow> b \<notin> used s" "a \<notin> used s" using r(2) got by (auto simp: grown_def)
      have "\<forall>c\<in>used s. sfs_disk s' c = sfs_disk s c" using r(2) got u(3) by (auto simp: grown_def)
      then show ?thesis
        unfolding grown_def Let_def using r(2) g fm u
        by (intro conjI exI [of _ dirty] exI [of _ ds] exI [of _ ind]) (auto simp: grown_def)
    qed
    ultimately show ?thesis by blast
  qed
qed

lemma bmap_old:
  assumes ok: "vol_ok s" "svs s p = Some x" "file_ok s (sv_i x)" and "k < 143" "fmap (sfs_disk s) (sv_i x) k \<noteq> 0 \<or> \<not> doalloc"
  shows "sfs_bmap p k doalloc s = Some (0, fmap (sfs_disk s) (sv_i x) k, s)"
proof -
  let ?b = "fmap (sfs_disk s) (sv_i x) k" and ?id = "sfi_indirect (sv_i x)"
  have z: "biglock_depth s > 0" using ok(1) by (simp add: vol_ok_def)
  have res: "bmap_result ?b s = Some (0, ?b, s)"
    using bmap_result_ok [OF ok(1), of ?b] file_okD(2) [OF ok(3), of k] by (cases "?b = 0") auto
  show ?thesis
  proof (cases "k < 15")
    case True
    then show ?thesis using z ok(2) assms(5) res by (auto simp: sfs_bmap_def fmap_def)
  next
    case False
    then have m: "(k - 15) div 128 = 0" "(k - 15) mod 128 = k - 15" using assms(4) by simp_all
    show ?thesis
    proof (cases "?id = 0")
      case True
      then have "?b = 0" using False assms(4) by (simp add: fmap_def idwords_def)
      then show ?thesis using z ok(2) assms(5) m False True by (simp add: sfs_bmap_def)
    next
      case idn: False
      then have "sfs_readblock ?id s = Some (0, sfs_disk s ?id, s)"
        using sfs_readblock_ok [OF ok(1)] file_okD(3) [OF ok(3)] by simp
      moreover have "?b = words_of (sfs_disk s ?id) ! (k - 15)" using False assms(4) idn by (simp add: fmap_def idwords_def)
      ultimately show ?thesis using z ok(2) assms(5) m False idn res by (auto simp: sfs_bmap_def bmap_indirect_def Let_def)
    qed
  qed
qed

lemma bmap_new:
  assumes ok: "vol_ok s" "svs s p = Some x" "file_ok s (sv_i x)" and k: "k < 143" and hole: "fmap (sfs_disk s) (sv_i x) k = 0"
  shows "\<exists>r b s'. sfs_bmap p k True s = Some (r, b, s') \<and> grown p x k s r b s'"
proof (cases "k < 15")
  case True
  then show ?thesis using bmap_direct_new [OF ok True hole] by simp
next
  case False
  let ?id = "sfi_indirect (sv_i x)"
  have k': "15 \<le> k" using False by simp
  show ?thesis
  proof (cases "?id = 0")
    case True
    then show ?thesis using bmap_fresh_indirect [OF ok k' k] by simp
  next
    case idn: False
    have m: "(k - 15) div 128 = 0" "(k - 15) mod 128 = k - 15" "biglock_depth s > 0" using k ok(1) by (simp_all add: vol_ok_def)
    have "sfs_readblock ?id s = Some (0, sfs_disk s ?id, s)"
      using sfs_readblock_ok [OF ok(1)] file_okD(3) [OF ok(3) idn] by simp
    then have "sfs_bmap p k True s = bmap_indirect ?id (k - 15) True (words_of (sfs_disk s ?id)) s"
      using m ok(2) False idn by (simp add: sfs_bmap_def Let_def)
    then show ?thesis using bmap_indirect_new [OF ok k' k refl idn hole] by simp
  qed
qed

text \<open>
  C11. The block map of a file (\<open>sfs_bmap\<close>), on a volume in order and a file whose blocks are allocated
  and distinct: the call returns; beyond block 142 the answer is \<open>EFBIG\<close>; a block that is mapped, or any
  block when nothing is to be allocated, is answered without a change (0 for a hole); and a hole is
  filled with a block that was free, is now marked and zeroed, and appears in the map at that position
  only, or the answer is \<open>ENOSPC\<close> with the map unchanged. The file stays in order, and no allocated block
  but the file's own indirect block changes on disk.
\<close>

theorem sfs_bmap_correct:
  assumes "vol_ok s" "svs s p = Some x" "file_ok s (sv_i x)"
  shows "\<exists>r b s'. sfs_bmap p k doalloc s = Some (r, b, s') \<and>
    (k \<ge> 143 \<longrightarrow> r = EFBIG \<and> s' = s) \<and>
    (k < 143 \<and> (fmap (sfs_disk s) (sv_i x) k \<noteq> 0 \<or> \<not> doalloc) \<longrightarrow> r = 0 \<and> b = fmap (sfs_disk s) (sv_i x) k \<and> s' = s) \<and>
    (k < 143 \<and> fmap (sfs_disk s) (sv_i x) k = 0 \<and> doalloc \<longrightarrow> grown p x k s r b s')"
proof (cases "k < 143")
  case False
  then have "(k - 15) div 128 \<ge> 1" by (simp add: div_greater_zero_iff Suc_le_eq)
  then show ?thesis using assms False by (simp add: sfs_bmap_def vol_ok_def)
next
  case True
  then show ?thesis
    using bmap_old [OF assms True, of doalloc] bmap_new [OF assms True]
    by (cases "fmap (sfs_disk s) (sv_i x) k = 0 \<and> doalloc") fastforce+
qed

section \<open>\<open>sfs_itrunc\<close>\<close>

text \<open>What the loop over the direct blocks does to the positions \<open>K\<close>, and when it can.\<close>

definition direct_cut :: "nat \<Rightarrow> nat \<Rightarrow> nat set \<Rightarrow> sfs_vnode \<Rightarrow> sfs_fs \<Rightarrow> sfs_fs \<Rightarrow> bool" where
  "direct_cut p bl K x s s' \<longleftrightarrow> vol_ok s' \<and> sfs_disk s' = sfs_disk s \<and> sfs_sb s' = sfs_sb s \<and> biglock_depth s' = biglock_depth s \<and>
     (\<exists>ds dirty. svs s' = (svs s)(p \<mapsto> x\<lparr>sv_i := (sv_i x)\<lparr>sfi_direct := ds\<rparr>, sv_dirty := dirty\<rparr>) \<and> length ds = 15 \<and>
       (\<forall>k<15. ds ! k = (if k \<in> K \<and> bl \<le> k then 0 else sfi_direct (sv_i x) ! k))) \<and>
     used s' = used s - {b. b \<noteq> 0 \<and> (\<exists>k\<in>K. bl \<le> k \<and> b = sfi_direct (sv_i x) ! k)}"

definition direct_ok :: "nat set \<Rightarrow> sfs_vnode \<Rightarrow> sfs_fs \<Rightarrow> bool" where
  "direct_ok K x s \<longleftrightarrow> length (sfi_direct (sv_i x)) = 15 \<and> K \<subseteq> {..<15} \<and>
     (\<forall>k\<in>K. sfi_direct (sv_i x) ! k \<noteq> 0 \<longrightarrow>
        sfi_direct (sv_i x) ! k \<in> used s \<and> sfi_direct (sv_i x) ! k < sb_nblocks (sfs_sb s)) \<and>
     (\<forall>k\<in>K. \<forall>l\<in>K. sfi_direct (sv_i x) ! k \<noteq> 0 \<and> sfi_direct (sv_i x) ! k = sfi_direct (sv_i x) ! l \<longrightarrow> k = l)"

lemma direct_cut_refl:
  assumes "vol_ok s" "svs s p = Some x" "length (sfi_direct (sv_i x)) = 15"
  shows "direct_cut p bl {} x s s"
proof -
  have "svs s = (svs s)(p \<mapsto> x\<lparr>sv_i := (sv_i x)\<lparr>sfi_direct := sfi_direct (sv_i x)\<rparr>, sv_dirty := sv_dirty x\<rparr>)"
    using assms by (simp add: fun_upd_idem)
  with assms show ?thesis unfolding direct_cut_def by fastforce
qed

lemma direct_cut_skip:
  assumes "direct_cut p bl K x s s'" "\<not> (bl \<le> i \<and> sfi_direct (sv_i x) ! i \<noteq> 0)"
  shows "direct_cut p bl (insert i K) x s s'"
proof -
  have "(k \<in> insert i K \<and> bl \<le> k \<longrightarrow> sfi_direct (sv_i x) ! k \<noteq> 0 \<longrightarrow> k \<in> K)" for k using assms(2) by auto
  then have "(if k \<in> insert i K \<and> bl \<le> k then 0 else sfi_direct (sv_i x) ! k) = (if k \<in> K \<and> bl \<le> k then 0 else sfi_direct (sv_i x) ! k)" for k
    by auto
  moreover have "{b. b \<noteq> 0 \<and> (\<exists>k\<in>insert i K. bl \<le> k \<and> b = sfi_direct (sv_i x) ! k)} = {b. b \<noteq> 0 \<and> (\<exists>k\<in>K. bl \<le> k \<and> b = sfi_direct (sv_i x) ! k)}"
    using assms(2) by auto
  ultimately show ?thesis using assms(1) unfolding direct_cut_def by simp
qed

lemma trunc_direct_ok:
  assumes "vol_ok s" "svs s p = Some x" "distinct is" "direct_ok (set is) x s"
  shows "\<exists>s'. trunc_direct p bl is s = Some s' \<and> direct_cut p bl (set is) x s s'"
  using assms
proof (induction "is" arbitrary: s x)
  case Nil
  then show ?case by (simp add: direct_cut_refl direct_ok_def)
next
  case (Cons i "is")
  let ?b = "sfi_direct (sv_i x) ! i"
  have i: "i < 15" "i \<notin> set is" "distinct is" "length (sfi_direct (sv_i x)) = 15" using Cons.prems by (auto simp: direct_ok_def)
  show ?case
  proof (cases "bl \<le> i \<and> ?b \<noteq> 0")
    case True
    then obtain bm where f: "sfs_bfree ?b s = Some (s\<lparr>sfs_freemap := bm, sfs_freemapdirty := True\<rparr>)" "bitmap_used bm = used s - {?b}"
      "vol_ok (s\<lparr>sfs_freemap := bm, sfs_freemapdirty := True\<rparr>)"
      using sfs_bfree_ok [OF Cons.prems(1), of ?b] Cons.prems(4) by (auto simp: direct_ok_def)
    let ?x = "x\<lparr>sv_i := (sv_i x)\<lparr>sfi_direct := (sfi_direct (sv_i x))[i := 0]\<rparr>, sv_dirty := True\<rparr>"
    let ?s = "upd_inode p (\<lambda>n. n\<lparr>sfi_direct := (sfi_direct n)[i := 0]\<rparr>) (s\<lparr>sfs_freemap := bm, sfs_freemapdirty := True\<rparr>)"
    have v: "vol_ok ?s" "svs ?s p = Some ?x" using f(3) Cons.prems(2) by (simp_all add: vol_ok_frame(2))
    have same: "sfi_direct (sv_i ?x) ! k = sfi_direct (sv_i x) ! k" if "k \<in> set is" for k
      using that i by (cases "k = i") simp_all
    have "sfi_direct (sv_i x) ! k \<noteq> ?b" if "k \<in> set is" for k
      using Cons.prems(4) True that i(2) unfolding direct_ok_def by (metis list.set_intros)
    then have "direct_ok (set is) ?x ?s"
      using Cons.prems(4) same f(2) by (auto simp: direct_ok_def)
    from Cons.IH [OF v i(3) this] obtain s' where r: "trunc_direct p bl is ?s = Some s'" "direct_cut p bl (set is) ?x ?s s'" by blast
    from r(2) obtain ds dirty where d: "svs s' = (svs s)(p \<mapsto> x\<lparr>sv_i := (sv_i x)\<lparr>sfi_direct := ds\<rparr>, sv_dirty := dirty\<rparr>)" "length ds = 15"
      "\<forall>k<15. ds ! k = (if k \<in> set is \<and> bl \<le> k then 0 else sfi_direct (sv_i ?x) ! k)"
      by (auto simp: direct_cut_def)
    have "ds ! k = (if k \<in> set (i # is) \<and> bl \<le> k then 0 else sfi_direct (sv_i x) ! k)" if "k < 15" for k
      using d(3) that True i by (cases "k = i") auto
    moreover have "used s' = used s - {b. b \<noteq> 0 \<and> (\<exists>k\<in>set (i # is). bl \<le> k \<and> b = sfi_direct (sv_i x) ! k)}"
      using r(2) f(2) True same by (auto simp: direct_cut_def)
    ultimately have "direct_cut p bl (set (i # is)) x s s'" using r(2) d(1,2) unfolding direct_cut_def by auto
    moreover have "trunc_direct p bl (i # is) s = Some s'" using r(1) True f(1) Cons.prems(2) by simp
    ultimately show ?thesis by blast
  next
    case False
    have "direct_ok (set is) x s" using Cons.prems(4) by (auto simp: direct_ok_def)
    from Cons.IH [OF Cons.prems(1,2) i(3) this] obtain s' where "trunc_direct p bl is s = Some s'" "direct_cut p bl (set is) x s s'" by blast
    then show ?thesis using False Cons.prems(2) direct_cut_skip [of p bl "set is" x s s' i] by auto
  qed
qed

text \<open>The same for the loop over the indirect block.\<close>

definition id_cut :: "nat \<Rightarrow> nat set \<Rightarrow> nat list \<Rightarrow> sfs_fs \<Rightarrow> nat list \<Rightarrow> sfs_fs \<Rightarrow> bool" where
  "id_cut bl J ws s ws' s' \<longleftrightarrow> vol_ok s' \<and> sfs_disk s' = sfs_disk s \<and> sfs_sb s' = sfs_sb s \<and> biglock_depth s' = biglock_depth s \<and>
     svs s' = svs s \<and> length ws' = 128 \<and> (\<forall>j<128. ws' ! j = (if j \<in> J \<and> bl < 15 + j then 0 else ws ! j)) \<and>
     used s' = used s - {b. b \<noteq> 0 \<and> (\<exists>j\<in>J. bl < 15 + j \<and> b = ws ! j)}"

definition id_ok :: "nat set \<Rightarrow> nat list \<Rightarrow> sfs_fs \<Rightarrow> bool" where
  "id_ok J ws s \<longleftrightarrow> length ws = 128 \<and> J \<subseteq> {..<128} \<and>
     (\<forall>j\<in>J. ws ! j \<noteq> 0 \<longrightarrow> ws ! j \<in> used s \<and> ws ! j < sb_nblocks (sfs_sb s)) \<and>
     (\<forall>j\<in>J. \<forall>l\<in>J. ws ! j \<noteq> 0 \<and> ws ! j = ws ! l \<longrightarrow> j = l)"

lemma id_cut_skip:
  assumes "id_cut bl J ws s ws' s'" "\<not> (bl < 15 + i \<and> ws ! i \<noteq> 0)"
  shows "id_cut bl (insert i J) ws s ws' s'"
proof -
  have "(if j \<in> insert i J \<and> bl < 15 + j then 0 else ws ! j) = (if j \<in> J \<and> bl < 15 + j then 0 else ws ! j)" for j
    using assms(2) by auto
  moreover have "{b. b \<noteq> 0 \<and> (\<exists>j\<in>insert i J. bl < 15 + j \<and> b = ws ! j)} = {b. b \<noteq> 0 \<and> (\<exists>j\<in>J. bl < 15 + j \<and> b = ws ! j)}"
    using assms(2) by auto
  ultimately show ?thesis using assms(1) unfolding id_cut_def by simp
qed

lemma trunc_indirect_ok:
  assumes "vol_ok s" "distinct js" "id_ok (set js) ws s"
  shows "\<exists>ws' s'. trunc_indirect bl js ws hz dirty s =
      Some (ws', hz \<or> (\<exists>j\<in>set js. ws' ! j \<noteq> 0), dirty \<or> (\<exists>j\<in>set js. bl < 15 + j \<and> ws ! j \<noteq> 0), s') \<and> id_cut bl (set js) ws s ws' s'"
  using assms
proof (induction js arbitrary: s ws hz dirty)
  case Nil
  then show ?case by (auto simp: id_cut_def id_ok_def)
next
  case (Cons i js)
  have i: "i < 128" "i \<notin> set js" "distinct js" "length ws = 128" using Cons.prems by (auto simp: id_ok_def)
  show ?case
  proof (cases "bl < 15 + i \<and> ws ! i \<noteq> 0")
    case True
    then obtain bm where f: "sfs_bfree (ws ! i) s = Some (s\<lparr>sfs_freemap := bm, sfs_freemapdirty := True\<rparr>)" "bitmap_used bm = used s - {ws ! i}"
      "vol_ok (s\<lparr>sfs_freemap := bm, sfs_freemapdirty := True\<rparr>)"
      using sfs_bfree_ok [OF Cons.prems(1), of "ws ! i"] Cons.prems(3) by (auto simp: id_ok_def)
    let ?s = "s\<lparr>sfs_freemap := bm, sfs_freemapdirty := True\<rparr>"
    have same: "ws[i := 0] ! j = ws ! j" if "j \<in> set js" for j using that i by (cases "j = i") simp_all
    have "ws ! j \<noteq> ws ! i" if "j \<in> set js" for j
      using Cons.prems(3) True that i(2) unfolding id_ok_def by (metis list.set_intros)
    then have "id_ok (set js) (ws[i := 0]) ?s" using Cons.prems(3) same f(2) by (auto simp: id_ok_def)
    from Cons.IH [OF f(3) i(3) this, of hz True] obtain ws' s' where
      r: "trunc_indirect bl js (ws[i := 0]) hz True ?s = Some (ws', hz \<or> (\<exists>j\<in>set js. ws' ! j \<noteq> 0), True, s')"
         "id_cut bl (set js) (ws[i := 0]) ?s ws' s'" by auto
    have wi: "ws' ! i = 0" using r(2) i by (simp add: id_cut_def)
    have "ws' ! j = (if j \<in> set (i # js) \<and> bl < 15 + j then 0 else ws ! j)" if "j < 128" for j
      using r(2) that True i wi by (cases "j = i") (auto simp: id_cut_def)
    moreover have "used s' = used s - {b. b \<noteq> 0 \<and> (\<exists>j\<in>set (i # js). bl < 15 + j \<and> b = ws ! j)}"
      using r(2) f(2) True same by (auto simp: id_cut_def)
    ultimately have "id_cut bl (set (i # js)) ws s ws' s'" using r(2) unfolding id_cut_def by auto
    moreover have "trunc_indirect bl (i # js) ws hz dirty s = Some (ws', hz \<or> (\<exists>j\<in>set (i # js). ws' ! j \<noteq> 0), True, s')"
      using r(1) True f(1) i wi by simp
    ultimately show ?thesis using True by auto
  next
    case False
    have "id_ok (set js) ws s" using Cons.prems(3) by (auto simp: id_ok_def)
    from Cons.IH [OF Cons.prems(1) i(3) this, of "hz \<or> ws ! i \<noteq> 0" dirty] obtain ws' s' where
      r: "trunc_indirect bl js ws (hz \<or> ws ! i \<noteq> 0) dirty s = Some (ws', (hz \<or> ws ! i \<noteq> 0) \<or> (\<exists>j\<in>set js. ws' ! j \<noteq> 0),
            dirty \<or> (\<exists>j\<in>set js. bl < 15 + j \<and> ws ! j \<noteq> 0), s')"
         "id_cut bl (set js) ws s ws' s'" by auto
    have "ws' ! i = ws ! i" using r(2) i by (auto simp: id_cut_def)
    moreover have "trunc_indirect bl (i # js) ws hz dirty s = trunc_indirect bl js ws (hz \<or> ws ! i \<noteq> 0) dirty s"
      using False by auto
    ultimately have "trunc_indirect bl (i # js) ws hz dirty s = Some (ws', hz \<or> (\<exists>j\<in>set (i # js). ws' ! j \<noteq> 0),
        dirty \<or> (\<exists>j\<in>set (i # js). bl < 15 + j \<and> ws ! j \<noteq> 0), s')" using r(1) False by auto
    moreover have "id_cut bl (set (i # js)) ws s ws' s'" using id_cut_skip [OF r(2) False] by simp
    ultimately show ?thesis by blast
  qed
qed

text \<open>The positions that truncation to \<open>bl\<close> blocks clears.\<close>

definition cut_at :: "nat \<Rightarrow> nat \<Rightarrow> bool" where
  "cut_at bl k \<longleftrightarrow> (if k < 15 then bl \<le> k else bl < 142 \<and> bl < k)"

definition file_cut :: "nat \<Rightarrow> sfs_fs \<Rightarrow> sfs_dinode \<Rightarrow> sfs_fs \<Rightarrow> sfs_dinode \<Rightarrow> bool" where
  "file_cut bl s i s' j \<longleftrightarrow> vol_ok s' \<and> sfs_sb s' = sfs_sb s \<and> length (sfi_direct j) = 15 \<and>
     (\<forall>k. fmap (sfs_disk s') j k = (if cut_at bl k then 0 else fmap (sfs_disk s) i k)) \<and>
     (sfi_indirect j = sfi_indirect i \<or> sfi_indirect j = 0) \<and>
     (sfi_indirect j = 0 \<or> 142 \<le> bl \<or> (\<exists>k\<ge>15. fmap (sfs_disk s') j k \<noteq> 0)) \<and>
     used s' = used s - {b. b \<noteq> 0 \<and> (\<exists>k. cut_at bl k \<and> b = fmap (sfs_disk s) i k)} -
       (if sfi_indirect j = 0 then {sfi_indirect i} - {0} else {}) \<and>
     (\<forall>c. c \<noteq> sfi_indirect i \<longrightarrow> sfs_disk s' c = sfs_disk s c)"

lemma file_cut_ok:
  assumes ok: "file_ok s i" and cut: "file_cut bl s i s' j"
  shows "file_ok s' j"
proof -
  let ?m = "fmap (sfs_disk s) i" and ?n = "fmap (sfs_disk s') j"
  have n: "?n k = (if cut_at bl k then 0 else ?m k)" for k using cut by (simp add: file_cut_def)
  have u: "used s' = used s - {b. b \<noteq> 0 \<and> (\<exists>k. cut_at bl k \<and> b = ?m k)} - (if sfi_indirect j = 0 then {sfi_indirect i} - {0} else {})"
    and j: "sfi_indirect j = sfi_indirect i \<or> sfi_indirect j = 0" "sfs_sb s' = sfs_sb s" "length (sfi_direct j) = 15"
    using cut by (simp_all add: file_cut_def)
  have kept: "?n k \<in> used s' \<and> ?n k < sb_nblocks (sfs_sb s')" if "?n k \<noteq> 0" for k
  proof -
    have k: "\<not> cut_at bl k" "?n k = ?m k" "?m k \<noteq> 0" using that n by (auto split: if_splits)
    then have "?m k \<noteq> ?m l" if "cut_at bl l" for l using file_okD(4) [OF ok, of k l] that by auto
    moreover have "?m k \<noteq> sfi_indirect i" using file_okD(5) [OF ok, of k] k(3) by auto
    ultimately show ?thesis using file_okD(2) [OF ok k(3)] k j(2) u by auto
  qed
  have ind: "sfi_indirect j \<in> used s' \<and> sfi_indirect j < sb_nblocks (sfs_sb s')" if "sfi_indirect j \<noteq> 0"
  proof -
    have eq: "sfi_indirect j = sfi_indirect i" using j(1) that by simp
    then have "sfi_indirect i \<noteq> ?m l" for l using file_okD(5) [OF ok, of l] that by auto
    then show ?thesis using file_okD(3) [OF ok] eq that j(2) u by auto
  qed
  have "fblocks (sfs_disk s') j \<subseteq> used s' \<inter> {..<sb_nblocks (sfs_sb s')}"
  proof
    fix c assume "c \<in> fblocks (sfs_disk s') j"
    then have "c \<noteq> 0" "c = sfi_indirect j \<or> (\<exists>k. c = ?n k)" by (auto simp: fblocks_def)
    then show "c \<in> used s' \<inter> {..<sb_nblocks (sfs_sb s')}" using kept ind by auto
  qed
  moreover have "k = l" if "?n k = ?n l" "?n k \<noteq> 0" for k l
    using that n [of k] n [of l] file_okD(4) [OF ok, of k l] by (auto split: if_splits)
  moreover have "sfi_indirect j = 0" if "?n k = sfi_indirect j" for k
    using that n [of k] file_okD(5) [OF ok, of k] j(1) by (auto split: if_splits)
  ultimately show ?thesis using j(3) unfolding file_ok_def by blast
qed

lemma file_ok_direct:
  assumes "file_ok s (sv_i x)"
  shows "direct_ok {..<15} x s"
proof -
  have e: "sfi_direct (sv_i x) ! k = fmap (sfs_disk s) (sv_i x) k" if "k < 15" for k using that by (simp add: fmap_def)
  show ?thesis
    unfolding direct_ok_def
  proof (intro conjI ballI impI)
    fix k assume "k \<in> {..<15::nat}" "sfi_direct (sv_i x) ! k \<noteq> 0"
    then show "sfi_direct (sv_i x) ! k \<in> used s" "sfi_direct (sv_i x) ! k < sb_nblocks (sfs_sb s)"
      using file_okD(2) [OF assms, of k] e [of k] by auto
  next
    fix k l assume "k \<in> {..<15::nat}" "l \<in> {..<15::nat}" "sfi_direct (sv_i x) ! k \<noteq> 0 \<and> sfi_direct (sv_i x) ! k = sfi_direct (sv_i x) ! l"
    then show "k = l" using file_okD(4) [OF assms, of k l] e [of k] e [of l] by auto
  qed (use file_okD(1) [OF assms] in auto)
qed

text \<open>After the direct blocks: the indirect words are those of the file, and none of them has been freed.\<close>

lemma direct_cut_id_ok:
  assumes ok: "vol_ok s" "file_ok s (sv_i x)" and cut: "direct_cut p bl {..<15} x s s1" and id: "sfi_indirect (sv_i x) \<noteq> 0"
  shows "id_ok {..<128} (words_of (sfs_disk s (sfi_indirect (sv_i x)))) s1"
    and "sfi_indirect (sv_i x) \<in> used s1"
proof -
  let ?i = "sv_i x" let ?m = "fmap (sfs_disk s) ?i" and ?ws = "words_of (sfs_disk s (sfi_indirect ?i))"
  have w: "?ws ! j = ?m (15 + j)" if "j < 128" for j using that id by (simp add: fmap_def idwords_def)
  have d: "sfi_direct ?i ! k = ?m k" if "k < 15" for k using that by (simp add: fmap_def)
  have u: "used s1 = used s - {b. b \<noteq> 0 \<and> (\<exists>k\<in>{..<15}. bl \<le> k \<and> b = sfi_direct ?i ! k)}" and sb: "sfs_sb s1 = sfs_sb s"
    using cut by (simp_all add: direct_cut_def)
  have "?ws ! j \<in> used s1 \<and> ?ws ! j < sb_nblocks (sfs_sb s1)" if j: "j < 128" "?ws ! j \<noteq> 0" for j
  proof -
    have nz: "?m (15 + j) \<noteq> 0" using j w by simp
    have "?m (15 + j) \<noteq> sfi_direct ?i ! k" if "k < 15" for k
      using file_okD(4) [OF ok(2), of "15 + j" k] nz d [OF that] that by auto
    then show ?thesis using file_okD(2) [OF ok(2) nz] w [OF j(1)] u sb by auto
  qed
  moreover have "j = l" if "j < 128" "l < 128" "?ws ! j \<noteq> 0" "?ws ! j = ?ws ! l" for j l
    using file_okD(4) [OF ok(2), of "15 + j" "15 + l"] that w by simp
  moreover have "length ?ws = 128" using length_idwords [OF ok(1), of ?i] id by (simp add: idwords_def)
  ultimately show "id_ok {..<128} ?ws s1" unfolding id_ok_def by blast
  have "sfi_indirect ?i \<noteq> sfi_direct ?i ! k" if "k < 15" for k
    using file_okD(5) [OF ok(2), of k] id d [OF that] by auto
  then show "sfi_indirect ?i \<in> used s1" using file_okD(3) [OF ok(2) id] u by auto
qed

text \<open>The file between the two loops, and the map after the second one.\<close>

lemma fmap_cut:
  assumes "\<forall>k<15. sfi_direct j ! k = (if bl \<le> k then 0 else sfi_direct i ! k)"
    and "\<forall>l<128. idwords e j ! l = (if bl < 142 \<and> bl < 15 + l then 0 else idwords d i ! l)"
  shows "fmap e j k = (if cut_at bl k then 0 else fmap d i k)"
proof -
  have "idwords e j ! (k - 15) = (if bl < 142 \<and> bl < k then 0 else idwords d i ! (k - 15))" if "15 \<le> k" "k < 143"
    using assms(2) [rule_format, of "k - 15"] that by simp
  then show ?thesis using assms(1) by (simp add: fmap_def cut_at_def)
qed

lemma cut_blocks:
  "{b. b \<noteq> 0 \<and> (\<exists>k. cut_at bl k \<and> b = fmap d i k)} =
     {b. b \<noteq> 0 \<and> (\<exists>k\<in>{..<15}. bl \<le> k \<and> b = sfi_direct i ! k)} \<union>
     (if bl < 142 then {b. b \<noteq> 0 \<and> (\<exists>j\<in>{..<128}. bl < 15 + j \<and> b = idwords d i ! j)} else {})" (is "?l = ?r")
proof
  show "?l \<subseteq> ?r"
  proof
    fix b assume "b \<in> ?l"
    then obtain k where k: "b \<noteq> 0" "cut_at bl k" "b = fmap d i k" by auto
    show "b \<in> ?r"
    proof (cases "k < 15")
      case True
      with k show ?thesis by (auto simp: cut_at_def fmap_def)
    next
      case False
      with k have "k < 143" by (auto simp: fmap_def split: if_splits)
      with k False have "b = idwords d i ! (k - 15)" "k - 15 < 128" "bl < 15 + (k - 15)" "bl < 142" by (auto simp: cut_at_def fmap_def)
      with k(1) show ?thesis by auto
    qed
  qed
  show "?r \<subseteq> ?l"
  proof
    fix b assume "b \<in> ?r"
    then consider k where "b \<noteq> 0" "k < 15" "bl \<le> k" "b = sfi_direct i ! k"
      | j where "b \<noteq> 0" "bl < 142" "j < 128" "bl < 15 + j" "b = idwords d i ! j" by (auto split: if_splits)
    then show "b \<in> ?l"
    proof cases
      case 1
      then have "cut_at bl k" "b = fmap d i k" by (simp_all add: cut_at_def fmap_def)
      with 1 show ?thesis by auto
    next
      case 2
      then have "cut_at bl (15 + j)" "b = fmap d i (15 + j)" by (simp_all add: cut_at_def fmap_def)
      with 2 show ?thesis by auto
    qed
  qed
qed

text \<open>What \<open>itrunc_indirect\<close> has done when it comes to the indirect block itself.\<close>

lemma itrunc_indirect_read:
  assumes ok: "vol_ok s" "file_ok s (sv_i x)" and cut: "direct_cut p bl {..<15} x s s1"
    and id: "sfi_indirect (sv_i x) = idb" "idb \<noteq> 0" "bl < 142"
  obtains ws' hz dy s2 where "itrunc_indirect p bl s1 =
        (if \<not> hz then do { s \<leftarrow> sfs_bfree idb s2; Some (0, upd_inode p (\<lambda>n. n\<lparr>sfi_indirect := 0\<rparr>) s) }
         else if dy then sfs_writeblock idb (bytes_of ws') s2 else Some (0, s2))"
    "hz \<longleftrightarrow> (\<exists>j<128. ws' ! j \<noteq> 0)" "dy \<longleftrightarrow> (\<exists>j<128. bl < 15 + j \<and> words_of (sfs_disk s idb) ! j \<noteq> 0)"
    "vol_ok s2" "sfs_disk s2 = sfs_disk s" "sfs_sb s2 = sfs_sb s" "biglock_depth s2 = biglock_depth s" "svs s2 = svs s1"
    "length ws' = 128" "\<forall>j<128. ws' ! j = (if bl < 15 + j then 0 else words_of (sfs_disk s idb) ! j)"
    "used s2 = used s - {b. b \<noteq> 0 \<and> (\<exists>k. cut_at bl k \<and> b = fmap (sfs_disk s) (sv_i x) k)}" "idb \<in> used s2"
proof -
  let ?i = "sv_i x" let ?ws = "words_of (sfs_disk s idb)"
  have s1: "vol_ok s1" "sfs_disk s1 = sfs_disk s" "sfs_sb s1 = sfs_sb s" "biglock_depth s1 = biglock_depth s"
      "used s1 = used s - {b. b \<noteq> 0 \<and> (\<exists>k\<in>{..<15}. bl \<le> k \<and> b = sfi_direct ?i ! k)}"
      "map_option (\<lambda>y. sfi_indirect (sv_i y)) (svs s1 p) = Some idb"
    using cut id(1) by (auto simp: direct_cut_def)
  have rd: "sfs_readblock idb s1 = Some (0, sfs_disk s idb, s1)"
    using sfs_readblock_ok [OF s1(1)] file_okD(3) [OF ok(2)] id s1(2,3) by auto
  obtain ws' s2 where t: "trunc_indirect bl [0..<128] ?ws False False s1 = Some (ws', \<exists>j\<in>{..<128}. ws' ! j \<noteq> 0,
        \<exists>j\<in>{..<128}. bl < 15 + j \<and> ?ws ! j \<noteq> 0, s2)" "id_cut bl {..<128} ?ws s1 ws' s2"
    using trunc_indirect_ok [OF s1(1) distinct_upt, of 0 128 ?ws bl False False] direct_cut_id_ok(1) [OF ok cut] id
    by (auto simp: atLeast0LessThan simp del: upt_rec_numeral)
  define hz dy where "hz = (\<exists>j\<in>{..<128}. ws' ! j \<noteq> 0)" and "dy = (\<exists>j\<in>{..<128}. bl < 15 + j \<and> ?ws ! j \<noteq> 0)"
  have run: "trunc_indirect bl [0..<128] ?ws False False s1 = Some (ws', hz, dy, s2)" using t(1) by (simp only: hz_def dy_def)
  have c: "vol_ok s2" "sfs_disk s2 = sfs_disk s" "sfs_sb s2 = sfs_sb s" "biglock_depth s2 = biglock_depth s" "svs s2 = svs s1"
    "length ws' = 128" "\<forall>j<128. ws' ! j = (if bl < 15 + j then 0 else ?ws ! j)"
    "used s2 = used s1 - {b. b \<noteq> 0 \<and> (\<exists>j\<in>{..<128}. bl < 15 + j \<and> b = ?ws ! j)}"
    using t(2) s1 by (simp_all add: id_cut_def)
  have "idb \<noteq> ?ws ! j" if "j < 128" for j
    using file_okD(5) [OF ok(2), of "15 + j"] id that by (auto simp: fmap_def idwords_def)
  then have idu: "idb \<in> used s2" using direct_cut_id_ok(2) [OF ok cut] id c(8) by auto
  have us2: "used s2 = used s - {b. b \<noteq> 0 \<and> (\<exists>k. cut_at bl k \<and> b = fmap (sfs_disk s) ?i k)}"
    unfolding cut_blocks using c(8) s1(5) id by (auto simp: idwords_def)
  show thesis
    by (rule that [of hz s2 dy ws', OF _ _ _ c(1-7) us2 idu])
      (use id s1(6) rd run in \<open>auto simp: itrunc_indirect_def Let_def hz_def dy_def simp del: upt_rec_numeral\<close>)
qed

lemma itrunc_indirect_ok:
  assumes ok: "vol_ok s" "svs s p = Some x" "file_ok s (sv_i x)" and cut: "direct_cut p bl {..<15} x s s1"
  shows "\<exists>s2 ds ind dirty. itrunc_indirect p bl s1 = Some (0, s2) \<and> biglock_depth s2 = biglock_depth s \<and>
    svs s2 = (svs s)(p \<mapsto> x\<lparr>sv_i := (sv_i x)\<lparr>sfi_direct := ds, sfi_indirect := ind\<rparr>, sv_dirty := dirty\<rparr>) \<and>
    file_cut bl s (sv_i x) s2 ((sv_i x)\<lparr>sfi_direct := ds, sfi_indirect := ind\<rparr>)"
proof -
  let ?i = "sv_i x" let ?id = "sfi_indirect ?i" let ?ws = "words_of (sfs_disk s ?id)"
  from cut obtain ds dirty where d: "svs s1 = (svs s)(p \<mapsto> x\<lparr>sv_i := ?i\<lparr>sfi_direct := ds\<rparr>, sv_dirty := dirty\<rparr>)" "length ds = 15"
    "\<forall>k<15. ds ! k = (if bl \<le> k then 0 else sfi_direct ?i ! k)"
    and s1: "vol_ok s1" "sfs_disk s1 = sfs_disk s" "sfs_sb s1 = sfs_sb s" "biglock_depth s1 = biglock_depth s"
      "used s1 = used s - {b. b \<noteq> 0 \<and> (\<exists>k\<in>{..<15}. bl \<le> k \<and> b = sfi_direct ?i ! k)}"
    by (auto simp: direct_cut_def)
  show ?thesis
  proof (cases "bl < 142 \<and> ?id \<noteq> 0")
    case False
    have idw: "\<forall>l<128. idwords (sfs_disk s1) (?i\<lparr>sfi_direct := ds\<rparr>) ! l = (if bl < 142 \<and> bl < 15 + l then 0 else idwords (sfs_disk s) ?i ! l)"
      using False by (auto simp: idwords_def s1(2))
    have fm: "fmap (sfs_disk s1) (?i\<lparr>sfi_direct := ds\<rparr>) k = (if cut_at bl k then 0 else fmap (sfs_disk s) ?i k)" for k
      by (rule fmap_cut [OF _ idw]) (use d(3) in simp)
    have "(if bl < 142 then {b. b \<noteq> 0 \<and> (\<exists>j\<in>{..<128}. bl < 15 + j \<and> b = idwords (sfs_disk s) ?i ! j)} else {}) = {}"
      using False by (auto simp: idwords_def)
    then have "file_cut bl s ?i s1 (?i\<lparr>sfi_direct := ds\<rparr>)"
      unfolding file_cut_def cut_blocks using s1 d(2) fm False by auto
    moreover have "itrunc_indirect p bl s1 = Some (0, s1)" using False d(1) by (auto simp: itrunc_indirect_def Let_def)
    ultimately show ?thesis using d(1) s1(4)
      by (intro exI [of _ s1] exI [of _ ds] exI [of _ ?id] exI [of _ dirty]) simp
  next
    case True
    then have id: "?id \<noteq> 0" "bl < 142" by auto
    obtain ws' hz dy s2 where run: "itrunc_indirect p bl s1 =
        (if \<not> hz then do { s \<leftarrow> sfs_bfree ?id s2; Some (0, upd_inode p (\<lambda>n. n\<lparr>sfi_indirect := 0\<rparr>) s) }
         else if dy then sfs_writeblock ?id (bytes_of ws') s2 else Some (0, s2))"
      and hz: "hz \<longleftrightarrow> (\<exists>j<128. ws' ! j \<noteq> 0)" and dy: "dy \<longleftrightarrow> (\<exists>j<128. bl < 15 + j \<and> ?ws ! j \<noteq> 0)"
      and c: "vol_ok s2" "sfs_disk s2 = sfs_disk s" "sfs_sb s2 = sfs_sb s" "biglock_depth s2 = biglock_depth s" "svs s2 = svs s1"
        "length ws' = 128" "\<forall>j<128. ws' ! j = (if bl < 15 + j then 0 else ?ws ! j)"
      and us2: "used s2 = used s - {b. b \<noteq> 0 \<and> (\<exists>k. cut_at bl k \<and> b = fmap (sfs_disk s) ?i k)}" and idu: "?id \<in> used s2"
      by (rule itrunc_indirect_read [OF ok(1,3) cut refl id]) (rule that, assumption+)
    have finish: "file_cut bl s ?i s3 (?i\<lparr>sfi_direct := ds, sfi_indirect := ind\<rparr>)"
      if "vol_ok s3" "sfs_sb s3 = sfs_sb s" "ind = ?id \<and> hz \<or> ind = 0" "used s3 = used s2 - (if ind = 0 then {?id} else {})"
        "\<forall>b. b \<noteq> ?id \<longrightarrow> sfs_disk s3 b = sfs_disk s b"
        "\<forall>j<128. idwords (sfs_disk s3) (?i\<lparr>sfi_direct := ds, sfi_indirect := ind\<rparr>) ! j = ws' ! j" for s3 ind
    proof -
      have "fmap (sfs_disk s3) (?i\<lparr>sfi_direct := ds, sfi_indirect := ind\<rparr>) k = (if cut_at bl k then 0 else fmap (sfs_disk s) ?i k)" for k
        by (rule fmap_cut) (use d(3) that(6) c(7) id in \<open>simp_all add: idwords_def\<close>)
      moreover have "ind = 0 \<or> (\<exists>k\<ge>15. fmap (sfs_disk s3) (?i\<lparr>sfi_direct := ds, sfi_indirect := ind\<rparr>) k \<noteq> 0)"
      proof (cases "ind = 0")
        case False
        with that(3) hz obtain j where "j < 128" "ws' ! j \<noteq> 0" by auto
        with that(6) have "fmap (sfs_disk s3) (?i\<lparr>sfi_direct := ds, sfi_indirect := ind\<rparr>) (15 + j) \<noteq> 0" by (simp add: fmap_def)
        then show ?thesis by (intro disjI2 exI [of _ "15 + j"]) simp
      qed simp
      ultimately show ?thesis using that(1-5) d(2) id us2 by (auto simp: file_cut_def)
    qed
    show ?thesis
    proof (cases hz)
      case False
      then have z: "\<forall>j<128. ws' ! j = 0" using hz by auto
      obtain bm where f: "sfs_bfree ?id s2 = Some (s2\<lparr>sfs_freemap := bm, sfs_freemapdirty := True\<rparr>)" "bitmap_used bm = used s2 - {?id}"
        "vol_ok (s2\<lparr>sfs_freemap := bm, sfs_freemapdirty := True\<rparr>)"
        using sfs_bfree_ok [OF c(1) idu] file_okD(3) [OF ok(3) id(1)] c(3) id(1) by auto
      let ?s3 = "upd_inode p (\<lambda>n. n\<lparr>sfi_indirect := 0\<rparr>) (s2\<lparr>sfs_freemap := bm, sfs_freemapdirty := True\<rparr>)"
      have "file_cut bl s ?i ?s3 (?i\<lparr>sfi_direct := ds, sfi_indirect := 0\<rparr>)"
        by (rule finish) (use f(2,3) c(2,3) z in \<open>simp_all add: vol_ok_frame(2) idwords_def\<close>)
      moreover have "itrunc_indirect p bl s1 = Some (0, ?s3)" using run False f(1) by simp
      ultimately show ?thesis using c(4,5) d(1)
        by (intro exI [of _ ?s3] exI [of _ ds] exI [of _ 0] exI [of _ True]) simp
    next
      case nz: True
      show ?thesis
      proof (cases dy)
        case True
        let ?s3 = "s2\<lparr>sfs_disk := (sfs_disk s2)(?id := bytes_of ws')\<rparr>"
        have "w < 2 ^ 32" if "w \<in> set ws'" for w
        proof -
          from that obtain j where "j < 128" "w = ws' ! j" using c(6) by (auto simp: in_set_conv_nth)
          moreover have "length ?ws = 128" using length_idwords [OF ok(1), of ?i] id by (simp add: idwords_def)
          ultimately show ?thesis using c(7) words_of_bound [of "?ws ! j" "sfs_disk s ?id"] by auto
        qed
        then have "words_of (bytes_of ws') = ws'" by (simp add: words_of_bytes_of)
        then have "file_cut bl s ?i ?s3 (?i\<lparr>sfi_direct := ds, sfi_indirect := ?id\<rparr>)"
          by (intro finish) (use c id nz vol_ok_frame(1) [OF c(1), of "bytes_of ws'" ?id] in \<open>auto simp: idwords_def\<close>)
        moreover have "itrunc_indirect p bl s1 = Some (0, ?s3)"
          using run nz True sfs_writeblock_ok [OF c(1)] file_okD(3) [OF ok(3) id(1)] c(3) by simp
        ultimately show ?thesis using c(4,5) d(1)
          by (intro exI [of _ ?s3] exI [of _ ds] exI [of _ ?id] exI [of _ dirty]) simp
      next
        case False
        then have same: "\<forall>j<128. ws' ! j = ?ws ! j" using c(7) dy by auto
        then have "file_cut bl s ?i s2 (?i\<lparr>sfi_direct := ds, sfi_indirect := ?id\<rparr>)"
          by (intro finish) (use c id nz in \<open>auto simp: idwords_def\<close>)
        moreover have "itrunc_indirect p bl s1 = Some (0, s2)" using run nz False by simp
        ultimately show ?thesis using c(4,5) d(1)
          by (intro exI [of _ s2] exI [of _ ds] exI [of _ ?id] exI [of _ dirty]) simp
      qed
    qed
  qed
qed

lemma file_ok_frame:
  "sfs_disk s' = sfs_disk s \<Longrightarrow> sfs_freemap s' = sfs_freemap s \<Longrightarrow> sfs_sb s' = sfs_sb s \<Longrightarrow> file_ok s' i = file_ok s i"
  "file_ok s (i\<lparr>sfi_size := n\<rparr>) = file_ok s i"
  by (simp_all add: file_ok_def fblocks_def fmap_def idwords_def)

lemma fmap_size: "fmap d (i\<lparr>sfi_size := n\<rparr>) = fmap d i"
  by (simp add: fmap_def idwords_def fun_eq_iff)

lemma file_cut_cong:
  assumes "sfs_disk s3 = sfs_disk s2" "sfs_freemap s3 = sfs_freemap s2" "sfs_sb s3 = sfs_sb s2" "vol_ok s3 = vol_ok s2"
    and "fmap (sfs_disk s2) j' = fmap (sfs_disk s2) j" "sfi_direct j' = sfi_direct j" "sfi_indirect j' = sfi_indirect j"
  shows "file_cut bl s i s3 j' = file_cut bl s i s2 j"
  unfolding file_cut_def assms by (rule refl)

lemma sfs_itrunc_run:
  assumes ok: "vol_ok (biglock_acquire s)" "svs s p = Some x" "file_ok s (sv_i x)"
    and bl: "bl = ((len + 511) div 512) mod 2 ^ 32"
  shows "\<exists>s' ds ind. let j = (sv_i x)\<lparr>sfi_direct := ds, sfi_indirect := ind, sfi_size := len mod 2 ^ 32\<rparr> in
    sfs_itrunc p len s = Some (0, s') \<and> svs s' = (svs s)(p \<mapsto> x\<lparr>sv_i := j, sv_dirty := True\<rparr>) \<and>
    file_cut bl (biglock_acquire s) (sv_i x) (biglock_acquire s') j \<and> biglock_depth s' = biglock_depth s"
proof -
  let ?s = "biglock_acquire s"
  have s: "svs ?s p = Some x" "file_ok ?s (sv_i x)" "biglock_depth ?s = Suc (biglock_depth s)"
    using ok(2,3) file_ok_frame(1) [of ?s s "sv_i x"] by (simp_all add: biglock_acquire_def)
  have st: "set [0..<15] = {..<15::nat}" "distinct [0..<15]" by (auto simp del: upt_rec_numeral)
  obtain s1 where s1: "trunc_direct p bl [0..<15] ?s = Some s1" "direct_cut p bl {..<15} x ?s s1"
    using trunc_direct_ok [OF ok(1) s(1) st(2)] file_ok_direct [OF s(2)] st(1) by metis
  obtain s2 ds ind dirty where s2: "itrunc_indirect p bl s1 = Some (0, s2)" "biglock_depth s2 = biglock_depth ?s"
    "svs s2 = (svs ?s)(p \<mapsto> x\<lparr>sv_i := (sv_i x)\<lparr>sfi_direct := ds, sfi_indirect := ind\<rparr>, sv_dirty := dirty\<rparr>)"
    "file_cut bl ?s (sv_i x) s2 ((sv_i x)\<lparr>sfi_direct := ds, sfi_indirect := ind\<rparr>)"
    using itrunc_indirect_ok [OF ok(1) s(1,2) s1(2)] by blast
  let ?s3 = "upd_inode p (\<lambda>n. n\<lparr>sfi_size := len mod 2 ^ 32\<rparr>) s2"
  let ?s' = "?s3\<lparr>biglock_depth := biglock_depth s\<rparr>"
  have e: "(len + 512 - 1) div 512 mod 2 ^ 32 = bl" using bl by (simp add: add.commute)
  have "sfs_itrunc p len s = Some (0, ?s')"
    unfolding sfs_itrunc_def Let_def e using s1(1) s2(1,2) s(3) by (simp add: biglock_release_def del: upt_rec_numeral)
  moreover have "svs ?s' = (svs s)(p \<mapsto> x\<lparr>sv_i := (sv_i x)\<lparr>sfi_direct := ds, sfi_indirect := ind, sfi_size := len mod 2 ^ 32\<rparr>, sv_dirty := True\<rparr>)"
    using s2(3) by (simp add: biglock_acquire_def)
  moreover have "biglock_acquire ?s' = ?s3" using s2(2) s(3) by (simp add: biglock_acquire_def upd_inode_def upd_sv_def)
  then have "file_cut bl ?s (sv_i x) (biglock_acquire ?s') ((sv_i x)\<lparr>sfi_direct := ds, sfi_indirect := ind, sfi_size := len mod 2 ^ 32\<rparr>)"
    by (simp only:) (rule file_cut_cong [THEN iffD2, OF _ _ _ _ _ _ _ s2(4)], simp_all add: fmap_size vol_ok_frame(2))
  ultimately show ?thesis unfolding Let_def by (intro exI [of _ ?s'] exI [of _ ds] exI [of _ ind]) simp
qed


section \<open>Read errors\<close>

text \<open>What the disk answers after it has refused the transfer \<open>n\<close> times with \<open>EIO\<close>.\<close>

definition answer_after :: "nat \<Rightarrow> errno list \<Rightarrow> errno" where
  "answer_after n es = (if n < length es then es ! n else 0)"

lemma retry_read:
  assumes "b < lh_blocks s" "lh_blocks s < 2 ^ 32" "EINVAL \<notin> set (sfs_answers s)"
  defines "k \<equiv> \<lparr>kio_rw = UIO_READ, kio_sector = b, kio_resid = 512, kio_data = []\<rparr>"
    and "n \<equiv> \<lambda>es. length (takeWhile (\<lambda>e. e = EIO) es)"
  shows "\<exists>k'. sfs_retry m lhd_io k s =
      Some (answer_after (min (n (sfs_answers s)) m) (sfs_answers s), k', s\<lparr>sfs_answers := drop (Suc (min (n (sfs_answers s)) m)) (sfs_answers s)\<rparr>) \<and>
    kio_data k' = (if answer_after (min (n (sfs_answers s)) m) (sfs_answers s) = 0 then sfs_disk s b else [])"
  using assms(1-3)
proof (induction m arbitrary: s)
  case (0 s)
  then show ?case
    by (cases "sfs_answers s") (auto simp: sfs_retry.simps [of 0] lhd_io_def dev_answer_def kio_moved_def Let_def answer_after_def k_def)
next
  case (Suc m s)
  have b: "\<not> lh_blocks s < Suc b mod 4294967296" using Suc.prems(1) by (meson Suc_leI mod_less_eq_dividend order_trans not_le)
  show ?case
  proof (cases "\<exists>es. sfs_answers s = EIO # es")
    case True
    then obtain es where es: "sfs_answers s = EIO # es" by blast
    have "sfs_retry (Suc m) lhd_io k s = sfs_retry m lhd_io k (s\<lparr>sfs_answers := es\<rparr>)"
      using es b by (simp add: sfs_retry.simps [of "Suc m"] lhd_io_def dev_answer_def Let_def k_def)
    moreover have "answer_after (min (n (EIO # es)) (Suc m)) (EIO # es) = answer_after (min (n es) m) es"
      by (auto simp: answer_after_def n_def min_def)
    ultimately show ?thesis using Suc.IH [of "s\<lparr>sfs_answers := es\<rparr>"] Suc.prems es by (auto simp: n_def min_def)
  next
    case False
    then show ?thesis using Suc.prems b
      by (cases "sfs_answers s")
        (auto simp: sfs_retry.simps [of "Suc m"] lhd_io_def dev_answer_def kio_moved_def Let_def answer_after_def k_def n_def)
  qed
qed

text \<open>
  C15. \<open>sfs_readblock\<close> ends for every behaviour of the disk: it sends at most eleven commands. With \<open>n\<close>
  media errors in a row its result is the answer that follows them if \<open>n\<close> is at most ten, with the
  contents of the sector when that is success, and \<open>EIO\<close> otherwise.
\<close>
theorem sfs_readblock_retries:
  assumes "biglock_depth s > 0" "b < lh_blocks s" "lh_blocks s < 2 ^ 32" "EINVAL \<notin> set (sfs_answers s)"
  shows "let n = length (takeWhile (\<lambda>e. e = EIO) (sfs_answers s)); r = answer_after (min n 10) (sfs_answers s) in
    sfs_readblock b s = Some (r, if r = 0 then sfs_disk s b else [], s\<lparr>sfs_answers := drop (Suc (min n 10)) (sfs_answers s)\<rparr>) \<and>
    (n > 10 \<longrightarrow> r = EIO)"
proof -
  let ?n = "length (takeWhile (\<lambda>e. e = EIO) (sfs_answers s))"
  have "sfs_answers s ! 10 = EIO" if "?n > 10"
    using that nth_mem [of 10 "takeWhile (\<lambda>e. e = EIO) (sfs_answers s)"] set_takeWhileD takeWhile_nth by fastforce
  moreover have "?n \<le> length (sfs_answers s)" by (rule length_takeWhile_le)
  ultimately show ?thesis using retry_read [OF assms(2-4), of 10] assms(1)
    by (auto simp: Let_def sfs_readblock_def sfs_rwblock_def answer_after_def)
qed

section \<open>Write errors\<close>

text \<open>
  C16. A write that the disk fails once (\<open>sfs_rwblock\<close> with \<open>lhd_io\<close>): the driver has already moved the data
  out of the uio when the error arrives, so the retry finds nothing left to transfer and reports
  success. \<open>sfs_writeblock\<close> answers 0 and the sector keeps its old contents; the retry of a failed read,
  in contrast, reads the sector.
\<close>

theorem sfs_write_error_lost:
  assumes "biglock_depth s > 0" "b < lh_blocks s" "lh_blocks s < 2 ^ 32" "sfs_answers s = EIO # rest"
  shows "sfs_writeblock b data s = Some (0, s\<lparr>sfs_answers := rest\<rparr>) \<and>
    (rest = [] \<longrightarrow> sfs_readblock b s = Some (0, sfs_disk s b, s\<lparr>sfs_answers := []\<rparr>))"
proof -
  have m: "Suc b mod 2 ^ 32 \<le> lh_blocks s" using assms(2) by (meson Suc_leI mod_less_eq_dividend order_trans)
  have n: "(10::nat) = Suc 9" by simp
  show ?thesis unfolding sfs_writeblock_def sfs_readblock_def sfs_rwblock_def n
    using assms m by (simp add: sfs_retry.simps lhd_io_def dev_answer_def kio_moved_def Let_def)
qed

section \<open>A volume at work\<close>

text \<open>Sixteen blocks, of which 0 to 3 are in use; a file with block 3 as its first block.\<close>

definition ex_inode :: sfs_dinode where
  "ex_inode = \<lparr>sfi_size = 600, sfi_type = 1, sfi_linkcount = 1, sfi_direct = 3 # replicate 14 0, sfi_indirect = 0,
     sfi_waste = replicate 110 0\<rparr>"

definition ex_vol :: sfs_fs where
  "ex_vol = \<lparr>sfs_sb = \<lparr>sb_magic = 0xabadf001, sb_nblocks = 16, sb_volname = replicate 32 0, sb_reserved = replicate 472 0\<rparr>,
     sfs_superdirty = False, sfs_vnodes = [100], sfs_freemap = \<lparr>nbits = 16, bm_v = [0x0f, 0]\<rparr>, sfs_freemapdirty = False,
     svs = [100 \<mapsto> \<lparr>sv_refcount = 1, sv_i = ex_inode, sv_ino = 1, sv_dirty = False\<rparr>], biglock_depth = 1,
     sfs_disk = (\<lambda>_. replicate 512 0), lh_blocks = 16, sfs_answers = []\<rparr>"

lemma ex_vol_ok: "vol_ok ex_vol"
proof -
  have "bm_bit \<lparr>nbits = 16, bm_v = [0x0f, 0]\<rparr> 0" by (simp add: bm_bit_def)
  then show ?thesis by (simp add: vol_ok_def ex_vol_def bitmap_inv_def DIVROUNDUP_def bitmap_used_def)
qed

lemma ex_fmap: "fmap (\<lambda>_. replicate 512 0) ex_inode k = (if k = 0 then 3 else 0)"
  by (auto simp: fmap_def ex_inode_def idwords_def nth_Cons split: nat.splits)

lemma ex_fblocks: "fblocks (sfs_disk ex_vol) ex_inode = {3}"
proof -
  have "range (fmap (\<lambda>_. replicate 512 0) ex_inode) = {0, 3}" by (auto simp: ex_fmap image_iff intro: exI [of _ 1])
  then show ?thesis by (auto simp: fblocks_def ex_inode_def ex_vol_def)
qed

lemma ex_file_ok: "file_ok ex_vol ex_inode"
proof -
  have "bm_bit \<lparr>nbits = 16, bm_v = [0x0f, 0]\<rparr> 3" by (simp add: bm_bit_def)
  moreover have "fblocks (\<lambda>_. replicate 512 0) ex_inode = {3}" using ex_fblocks by (simp add: ex_vol_def)
  ultimately show ?thesis by (auto simp: file_ok_def ex_vol_def ex_fmap bitmap_used_def) (simp_all add: ex_inode_def)
qed

lemma ex_alloc: "bitmap_alloc \<lparr>nbits = 16, bm_v = [0x0f, 0]\<rparr> = Some (Inr (4, \<lparr>nbits = 16, bm_v = [0x1f, 0]\<rparr>))"
proof -
  have "alloc_offset 0xf 0 = Some 4" by (simp add: alloc_offset.simps)
  then show ?thesis by (simp add: bitmap_alloc_def DIVROUNDUP_def) (subst alloc_scan.simps, simp)
qed

theorem sfs_bmap_correct_witness:
  "\<exists>b s'. sfs_bmap 100 7 True ex_vol = Some (0, b, s') \<and> b = 4 \<and> sfs_disk s' b = replicate 512 0"
proof -
  have x: "svs ex_vol 100 = Some \<lparr>sv_refcount = 1, sv_i = ex_inode, sv_ino = 1, sv_dirty = False\<rparr>" by (simp add: ex_vol_def)
  from sfs_bmap_correct [OF ex_vol_ok x, of 7 True] ex_file_ok obtain r b s' where
    r: "sfs_bmap 100 7 True ex_vol = Some (r, b, s')" "grown 100 \<lparr>sv_refcount = 1, sv_i = ex_inode, sv_ino = 1, sv_dirty = False\<rparr> 7 ex_vol r b s'"
    by (auto simp: ex_fmap ex_vol_def)
  have "sfs_balloc ex_vol = Some (0, 4, ex_vol\<lparr>sfs_freemap := \<lparr>nbits = 16, bm_v = [0x1f, 0]\<rparr>, sfs_freemapdirty := True,
      sfs_disk := (sfs_disk ex_vol)(4 := replicate 512 0)\<rparr>)"
    by (simp add: sfs_balloc_def ex_vol_def ex_alloc sfs_clearblock_def sfs_writeblock_def sfs_rwblock_def sfs_retry.simps
        lhd_io_def dev_answer_def kio_moved_def)
  moreover have "sfs_bmap 100 7 True ex_vol = do { (result, block, s) \<leftarrow> sfs_balloc ex_vol;
      if result \<noteq> 0 then Some (result, 0, s)
      else bmap_result block (upd_inode 100 (\<lambda>i. i\<lparr>sfi_direct := (sfi_direct i)[7 := block]\<rparr>) s) }"
    by (simp add: sfs_bmap_def x ex_inode_def) (simp add: ex_vol_def)
  ultimately obtain t where "bmap_result 4 t = Some (r, b, s')" using r(1) by simp
  then have "r = 0" "b = 4" by (auto simp: bmap_result_def Option.bind_eq_Some_conv)
  with r show ?thesis by (auto simp: grown_def Let_def)
qed


theorem sfs_write_error_lost_witness:
  "sfs_writeblock 5 (replicate 512 1) (ex_vol\<lparr>sfs_answers := [EIO]\<rparr>) = Some (0, ex_vol) \<and> sfs_disk ex_vol 5 = replicate 512 0"
proof -
  have "biglock_depth (ex_vol\<lparr>sfs_answers := [EIO]\<rparr>) > 0" "5 < lh_blocks (ex_vol\<lparr>sfs_answers := [EIO]\<rparr>)"
    "lh_blocks (ex_vol\<lparr>sfs_answers := [EIO]\<rparr>) < 2 ^ 32" "sfs_answers (ex_vol\<lparr>sfs_answers := [EIO]\<rparr>) = EIO # []"
    by (simp_all add: ex_vol_def)
  from sfs_write_error_lost [OF this, of "replicate 512 1"] show ?thesis by (simp add: ex_vol_def)
qed

theorem sfs_readblock_retries_witness:
  "sfs_readblock 5 (ex_vol\<lparr>sfs_answers := [EIO, EIO, 0]\<rparr>) = Some (0, replicate 512 0, ex_vol) \<and>
   fst (the (sfs_readblock 5 (ex_vol\<lparr>sfs_answers := replicate 12 EIO\<rparr>))) = EIO"
proof -
  have a: "biglock_depth (ex_vol\<lparr>sfs_answers := es\<rparr>) > 0" "5 < lh_blocks (ex_vol\<lparr>sfs_answers := es\<rparr>)"
    "lh_blocks (ex_vol\<lparr>sfs_answers := es\<rparr>) < 2 ^ 32" for es by (simp_all add: ex_vol_def)
  have d: "sfs_disk ex_vol 5 = replicate 512 0" "ex_vol\<lparr>sfs_answers := []\<rparr> = ex_vol" by (simp_all add: ex_vol_def)
  show ?thesis using sfs_readblock_retries [OF a, of "[EIO, EIO, 0]"] sfs_readblock_retries [OF a, of "replicate 12 EIO"] d
    by (simp add: Let_def answer_after_def takeWhile_replicate)
qed

end
