(* ===== verification/Sfs_Dir.thy ===== *)
theory Sfs_Dir
  imports Sfs_Block
begin

text \<open>
  Directories of SFS (\<open>kern/fs/sfs/sfs_dir.c\<close> on \<open>sfs_metaio\<close>): a directory in order is a finite map from
  names to slots and inode numbers; \<open>sfs_dir_findname\<close> looks it up, \<open>sfs_dir_link\<close> adds to it and
  \<open>sfs_dir_unlink\<close> takes away, with all other names unaffected.
\<close>

section \<open>Entries\<close>

definition dent :: "(nat \<Rightarrow> u8 list) \<Rightarrow> sfs_dinode \<Rightarrow> nat \<Rightarrow> u8 list" where
  "dent d i slot = (let b = fmap d i (slot div 8) in
     if b = 0 then replicate 64 0 else take 64 (drop (slot mod 8 * 64) (d b)))"

lemma slot_pos: "(slot::nat) * 64 div 512 = slot div 8" "slot * 64 mod 512 = slot mod 8 * 64"
  using div_mult_mult2 [of 64 slot 8] mult_mod_left [of slot 8 64] by simp_all

lemma length_set_block [simp]: "off + length data \<le> length blk \<Longrightarrow> length (set_block blk off data) = length blk"
  by (simp add: set_block_def)

lemma entry_set_block:
  assumes "length blk = 512" "length sd = 64" "o1 < 8" "o2 < 8"
  shows "take 64 (drop (o2 * 64) (set_block blk (o1 * 64) sd)) = (if o1 = o2 then sd else take 64 (drop (o2 * 64) blk))"
proof (rule nth_equalityI)
  have b: "o1 * 64 + 64 \<le> 512" "o2 * 64 + 64 \<le> 512" using assms(3,4) by linarith+
  then show "length (take 64 (drop (o2 * 64) (set_block blk (o1 * 64) sd))) =
      length (if o1 = o2 then sd else take 64 (drop (o2 * 64) blk))"
    using assms by simp
  fix k assume "k < length (take 64 (drop (o2 * 64) (set_block blk (o1 * 64) sd)))"
  then have k: "k < 64" by simp
  have l: "length (set_block blk (o1 * 64) sd) = 512" using assms b by simp
  have "take 64 (drop (o2 * 64) (set_block blk (o1 * 64) sd)) ! k = set_block blk (o1 * 64) sd ! (o2 * 64 + k)"
    using k l b by simp
  also have "\<dots> = (if o1 = o2 then sd ! k else blk ! (o2 * 64 + k))"
  proof -
    consider "o1 = o2" | "o2 < o1" | "o1 < o2" by linarith
    then show ?thesis
    proof cases
      case 2
      then have "o2 * 64 + k < o1 * 64" using k by linarith
      with 2 show ?thesis using assms b by (simp add: set_block_def nth_append)
    next
      case 3
      then have "o1 * 64 + 64 \<le> o2 * 64 + k" "\<not> o2 * 64 + k - o1 * 64 < 64" "\<not> o2 * 64 + k < o1 * 64" by linarith+
      with 3 show ?thesis using assms b k by (simp add: set_block_def nth_append)
    qed (use assms b k in \<open>simp add: set_block_def nth_append\<close>)
  qed
  also have "\<dots> = (if o1 = o2 then sd else take 64 (drop (o2 * 64) blk)) ! k" using k b assms by simp
  finally show "take 64 (drop (o2 * 64) (set_block blk (o1 * 64) sd)) ! k = (if o1 = o2 then sd else take 64 (drop (o2 * 64) blk)) ! k" .
qed

lemma length_dent: "vol_ok s \<Longrightarrow> length (dent (sfs_disk s) i slot) = 64"
proof -
  assume "vol_ok s"
  moreover have "slot mod 8 * 64 + 64 \<le> 512" using mod_less_divisor [of 8 slot] by linarith
  ultimately show ?thesis by (simp add: dent_def Let_def vol_ok_def)
qed

section \<open>Reading and writing entries\<close>

lemma sfs_readdir_ok:
  assumes ok: "vol_ok s" "svs s p = Some x" "file_ok s (sv_i x)" and slot: "slot < 1144"
  shows "sfs_readdir p slot s = Some (0, dent (sfs_disk s) (sv_i x) slot, s)"
proof -
  let ?b = "fmap (sfs_disk s) (sv_i x) (slot div 8)"
  have k: "slot div 8 < 143" using slot by (simp add: div_less_iff_less_mult)
  have m: "sfs_bmap p (slot div 8) False s = Some (0, ?b, s)" by (rule bmap_old [OF ok k]) simp
  have d: "biglock_depth s > 0" using ok(1) by (simp add: vol_ok_def)
  show ?thesis
  proof (cases "?b = 0")
    case True
    then show ?thesis using m d by (simp add: sfs_readdir_def sfs_metaio_read_def slot_pos dent_def)
  next
    case False
    then have "sfs_readblock ?b s = Some (0, sfs_disk s ?b, s)" using sfs_readblock_ok [OF ok(1)] file_okD(2) [OF ok(3)] by simp
    then show ?thesis using m d False by (simp add: sfs_readdir_def sfs_metaio_read_def slot_pos dent_def)
  qed
qed

text \<open>Overwriting one data block of a file.\<close>

lemma data_write:
  assumes ok: "vol_ok s" "file_ok s i" and b: "fmap (sfs_disk s) i k = b" "b \<noteq> 0" and len: "length data = 512"
  defines "s' \<equiv> s\<lparr>sfs_disk := (sfs_disk s)(b := data)\<rparr>"
  shows "vol_ok s'" "file_ok s' i" "fmap (sfs_disk s') i = fmap (sfs_disk s) i"
proof -
  show "vol_ok s'" unfolding s'_def by (rule vol_ok_frame(1) [OF ok(1) len])
  have "b \<noteq> sfi_indirect i" using file_okD(5) [OF ok(2), of k] b by auto
  then have "idwords (sfs_disk s') i = idwords (sfs_disk s) i" by (simp add: idwords_def s'_def)
  then show fm: "fmap (sfs_disk s') i = fmap (sfs_disk s) i" by (intro fmap_cong) simp_all
  then show "file_ok s' i" using ok(2) by (simp add: file_ok_def fblocks_def s'_def)
qed

lemma dent_write:
  assumes ok: "vol_ok s" "file_ok s i" and b: "fmap (sfs_disk s) i (slot div 8) = b" "b \<noteq> 0" and len: "length sd = 64"
  defines "s' \<equiv> s\<lparr>sfs_disk := (sfs_disk s)(b := set_block (sfs_disk s b) (slot mod 8 * 64) sd)\<rparr>"
  shows "dent (sfs_disk s') i = (dent (sfs_disk s) i)(slot := sd)"
proof
  fix t :: nat
  have l: "length (sfs_disk s b) = 512" using ok(1) by (simp add: vol_ok_def)
  have m: "slot mod 8 < 8" "t mod 8 < 8" "slot mod 8 * 64 + length sd \<le> 512" using len mod_less_divisor [of 8 slot] mod_less_divisor [of 8 t] by linarith+
  have fm: "fmap (sfs_disk s') i = fmap (sfs_disk s) i"
    unfolding s'_def by (rule data_write(3) [OF ok b]) (use l m(3) in simp)
  have eq: "t = slot \<longleftrightarrow> t div 8 = slot div 8 \<and> t mod 8 = slot mod 8" by (metis div_mult_mod_eq)
  show "dent (sfs_disk s') i t = ((dent (sfs_disk s) i)(slot := sd)) t"
  proof (cases "t div 8 = slot div 8")
    case True
    then show ?thesis using entry_set_block [OF l len m(1,2)] b eq fm by (simp add: dent_def s'_def)
  next
    case False
    then have "fmap (sfs_disk s) i (t div 8) \<noteq> b" using file_okD(4) [OF ok(2), of "slot div 8" "t div 8"] b by auto
    with False show ?thesis using fm eq by (auto simp: dent_def s'_def Let_def)
  qed
qed
text \<open>
  A directory with a slot overwritten: the disk is full and all entries are as before, or exactly this
  entry is new and the size covers it.
\<close>

definition dir_written :: "nat \<Rightarrow> sfs_vnode \<Rightarrow> nat \<Rightarrow> u8 list \<Rightarrow> sfs_fs \<Rightarrow> errno \<Rightarrow> sfs_fs \<Rightarrow> bool" where
  "dir_written p x slot sd s r s' \<longleftrightarrow>
     vol_ok s' \<and> sfs_sb s' = sfs_sb s \<and> biglock_depth s' = biglock_depth s \<and> used s \<subseteq> used s' \<and>
     (\<exists>x'. svs s' = (svs s)(p \<mapsto> x') \<and> file_ok s' (sv_i x') \<and> sfi_type (sv_i x') = sfi_type (sv_i x) \<and>
        (r = ENOSPC \<and> used s' = {..<nbits (sfs_freemap s')} \<and> dent (sfs_disk s') (sv_i x') = dent (sfs_disk s) (sv_i x) \<and> sfi_size (sv_i x') = sfi_size (sv_i x) \<or>
         r = 0 \<and> dent (sfs_disk s') (sv_i x') = (dent (sfs_disk s) (sv_i x))(slot := sd) \<and>
           sfi_size (sv_i x') = max (sfi_size (sv_i x)) (slot * 64 + 64)))"

lemma dent_size: "dent d (i\<lparr>sfi_size := n\<rparr>) = dent d i"
  by (simp add: dent_def fmap_size fun_eq_iff)

lemma writedir_tail:
  assumes ok: "vol_ok s" "svs s p = Some x" "file_ok s (sv_i x)" and b: "fmap (sfs_disk s) (sv_i x) (slot div 8) = b" "b \<noteq> 0"
    and len: "length sd = 64" and slot: "slot < 1144"
  shows "\<exists>s'. metaio_put p b (slot * 64) sd s = Some (0, s') \<and> dir_written p x slot sd s 0 s'"
proof -
  let ?i = "sv_i x" and ?d = "set_block (sfs_disk s b) (slot mod 8 * 64) sd"
  have bn: "b < sb_nblocks (sfs_sb s)" using file_okD(2) [OF ok(3), of "slot div 8"] b by auto
  have l: "length ?d = 512" using ok(1) len mod_less_divisor [of 8 slot] by (subst length_set_block) (auto simp: vol_ok_def)
  let ?s1 = "s\<lparr>sfs_disk := (sfs_disk s)(b := ?d)\<rparr>"
  note w = data_write [OF ok(1,3) b l] dent_write [OF ok(1,3) b len]
  let ?s2 = "if slot * 64 + 64 > sfi_size ?i then upd_inode p (\<lambda>n. n\<lparr>sfi_size := (slot * 64 + 64) mod 2 ^ 32\<rparr>) ?s1 else ?s1"
  let ?x = "if slot * 64 + 64 > sfi_size ?i then x\<lparr>sv_i := ?i\<lparr>sfi_size := slot * 64 + 64\<rparr>, sv_dirty := True\<rparr> else x"
  have m: "(slot * 64 + 64) mod 2 ^ 32 = slot * 64 + 64" using slot by (simp add: mod_less)
  have "svs ?s2 = (svs s)(p \<mapsto> ?x)" using ok(2) m by (auto simp: fun_upd_idem)
  moreover have "file_ok (upd_inode p f ?s1) (?i\<lparr>sfi_size := n\<rparr>)" for f n
    using w(2) file_ok_frame(1) [of "upd_inode p f ?s1" ?s1] by (simp add: file_ok_frame(2))
  then have "file_ok ?s2 (sv_i ?x)" using w(2) by simp
  moreover have "vol_ok ?s2" using w(1) by (simp add: vol_ok_frame(2))
  moreover have "dent (sfs_disk ?s2) (sv_i ?x) = (dent (sfs_disk s) ?i)(slot := sd)" using w(4) by (simp add: dent_size)
  ultimately have "dir_written p x slot sd s 0 ?s2" unfolding dir_written_def by (intro conjI exI [of _ ?x]) auto
  moreover have "sfs_readblock b s = Some (0, sfs_disk s b, s)" "sfs_writeblock b ?d s = Some (0, ?s1)"
    using sfs_readblock_ok [OF ok(1) bn] sfs_writeblock_ok [OF ok(1) bn] by simp_all
  ultimately show ?thesis using ok(2) len by (simp add: metaio_put_def Let_def slot_pos)
qed

text \<open>Growing a file by a zeroed block does not change what its entries read as.\<close>

lemma dent_grown:
  assumes ok: "file_ok s i" and hole: "fmap (sfs_disk s) i k = 0"
    and disk: "\<forall>c\<in>used s. c \<noteq> sfi_indirect i \<longrightarrow> sfs_disk s' c = sfs_disk s c"
    and fm: "fmap (sfs_disk s') j = fmap (sfs_disk s) i \<or>
      b \<notin> used s \<and> sfs_disk s' b = replicate 512 0 \<and> fmap (sfs_disk s') j = (fmap (sfs_disk s) i)(k := b)"
  shows "dent (sfs_disk s') j = dent (sfs_disk s) i"
proof
  fix t
  let ?c = "fmap (sfs_disk s) i (t div 8)"
  have same: "sfs_disk s' ?c = sfs_disk s ?c" if "?c \<noteq> 0"
    using disk file_okD(2) [OF ok that] file_okD(5) [OF ok, of "t div 8"] that by auto
  have m: "t mod 8 * 64 + 64 \<le> 512" using mod_less_divisor [of 8 t] by linarith
  have z: "take 64 (drop (t mod 8 * 64) (replicate 512 (0::u8))) = replicate 64 0" using m by simp
  show "dent (sfs_disk s') j t = dent (sfs_disk s) i t"
  proof (cases "t div 8 = k \<and> fmap (sfs_disk s') j \<noteq> fmap (sfs_disk s) i")
    case True
    with fm have "fmap (sfs_disk s') j k = b" "sfs_disk s' b = replicate 512 0" by auto
    with True hole z show ?thesis by (simp add: dent_def Let_def)
  next
    case False
    then have "fmap (sfs_disk s') j (t div 8) = ?c" using fm by auto
    with same show ?thesis by (auto simp: dent_def Let_def)
  qed
qed

lemma dir_written_trans:
  assumes g: "grown p x k s 0 b s1" "svs s1 p = Some x1" and d: "dent (sfs_disk s1) (sv_i x1) = dent (sfs_disk s) (sv_i x)"
    and w: "dir_written p x1 slot sd s1 0 s'"
  shows "dir_written p x slot sd s 0 s'"
proof -
  have "sfi_type (sv_i x1) = sfi_type (sv_i x)" "sfi_size (sv_i x1) = sfi_size (sv_i x)" "svs s1 = (svs s)(p \<mapsto> x1)"
    using g by (auto simp: grown_def Let_def)
  then show ?thesis using g(1) w d by (fastforce simp: dir_written_def grown_def)
qed

lemma sfs_writedir_mapped:
  assumes ok: "vol_ok s" "svs s p = Some x" "file_ok s (sv_i x)" and len: "length sd = 64" and slot: "slot < 1144"
    and m: "fmap (sfs_disk s) (sv_i x) (slot div 8) \<noteq> 0"
  shows "\<exists>s'. sfs_writedir p slot sd s = Some (0, s') \<and> dir_written p x slot sd s 0 s'"
proof -
  have "slot div 8 < 143" using slot by (simp add: div_less_iff_less_mult)
  then have "sfs_bmap p (slot div 8) True s = Some (0, fmap (sfs_disk s) (sv_i x) (slot div 8), s)"
    by (rule bmap_old [OF ok]) (use m in simp)
  moreover have "biglock_depth s > 0" using ok(1) by (simp add: vol_ok_def)
  ultimately show ?thesis using writedir_tail [OF ok refl m len slot] m
    by (auto simp: sfs_writedir_def sfs_metaio_write_def slot_pos)
qed

lemma sfs_writedir_ok:
  assumes ok: "vol_ok s" "svs s p = Some x" "file_ok s (sv_i x)" and len: "length sd = 64" and slot: "slot < 1144"
  shows "\<exists>r s'. sfs_writedir p slot sd s = Some (r, s') \<and> dir_written p x slot sd s r s'"
proof -
  let ?k = "slot div 8" let ?b = "fmap (sfs_disk s) (sv_i x) ?k"
  have k: "?k < 143" using slot by (simp add: div_less_iff_less_mult)
  have lock: "biglock_depth s > 0" using ok(1) by (simp add: vol_ok_def)
  show ?thesis
  proof (cases "?b = 0")
    case False
    then show ?thesis using sfs_writedir_mapped [OF ok len slot] by blast
  next
    case True
    obtain r b s1 where g: "sfs_bmap p ?k True s = Some (r, b, s1)" "grown p x ?k s r b s1" using bmap_new [OF ok k True] by blast
    from g(2) obtain x1 where x1: "svs s1 = (svs s)(p \<mapsto> x1)" "file_ok s1 (sv_i x1)" "sfi_type (sv_i x1) = sfi_type (sv_i x)"
        "sfi_size (sv_i x1) = sfi_size (sv_i x)"
      and o: "r = ENOSPC \<and> used s1 = {..<nbits (sfs_freemap s1)} \<and> fmap (sfs_disk s1) (sv_i x1) = fmap (sfs_disk s) (sv_i x) \<or>
         r = 0 \<and> b \<notin> used s \<and> b \<in> used s1 \<and> sfs_disk s1 b = replicate 512 0 \<and>
           fmap (sfs_disk s1) (sv_i x1) = (fmap (sfs_disk s) (sv_i x))(?k := b)"
      and v: "vol_ok s1" "sfs_sb s1 = sfs_sb s" "biglock_depth s1 = biglock_depth s" "used s \<subseteq> used s1"
        "\<forall>c\<in>used s. c \<noteq> sfi_indirect (sv_i x) \<longrightarrow> sfs_disk s1 c = sfs_disk s c"
      by (auto simp: grown_def Let_def)
    have de: "dent (sfs_disk s1) (sv_i x1) = dent (sfs_disk s) (sv_i x)"
      by (rule dent_grown [OF ok(3) True v(5), where b = b]) (use o in auto)
    show ?thesis
    proof (cases "r = 0")
      case False
      then have "sfs_writedir p slot sd s = Some (r, s1)" using g(1) lock by (simp add: sfs_writedir_def sfs_metaio_write_def slot_pos)
      moreover have "dir_written p x slot sd s r s1" using v x1 de o False by (auto simp: dir_written_def)
      ultimately show ?thesis by blast
    next
      case r0: True
      with o have b: "fmap (sfs_disk s1) (sv_i x1) ?k = b" "b \<notin> used s" by auto
      have "b \<noteq> 0" using b(2) ok(1) unfolding vol_ok_def by metis
      have "svs s1 p = Some x1" using x1(1) by simp
      from writedir_tail [OF v(1) this x1(2) b(1) \<open>b \<noteq> 0\<close> len slot] dir_written_trans [OF _ this de]
      show ?thesis using g r0 lock \<open>b \<noteq> 0\<close> by (auto simp: sfs_writedir_def sfs_metaio_write_def slot_pos)
    qed
  qed
qed

section \<open>A directory as a map\<close>

definition taken :: "(nat \<Rightarrow> u8 list) \<Rightarrow> sfs_dinode \<Rightarrow> u8 list \<Rightarrow> nat \<Rightarrow> bool" where
  "taken d i name slot \<longleftrightarrow> dirent_ino (dent d i slot) \<noteq> 0 \<and> dirent_name (dent d i slot) = name"

definition dmap :: "(nat \<Rightarrow> u8 list) \<Rightarrow> sfs_dinode \<Rightarrow> u8 list \<Rightarrow> (nat \<times> nat) option" where
  "dmap d i name = map_option (\<lambda>slot. (slot, dirent_ino (dent d i slot))) (find (taken d i name) [0..<sfi_size i div 64])"

definition dir_ok :: "(nat \<Rightarrow> u8 list) \<Rightarrow> sfs_dinode \<Rightarrow> bool" where
  "dir_ok d i \<longleftrightarrow> sfi_type i = SFS_TYPE_DIR \<and> sfi_size i mod 64 = 0 \<and> sfi_size i div 64 \<le> 1144 \<and>
     (\<forall>k l name. k < sfi_size i div 64 \<and> l < sfi_size i div 64 \<and> taken d i name k \<and> taken d i name l \<longrightarrow> k = l)"

lemma dmap_None: "dmap d i name = None \<longleftrightarrow> (\<forall>k < sfi_size i div 64. \<not> taken d i name k)"
  by (auto simp: dmap_def find_None_iff)

lemma dmap_Some:
  assumes "dir_ok d i"
  shows "dmap d i name = Some (k, ino) \<longleftrightarrow> k < sfi_size i div 64 \<and> taken d i name k \<and> ino = dirent_ino (dent d i k)"
proof
  assume "dmap d i name = Some (k, ino)"
  then have "find (taken d i name) [0..<sfi_size i div 64] = Some k" "ino = dirent_ino (dent d i k)" by (auto simp: dmap_def)
  then show "k < sfi_size i div 64 \<and> taken d i name k \<and> ino = dirent_ino (dent d i k)" by (auto simp: find_Some_iff)
next
  assume k: "k < sfi_size i div 64 \<and> taken d i name k \<and> ino = dirent_ino (dent d i k)"
  then have "find (taken d i name) [0..<sfi_size i div 64] \<noteq> None" by (auto simp: find_None_iff)
  then obtain l where l: "find (taken d i name) [0..<sfi_size i div 64] = Some l" by auto
  then have "l < sfi_size i div 64" "taken d i name l" by (auto simp: find_Some_iff)
  then have "l = k" using assms k unfolding dir_ok_def by blast
  with l k show "dmap d i name = Some (k, ino)" by (simp add: dmap_def)
qed

lemma length_dirent: "length name < 60 \<Longrightarrow> length (dirent_bytes ino name) = 64"
  by (simp add: dirent_bytes_def)

lemma dirent_roundtrip:
  assumes "length name < 60" "0 \<notin> set name" "ino < 2 ^ 32"
  shows "dirent_ino (dirent_bytes ino name) = ino" "dirent_name (dirent_bytes ino name) = name"
proof -
  show "dirent_ino (dirent_bytes ino name) = ino" using assms(3) by (simp add: dirent_ino_def dirent_bytes_def)
  have "take 59 (drop 4 (dirent_bytes ino name)) = name @ replicate (59 - length name) 0"
    using assms(1) by (simp add: dirent_bytes_def min_def)
  moreover have "takeWhile (\<lambda>c. c \<noteq> 0) (name @ replicate n 0) = name" for n
    using assms(2) by (cases n) (auto simp: takeWhile_append2 takeWhile_tail)
  ultimately show "dirent_name (dirent_bytes ino name) = name" by (simp add: dirent_name_def)
qed

lemma dirent_ino_zeros [simp]: "dirent_ino (replicate 64 0) = 0"
proof -
  have "take 4 (replicate 64 (0::u8)) = [0, 0, 0, 0]" by (simp add: take_replicate numeral_eq_Suc)
  then show ?thesis by (simp add: dirent_ino_def del: take_replicate)
qed

section \<open>Looking up\<close>

lemma findname_none:
  assumes ok: "vol_ok s" "svs s p = Some x" "file_ok s (sv_i x)"
    and "set js \<subseteq> {..<1144}" "\<forall>k\<in>set js. \<not> taken (sfs_disk s) (sv_i x) name k"
  shows "\<exists>e. findname_loop p name js found eslot s = Some (if found = None then ENOENT else 0, found, e, s) \<and>
    (e = eslot \<or> (\<exists>k\<in>set js. e = Some k \<and> dirent_ino (dent (sfs_disk s) (sv_i x) k) = 0))"
  using assms(4,5)
proof (induction js arbitrary: eslot)
  case (Cons k js)
  have "sfs_readdir p k s = Some (0, dent (sfs_disk s) (sv_i x) k, s)" using sfs_readdir_ok [OF ok, of k] Cons.prems by simp
  with Cons show ?case by (fastforce simp: taken_def)
qed simp

lemma findname_loop_ok:
  assumes ok: "vol_ok s" "svs s p = Some x" "file_ok s (sv_i x)"
    and "set js \<subseteq> {..<1144}" "distinct js"
    and "\<And>k l. k \<in> set js \<Longrightarrow> l \<in> set js \<Longrightarrow> taken (sfs_disk s) (sv_i x) name k \<Longrightarrow> taken (sfs_disk s) (sv_i x) name l \<Longrightarrow> k = l"
  shows "\<exists>r e. findname_loop p name js None eslot s = Some (if r = None then ENOENT else 0, r, e, s) \<and>
    r = map_option (\<lambda>k. (k, dirent_ino (dent (sfs_disk s) (sv_i x) k))) (find (taken (sfs_disk s) (sv_i x) name) js) \<and>
    (e = eslot \<or> (\<exists>k\<in>set js. e = Some k \<and> dirent_ino (dent (sfs_disk s) (sv_i x) k) = 0))"
  using assms(4-6)
proof (induction js arbitrary: eslot)
  case (Cons k js)
  let ?t = "taken (sfs_disk s) (sv_i x) name" and ?e = "dent (sfs_disk s) (sv_i x)"
  have rd: "sfs_readdir p k s = Some (0, ?e k, s)" using sfs_readdir_ok [OF ok, of k] Cons.prems by simp
  have isf: "set js \<subseteq> {..<1144}" "distinct js" "\<And>k l. k \<in> set js \<Longrightarrow> l \<in> set js \<Longrightarrow> ?t k \<Longrightarrow> ?t l \<Longrightarrow> k = l"
    using Cons.prems by auto
  show ?case
  proof (cases "?t k")
    case True
    then have "\<forall>l\<in>set js. \<not> ?t l" using Cons.prems(2) Cons.prems(3) [of k] by auto
    from findname_none [OF ok isf(1) this, of "Some (k, dirent_ino (?e k))" eslot] True rd show ?thesis
      by (auto simp: taken_def)
  next
    case False
    let ?s = "if dirent_ino (?e k) = 0 then Some k else eslot"
    have "findname_loop p name (k # js) None eslot s = findname_loop p name js None ?s s" using False rd by (auto simp: taken_def)
    moreover from Cons.IH [OF isf, of ?s] obtain r e where
      "findname_loop p name js None ?s s = Some (if r = None then ENOENT else 0, r, e, s)"
      "r = map_option (\<lambda>k. (k, dirent_ino (?e k))) (find ?t js)"
      "e = ?s \<or> (\<exists>k\<in>set js. e = Some k \<and> dirent_ino (?e k) = 0)" by blast
    ultimately show ?thesis using False by (auto split: if_splits)
  qed
qed simp

lemma sfs_dir_findname_ok:
  assumes ok: "vol_ok s" "svs s p = Some x" "file_ok s (sv_i x)" and dir: "dir_ok (sfs_disk s) (sv_i x)"
  shows "\<exists>e. sfs_dir_findname p name s =
      Some (if dmap (sfs_disk s) (sv_i x) name = None then ENOENT else 0, dmap (sfs_disk s) (sv_i x) name, e, s) \<and>
    (\<forall>k. e = Some k \<longrightarrow> k < sfi_size (sv_i x) div 64 \<and> dirent_ino (dent (sfs_disk s) (sv_i x) k) = 0)"
proof -
  let ?n = "sfi_size (sv_i x) div 64"
  have n: "?n \<le> 1144" "sfs_dir_nentries p s = Some ?n" using dir ok(2) by (simp_all add: dir_ok_def sfs_dir_nentries_def)
  have "\<exists>r e. findname_loop p name [0..<?n] None None s = Some (if r = None then ENOENT else 0, r, e, s) \<and>
    r = map_option (\<lambda>k. (k, dirent_ino (dent (sfs_disk s) (sv_i x) k))) (find (taken (sfs_disk s) (sv_i x) name) [0..<?n]) \<and>
    (e = None \<or> (\<exists>k\<in>set [0..<?n]. e = Some k \<and> dirent_ino (dent (sfs_disk s) (sv_i x) k) = 0))"
    by (rule findname_loop_ok [OF ok]) (use n(1) dir in \<open>auto simp: dir_ok_def\<close>)
  then show ?thesis using n(2) by (auto simp: sfs_dir_findname_def dmap_def)
qed

section \<open>Adding and removing a name\<close>

lemma option_eqI: "(\<And>y. a = Some y \<longleftrightarrow> b = Some y) \<Longrightarrow> a = b"
  by (cases a; cases b) auto

lemma dir_put:
  assumes ok: "dir_ok d i" and de: "dent d' i' = (dent d i)(slot := sd)" and sz: "sfi_size i' = max (sfi_size i) (slot * 64 + 64)"
    and ty: "sfi_type i' = sfi_type i" and slot: "slot \<le> sfi_size i div 64" "slot < 1144"
    and sd: "dirent_name sd = name" "dirent_ino sd = ino" "ino \<noteq> 0" and new: "dmap d i name = None"
    and old: "slot < sfi_size i div 64 \<Longrightarrow> dirent_ino (dent d i slot) = 0"
  shows "dir_ok d' i'" "dmap d' i' = (dmap d i)(name \<mapsto> (slot, ino))"
proof -
  let ?n = "sfi_size i div 64"
  have m: "sfi_size i mod 64 = 0" using ok by (simp add: dir_ok_def)
  have n': "sfi_size i' div 64 = max ?n (Suc slot)" "sfi_size i' mod 64 = 0"
  proof -
    have "sfi_size i = ?n * 64" using m by auto
    then have "sfi_size i' = max ?n (Suc slot) * 64" using sz by (simp add: max_def)
    then show "sfi_size i' div 64 = max ?n (Suc slot)" "sfi_size i' mod 64 = 0" by simp_all
  qed
  have tk: "taken d' i' nm k \<longleftrightarrow> (if k = slot then nm = name else taken d i nm k)" for nm k
    using sd by (auto simp: taken_def de)
  have lt: "k < sfi_size i' div 64 \<longleftrightarrow> k = slot \<or> k < ?n" for k using n'(1) slot(1) by auto
  have nt: "\<not> taken d i name k" if "k < ?n" for k using new that by (simp add: dmap_None)
  have ns: "\<not> taken d i nm slot" if "slot < ?n" for nm using old [OF that] by (simp add: taken_def)
  have u: "k = l" if "k < ?n" "l < ?n" "taken d i nm k" "taken d i nm l" for k l nm using ok that by (auto simp: dir_ok_def)
  show ok': "dir_ok d' i'" unfolding dir_ok_def
  proof (intro conjI allI impI)
    show "sfi_type i' = SFS_TYPE_DIR" "sfi_size i' mod 64 = 0" "sfi_size i' div 64 \<le> 1144"
      using ok ty n' slot(2) by (auto simp: dir_ok_def)
    fix k l nm assume "k < sfi_size i' div 64 \<and> l < sfi_size i' div 64 \<and> taken d' i' nm k \<and> taken d' i' nm l"
    then show "k = l" using u nt by (auto simp: lt tk split: if_splits)
  qed
  show "dmap d' i' = (dmap d i)(name \<mapsto> (slot, ino))"
  proof (rule ext, rule option_eqI)
    fix nm and y :: "nat \<times> nat" obtain k j where y: "y = (k, j)" by (cases y)
    show "dmap d' i' nm = Some y \<longleftrightarrow> ((dmap d i)(name \<mapsto> (slot, ino))) nm = Some y"
      unfolding y fun_upd_apply dmap_Some [OF ok'] using nt ns sd(2)
      by (auto simp: dmap_Some [OF ok] lt tk de)
  qed
qed

lemma dir_del:
  assumes ok: "dir_ok d i" and de: "dent d' i' = (dent d i)(slot := replicate 64 0)" and sz: "sfi_size i' = sfi_size i"
    and ty: "sfi_type i' = sfi_type i" and old: "dmap d i name = Some (slot, ino)"
  shows "dir_ok d' i'" "dmap d' i' = (dmap d i)(name := None)"
proof -
  let ?n = "sfi_size i div 64"
  have tk: "taken d' i' nm k \<longleftrightarrow> k \<noteq> slot \<and> taken d i nm k" for nm k by (auto simp: taken_def de)
  have u: "k = l" if "k < ?n" "l < ?n" "taken d i nm k" "taken d i nm l" for k l nm using ok that by (auto simp: dir_ok_def)
  have s: "slot < ?n" "taken d i name slot" using old by (simp_all add: dmap_Some [OF ok])
  show ok': "dir_ok d' i'" using ok u by (auto simp: dir_ok_def sz ty tk)
  show "dmap d' i' = (dmap d i)(name := None)"
  proof (rule ext, rule option_eqI)
    fix nm and y :: "nat \<times> nat" obtain k j where y: "y = (k, j)" by (cases y)
    have "k \<noteq> slot \<longleftrightarrow> nm \<noteq> name" if "k < ?n" "taken d i nm k"
      using that s u [OF that(1) s(1)] by (auto simp: taken_def)
    then show "dmap d' i' nm = Some y \<longleftrightarrow> ((dmap d i)(name := None)) nm = Some y"
      unfolding y fun_upd_apply dmap_Some [OF ok'] by (auto simp: dmap_Some [OF ok] sz tk de)
  qed
qed

text \<open>
  The volume and the directory are in order, and the directory is the given map: the contract between
  the operations below.
\<close>

definition dir_is :: "nat \<Rightarrow> sfs_fs \<Rightarrow> (u8 list \<rightharpoonup> nat \<times> nat) \<Rightarrow> bool" where
  "dir_is p s m \<longleftrightarrow> vol_ok s \<and> (\<exists>x. svs s p = Some x \<and> file_ok s (sv_i x) \<and> dir_ok (sfs_disk s) (sv_i x) \<and> dmap (sfs_disk s) (sv_i x) = m)"

lemma dir_is_findname:
  assumes "dir_is p s m"
  shows "\<exists>e. sfs_dir_findname p name s = Some (if m name = None then ENOENT else 0, m name, e, s)"
proof -
  from assms obtain x where "vol_ok s" "svs s p = Some x" "file_ok s (sv_i x)" "dir_ok (sfs_disk s) (sv_i x)" "dmap (sfs_disk s) (sv_i x) = m"
    by (auto simp: dir_is_def)
  with sfs_dir_findname_ok [of s p x name] show ?thesis by auto
qed

lemma sfs_writedir_toobig:
  assumes "biglock_depth s > 0" "svs s p = Some x"
  shows "sfs_writedir p 1144 sd s = Some (EFBIG, s)"
  using assms by (simp add: sfs_writedir_def sfs_metaio_write_def sfs_bmap_def)

lemma dir_is_written:
  assumes d: "vol_ok s" "svs s p = Some x" "file_ok s (sv_i x)" "dir_ok (sfs_disk s) (sv_i x)"
    and w: "dir_written p x slot sd s ENOSPC s'"
  shows "dir_is p s' (dmap (sfs_disk s) (sv_i x))" "used s' = {..<nbits (sfs_freemap s')}"
proof -
  from w obtain x' where x': "svs s' = (svs s)(p \<mapsto> x')" "file_ok s' (sv_i x')" "sfi_type (sv_i x') = sfi_type (sv_i x)"
    "dent (sfs_disk s') (sv_i x') = dent (sfs_disk s) (sv_i x)" "sfi_size (sv_i x') = sfi_size (sv_i x)"
    and u: "used s' = {..<nbits (sfs_freemap s')}" and v: "vol_ok s'"
    by (auto simp: dir_written_def)
  have t: "taken (sfs_disk s') (sv_i x') = taken (sfs_disk s) (sv_i x)" by (simp add: taken_def fun_eq_iff x'(4))
  then have "dir_ok (sfs_disk s') (sv_i x')" using d(4) by (simp add: dir_ok_def x'(3,5))
  moreover have "dmap (sfs_disk s') (sv_i x') = dmap (sfs_disk s) (sv_i x)" by (simp add: dmap_def t x'(4,5) fun_eq_iff)
  ultimately show "dir_is p s' (dmap (sfs_disk s) (sv_i x))" using x' v by (auto simp: dir_is_def)
  show "used s' = {..<nbits (sfs_freemap s')}" by (rule u)
qed

lemma sfs_dir_link_ok:
  assumes "dir_is p s m" "0 \<notin> set name" "0 < ino" "ino < 2 ^ 32"
  shows "\<exists>r slot s'. sfs_dir_link p name ino s = Some (r, slot, s') \<and>
    (if m name \<noteq> None then r = EEXIST \<and> s' = s
     else if length name \<ge> 60 then r = ENAMETOOLONG \<and> s' = s
     else r = 0 \<and> dir_is p s' (m(name \<mapsto> (slot, ino))) \<or>
          r = ENOSPC \<and> dir_is p s' m \<and> used s' = {..<nbits (sfs_freemap s')} \<or>
          r = EFBIG \<and> slot = 1144 \<and> s' = s)"
proof -
  from assms(1) obtain x where ok: "vol_ok s" "svs s p = Some x" "file_ok s (sv_i x)" "dir_ok (sfs_disk s) (sv_i x)" "dmap (sfs_disk s) (sv_i x) = m"
    by (auto simp: dir_is_def)
  let ?n = "sfi_size (sv_i x) div 64"
  obtain e where e: "sfs_dir_findname p name s = Some (if m name = None then ENOENT else 0, m name, e, s)"
    "\<forall>k. e = Some k \<longrightarrow> k < ?n \<and> dirent_ino (dent (sfs_disk s) (sv_i x) k) = 0"
    using sfs_dir_findname_ok [OF ok(1-4), of name] ok(5) by auto
  have n: "?n \<le> 1144" "sfs_dir_nentries p s = Some ?n" using ok(2,4) by (simp_all add: dir_ok_def sfs_dir_nentries_def)
  show ?thesis
  proof (cases "m name \<noteq> None \<or> length name \<ge> 60")
    case True
    then show ?thesis using e(1) by (auto simp: sfs_dir_link_def)
  next
    case False
    define slot where "slot = (case e of Some k \<Rightarrow> k | None \<Rightarrow> ?n)"
    have sl: "slot \<le> ?n" "slot < ?n \<Longrightarrow> dirent_ino (dent (sfs_disk s) (sv_i x) slot) = 0" using e(2) by (auto simp: slot_def split: option.splits)
    have "(case e of Some k \<Rightarrow> Some k | None \<Rightarrow> sfs_dir_nentries p s) = Some slot" using n(2) by (simp add: slot_def split: option.splits)
    then have link: "sfs_dir_link p name ino s = do { (result, s) \<leftarrow> sfs_writedir p slot (dirent_bytes ino name) s; Some (result, slot, s) }"
      using e(1) False by (simp add: sfs_dir_link_def)
    show ?thesis
    proof (cases "slot = 1144")
      case True
      then show ?thesis using link False sfs_writedir_toobig [OF _ ok(2)] ok(1) by (simp add: vol_ok_def)
    next
      case s1: False
      then have s2: "slot < 1144" using sl(1) n(1) by linarith
      have len: "length (dirent_bytes ino name) = 64" using False by (simp add: length_dirent)
      obtain r s' where w: "sfs_writedir p slot (dirent_bytes ino name) s = Some (r, s')" "dir_written p x slot (dirent_bytes ino name) s r s'"
        using sfs_writedir_ok [OF ok(1-3) len s2] by blast
      have rc: "r = 0 \<or> r = ENOSPC" using w(2) by (auto simp: dir_written_def)
      have "dir_is p s' (m(name \<mapsto> (slot, ino)))" if "r = 0"
      proof -
        from w(2) that obtain x' where x': "vol_ok s'" "svs s' = (svs s)(p \<mapsto> x')" "file_ok s' (sv_i x')" "sfi_type (sv_i x') = sfi_type (sv_i x)"
          "dent (sfs_disk s') (sv_i x') = (dent (sfs_disk s) (sv_i x))(slot := dirent_bytes ino name)"
          "sfi_size (sv_i x') = max (sfi_size (sv_i x)) (slot * 64 + 64)" by (auto simp: dir_written_def)
        note rt = dirent_roundtrip [of name ino]
        have "dirent_name (dirent_bytes ino name) = name" "dirent_ino (dirent_bytes ino name) = ino" "ino \<noteq> 0" "dmap (sfs_disk s) (sv_i x) name = None"
          using rt False assms ok(5) by (auto simp del: not_None_eq)
        from dir_put [OF ok(4) x'(5,6,4) sl(1) s2 this sl(2)] show ?thesis using x' ok(5) by (auto simp: dir_is_def)
      qed
      moreover have "dir_is p s' m \<and> used s' = {..<nbits (sfs_freemap s')}" if "r = ENOSPC"
        using dir_is_written [OF ok(1-4)] w(2) that ok(5) by blast
      ultimately show ?thesis using link w(1) rc False by auto
    qed
  qed
qed

text \<open>
  C12. \<open>sfs_dir_link\<close> on a directory that is the finite map \<open>m\<close> of names to slots and inode numbers: a
  name that is there is refused with \<open>EEXIST\<close> and one of 60 bytes or more with \<open>ENAMETOOLONG\<close>, both with
  nothing changed. Otherwise the directory afterwards is \<open>m\<close> with exactly this name added (in the slot
  returned) and the call succeeds, or it is still \<open>m\<close> and the call fails because no block is free
  (\<open>ENOSPC\<close>) or the file cannot grow (\<open>EFBIG\<close>). The kernel does not panic.
\<close>
theorem sfs_dir_link_correct:
  assumes "dir_is p s m" "0 \<notin> set name" "0 < ino" "ino < 2 ^ 32"
  shows "\<exists>r slot s'. sfs_dir_link p name ino s = Some (r, slot, s') \<and>
    (if m name \<noteq> None then r = EEXIST \<and> s' = s
     else if length name \<ge> 60 then r = ENAMETOOLONG \<and> s' = s
     else r = 0 \<and> dir_is p s' (m(name \<mapsto> (slot, ino))) \<or>
          r = ENOSPC \<and> dir_is p s' m \<and> used s' = {..<nbits (sfs_freemap s')} \<or>
          r = EFBIG \<and> slot = 1144 \<and> s' = s)"
  by (rule sfs_dir_link_ok [OF assms])

lemma sfs_dir_unlink_ok:
  assumes "dir_is p s m" "m name = Some (slot, ino)"
  shows "\<exists>s'. sfs_dir_unlink p slot s = Some (0, s') \<and> dir_is p s' (m(name := None))"
proof -
  from assms(1) obtain x where ok: "vol_ok s" "svs s p = Some x" "file_ok s (sv_i x)" "dir_ok (sfs_disk s) (sv_i x)" "dmap (sfs_disk s) (sv_i x) = m"
    by (auto simp: dir_is_def)
  let ?n = "sfi_size (sv_i x) div 64"
  have sl: "slot < ?n" "dirent_ino (dent (sfs_disk s) (sv_i x) slot) \<noteq> 0" "dmap (sfs_disk s) (sv_i x) name = Some (slot, ino)"
    using assms(2) dmap_Some [OF ok(4), of name slot ino] ok(5) by (auto simp: taken_def)
  have "slot < 1144" using sl(1) ok(4) by (simp add: dir_ok_def)
  moreover have "fmap (sfs_disk s) (sv_i x) (slot div 8) \<noteq> 0" using sl(2) by (intro notI) (simp add: dent_def)
  ultimately obtain s' where w: "sfs_writedir p slot (replicate 64 0) s = Some (0, s')" "dir_written p x slot (replicate 64 0) s 0 s'"
    using sfs_writedir_mapped [OF ok(1-3), of "replicate 64 0" slot] by auto
  from w(2) obtain x' where x': "vol_ok s'" "svs s' = (svs s)(p \<mapsto> x')" "file_ok s' (sv_i x')" "sfi_type (sv_i x') = sfi_type (sv_i x)"
    "dent (sfs_disk s') (sv_i x') = (dent (sfs_disk s) (sv_i x))(slot := replicate 64 0)"
    "sfi_size (sv_i x') = max (sfi_size (sv_i x)) (slot * 64 + 64)" by (auto simp: dir_written_def)
  have "Suc slot * 64 \<le> ?n * 64" using sl(1) by (intro mult_le_mono1) simp
  then have "slot * 64 + 64 \<le> sfi_size (sv_i x)" using div_times_less_eq_dividend [of "sfi_size (sv_i x)" 64] by simp
  then have "sfi_size (sv_i x') = sfi_size (sv_i x)" using x'(6) by simp
  from dir_del [OF ok(4) x'(5) this x'(4) sl(3)] show ?thesis using x' w(1) ok(5) by (auto simp: dir_is_def sfs_dir_unlink_def)
qed

text \<open>
  What the file operations rely on: a directory behaves as a finite map from names to slots and inode
  numbers, whatever the representation.
\<close>

locale dir_map =
  fixes is_dir :: "nat \<Rightarrow> 's \<Rightarrow> (u8 list \<rightharpoonup> nat \<times> nat) \<Rightarrow> bool"
    and findname :: "nat \<Rightarrow> u8 list \<Rightarrow> 's \<Rightarrow> (errno \<times> (nat \<times> nat) option \<times> nat option \<times> 's) option"
    and link :: "nat \<Rightarrow> u8 list \<Rightarrow> nat \<Rightarrow> 's \<Rightarrow> (errno \<times> nat \<times> 's) option"
    and unlink :: "nat \<Rightarrow> nat \<Rightarrow> 's \<Rightarrow> (errno \<times> 's) option"
    and entry_ok :: "u8 list \<Rightarrow> nat \<Rightarrow> bool"
  assumes find_law: "is_dir p s m \<Longrightarrow> \<exists>e. findname p name s = Some (if m name = None then ENOENT else 0, m name, e, s)"
    and link_law: "is_dir p s m \<Longrightarrow> entry_ok name ino \<Longrightarrow> link p name ino s = Some (0, slot, s1) \<Longrightarrow>
      m name = None \<and> is_dir p s1 (m(name \<mapsto> (slot, ino)))"
    and unlink_law: "is_dir p s m \<Longrightarrow> m name = Some (slot, ino) \<Longrightarrow>
      \<exists>s'. unlink p slot s = Some (0, s') \<and> is_dir p s' (m(name := None))"
begin

lemma find_after_link:
  assumes "is_dir p s m" "entry_ok name ino" "link p name ino s = Some (0, slot, s1)"
  shows "\<exists>e. findname p name s1 = Some (0, Some (slot, ino), e, s1)"
    and "other \<noteq> name \<Longrightarrow> \<exists>e. findname p other s1 = Some (if m other = None then ENOENT else 0, m other, e, s1)"
proof -
  have d: "is_dir p s1 (m(name \<mapsto> (slot, ino)))" using link_law [OF assms] by blast
  show "\<exists>e. findname p name s1 = Some (0, Some (slot, ino), e, s1)" using find_law [OF d, of name] by simp
  show "\<exists>e. findname p other s1 = Some (if m other = None then ENOENT else 0, m other, e, s1)" if "other \<noteq> name"
    using find_law [OF d, of other] that by simp
qed

lemma unlink_after_link:
  assumes "is_dir p s m" "entry_ok name ino" "link p name ino s = Some (0, slot, s1)"
  shows "\<exists>s2. unlink p slot s1 = Some (0, s2) \<and> is_dir p s2 m"
proof -
  have d: "is_dir p s1 (m(name \<mapsto> (slot, ino)))" and "m name = None" using link_law [OF assms] by blast+
  then have "m(name \<mapsto> (slot, ino), name := None) = m" by (auto simp: fun_eq_iff)
  then show ?thesis using unlink_law [OF d, of name slot ino] by simp
qed

end

definition sfs_entry_ok :: "u8 list \<Rightarrow> nat \<Rightarrow> bool" where
  "sfs_entry_ok name ino \<longleftrightarrow> 0 \<notin> set name \<and> 0 < ino \<and> ino < 2 ^ 32"

interpretation sfs_dir: dir_map dir_is sfs_dir_findname sfs_dir_link sfs_dir_unlink sfs_entry_ok
proof
  fix p s m name ino slot s1
  show "dir_is p s m \<Longrightarrow> \<exists>e. sfs_dir_findname p name s = Some (if m name = None then ENOENT else 0, m name, e, s)"
    by (rule dir_is_findname)
  show "dir_is p s m \<Longrightarrow> m name = Some (slot, ino) \<Longrightarrow> \<exists>s'. sfs_dir_unlink p slot s = Some (0, s') \<and> dir_is p s' (m(name := None))"
    by (rule sfs_dir_unlink_ok)
  assume "dir_is p s m" "sfs_entry_ok name ino" and l: "sfs_dir_link p name ino s = Some (0, slot, s1)"
  then have "0 \<notin> set name" "0 < ino" "ino < 2 ^ 32" by (simp_all add: sfs_entry_ok_def)
  from sfs_dir_link_ok [OF \<open>dir_is p s m\<close> this] l
  show "m name = None \<and> dir_is p s1 (m(name \<mapsto> (slot, ino)))" by (auto simp del: not_None_eq split: if_splits)
qed

text \<open>
  C13. Directory round trip: after a successful \<open>sfs_dir_link\<close>, \<open>sfs_dir_findname\<close> finds the name in the slot
  returned, with the inode number stored, every other name as before; \<open>sfs_dir_unlink\<close> of that slot then
  succeeds, and the directory is the map it was before the link.
\<close>
theorem sfs_dir_roundtrip:
  assumes "dir_is p s m" "0 \<notin> set name" "0 < ino" "ino < 2 ^ 32"
    and link: "sfs_dir_link p name ino s = Some (0, slot, s1)"
  shows "(\<exists>e. sfs_dir_findname p name s1 = Some (0, Some (slot, ino), e, s1)) \<and>
    (\<forall>other. other \<noteq> name \<longrightarrow> (\<exists>e. sfs_dir_findname p other s1 = Some (if m other = None then ENOENT else 0, m other, e, s1))) \<and>
    (\<exists>s2. sfs_dir_unlink p slot s1 = Some (0, s2) \<and> dir_is p s2 m)"
proof -
  have "sfs_entry_ok name ino" using assms(2-4) by (simp add: sfs_entry_ok_def)
  note f = assms(1) this link
  show ?thesis using sfs_dir.find_after_link [OF f] sfs_dir.unlink_after_link [OF f] by blast
qed

section \<open>An example\<close>

text \<open>The directory with its first two slots free, and the link of one name to it.\<close>

definition ex_dir :: sfs_vnode where
  "ex_dir = \<lparr>sv_refcount = 1, sv_i = ex_inode\<lparr>sfi_size := 128, sfi_type := 2\<rparr>, sv_ino = 1, sv_dirty = False\<rparr>"

definition ex_dvol :: sfs_fs where
  "ex_dvol = ex_vol\<lparr>svs := [100 \<mapsto> ex_dir]\<rparr>"

lemma ex_dir_is: "dir_is 100 ex_dvol (\<lambda>_. None)"
proof -
  have disk: "sfs_disk ex_dvol = (\<lambda>_. replicate 512 0)" by (simp add: ex_dvol_def ex_vol_def)
  have fm: "fmap d (sv_i ex_dir) = fmap d ex_inode" for d by (simp add: fmap_def idwords_def ex_dir_def fun_eq_iff)
  have "file_ok ex_dvol ex_inode" using ex_file_ok file_ok_frame(1) [of ex_dvol ex_vol] by (simp add: ex_dvol_def)
  then have f: "file_ok ex_dvol (sv_i ex_dir)" by (simp add: file_ok_def fblocks_def fm) (simp add: ex_dir_def)
  have v: "vol_ok ex_dvol" using ex_vol_ok by (simp add: vol_ok_def ex_dvol_def)
  have m: "t mod 8 * 64 + 64 \<le> 512" for t :: nat using mod_less_divisor [of 8 t] by linarith
  have "take 64 (drop (t mod 8 * 64) (replicate 512 (0::u8))) = replicate 64 0" for t using m [of t] by simp
  then have "dent (sfs_disk ex_dvol) (sv_i ex_dir) t = replicate 64 0" for t by (simp add: dent_def disk Let_def)
  then have t: "\<not> taken (sfs_disk ex_dvol) (sv_i ex_dir) name k" for name k by (simp add: taken_def)
  then have "dir_ok (sfs_disk ex_dvol) (sv_i ex_dir)" by (auto simp: dir_ok_def ex_dir_def)
  moreover have "dmap (sfs_disk ex_dvol) (sv_i ex_dir) = (\<lambda>_. None)" using t by (auto simp: dmap_None fun_eq_iff)
  ultimately show ?thesis using v f by (auto simp: dir_is_def) (simp add: ex_dvol_def)
qed

lemma ex_dir_link: "\<exists>s1. sfs_dir_link 100 [97] 5 ex_dvol = Some (0, 1, s1)"
proof -
  obtain x where x: "vol_ok ex_dvol" "svs ex_dvol 100 = Some x" "file_ok ex_dvol (sv_i x)" "x = ex_dir"
    using ex_dir_is by (auto simp: dir_is_def ex_dvol_def)
  have z: "take 64 (drop n (replicate 512 (0::u8))) = replicate 64 0" if "n = 0 \<or> n = 64" for n using that by auto
  have fm [simp]: "fmap (sfs_disk ex_dvol) (sv_i x) 0 = 3" by (simp add: fmap_def x(4) ex_dir_def ex_inode_def)
  have disk: "sfs_disk ex_dvol 3 = replicate 512 0" by (simp add: ex_dvol_def ex_vol_def)
  have "dent (sfs_disk ex_dvol) (sv_i x) k = replicate 64 0" if "k = 0 \<or> k = 1" for k
    using that z [of "k * 64"] by (auto simp: dent_def disk)
  then have rd: "sfs_readdir 100 k ex_dvol = Some (0, replicate 64 0, ex_dvol)" if "k = 0 \<or> k = 1" for k
    using that sfs_readdir_ok [OF x(1-3), of k] by auto
  have n: "sfs_dir_nentries 100 ex_dvol = Some 2" by (simp add: sfs_dir_nentries_def x(2,4)) (simp add: ex_dir_def)
  have "[0..<2] = [0, 1::nat]" by (simp add: upt_rec)
  then have "sfs_dir_findname 100 [97] ex_dvol = Some (ENOENT, None, Some 1, ex_dvol)"
    using rd [of 0] rd [of 1] by (simp add: sfs_dir_findname_def n del: upt_rec_numeral)
  moreover obtain s1 where "sfs_writedir 100 1 (dirent_bytes 5 [97]) ex_dvol = Some (0, s1)"
    using sfs_writedir_mapped [OF x(1-3), of "dirent_bytes 5 [97]" 1] fm by (auto simp: length_dirent)
  ultimately show ?thesis by (simp add: sfs_dir_link_def)
qed

theorem sfs_dir_link_correct_witness:
  "\<exists>s'. sfs_dir_link 100 [97] 5 ex_dvol = Some (0, 1, s') \<and> dir_is 100 s' [[97] \<mapsto> (1, 5)]"
  using sfs_dir_link_correct [OF ex_dir_is, of "[97]" 5] ex_dir_link by auto

theorem sfs_dir_roundtrip_witness:
  "\<exists>s1 s2. sfs_dir_link 100 [97] 5 ex_dvol = Some (0, 1, s1) \<and> sfs_dir_unlink 100 1 s1 = Some (0, s2) \<and> dir_is 100 s2 (\<lambda>_. None)"
proof -
  obtain s1 where l: "sfs_dir_link 100 [97] 5 ex_dvol = Some (0, 1, s1)" using ex_dir_link by blast
  have "0 \<notin> set [97 :: u8]" "0 < (5::nat)" "(5::nat) < 2 ^ 32" by simp_all
  from sfs_dir_roundtrip [OF ex_dir_is this l] l show ?thesis by blast
qed

end
