(* ===== verification/Spec2Isabelle.thy ===== *)
theory Spec2Isabelle
  imports Kernel_Prelude Endian Bitmap Thread_Sched Thread_Migrate Synch_Inv Shared_Buffer File_Syscalls Proc_Inv Sfs_Dir
begin

text \<open>
  A verification development for the OS/161 kernel of \<open>OperatingSystems/OS161_Final_Project/src\<close>
  (all file names below are relative to it): the teaching kernel for a simulated multiprocessor MIPS
  machine, with the locks, scheduler, lists, file tables, processes and system calls that the course
  added to it.

  \<^bold>\<open>Parts of the program and how they interact.\<close> Interrupt levels and spinlocks (\<open>spl.c\<close>,
  \<open>spinlock.c\<close>) protect the run queues and wait channels of the thread system (\<open>thread.c\<close>, built on
  \<open>threadlist.c\<close>); semaphores, locks and condition variables (\<open>synch.c\<close>) sleep on wait channels; the
  concurrent list and the bounded buffer use the locks. Below the file layer are the memory and string
  functions of \<open>common/libc\<close>, the copying between user and kernel memory (\<open>copyinout.c\<close>) and the transfer
  descriptors (\<open>uio.c\<close>). The VFS layer (\<open>vnode.c\<close>, \<open>vfslist.c\<close>, \<open>vfslookup.c\<close>, \<open>vfspath.c\<close>,
  \<open>vfscwd.c\<close>) calls file systems and devices through operation tables; file tables (\<open>file_table.c\<close>) hold
  open files, and the file system calls work on them. Physical pages (\<open>ram.c\<close>), the kernel heap
  (\<open>kmalloc.c\<close>) and address spaces (\<open>dumbvm.c\<close>) carry the process layer (\<open>proc.c\<close>, \<open>proctable.c\<close>),
  whose calls \<open>fork\<close>, \<open>_exit\<close> and \<open>waitpid\<close> put memory, files and threads together.

  \<^bold>\<open>Theories.\<close>
  \<^item> \<open>Kernel_Prelude\<close>: machine words, error numbers, \<open>KASSERT\<close>, shared lemmas and the locale
    \<open>step_system\<close> (start states, steps, invariant) that every concurrent part interprets.
  \<^item> \<open>Endian\<close> (\<open>kern/lib/bswap.c\<close>), \<open>Bitmap\<close> (\<open>kern/lib/bitmap.c\<close>, with the interface locale
    \<open>slot_allocator\<close>).
  \<^item> \<open>Threadlist\<close> (\<open>kern/thread/threadlist.c\<close> at pointer level, locale \<open>thread_queue\<close>),
    \<open>Spinlock\<close> (\<open>spl.c\<close>, \<open>spinlock.c\<close>: one CPU as functions, several CPUs as the step relation
    \<open>spin_step\<close>), \<open>Thread\<close> (definitions of \<open>thread.c\<close> and \<open>clock.c\<close>), \<open>Thread_Wakeup\<close>,
    \<open>Thread_Switch\<close>, \<open>Thread_Sched\<close>, \<open>Thread_Migrate\<close> (its theorems), \<open>Thread_Example\<close> (the
    system the witnesses run on).
  \<^item> \<open>Synch\<close> (\<open>synch.c\<close> as functions on the thread system), \<open>Synch_Inv\<close> (all interleavings of
    their critical sections, and that the functions take exactly the steps of that relation).
  \<^item> \<open>Linked_List\<close> (\<open>kern/concurrent_list/linked_list.c\<close>), \<open>Shared_Buffer\<close>
    (\<open>kern/shared_buffer/shared_buffer.c\<close>, a client of the locale \<open>item_stack\<close>).
  \<^item> \<open>Cmem\<close>, \<open>Cstring\<close> (\<open>common/libc\<close>), \<open>Copyinout\<close> (\<open>kern/vm/copyinout.c\<close>), \<open>Uio\<close>
    (\<open>kern/lib/uio.c\<close>).
  \<^item> \<open>Vnode\<close>, \<open>Vfs\<close>, \<open>Device\<close>: \<open>kern/vfs\<close>, with the contract \<open>vnode_layer\<close> that a file system
    owes the VFS layer, interpreted on the device operations and the emulator file system's root.
  \<^item> \<open>File_Table\<close>, \<open>File_Table_Inv\<close>, \<open>File_Syscalls\<close>: \<open>kern/thread/file_table.c\<close> and
    \<open>kern/syscall/{open,close,read,write,lseek,dup2,chdir}.c\<close>.
  \<^item> \<open>Ram\<close>, \<open>Kmalloc\<close>, \<open>Kmalloc_Inv\<close>, \<open>Kernel_Heap\<close>: \<open>kern/arch/mips/vm/ram.c\<close>, the page functions
    of \<open>dumbvm.c\<close> and \<open>kern/vm/kmalloc.c\<close>; \<open>Addrspace\<close>: the rest of \<open>dumbvm.c\<close>.
  \<^item> \<open>Proc\<close>, \<open>Proc_Inv\<close>: \<open>kern/proc/proc.c\<close>, \<open>kern/proc/proctable.c\<close> and
    \<open>kern/syscall/{fork,exit,waitpid,getpid}.c\<close>.
  \<^item> \<open>Sfs\<close> (definitions of the file system \<open>kern/fs/sfs\<close> on the disk driver \<open>lhd.c\<close>), \<open>Sfs_Block\<close> (block
    allocation, block maps, truncation, I/O errors), \<open>Sfs_Dir\<close> (directories as finite maps, locale
    \<open>dir_map\<close>).

  \<^bold>\<open>Conventions.\<close> A C structure is a record, an object shared through pointers lives in a store
  indexed by its address, and \<open>None\<close> as the result of an operation means that the calling thread does
  not come back: a failed assertion, a panic, a NULL or freed object used, a lock it waits for. Error
  numbers are integers, negated where the code negates them. Answers of \<open>kmalloc\<close> to constructors are
  arguments, except where the heap itself is the subject. A call that may sleep is split at the sleep:
  the function runs to the sleep, the function with suffix \<open>_resume\<close> from the wakeup on. Numbers that
  the code computes with wrap-around are words, or naturals with \<open>mod 2 ^ 32\<close> written out.

  \<^bold>\<open>What is shown.\<close> Invariants of all interleavings: mutual exclusion of spinlocks and locks, counting
  of semaphores, no lost wakeups, the bounded buffer, file tables and process table. Correctness of the
  context switch, of migration and of wakeups on the queues. Refinement: the functions of \<open>synch.c\<close> take
  the steps of the abstract monitor and semaphore. Equivalence with reference definitions: block moves,
  address translation, the bubble pass of the scheduler. Memory safety of the kernel heap: in every run
  blocks are disjoint, keep their contents, and no assertion fails. The block map of SFS grows and
  shrinks without losing or sharing blocks, and its directories are finite maps. Functional behaviour of the transfer
  and file functions on every branch. Where the code does not do what it means to do, the theorem states
  what it does (\<open>exit_and_waitpid_fail\<close>, \<open>pid_race\<close>, \<open>kmalloc_overflow\<close>, \<open>sys_dup2_dangling\<close> and
  others).

  \<^bold>\<open>Bounds.\<close> Requests to \<open>kmalloc\<close> are bounded by \<open>0xDFFFF000\<close> bytes in the safety theorems: above it
  sums wrap around (\<open>kmalloc_overflow\<close>). Loops without a bound in the code are partial functions
  (\<open>None\<close> when they do not end) and the theorems show that they return; no fuel is used.

  \<^bold>\<open>Not modelled.\<close> The semfs file system and the vnode and mount layers of SFS; mounting and device registration; the emulator's vnode
  operations, the console and the other device drivers, which talk to hardware registers; trap entry,
  the system call dispatcher, booting and the menu; program loading (\<open>loadelf.c\<close>, \<open>execv.c\<close>,
  \<open>runprogram.c\<close>); \<open>kprintf\<close>; the 64-bit arithmetic helpers of the compiler; user programs and tests.
  The repository's earlier copy of the same kernel (\<open>OS161-Project1\<close>) and its other course directories
  are separate programs.
\<close>

end
